(* ===== verification/Prelude.thy ===== *)
theory Prelude
  imports Main "HOL-Library.Word"
begin

unbundle bit_operations_syntax

text \<open>
  Shared vocabulary of the development: machine words and their flag bits, the outcome of a
  kernel routine (it returns, it goes to sleep, it panics or it spins for ever), little-endian
  byte memory as the kernel overlays its structures on it, and generic lemmas on table scans.

  The C dialect is Whitesmiths C on the Z80 (its compiler is
  \<^verbatim>\<open>src/src/micronix/cmd/whitesmith\<close>): \<^verbatim>\<open>int\<close> and pointers have 16 bits, \<^verbatim>\<open>long\<close> has 32, and a
  formal parameter or register variable declared with a character type is widened to \<^verbatim>\<open>int\<close>
  (\<^verbatim>\<open>fninit\<close> and \<^verbatim>\<open>doblock\<close> of \<^verbatim>\<open>p1func.c\<close> call \<^verbatim>\<open>maxify\<close>), so that
  \<^verbatim>\<open>UINT8 blk, dev\<close> in a parameter list carries 16 bits.
\<close>

section \<open>Words and flag bits\<close>

type_synonym u8 = "8 word"
type_synonym u16 = "16 word"
type_synonym u32 = "32 word"

named_theorems flag_simps \<open>tests of flag bits after bits were set or cleared\<close>
named_theorems byte_simps \<open>reads of byte memory after writes\<close>
named_theorems kmonad \<open>unfolding of the kernel monad\<close>

definition tst :: "'a::len word \<Rightarrow> 'a word \<Rightarrow> bool" where
  "tst f m \<longleftrightarrow> f AND m \<noteq> 0"

definition alls :: "'a::len word \<Rightarrow> 'a word \<Rightarrow> bool" where
  "alls f m \<longleftrightarrow> f AND m = m"

lemma tst_or [flag_simps, simp]: "tst (f OR m') m \<longleftrightarrow> tst f m \<or> m' AND m \<noteq> 0"
proof -
  have "(f OR m') AND m = (f AND m) OR (m' AND m)"
    by (rule bit.conj_disj_distrib2)
  then show ?thesis
    by (simp add: tst_def or_eq_0_iff)
qed

lemma tst_and [flag_simps, simp]: "tst (f AND n) m \<longleftrightarrow> tst f (n AND m)"
  unfolding tst_def by (simp add: ac_simps)

lemma tst_zero [flag_simps, simp]: "\<not> tst 0 m" "\<not> tst f 0"
  by (simp_all add: tst_def)

lemma tst_alls_single: "alls f m \<Longrightarrow> m \<noteq> 0 \<Longrightarrow> tst f m"
  by (simp add: tst_def alls_def)

lemma tst_alls_sub: "alls f m \<Longrightarrow> m' AND m = m' \<Longrightarrow> alls f m'"
  unfolding alls_def by (metis and.assoc and.commute)

lemma alls_or [flag_simps, simp]: "alls (f OR m) m"
  by (simp add: alls_def bit_eq_iff bit_and_iff bit_or_iff)

lemma and_exp_cases: "(f :: 'a::len word) AND 2 ^ n = (if bit f n then 2 ^ n else 0)"
  by (rule bit_word_eqI) (auto simp: bit_simps)

section \<open>Outcomes of kernel routines\<close>

text \<open>
  A kernel routine takes the kernel state and either returns a value, or gives up the processor
  by calling \<^verbatim>\<open>sleep\<close> on a channel at a priority, or enters \<^verbatim>\<open>panic\<close>, or never leaves a
  busy loop. \<open>bnd\<close> runs one routine after another: what follows a sleep is not run, the
  suspended state is the outcome.
\<close>

datatype ('s, 'c, 'a) outcome =
    Ret 'a 's
  | Slept 'c u8 's
  | Panic string 's
  | Spin 's

primrec bnd :: "('s, 'c, 'a) outcome \<Rightarrow> ('a \<Rightarrow> 's \<Rightarrow> ('s, 'c, 'b) outcome)
    \<Rightarrow> ('s, 'c, 'b) outcome" where
  "bnd (Ret x s) f = f x s"
| "bnd (Slept c p s) f = Slept c p s"
| "bnd (Panic m s) f = Panic m s"
| "bnd (Spin s) f = Spin s"

definition returns :: "('s, 'c, 'a) outcome \<Rightarrow> bool" where
  "returns r \<longleftrightarrow> (case r of Ret _ _ \<Rightarrow> True | _ \<Rightarrow> False)"

lemma returns_simps [simp]:
  "returns (Ret x s)" "\<not> returns (Slept c p s)" "\<not> returns (Panic m s)" "\<not> returns (Spin s)"
  by (simp_all add: returns_def)

lemma returnsE:
  assumes "returns r"
  obtains x s where "r = Ret x s"
  using assms by (cases r) auto

lemma bnd_Ret_iff: "bnd r f = Ret y t \<longleftrightarrow> (\<exists>x s. r = Ret x s \<and> f x s = Ret y t)"
  by (cases r) auto

lemma bnd_RetE:
  assumes "bnd r f = Ret y t"
  obtains x s where "r = Ret x s" "f x s = Ret y t"
  using assms by (auto simp: bnd_Ret_iff)

lemma bnd_assoc: "bnd (bnd r f) g = bnd r (\<lambda>x s. bnd (f x s) g)"
  by (cases r) auto

lemma bnd_cong [fundef_cong]:
  "r = r' \<Longrightarrow> (\<And>x s. r' = Ret x s \<Longrightarrow> f x s = g x s) \<Longrightarrow> bnd r f = bnd r' g"
  by (cases r') auto

text \<open>
  A loop that may never end is a \<^theory_text>\<open>partial_function\<close> whose value \<open>None\<close> means that it does not return.
  \<open>obnd\<close> continues such a loop after a routine, \<open>spin\<close> turns it into an outcome.
\<close>

primrec obnd :: "('s, 'c, 'a) outcome \<Rightarrow> ('a \<Rightarrow> 's \<Rightarrow> ('s, 'c, 'b) outcome option)
    \<Rightarrow> ('s, 'c, 'b) outcome option" where
  "obnd (Ret x s) f = f x s"
| "obnd (Slept c p s) f = Some (Slept c p s)"
| "obnd (Panic m s) f = Some (Panic m s)"
| "obnd (Spin s) f = Some (Spin s)"

definition spin :: "('s, 'c, 'a) outcome option \<Rightarrow> 's \<Rightarrow> ('s, 'c, 'a) outcome" where
  "spin r s = (case r of None \<Rightarrow> Spin s | Some x \<Rightarrow> x)"

lemma obnd_mono [partial_function_mono]:
  assumes "\<And>x s. mono_option (\<lambda>f. g f x s)"
  shows "mono_option (\<lambda>f. obnd r (g f))"
  using assms by (cases r) (auto intro: option.const_mono)

text \<open>A routine run \<open>n\<close> times, with the values it returned.\<close>

primrec repeat :: "('s \<Rightarrow> ('s, 'c, 'a) outcome) \<Rightarrow> nat \<Rightarrow> 's \<Rightarrow> ('s, 'c, 'a list) outcome" where
  "repeat f 0 s = Ret [] s"
| "repeat f (Suc n) s = bnd (f s) (\<lambda>x s. bnd (repeat f n s) (\<lambda>xs s. Ret (x # xs) s))"

section \<open>Byte memory\<close>

text \<open>
  A disk block or an in-core structure is a memory of bytes. \<open>getw\<close> and \<open>putw\<close> read and write a
  16-bit integer at a byte offset, low byte first; \<open>getl\<close> and \<open>putl\<close> a 32-bit \<^verbatim>\<open>long\<close>, whose high
  word comes first (\<^verbatim>\<open>sub8.s\<close>: "4-byte stored as 2 3 0 1"); \<open>copyb\<close> is \<^verbatim>\<open>copy(source, dest, count)\<close>
  and \<open>zerob\<close> is \<^verbatim>\<open>zero(buf, count)\<close> of \<^verbatim>\<open>sub8.s\<close>, on two memories that do not overlap.
\<close>

type_synonym bytes = "nat \<Rightarrow> u8"

definition getw :: "bytes \<Rightarrow> nat \<Rightarrow> u16" where
  "getw b i = word_cat (b (Suc i)) (b i)"

definition putw :: "bytes \<Rightarrow> nat \<Rightarrow> u16 \<Rightarrow> bytes" where
  "putw b i v = b(i := ucast v, Suc i := ucast (drop_bit 8 v))"

definition getl :: "bytes \<Rightarrow> nat \<Rightarrow> u32" where
  "getl b i = word_cat (getw b i) (getw b (i + 2))"

definition putl :: "bytes \<Rightarrow> nat \<Rightarrow> u32 \<Rightarrow> bytes" where
  "putl b i v = putw (putw b i (ucast (drop_bit 16 v))) (i + 2) (ucast v)"

definition copyb :: "bytes \<Rightarrow> nat \<Rightarrow> bytes \<Rightarrow> nat \<Rightarrow> nat \<Rightarrow> bytes" where
  "copyb src i dst j n = (\<lambda>k. if j \<le> k \<and> k < j + n then src (i + (k - j)) else dst k)"

definition zerob :: "bytes \<Rightarrow> nat \<Rightarrow> nat \<Rightarrow> bytes" where
  "zerob dst j n = (\<lambda>k. if j \<le> k \<and> k < j + n then 0 else dst k)"

lemma word_cat_split16 [simp]: "word_cat (ucast (drop_bit 8 v) :: u8) (ucast v :: u8) = (v :: u16)"
  by (rule bit_word_eqI) (auto simp: bit_word_cat_iff bit_ucast_iff bit_drop_bit_eq)

lemma word_cat_split32 [simp]: "word_cat (ucast (drop_bit 16 v) :: u16) (ucast v :: u16) = (v :: u32)"
  by (rule bit_word_eqI) (auto simp: bit_word_cat_iff bit_ucast_iff bit_drop_bit_eq)

lemma getw_putw_same [byte_simps, simp]: "getw (putw b i v) i = v"
  by (simp add: getw_def putw_def)

lemma getw_putw_diff [byte_simps]: "i + 2 \<le> j \<or> j + 2 \<le> i \<Longrightarrow> getw (putw b i v) j = getw b j"
  by (auto simp: getw_def putw_def)

lemma byte_putw_diff [byte_simps]: "k < i \<or> i + 2 \<le> k \<Longrightarrow> putw b i v k = b k"
  by (auto simp: putw_def)

lemma getl_putl_same [byte_simps, simp]: "getl (putl b i v) i = v"
  by (simp add: getl_def putl_def getw_putw_diff)

lemma getl_putl_diff [byte_simps]: "i + 4 \<le> j \<or> j + 4 \<le> i \<Longrightarrow> getl (putl b i v) j = getl b j"
  by (auto simp: getl_def putl_def getw_putw_diff)

lemma getw_putl_diff [byte_simps]: "i + 4 \<le> j \<or> j + 2 \<le> i \<Longrightarrow> getw (putl b i v) j = getw b j"
  by (auto simp: putl_def getw_putw_diff)

lemma getl_putw_diff [byte_simps]: "i + 2 \<le> j \<or> j + 4 \<le> i \<Longrightarrow> getl (putw b i v) j = getl b j"
  by (auto simp: getl_def getw_putw_diff)

lemma byte_putl_diff [byte_simps]: "k < i \<or> i + 4 \<le> k \<Longrightarrow> putl b i v k = b k"
  by (auto simp: putl_def putw_def)

lemma getw_copyb_in [byte_simps]:
  "j \<le> k \<Longrightarrow> k + 2 \<le> j + n \<Longrightarrow> getw (copyb src i dst j n) k = getw src (i + (k - j))"
  by (simp add: getw_def copyb_def Suc_diff_le)

lemma getw_copyb_out [byte_simps]:
  "k + 2 \<le> j \<or> j + n \<le> k \<Longrightarrow> getw (copyb src i dst j n) k = getw dst k"
  by (auto simp: getw_def copyb_def)

lemma byte_copyb_out [byte_simps]: "k < j \<or> j + n \<le> k \<Longrightarrow> copyb src i dst j n k = dst k"
  by (auto simp: copyb_def)

lemma getw_zerob_in [byte_simps]: "j \<le> k \<Longrightarrow> k + 2 \<le> j + n \<Longrightarrow> getw (zerob dst j n) k = 0"
  by (simp add: getw_def zerob_def word_cat_eq)

lemma getw_zerob_out [byte_simps]:
  "k + 2 \<le> j \<or> j + n \<le> k \<Longrightarrow> getw (zerob dst j n) k = getw dst k"
  by (auto simp: getw_def zerob_def)

section \<open>Scans of kernel tables\<close>

text \<open>
  A loop over a table that stops at the first entry with a property is \<open>find\<close> over its indices.
\<close>

definition scan :: "(nat \<Rightarrow> bool) \<Rightarrow> nat \<Rightarrow> nat option" where
  "scan P n = find P [0..<n]"

lemma scan_Some_iff: "scan P n = Some i \<longleftrightarrow> i < n \<and> P i \<and> (\<forall>j<i. \<not> P j)"
  unfolding scan_def find_Some_iff by auto

lemma scan_None_iff: "scan P n = None \<longleftrightarrow> (\<forall>i<n. \<not> P i)"
  by (auto simp: scan_def find_None_iff)

lemma scan_SomeD: "scan P n = Some i \<Longrightarrow> i < n \<and> P i"
  by (simp add: scan_Some_iff)

lemma scan_ex: "i < n \<Longrightarrow> P i \<Longrightarrow> \<exists>j. scan P n = Some j \<and> j \<le> i"
  by (cases "scan P n") (auto simp: scan_Some_iff scan_None_iff intro: leI)

end
