(* ===== verification/Kernel_State.thy ===== *)
theory Kernel_State
  imports Prelude
begin

text \<open>
  The data model of the Micronix kernel: the parameters of \<^verbatim>\<open>sys.h\<close>, the structures of
  \<^verbatim>\<open>proc.h\<close>, \<^verbatim>\<open>inode.h\<close>, \<^verbatim>\<open>fs.h\<close>, \<^verbatim>\<open>buf.h\<close>, \<^verbatim>\<open>file.h\<close>, \<^verbatim>\<open>mount.h\<close> and the globals of the \<^verbatim>\<open>.c\<close> files,
  gathered in one record \<open>kst\<close>. A pointer into a kernel table is the index of the entry, a
  pointer that may be null is an option. Arrays are functions on indices: the C code does not
  check them either. \<open>Uaddr\<close> is an address of the running process; the other forms of \<open>kptr\<close> are
  the kernel objects the code points \<^verbatim>\<open>u.base\<close> at.
\<close>

section \<open>Parameters and flag bits (sys.h, proc.h, inode.h, fs.h, buf.h, errno.h, signal.h)\<close>

abbreviation (input) NPROC :: nat where "NPROC \<equiv> 20"
abbreviation (input) NINODE :: nat where "NINODE \<equiv> 50"
abbreviation (input) NMOUNT :: nat where "NMOUNT \<equiv> 4"
abbreviation (input) NFILE :: nat where "NFILE \<equiv> 60"
abbreviation (input) NOPEN :: nat where "NOPEN \<equiv> 16"
abbreviation (input) NSIG :: nat where "NSIG \<equiv> 16"
abbreviation (input) MINRUN :: u16 where "MINRUN \<equiv> 2"
abbreviation (input) MAXSEG :: nat where "MAXSEG \<equiv> 256"
abbreviation (input) USERSEG :: nat where "USERSEG \<equiv> 3"

abbreviation (input) PRIMEM :: u8 where "PRIMEM \<equiv> 100"
abbreviation (input) PRISWAP :: u8 where "PRISWAP \<equiv> 90"
abbreviation (input) PRIBIO :: u8 where "PRIBIO \<equiv> 90"
abbreviation (input) PRINOD :: u8 where "PRINOD \<equiv> 80"
abbreviation (input) SIGPRI :: u8 where "SIGPRI \<equiv> 80"
abbreviation (input) PRIPIPE :: u8 where "PRIPIPE \<equiv> 70"
abbreviation (input) PRIWAIT :: u8 where "PRIWAIT \<equiv> 55"
abbreviation (input) PRISYS :: u8 where "PRISYS \<equiv> 50"
abbreviation (input) PRIUSER :: u8 where "PRIUSER \<equiv> 40"

abbreviation (input) ALLOC :: u8 where "ALLOC \<equiv> 1"
abbreviation (input) ALIVE :: u8 where "ALIVE \<equiv> 2"
abbreviation (input) AWAKE :: u8 where "AWAKE \<equiv> 4"
abbreviation (input) LOADED :: u8 where "LOADED \<equiv> 8"
abbreviation (input) SWAPPED :: u8 where "SWAPPED \<equiv> 16"
abbreviation (input) LOCKED :: u8 where "LOCKED \<equiv> 32"
abbreviation (input) SYSM :: u8 where "SYSM \<equiv> 64"
abbreviation (input) BACK :: u8 where "BACK \<equiv> 128"

abbreviation (input) FULL :: u8 where "FULL \<equiv> 3"
abbreviation (input) GROW :: u8 where "GROW \<equiv> 7"
abbreviation (input) USEG :: u8 where "USEG \<equiv> 0"
abbreviation (input) KSEG :: u8 where "KSEG \<equiv> 1"

abbreviation (input) IBUSY :: u8 where "IBUSY \<equiv> 1"
abbreviation (input) IMOD :: u8 where "IMOD \<equiv> 2"
abbreviation (input) IWANT :: u8 where "IWANT \<equiv> 4"
abbreviation (input) IRONLY :: u8 where "IRONLY \<equiv> 8"
abbreviation (input) IWRLOCK :: u8 where "IWRLOCK \<equiv> 16"
abbreviation (input) IPIPE :: u8 where "IPIPE \<equiv> 32"

abbreviation (input) IALLOC :: u16 where "IALLOC \<equiv> 0x8000"
abbreviation (input) IFMT :: u16 where "IFMT \<equiv> 0x6000"
abbreviation (input) IFBLK :: u16 where "IFBLK \<equiv> 0x6000"
abbreviation (input) IFDIR :: u16 where "IFDIR \<equiv> 0x4000"
abbreviation (input) IFCHR :: u16 where "IFCHR \<equiv> 0x2000"
abbreviation (input) IIO :: u16 where "IIO \<equiv> 0x2000"
abbreviation (input) IFREG :: u16 where "IFREG \<equiv> 0"
abbreviation (input) ILARG :: u16 where "ILARG \<equiv> 0x1000"
abbreviation (input) ISUID :: u16 where "ISUID \<equiv> 0x800"
abbreviation (input) ISGID :: u16 where "ISGID \<equiv> 0x400"
abbreviation (input) ISVTX :: u16 where "ISVTX \<equiv> 0x200"
abbreviation (input) IREAD :: u16 where "IREAD \<equiv> 4"
abbreviation (input) IWRITE :: u16 where "IWRITE \<equiv> 2"
abbreviation (input) IEXEC :: u16 where "IEXEC \<equiv> 1"
abbreviation (input) PIPE :: u16 where "PIPE \<equiv> 1"

abbreviation (input) BREAD :: u8 where "BREAD \<equiv> 0x01"
abbreviation (input) BBUSY :: u8 where "BBUSY \<equiv> 0x02"
abbreviation (input) BSYNC :: u8 where "BSYNC \<equiv> 0x04"
abbreviation (input) BDELWRI :: u8 where "BDELWRI \<equiv> 0x08"
abbreviation (input) BDONE :: u8 where "BDONE \<equiv> 0x10"
abbreviation (input) BLOCK :: u8 where "BLOCK \<equiv> 0x20"
abbreviation (input) BWANT :: u8 where "BWANT \<equiv> 0x40"
abbreviation (input) BERROR :: u8 where "BERROR \<equiv> 0x80"

abbreviation (input) EPERM :: u8 where "EPERM \<equiv> 1"
abbreviation (input) ENOENT :: u8 where "ENOENT \<equiv> 2"
abbreviation (input) ESRCH :: u8 where "ESRCH \<equiv> 3"
abbreviation (input) EINTR :: u8 where "EINTR \<equiv> 4"
abbreviation (input) EIO :: u8 where "EIO \<equiv> 5"
abbreviation (input) ENXIO :: u8 where "ENXIO \<equiv> 6"
abbreviation (input) E2BIG :: u8 where "E2BIG \<equiv> 7"
abbreviation (input) ENOEXEC :: u8 where "ENOEXEC \<equiv> 8"
abbreviation (input) EBADF :: u8 where "EBADF \<equiv> 9"
abbreviation (input) ECHILD :: u8 where "ECHILD \<equiv> 10"
abbreviation (input) EAGAIN :: u8 where "EAGAIN \<equiv> 11"
abbreviation (input) ENOMEM :: u8 where "ENOMEM \<equiv> 12"
abbreviation (input) EACCES :: u8 where "EACCES \<equiv> 13"
abbreviation (input) ENOTBLK :: u8 where "ENOTBLK \<equiv> 15"
abbreviation (input) EBUSY :: u8 where "EBUSY \<equiv> 16"
abbreviation (input) EEXIST :: u8 where "EEXIST \<equiv> 17"
abbreviation (input) EXDEV :: u8 where "EXDEV \<equiv> 18"
abbreviation (input) ENOTDIR :: u8 where "ENOTDIR \<equiv> 20"
abbreviation (input) EISDIR :: u8 where "EISDIR \<equiv> 21"
abbreviation (input) EINVAL :: u8 where "EINVAL \<equiv> 22"
abbreviation (input) ENFILE :: u8 where "ENFILE \<equiv> 23"
abbreviation (input) EMFILE :: u8 where "EMFILE \<equiv> 24"
abbreviation (input) ENOTTY :: u8 where "ENOTTY \<equiv> 25"
abbreviation (input) EFBIG :: u8 where "EFBIG \<equiv> 27"
abbreviation (input) ENOSPC :: u8 where "ENOSPC \<equiv> 28"
abbreviation (input) ESPIPE :: u8 where "ESPIPE \<equiv> 29"
abbreviation (input) EROFS :: u8 where "EROFS \<equiv> 30"
abbreviation (input) EMLINK :: u8 where "EMLINK \<equiv> 31"
abbreviation (input) EPIPE :: u8 where "EPIPE \<equiv> 32"

abbreviation (input) SIGINT :: u16 where "SIGINT \<equiv> 2"
abbreviation (input) SIGQUIT :: u16 where "SIGQUIT \<equiv> 3"
abbreviation (input) SIGILL :: u16 where "SIGILL \<equiv> 4"
abbreviation (input) SIGBACK :: u16 where "SIGBACK \<equiv> 6"
abbreviation (input) SIGTINT :: u16 where "SIGTINT \<equiv> 7"
abbreviation (input) SIGKILL :: u16 where "SIGKILL \<equiv> 9"
abbreviation (input) SIGSEGV :: u16 where "SIGSEGV \<equiv> 11"
abbreviation (input) SIGSYS :: u16 where "SIGSYS \<equiv> 12"
abbreviation (input) SIGPIPE :: u16 where "SIGPIPE \<equiv> 13"
abbreviation (input) SIGALRM :: u16 where "SIGALRM \<equiv> 14"

section \<open>Structures\<close>

text \<open>The addresses processes sleep on.\<close>

datatype chan = NoEvent | ChInode nat | ChBuf nat | ChSwapLock | ChSwab nat | ChMem | ChRevel | ChExec
  | ChPause | ChProc nat | ChRaw nat | ChOut nat | ChMstate nat | ChDj nat

datatype kptr = Uaddr u16 | Kdir nat | Khdr nat

primrec kp_add :: "kptr \<Rightarrow> u16 \<Rightarrow> kptr" where
  "kp_add (Uaddr a) n = Uaddr (a + n)"
| "kp_add (Kdir i) n = Kdir (i + unat n)"
| "kp_add (Khdr i) n = Khdr (i + unat n)"

record mem =
  m_seg :: u8
  m_per :: u8

record proc =
  p_args :: bytes
  p_mode :: u8
  p_uid :: u8
  p_event :: chan
  p_status :: u16
  p_parent :: "nat option"
  p_tty :: "nat option"
  p_swap :: u16
  p_nsegs :: u8
  p_mem :: "nat \<Rightarrow> mem"
  p_slist :: "nat \<Rightarrow> u16"
  p_nice :: u8
  p_pri :: u8
  p_time :: u16
  p_alarm :: u16
  p_pid :: u8

record bytepair =
  bp_low :: u8
  bp_high :: u8

record user =
  u_p :: nat
  u_error :: u8
  u_real :: bytepair
  u_effective :: bytepair
  u_brake :: u16
  u_cdir :: nat
  u_olist :: "nat \<Rightarrow> nat option"
  u_iparent :: "nat option"
  u_segflg :: u8
  u_offset :: u32
  u_base :: kptr
  u_count :: u16
  u_dir :: bytes
  u_pc :: u16
  u_sp :: u16
  u_af :: u16
  u_de :: u16
  u_hl :: u16

record dsknod =
  d_mode :: u16
  d_nlink :: u8
  d_uid :: u8
  d_gid :: u8
  d_size0 :: u8
  d_size1 :: u16
  d_addr :: "nat \<Rightarrow> u16"
  d_atime :: u32
  d_mtime :: u32

record inode =
  i_dev :: u16
  i_inum :: u16
  i_d :: dsknod
  i_flags :: u8
  i_count :: u8
  i_mount :: "nat option"
  i_size :: u32
  i_time :: u16

record kfile =
  f_mode :: u8
  f_count :: u8
  f_inode :: "nat option"
  f_rwptr :: u32

record mount =
  m_dev :: u16
  m_inode :: "nat option"
  m_ronly :: u8
  m_fsize :: u16
  m_isize :: u16

record buf =
  b_flags :: u8
  b_dev :: u16
  b_blk :: u16
  b_count :: u16
  b_data :: bytes
  b_error :: u8
  b_time :: u16

text \<open>
  A device driver is a parameter of the model: given a direction (True reads), a device, a block
  and the 512 bytes of the buffer, it answers with an error code (0 for success), the bytes left in
  the buffer and the new contents of the disks. Its open routine answers with an error code.
\<close>

type_synonym disks = "u16 \<Rightarrow> u16 \<Rightarrow> bytes"
type_synonym driver = "bool \<Rightarrow> u16 \<Rightarrow> u16 \<Rightarrow> bytes \<Rightarrow> disks \<Rightarrow> u8 \<times> bytes \<times> disks"

text \<open>
  A character device, likewise: given its major number, a direction, a device number, the user
  structure and the primary memory it answers with the changed user structure and memory, or goes to
  sleep on a channel.
\<close>

type_synonym cdriver = "nat \<Rightarrow> bool \<Rightarrow> u16 \<Rightarrow> user \<Rightarrow> (u8 \<Rightarrow> nat \<Rightarrow> u8) \<Rightarrow> (chan \<times> u8) + (user \<times> (u8 \<Rightarrow> nat \<Rightarrow> u8))"

text \<open>An entry of the map of free swap space (\<^verbatim>\<open>struct map\<close> of \<^verbatim>\<open>malloc.c\<close>).\<close>

record smap =
  s_size :: u16
  s_addr :: u16

record tmout =
  t_func :: "nat option"
  t_arg :: u16
  t_ticks :: u16

section \<open>The kernel state\<close>

text \<open>
  \<^verbatim>\<open>u\<close> is the user structure of the running process, which lies in a memory segment of its own
  (\<^verbatim>\<open>user.c\<close>): \<open>usegs\<close> holds the structures of all processes by segment number and \<open>curuseg\<close> is the
  segment mapped in. \<open>phys\<close> is the primary memory by 4K segments, \<open>image1\<close> the memory map of the
  running task, \<open>segmap\<close>, \<open>nsegs\<close>, \<open>lastseg\<close> and \<open>swapmap\<close> the tables of \<^verbatim>\<open>malloc.c\<close>, \<open>hdr\<close>, \<open>execing\<close> and \<open>xbp\<close> static variables of \<^verbatim>\<open>exec.c\<close>. \<open>junk\<close> is the word a routine finds on the stack where its caller passed fewer
  arguments than it declares. \<open>cons\<close> is what was printed on the console. \<open>circle\<close>, \<open>iclock\<close>, \<open>bclock\<close> and \<open>pidctr\<close> are
  the static variables of \<^verbatim>\<open>sched\<close>, \<^verbatim>\<open>itime\<close>, \<^verbatim>\<open>btime\<close> and \<^verbatim>\<open>newpid\<close>.
\<close>

record kst =
  u :: user
  usegs :: "u8 \<Rightarrow> user"
  curuseg :: u8
  plist :: "nat \<Rightarrow> proc"
  circle :: nat
  resched :: u8
  swapping :: u8
  memwant :: u8
  ilist :: "nat \<Rightarrow> inode"
  iclock :: u16
  rootdir :: nat
  lastiblock :: u16
  flist :: "nat \<Rightarrow> kfile"
  mlist :: "nat \<Rightarrow> mount"
  blist :: "nat \<Rightarrow> buf"
  nbuf :: nat
  bclock :: u16
  disk :: disks
  drv :: "nat \<Rightarrow> driver"
  drv_open :: "nat \<Rightarrow> u16 \<Rightarrow> u16 \<Rightarrow> u8"
  rootdev :: u16
  swapdev :: u16
  seconds :: u32
  revel :: u16
  ticks :: u8
  pidctr :: u16
  switches :: u16
  cons :: string
  phys :: "u8 \<Rightarrow> nat \<Rightarrow> u8"
  image1 :: "nat \<Rightarrow> mem"
  junk :: u16
  hdr :: bytes
  cdrv :: cdriver
  cdrv_open :: "nat \<Rightarrow> u16 \<Rightarrow> u16 \<Rightarrow> proc \<Rightarrow> (chan \<times> u8) + (u8 \<times> proc)"
  cdrv_close :: "nat \<Rightarrow> u16 \<Rightarrow> u16 \<Rightarrow> (chan \<times> u8) option"
  cdrv_mode :: "nat \<Rightarrow> u16 \<Rightarrow> bool \<Rightarrow> user \<Rightarrow> (u8 \<Rightarrow> nat \<Rightarrow> u8) \<Rightarrow> user \<times> (u8 \<Rightarrow> nat \<Rightarrow> u8)"
  drv_close :: "nat \<Rightarrow> u16 \<Rightarrow> u16 \<Rightarrow> u8"
  segmap :: "nat \<Rightarrow> u8"
  nsegs :: u16
  lastseg :: u16
  swapmap :: "nat \<Rightarrow> smap"
  swapsize :: u16
  swapaddr :: u16
  initproc :: nat
  trapad :: u8
  arg :: "nat \<Rightarrow> u16"
  execing :: bool
  xbp :: "nat list"

type_synonym 'a K = "(kst, chan, 'a) outcome"

text \<open>Updates of one entry of a table, and of a field of the user structure.\<close>

definition set_error :: "u8 \<Rightarrow> kst \<Rightarrow> kst" where
  "set_error e s = s\<lparr>u := (u s)\<lparr>u_error := e\<rparr>\<rparr>"

definition upd_proc :: "nat \<Rightarrow> (proc \<Rightarrow> proc) \<Rightarrow> kst \<Rightarrow> kst" where
  "upd_proc p f s = s\<lparr>plist := (plist s)(p := f (plist s p))\<rparr>"

definition upd_inode :: "nat \<Rightarrow> (inode \<Rightarrow> inode) \<Rightarrow> kst \<Rightarrow> kst" where
  "upd_inode i f s = s\<lparr>ilist := (ilist s)(i := f (ilist s i))\<rparr>"

definition upd_file :: "nat \<Rightarrow> (kfile \<Rightarrow> kfile) \<Rightarrow> kst \<Rightarrow> kst" where
  "upd_file i f s = s\<lparr>flist := (flist s)(i := f (flist s i))\<rparr>"

definition upd_buf :: "nat \<Rightarrow> (buf \<Rightarrow> buf) \<Rightarrow> kst \<Rightarrow> kst" where
  "upd_buf i f s = s\<lparr>blist := (blist s)(i := f (blist s i))\<rparr>"

lemmas upd_defs = set_error_def upd_proc_def upd_inode_def upd_file_def upd_buf_def

text \<open>
  The user and group identities: \<^verbatim>\<open>proc.h\<close> defines \<^verbatim>\<open>u_uid\<close> and \<^verbatim>\<open>u_gid\<close> both as \<^verbatim>\<open>real.bytes.low\<close>,
  and \<^verbatim>\<open>u_euid\<close> and \<^verbatim>\<open>u_egid\<close> both as \<^verbatim>\<open>effective.bytes.low\<close>.
\<close>

definition u_uid :: "kst \<Rightarrow> u8" where "u_uid s = bp_low (u_real (u s))"
definition u_gid :: "kst \<Rightarrow> u8" where "u_gid s = bp_low (u_real (u s))"
definition u_euid :: "kst \<Rightarrow> u8" where "u_euid s = bp_low (u_effective (u s))"
definition u_egid :: "kst \<Rightarrow> u8" where "u_egid s = bp_low (u_effective (u s))"

definition set_u_uid :: "u8 \<Rightarrow> kst \<Rightarrow> kst" where
  "set_u_uid v s = s\<lparr>u := (u s)\<lparr>u_real := (u_real (u s))\<lparr>bp_low := v\<rparr>\<rparr>\<rparr>"
definition set_u_gid :: "u8 \<Rightarrow> kst \<Rightarrow> kst" where
  "set_u_gid v s = s\<lparr>u := (u s)\<lparr>u_real := (u_real (u s))\<lparr>bp_low := v\<rparr>\<rparr>\<rparr>"
definition set_u_euid :: "u8 \<Rightarrow> kst \<Rightarrow> kst" where
  "set_u_euid v s = s\<lparr>u := (u s)\<lparr>u_effective := (u_effective (u s))\<lparr>bp_low := v\<rparr>\<rparr>\<rparr>"
definition set_u_egid :: "u8 \<Rightarrow> kst \<Rightarrow> kst" where
  "set_u_egid v s = s\<lparr>u := (u s)\<lparr>u_effective := (u_effective (u s))\<lparr>bp_low := v\<rparr>\<rparr>\<rparr>"

lemmas id_defs = u_uid_def u_gid_def u_euid_def u_egid_def
  set_u_uid_def set_u_gid_def set_u_euid_def set_u_egid_def

definition major :: "u16 \<Rightarrow> nat" where "major d = unat (drop_bit 8 d)"
definition minor :: "u16 \<Rightarrow> u16" where "minor d = d AND 0xFF"

definition cur :: "kst \<Rightarrow> proc" where
  "cur s = plist s (u_p (u s))"

section \<open>A concrete kernel\<close>

text \<open>
  The kernel as it is loaded, before \<^verbatim>\<open>main\<close> runs: its tables are zero. Its devices are a memory disk that
  keeps every block, a character device that takes everything and has nothing to read.
\<close>

definition ramdrv :: driver where
  "ramdrv rd dev blk b d = (if rd then (0, d dev blk, d) else (0, b, d(dev := (d dev)(blk := b))))"

definition proc0 :: proc where
  "proc0 = \<lparr>p_args = (\<lambda>_. 0), p_mode = 0, p_uid = 0, p_event = NoEvent, p_status = 0, p_parent = None, p_tty = None,
     p_swap = 0, p_nsegs = 0, p_mem = (\<lambda>_. \<lparr>m_seg = 0, m_per = 0\<rparr>), p_slist = (\<lambda>_. 0), p_nice = 0, p_pri = 0,
     p_time = 0, p_alarm = 0, p_pid = 0\<rparr>"

definition user0 :: user where
  "user0 = \<lparr>u_p = 0, u_error = 0, u_real = \<lparr>bp_low = 0, bp_high = 0\<rparr>, u_effective = \<lparr>bp_low = 0, bp_high = 0\<rparr>, u_brake = 0,
     u_cdir = 0, u_olist = (\<lambda>_. None), u_iparent = None, u_segflg = 0, u_offset = 0, u_base = Uaddr 0, u_count = 0,
     u_dir = (\<lambda>_. 0), u_pc = 0, u_sp = 0, u_af = 0, u_de = 0, u_hl = 0\<rparr>"

definition dsk0 :: dsknod where
  "dsk0 = \<lparr>d_mode = 0, d_nlink = 0, d_uid = 0, d_gid = 0, d_size0 = 0, d_size1 = 0, d_addr = (\<lambda>_. 0), d_atime = 0, d_mtime = 0\<rparr>"

definition inode0 :: inode where
  "inode0 = \<lparr>i_dev = 0, i_inum = 0, i_d = dsk0, i_flags = 0, i_count = 0, i_mount = None, i_size = 0, i_time = 0\<rparr>"

definition buf0 :: buf where
  "buf0 = \<lparr>b_flags = 0, b_dev = 0, b_blk = 0, b_count = 0, b_data = (\<lambda>_. 0), b_error = 0, b_time = 0\<rparr>"

definition file0 :: kfile where
  "file0 = \<lparr>f_mode = 0, f_count = 0, f_inode = None, f_rwptr = 0\<rparr>"

definition mount0 :: mount where
  "mount0 = \<lparr>m_dev = 0, m_inode = None, m_ronly = 0, m_fsize = 0, m_isize = 0\<rparr>"

definition kst0 :: kst where
  "kst0 = \<lparr>u = user0, usegs = (\<lambda>_. user0), curuseg = 0, plist = (\<lambda>_. proc0), circle = 0, resched = 0, swapping = 0, memwant = 0,
     ilist = (\<lambda>_. inode0), iclock = 0, rootdir = 0, lastiblock = 0,
     flist = (\<lambda>_. file0),
     mlist = (\<lambda>_. mount0),
     blist = (\<lambda>_. buf0), nbuf = 0, bclock = 0, disk = (\<lambda>_ _ _. 0), drv = (\<lambda>_. ramdrv), drv_open = (\<lambda>_ _ _. 0),
     rootdev = 0, swapdev = 0, seconds = 0, revel = 0, ticks = 0, pidctr = 0, switches = 0, cons = '''',
     phys = (\<lambda>_ _. 0), image1 = (\<lambda>_. \<lparr>m_seg = 0, m_per = 0\<rparr>), junk = 0, hdr = (\<lambda>_. 0),
     cdrv = (\<lambda>_ rd _ us ph. Inr (if rd then us else us\<lparr>u_count := 0\<rparr>, ph)), cdrv_open = (\<lambda>_ _ _ p. Inr (0, p)),
     cdrv_close = (\<lambda>_ _ _. None), cdrv_mode = (\<lambda>_ _ _ us ph. (us, ph)), drv_close = (\<lambda>_ _ _. 0),
     segmap = (\<lambda>_. 0), nsegs = 0, lastseg = 0, swapmap = (\<lambda>_. \<lparr>s_size = 0, s_addr = 0\<rparr>), swapsize = 0, swapaddr = 0,
     initproc = 0, trapad = 0, arg = (\<lambda>_. 0), execing = False, xbp = []\<rparr>"

lemmas zero_defs = kst0_def user0_def proc0_def inode0_def dsk0_def buf0_def file0_def mount0_def

end
