(* ===== verification/Sleep.thy ===== *)
theory Sleep
  imports Kernel_State
begin

text \<open>
  Process sleep, wakeup and scheduling (\<^verbatim>\<open>sys/sleep.c\<close>). Process 0 is the swap process
  (\<^verbatim>\<open>swapproc = &plist[0]\<close> in \<^verbatim>\<open>main.c\<close>).
\<close>

section \<open>Operations\<close>

definition awk :: "proc \<Rightarrow> proc" where
  "awk q = q\<lparr>p_mode := p_mode q OR AWAKE, p_event := NoEvent\<rparr>"

text \<open>
  \<^verbatim>\<open>run(p)\<close> calls itself on the swap process when \<^verbatim>\<open>p\<close> is not in core and the swap process is idle.
  If the swap process itself were not in core that recursion would never end.
\<close>

definition run_swapproc :: "kst \<Rightarrow> unit K" where
  "run_swapproc s =
     (let s1 = upd_proc 0 awk s in
      if tst (p_mode (plist s1 0)) LOADED then Ret () (s1\<lparr>resched := 1\<rparr>)
      else if swapping s1 \<noteq> 0 then Ret () s1
      else Spin s1)"

definition run :: "nat \<Rightarrow> kst \<Rightarrow> unit K" where
  "run p s =
     (let s1 = upd_proc p awk s in
      if tst (p_mode (plist s1 p)) LOADED then Ret () (s1\<lparr>resched := 1\<rparr>)
      else if swapping s1 = 0 then run_swapproc s1
      else Ret () s1)"

fun wakeup_from :: "chan \<Rightarrow> nat list \<Rightarrow> kst \<Rightarrow> unit K" where
  "wakeup_from ch [] s = Ret () s"
| "wakeup_from ch (p # ps) s =
     (if p_event (plist s p) = ch then bnd (run p s) (\<lambda>_ s. wakeup_from ch ps s)
      else wakeup_from ch ps s)"

definition wakeup :: "chan \<Rightarrow> kst \<Rightarrow> unit K" where
  "wakeup ch s = wakeup_from ch [0..<NPROC] s"

text \<open>
  \<^verbatim>\<open>sleep(event, pri)\<close> up to the call of \<^verbatim>\<open>next()\<close>, which gives the processor away: the outcome is the
  suspended state.
\<close>

definition sleep :: "chan \<Rightarrow> u8 \<Rightarrow> kst \<Rightarrow> 'a K" where
  "sleep ch pri s =
     (let s1 = upd_proc (u_p (u s)) (\<lambda>q. q\<lparr>p_event := ch, p_pri := pri, p_mode := p_mode q AND NOT AWAKE\<rparr>) s in
      bnd (if memwant s1 \<noteq> 0 \<and> \<not> tst (p_mode (cur s1)) LOCKED then run 0 s1 else Ret () s1)
        (\<lambda>_ s. Slept ch pri s))"

text \<open>
  \<^verbatim>\<open>priority(p)\<close> reads \<^verbatim>\<open>nice\<close> and \<^verbatim>\<open>pri\<close> as one integer. One pass of \<^verbatim>\<open>sched\<close> looks at every process once,
  starting at \<^verbatim>\<open>circle\<close> and wrapping; with nobody to run it idles.
\<close>

definition priority :: "proc \<Rightarrow> u16" where
  "priority q = word_cat (p_pri q) (p_nice q)"

definition runnable :: "proc \<Rightarrow> bool" where
  "runnable q \<longleftrightarrow> alls (p_mode q) (ALIVE OR AWAKE OR LOADED)"

fun sched_loop :: "(nat \<Rightarrow> proc) \<Rightarrow> nat \<Rightarrow> nat \<Rightarrow> nat option \<Rightarrow> nat option" where
  "sched_loop pl p 0 nxt = nxt"
| "sched_loop pl p (Suc k) nxt =
     (let p' = (if p \<ge> NPROC then 0 else p) in
      sched_loop pl (Suc p') k
        (if \<not> runnable (pl p') then nxt
         else (case nxt of None \<Rightarrow> Some p'
               | Some n \<Rightarrow> if priority (pl p') > priority (pl n) then Some p' else nxt)))"

definition sched :: "kst \<Rightarrow> nat K" where
  "sched s = (case sched_loop (plist s) (circle s) NPROC None of
     None \<Rightarrow> Spin s
   | Some n \<Rightarrow> Ret n (s\<lparr>circle := Suc n\<rparr>))"

section \<open>Wakeup\<close>

text \<open>The swap process is always in core: \<^verbatim>\<open>pinit\<close> of \<^verbatim>\<open>main.c\<close> loads and locks it.\<close>

definition swapok :: "kst \<Rightarrow> bool" where
  "swapok s \<longleftrightarrow> tst (p_mode (plist s 0)) LOADED"

lemma awk_simps [simp]:
  "p_event (awk q) = NoEvent" "awk (awk q) = awk q" "p_nice (awk q) = p_nice q" "p_pri (awk q) = p_pri q"
  "tst (p_mode (awk q)) LOADED = tst (p_mode q) LOADED" "tst (p_mode (awk q)) ALIVE = tst (p_mode q) ALIVE"
  "tst (p_mode (awk q)) AWAKE" "p_slist (awk q) = p_slist q" "p_pid (awk q) = p_pid q"
  "p_parent (awk q) = p_parent q" "p_tty (awk q) = p_tty q"
  "tst (p_mode (awk q)) ALLOC = tst (p_mode q) ALLOC" "p_mem (awk q) = p_mem q"
  "p_nsegs (awk q) = p_nsegs q" "p_alarm (awk q) = p_alarm q"
  by (simp_all add: awk_def or.assoc)

lemma run_spec:
  assumes "swapok s"
  obtains pl r where "run p s = Ret () (s\<lparr>plist := pl, resched := r\<rparr>)" "pl p = awk (plist s p)"
    "\<And>q. q \<noteq> 0 \<Longrightarrow> q \<noteq> p \<Longrightarrow> pl q = plist s q" "\<And>q. pl q = plist s q \<or> pl q = awk (plist s q)"
proof -
  let ?pl1 = "(plist s)(p := awk (plist s p))" and ?pl2 = "(plist s)(p := awk (plist s p), 0 := awk (plist s 0))"
  consider (in_core) "tst (p_mode (plist s p)) LOADED"
    | (idle) "\<not> tst (p_mode (plist s p)) LOADED" "swapping s = 0"
    | (busy) "\<not> tst (p_mode (plist s p)) LOADED" "swapping s \<noteq> 0" by blast
  then show thesis
  proof cases
    case in_core
    show thesis by (rule that [of 1 ?pl1]) (use in_core in \<open>auto simp: run_def upd_proc_def\<close>)
  next
    case idle
    from idle assms have p0: "p \<noteq> 0" unfolding swapok_def by metis
    show thesis
      by (rule that [of 1 ?pl2]) (use idle assms p0 in \<open>auto simp: run_def run_swapproc_def upd_proc_def swapok_def Let_def\<close>)
  next
    case busy
    show thesis by (rule that [of "resched s" ?pl1]) (use busy in \<open>auto simp: run_def upd_proc_def\<close>)
  qed
qed

lemma wakeup_from_spec:
  assumes "swapok s"
  shows "\<exists>pl r. wakeup_from ch ps s = Ret () (s\<lparr>plist := pl, resched := r\<rparr>)
    \<and> (\<forall>q\<in>set ps. p_event (plist s q) = ch \<longrightarrow> pl q = awk (plist s q))
    \<and> (\<forall>q. q \<noteq> 0 \<longrightarrow> q \<notin> set ps \<or> p_event (plist s q) \<noteq> ch \<longrightarrow> pl q = plist s q)
    \<and> (\<forall>q. pl q = plist s q \<or> pl q = awk (plist s q))"
  using assms
proof (induction ps arbitrary: s)
  case Nil
  then show ?case by (intro exI [of _ "plist s"] exI [of _ "resched s"]) simp
next
  case (Cons p ps)
  show ?case
  proof (cases "p_event (plist s p) = ch")
    case False
    from Cons.IH [OF Cons.prems] False show ?thesis by auto
  next
    case True
    from Cons.prems obtain pl r where run: "run p s = Ret () (s\<lparr>plist := pl, resched := r\<rparr>)"
      and pl: "pl p = awk (plist s p)" "\<And>q. q \<noteq> 0 \<Longrightarrow> q \<noteq> p \<Longrightarrow> pl q = plist s q"
        "\<And>q. pl q = plist s q \<or> pl q = awk (plist s q)" by (rule run_spec) blast
    let ?s1 = "s\<lparr>plist := pl, resched := r\<rparr>"
    have "swapok ?s1" using Cons.prems pl(3) [of 0] by (auto simp: swapok_def)
    from Cons.IH [OF this] obtain pl' r' where
      w: "wakeup_from ch ps ?s1 = Ret () (s\<lparr>plist := pl', resched := r'\<rparr>)"
      and a: "\<forall>q\<in>set ps. p_event (pl q) = ch \<longrightarrow> pl' q = awk (pl q)"
      and b: "\<forall>q. q \<noteq> 0 \<longrightarrow> q \<notin> set ps \<or> p_event (pl q) \<noteq> ch \<longrightarrow> pl' q = pl q"
      and c: "\<forall>q. pl' q = pl q \<or> pl' q = awk (pl q)" by auto
    have hit: "pl' q = awk (plist s q)" if "q \<in> set (p # ps)" "p_event (plist s q) = ch" for q
    proof (cases "pl q = awk (plist s q)")
      case True with c show ?thesis by (metis awk_simps(2))
    next
      case False
      with pl(3) [of q] pl(1) that have "pl q = plist s q" "q \<in> set ps" by auto
      with a that show ?thesis by simp
    qed
    have miss: "pl' q = plist s q" if "q \<noteq> 0" "q \<notin> set (p # ps) \<or> p_event (plist s q) \<noteq> ch" for q
    proof -
      from that True have "q \<noteq> p" by auto
      with pl(2) that have "pl q = plist s q" by simp
      with b that show ?thesis by auto
    qed
    have "pl' q = plist s q \<or> pl' q = awk (plist s q)" for q
      using c pl(3) [of q] by (metis awk_simps(2))
    with hit miss run w True show ?thesis by auto
  qed
qed

lemma wakeup_spec:
  assumes "swapok s"
  obtains pl r where "wakeup ch s = Ret () (s\<lparr>plist := pl, resched := r\<rparr>)"
    "\<And>q. q < NPROC \<Longrightarrow> p_event (plist s q) = ch \<Longrightarrow> pl q = awk (plist s q)"
    "\<And>q. q \<noteq> 0 \<Longrightarrow> q \<ge> NPROC \<or> p_event (plist s q) \<noteq> ch \<Longrightarrow> pl q = plist s q"
    "\<And>q. pl q = plist s q \<or> pl q = awk (plist s q)" "swapok (s\<lparr>plist := pl, resched := r\<rparr>)"
proof -
  from wakeup_from_spec [OF assms, of ch "[0..<NPROC]"] obtain pl r where
    w: "wakeup ch s = Ret () (s\<lparr>plist := pl, resched := r\<rparr>)"
    and a: "\<forall>q\<in>{0..<NPROC}. p_event (plist s q) = ch \<longrightarrow> pl q = awk (plist s q)"
    and b: "\<forall>q. q \<noteq> 0 \<longrightarrow> q \<notin> {0..<NPROC} \<or> p_event (plist s q) \<noteq> ch \<longrightarrow> pl q = plist s q"
    and c: "\<forall>q. pl q = plist s q \<or> pl q = awk (plist s q)" by (auto simp: wakeup_def)
  have "swapok (s\<lparr>plist := pl, resched := r\<rparr>)"
    using assms c [rule_format, of 0] by (auto simp: swapok_def)
  with w a b c show thesis by (intro that [of r pl]) auto
qed

lemma wakeup_ret:
  assumes "swapok s"
  shows "\<exists>pl r. wakeup ch s = Ret () (s\<lparr>plist := pl, resched := r\<rparr>)
    \<and> (\<forall>q. pl q = plist s q \<or> pl q = awk (plist s q))"
  using wakeup_from_spec [OF assms, of ch "[0..<NPROC]"] unfolding wakeup_def by metis

end
