(* ===== verification/Console.thy ===== *)
theory Console
  imports Kernel_State
begin

text \<open>
  Kernel diagnostics (\<^verbatim>\<open>sys/subc.c\<close>): the limited formatted print \<^verbatim>\<open>pr\<close>, numbers in a base, device
  names. Output is appended to the console text of the state unless switch 0 suppresses it.
\<close>

datatype parg = PInt u16 | PStr string

definition digit :: "nat \<Rightarrow> char" where
  "digit c = (if c < 10 then char_of (c + 48) else char_of (c - 10 + 97))"

text \<open>\<^verbatim>\<open>prn(n, b)\<close>: the base is 8, 10 or 16 in every call; a base below 2 would never return.\<close>

fun prn :: "nat \<Rightarrow> nat \<Rightarrow> string" where
  "prn n b = (if b < 2 then [] else (if n \<ge> b then prn (n div b) b else []) @ [digit (n mod b)])"

declare prn.simps [simp del]

definition prs :: "string \<Rightarrow> string" where
  "prs s = takeWhile (\<lambda>c. c \<noteq> CHR 0x00) s"

fun prarg :: "nat \<Rightarrow> parg list \<Rightarrow> string" where
  "prarg b (PInt n # _) = prn (unat n) b"
| "prarg b _ = []"

fun prfmt :: "string \<Rightarrow> parg list \<Rightarrow> string" where
  "prfmt [] args = []"
| "prfmt (c # fmt) args =
     (if c \<noteq> CHR ''%'' then c # prfmt fmt args
      else (case fmt of
          [] \<Rightarrow> []
        | d # fmt' \<Rightarrow>
            if d = CHR ''i'' \<or> d = CHR ''d'' then prarg 10 args @ prfmt fmt' (tl args)
            else if d = CHR ''o'' then prarg 8 args @ prfmt fmt' (tl args)
            else if d = CHR ''h'' \<or> d = CHR ''x'' then prarg 16 args @ prfmt fmt' (tl args)
            else if d = CHR ''s'' then
              (case args of PStr s # _ \<Rightarrow> prs s | _ \<Rightarrow> []) @ prfmt fmt' (tl args)
            else d # prfmt fmt' args))"

definition csw :: "kst \<Rightarrow> u16" where "csw s = switches s"
definition ssw :: "u16 \<Rightarrow> kst \<Rightarrow> kst" where "ssw a s = s\<lparr>switches := a\<rparr>"

definition pr :: "string \<Rightarrow> parg list \<Rightarrow> kst \<Rightarrow> kst" where
  "pr fmt args s = (if tst (csw s) 1 then s else s\<lparr>cons := cons s @ prfmt fmt args\<rparr>)"

definition devname :: "nat \<Rightarrow> string" where
  "devname m = (if m = 0 then ''nodev'' else if m = 1 then ''hdca(rev4)''
     else if m = 2 then ''djdma'' else if m = 3 then ''hddma'' else [])"

definition prdev :: "string \<Rightarrow> u16 \<Rightarrow> kst \<Rightarrow> kst" where
  "prdev m dev s = pr ''%s on disk %s/%d\<newline>'' [PStr m, PStr (devname (major dev)), PInt (minor dev)] s"

text \<open>Only the console text changes.\<close>

lemma pr_cons: "pr fmt args s = s\<lparr>cons := cons (pr fmt args s)\<rparr>"
  by (simp add: pr_def)

lemma prdev_cons: "prdev m dev s = s\<lparr>cons := cons (prdev m dev s)\<rparr>"
  unfolding prdev_def by (rule pr_cons)

section \<open>Numbers print as their digits\<close>

definition digit_val :: "char \<Rightarrow> nat" where
  "digit_val c = (if of_char c < (58::nat) then of_char c - 48 else of_char c - 87)"

definition digits_val :: "nat \<Rightarrow> string \<Rightarrow> nat" where
  "digits_val b ds = foldl (\<lambda>n c. n * b + digit_val c) 0 ds"

lemma digit_val_digit: "c < 16 \<Longrightarrow> digit_val (digit c) = c"
  by (simp add: digit_val_def digit_def)

lemma digits_val_snoc: "digits_val b (ds @ [c]) = digits_val b ds * b + digit_val c"
  by (simp add: digits_val_def)

text \<open>
  C28. \<^verbatim>\<open>prn\<close> prints the digits of its number: reading what it printed in the same base gives the
  number back, for every base from 2 to 16.
\<close>

theorem prn_roundtrip:
  assumes "2 \<le> b" and "b \<le> 16"
  shows "digits_val b (prn n b) = n"
  using assms
proof (induction n b rule: prn.induct)
  case (1 n b)
  have dig: "digit_val (digit (n mod b)) = n mod b"
    using "1.prems" by (intro digit_val_digit) (auto intro: less_le_trans [OF mod_less_divisor])
  show ?case
  proof (cases "n \<ge> b")
    case True
    with 1 have "digits_val b (prn (n div b) b) = n div b" by simp
    with True "1.prems" dig show ?thesis
      by (simp add: prn.simps [of n b] digits_val_snoc)
  next
    case False
    with "1.prems" dig show ?thesis
      by (simp add: prn.simps [of n b] digits_val_def)
  qed
qed

theorem prn_roundtrip_witness: "digits_val 16 (prn 48879 16) = 48879 \<and> prn 48879 16 = ''beef''"
proof
  show "digits_val 16 (prn 48879 16) = 48879" by (rule prn_roundtrip) simp_all
  show "prn 48879 16 = ''beef''" by (simp add: prn.simps digit_def char_of_def bit_0)
qed

end
