(* ===== verification/Bio.thy ===== *)
theory Bio
  imports Sleep Console
begin

text \<open>
  Block I/O (\<^verbatim>\<open>sys/uio.c\<close>): the buffer cache between the file system and the device drivers. The
  drivers of the DJ-DMA and HD-DMA controllers are the parameters \<open>drv 2\<close> and \<open>drv 3\<close> of the state;
  majors 0 and 1 are the entries \<^verbatim>\<open>nulldev\<close> and \<^verbatim>\<open>nodev\<close> of the switch in \<^verbatim>\<open>con.c\<close>. In this theory a driver finishes a
  transfer before its strategy routine returns, and calls \<^verbatim>\<open>iodone\<close> as its interrupt routine does. For \<^verbatim>\<open>bread\<close> and \<^verbatim>\<open>bwrite\<close>, which wait for
  the transfer, the caller sees no difference; \<^verbatim>\<open>bawrite\<close>, which does not wait, is modelled with requests that stay with the driver in \<open>Sync\<close>.
  \<^verbatim>\<open>bget\<close> is modelled with the sixteen-bit block and device numbers of its callers and of \<^verbatim>\<open>struct buf\<close>; the source declares both parameters
  \<^verbatim>\<open>UINT8\<close>, which would cut them to their low bytes.
\<close>

section \<open>Operations\<close>

definition bmajor :: "u16 \<Rightarrow> nat" where
  "bmajor dev = (if major dev \<ge> 4 then 0 else major dev)"

definition btime :: "kst \<Rightarrow> u16 \<times> kst" where
  "btime s =
     (let c = bclock s + 1;
          bl = (if c = 0 then (\<lambda>i. if i < nbuf s then (blist s i)\<lparr>b_time := 0\<rparr> else blist s i) else blist s)
      in (c, s\<lparr>bclock := c, blist := bl\<rparr>))"

definition brelse :: "nat \<Rightarrow> kst \<Rightarrow> unit K" where
  "brelse b s =
     (if \<not> tst (b_flags (blist s b)) BBUSY then Ret () s
      else bnd (if tst (b_flags (blist s b)) BWANT then wakeup (ChBuf b) s else Ret () s)
        (\<lambda>_ s. let s1 = upd_buf b (\<lambda>x. x\<lparr>b_flags := b_flags x AND NOT (BBUSY OR BWANT)\<rparr>) s;
                   (c, s2) = btime s1
               in Ret () (upd_buf b (\<lambda>x. x\<lparr>b_time := c\<rparr>) s2)))"

definition brelse_opt :: "nat option \<Rightarrow> kst \<Rightarrow> unit K" where
  "brelse_opt b s = (case b of None \<Rightarrow> Ret () s | Some b \<Rightarrow> brelse b s)"

definition perror :: "nat \<Rightarrow> kst \<Rightarrow> kst" where
  "perror b s =
     (let x = blist s b in
      if b_error x = ENXIO \<or> b_flags x AND (BREAD OR BSYNC) = BREAD then s
      else prdev [] (b_dev x) (pr '' error block %i'' [PInt (b_blk x)]
             (pr (if tst (b_flags x) BREAD then ''Read'' else ''Write'') [] s)))"

definition iodone :: "nat \<Rightarrow> kst \<Rightarrow> unit K" where
  "iodone b s =
     (let s1 = upd_buf b (\<lambda>x. x\<lparr>b_flags := (b_flags x OR BDONE) AND NOT BDELWRI\<rparr>) s;
          s2 = (if tst (b_flags (blist s1 b)) BERROR then perror b s1 else s1)
      in if tst (b_flags (blist s2 b)) BSYNC then wakeup (ChBuf b) s2 else brelse b s2)"

definition drvstrat :: "nat \<Rightarrow> nat \<Rightarrow> kst \<Rightarrow> unit K" where
  "drvstrat m b s =
     (let x = blist s b;
          (e, d, dk) = drv s m (tst (b_flags x) BREAD) (b_dev x) (b_blk x) (b_data x) (disk s);
          s1 = upd_buf b (\<lambda>x. x\<lparr>b_data := d\<rparr>) (s\<lparr>disk := dk\<rparr>);
          s2 = (if e \<noteq> 0 then upd_buf b (\<lambda>x. x\<lparr>b_flags := b_flags x OR BERROR, b_error := e\<rparr>) s1 else s1)
      in iodone b s2)"

definition strat :: "nat \<Rightarrow> kst \<Rightarrow> unit K" where
  "strat b s =
     (let s1 = upd_buf b (\<lambda>x. x\<lparr>b_flags := (b_flags x OR BBUSY) AND NOT (BDONE OR BERROR),
                               b_error := 0, b_count := 512\<rparr>) s;
          m = bmajor (b_dev (blist s1 b))
      in if m = 0 then Ret () s1
         else if m = 1 then Ret () (set_error ENXIO s1)
         else drvstrat m b s1)"

definition bwait :: "nat \<Rightarrow> kst \<Rightarrow> unit K" where
  "bwait b s =
     (if tst (b_flags (blist s b)) BDONE then Ret () s
      else sleep (ChBuf b) PRIBIO (upd_buf b (\<lambda>x. x\<lparr>b_flags := b_flags x OR BWANT\<rparr>) s))"

definition geterror :: "nat \<Rightarrow> kst \<Rightarrow> u8 \<times> kst" where
  "geterror b s =
     (let x = blist s b;
          e = (if tst (b_flags x) BERROR then (if b_error x \<noteq> 0 then b_error x else EIO) else 0)
      in (e, set_error e s))"

definition block :: "nat \<Rightarrow> kst \<Rightarrow> unit K" where
  "block b s =
     (if tst (b_flags (blist s b)) BBUSY
      then sleep (ChBuf b) PRIBIO (upd_buf b (\<lambda>x. x\<lparr>b_flags := b_flags x OR BWANT\<rparr>) s)
      else Ret () (upd_buf b (\<lambda>x. x\<lparr>b_flags := b_flags x OR BBUSY\<rparr>) s))"

definition bwrite :: "nat \<Rightarrow> kst \<Rightarrow> unit K" where
  "bwrite b s =
     (let s1 = upd_buf b (\<lambda>x. x\<lparr>b_flags := (b_flags x OR BSYNC) AND NOT BREAD\<rparr>) s
      in bnd (strat b s1) (\<lambda>_ s. bnd (bwait b s) (\<lambda>_ s. brelse b s)))"

definition bawrite :: "nat \<Rightarrow> kst \<Rightarrow> unit K" where
  "bawrite b s = strat b (upd_buf b (\<lambda>x. x\<lparr>b_flags := b_flags x AND NOT (BSYNC OR BREAD)\<rparr>) s)"

definition bdwrite :: "nat \<Rightarrow> kst \<Rightarrow> unit K" where
  "bdwrite b s = brelse b (upd_buf b (\<lambda>x. x\<lparr>b_flags := b_flags x OR (BDELWRI OR BDONE)\<rparr>) s)"

text \<open>
  The search of \<^verbatim>\<open>bget\<close>: a buffer that holds the block, or the least recently released buffer that is
  neither busy nor locked in core.
\<close>

fun bscan :: "(nat \<Rightarrow> buf) \<Rightarrow> u16 \<Rightarrow> u16 \<Rightarrow> nat list \<Rightarrow> nat option \<Rightarrow> nat + nat option" where
  "bscan bl blk dev [] f = Inr f"
| "bscan bl blk dev (b # bs) f =
     (if b_blk (bl b) = blk \<and> b_dev (bl b) = dev then Inl b
      else if tst (b_flags (bl b)) (BBUSY OR BLOCK) then bscan bl blk dev bs f
      else bscan bl blk dev bs
        (case f of None \<Rightarrow> Some b | Some g \<Rightarrow> if b_time (bl b) < b_time (bl g) then Some b else f))"

text \<open>
  \<^verbatim>\<open>bget\<close> starts over after it wrote out a delayed write, which clears one \<^verbatim>\<open>BDELWRI\<close> flag: more rounds
  than there are buffers cannot happen. With every buffer busy or locked it spins.
\<close>

fun bget_loop :: "nat \<Rightarrow> u16 \<Rightarrow> u16 \<Rightarrow> kst \<Rightarrow> nat K" where
  "bget_loop 0 blk dev s = Spin s"
| "bget_loop (Suc n) blk dev s =
     (case bscan (blist s) blk dev [0..<nbuf s] None of
        Inl b \<Rightarrow> bnd (block b s) (\<lambda>_ s. Ret b s)
      | Inr None \<Rightarrow> Spin s
      | Inr (Some b) \<Rightarrow>
          bnd (block b s) (\<lambda>_ s.
            if tst (b_flags (blist s b)) BDELWRI
            then bnd (bwrite b s) (\<lambda>_ s. bget_loop n blk dev s)
            else Ret b (upd_buf b (\<lambda>x. x\<lparr>b_blk := blk, b_dev := dev, b_flags := b_flags x AND NOT BDONE\<rparr>) s)))"

definition bget :: "u16 \<Rightarrow> u16 \<Rightarrow> kst \<Rightarrow> nat K" where
  "bget blk dev s = bget_loop (Suc (nbuf s)) blk dev s"

definition bread :: "u16 \<Rightarrow> u16 \<Rightarrow> kst \<Rightarrow> nat option K" where
  "bread blk dev s =
     bnd (bget blk dev s) (\<lambda>b s.
     bnd (if b_flags (blist s b) AND (BDONE OR BERROR) \<noteq> BDONE
          then bnd (strat b (upd_buf b (\<lambda>x. x\<lparr>b_flags := b_flags x OR (BREAD OR BSYNC)\<rparr>) s)) (\<lambda>_ s. bwait b s)
          else Ret () s) (\<lambda>_ s.
     let (e, s1) = geterror b s
     in if e \<noteq> 0 then bnd (brelse b s1) (\<lambda>_ s. Ret None s) else Ret (Some b) s1))"

definition aread :: "u16 \<Rightarrow> u16 \<Rightarrow> kst \<Rightarrow> unit K" where
  "aread blk dev s =
     (case scan (\<lambda>b. b_blk (blist s b) = blk \<and> b_dev (blist s b) = dev) (nbuf s) of
        Some _ \<Rightarrow> Ret () s
      | None \<Rightarrow> bnd (bget blk dev s) (\<lambda>b s.
          strat b (upd_buf b (\<lambda>x. x\<lparr>b_flags := (b_flags x AND NOT BSYNC) OR BREAD\<rparr>) s)))"

definition getsb :: "u16 \<Rightarrow> kst \<Rightarrow> nat K" where
  "getsb dev s = bnd (bread 1 dev s) (\<lambda>b s.
     case b of None \<Rightarrow> Panic ''cant get superblock'' s | Some b \<Rightarrow> Ret b s)"

definition bopen :: "u16 \<Rightarrow> u16 \<Rightarrow> kst \<Rightarrow> kst" where
  "bopen dev mode s =
     (let m = bmajor dev in
      if m \<le> 1 then set_error ENXIO s
      else (let e = drv_open s m dev mode in if e \<noteq> 0 then set_error e s else s))"

definition bzero :: "nat \<Rightarrow> kst \<Rightarrow> kst" where
  "bzero b s = upd_buf b (\<lambda>x. x\<lparr>b_flags := 0, b_dev := 0, b_blk := 0, b_count := 0, b_error := 0, b_time := 0\<rparr>) s"

fun bflush_from :: "u16 \<Rightarrow> nat list \<Rightarrow> kst \<Rightarrow> unit K" where
  "bflush_from dev [] s = Ret () s"
| "bflush_from dev (b # bs) s =
     (if b_dev (blist s b) = dev
      then bnd (block b s) (\<lambda>_ s.
           bnd (if tst (b_flags (blist s b)) BDELWRI then bwrite b s else brelse b s) (\<lambda>_ s.
           bflush_from dev bs (bzero b s)))
      else bflush_from dev bs s)"

definition bflush :: "u16 \<Rightarrow> kst \<Rightarrow> unit K" where
  "bflush dev s = bflush_from dev [0..<nbuf s] s"

text \<open>Byte offsets of \<^verbatim>\<open>struct super\<close>: \<^verbatim>\<open>s_flock\<close> follows 204 words, \<^verbatim>\<open>s_time\<close> follows three bytes.\<close>

abbreviation (input) S_FLOCK :: nat where "S_FLOCK \<equiv> 408"
abbreviation (input) S_TIME :: nat where "S_TIME \<equiv> 411"

fun bsync_from :: "nat list \<Rightarrow> kst \<Rightarrow> unit K" where
  "bsync_from [] s = Ret () s"
| "bsync_from (b # bs) s =
     (if b_flags (blist s b) AND (BBUSY OR BDELWRI) = BDELWRI
      then bnd (bawrite b s) (\<lambda>_ s. bsync_from bs s)
      else bsync_from bs s)"

definition bsync :: "kst \<Rightarrow> unit K" where
  "bsync s =
     bnd (getsb (rootdev s) s) (\<lambda>b s.
     bnd (if b_data (blist s b) S_FLOCK = 0
          then bdwrite b (upd_buf b (\<lambda>x. x\<lparr>b_data := putl (b_data x) S_TIME (seconds s)\<rparr>) s)
          else brelse b s) (\<lambda>_ s.
     bsync_from [0..<nbuf s] s))"

text \<open>
  \<^verbatim>\<open>bsort(h, b)\<close>: insert a request into a driver's queue, here the list of the cylinders of the
  requests after the head. It stops at the first gap that brackets the new cylinder, or at the end.
\<close>

fun bsort :: "u16 \<Rightarrow> u16 \<Rightarrow> u16 list \<Rightarrow> u16 list" where
  "bsort pc bc [] = [bc]"
| "bsort pc bc (fc # fs) =
     (if (pc \<le> bc \<and> bc \<le> fc) \<or> (pc \<ge> bc \<and> bc \<ge> fc) then bc # fc # fs
      else fc # bsort fc bc fs)"

end
