(* ===== verification/Cache.thy ===== *)
theory Cache
  imports Bio
begin

text \<open>
  What the buffer cache promises to the file system: it implements an abstract disk. The abstract
  content \<open>view s dev blk\<close> of a block is the data of the valid buffer that holds it, or what is on the
  disk. Getting, releasing and evicting buffers leave the abstract disk as it is, \<^verbatim>\<open>bread\<close> returns its
  content, \<^verbatim>\<open>bdwrite\<close> stores the data of a held buffer in it.
\<close>

section \<open>Frame: what the cache may touch\<close>

definition bframe :: "kst \<Rightarrow> kst \<Rightarrow> bool" where
  "bframe s s' \<longleftrightarrow>
     s' = s\<lparr>blist := blist s', bclock := bclock s', disk := disk s', plist := plist s', resched := resched s',
            cons := cons s', u := (u s)\<lparr>u_error := u_error (u s')\<rparr>\<rparr>
     \<and> (\<forall>q. plist s' q = plist s q \<or> plist s' q = awk (plist s q))"

lemma bframe_refl [simp]: "bframe s s"
  by (simp add: bframe_def)

lemma bframe_trans [trans]:
  assumes "bframe s s1" and "bframe s1 s2"
  shows "bframe s s2"
proof -
  have "\<forall>q. plist s2 q = plist s q \<or> plist s2 q = awk (plist s q)"
    using assms unfolding bframe_def by (metis awk_simps(2))
  moreover have "s2 = s\<lparr>blist := blist s2, bclock := bclock s2, disk := disk s2, plist := plist s2,
      resched := resched s2, cons := cons s2, u := (u s)\<lparr>u_error := u_error (u s2)\<rparr>\<rparr>"
  proof -
    from assms obtain b1 c1 d1 p1 r1 o1 e1 where 1: "s1 = s\<lparr>blist := b1, bclock := c1, disk := d1, plist := p1,
        resched := r1, cons := o1, u := (u s)\<lparr>u_error := e1\<rparr>\<rparr>" unfolding bframe_def by blast
    from assms obtain b2 c2 d2 p2 r2 o2 e2 where 2: "s2 = s1\<lparr>blist := b2, bclock := c2, disk := d2, plist := p2,
        resched := r2, cons := o2, u := (u s1)\<lparr>u_error := e2\<rparr>\<rparr>" unfolding bframe_def by blast
    show ?thesis unfolding 2 1 by simp
  qed
  ultimately show ?thesis by (simp add: bframe_def)
qed

lemma bframe_same:
  assumes "bframe s s'"
  shows "nbuf s' = nbuf s" "drv s' = drv s" "ilist s' = ilist s" "flist s' = flist s" "mlist s' = mlist s"
    "rootdev s' = rootdev s" "swapping s' = swapping s" "memwant s' = memwant s" "seconds s' = seconds s"
    "lastiblock s' = lastiblock s" "iclock s' = iclock s" "rootdir s' = rootdir s" "phys s' = phys s"
    "image1 s' = image1 s" "switches s' = switches s" "drv_open s' = drv_open s"
    "u s' = (u s)\<lparr>u_error := u_error (u s')\<rparr>" "u_p (u s') = u_p (u s)" "hdr s' = hdr s"
proof -
  from assms obtain b1 c1 d1 p1 r1 o1 e1 where 1: "s' = s\<lparr>blist := b1, bclock := c1, disk := d1, plist := p1,
      resched := r1, cons := o1, u := (u s)\<lparr>u_error := e1\<rparr>\<rparr>" unfolding bframe_def by blast
  show "nbuf s' = nbuf s" "drv s' = drv s" "ilist s' = ilist s" "flist s' = flist s" "mlist s' = mlist s"
    "rootdev s' = rootdev s" "swapping s' = swapping s" "memwant s' = memwant s" "seconds s' = seconds s"
    "lastiblock s' = lastiblock s" "iclock s' = iclock s" "rootdir s' = rootdir s" "phys s' = phys s"
    "image1 s' = image1 s" "switches s' = switches s" "drv_open s' = drv_open s"
    "u s' = (u s)\<lparr>u_error := u_error (u s')\<rparr>" "u_p (u s') = u_p (u s)" "hdr s' = hdr s"
    unfolding 1 by simp_all
qed

lemma bframe_swapok: "bframe s s' \<Longrightarrow> swapok s' = swapok s"
  unfolding bframe_def swapok_def by (metis awk_simps(5))

section \<open>Valid devices, cache invariant, abstract disk\<close>

text \<open>The contract of a working drive, for the two controllers of the block switch.\<close>

definition drv_ok :: "kst \<Rightarrow> bool" where
  "drv_ok s \<longleftrightarrow> (\<forall>m\<in>{2, 3}. \<forall>d k x dk.
     drv s m True d k x dk = (0, dk d k, dk) \<and>
     drv s m False d k x dk = (0, x, dk(d := (dk d)(k := x))))"

definition vdev :: "u16 \<Rightarrow> bool" where
  "vdev d \<longleftrightarrow> bmajor d \<in> {2, 3}"

definition holds :: "buf \<Rightarrow> u16 \<Rightarrow> u16 \<Rightarrow> bool" where
  "holds x d k \<longleftrightarrow> b_dev x = d \<and> b_blk x = k"

definition bdone :: "buf \<Rightarrow> bool" where "bdone x \<longleftrightarrow> tst (b_flags x) BDONE"
definition bdel :: "buf \<Rightarrow> bool" where "bdel x \<longleftrightarrow> tst (b_flags x) BDELWRI"
definition bbusy :: "buf \<Rightarrow> bool" where "bbusy x \<longleftrightarrow> tst (b_flags x) BBUSY"
definition blocked :: "buf \<Rightarrow> bool" where "blocked x \<longleftrightarrow> tst (b_flags x) BLOCK"
definition berr :: "buf \<Rightarrow> bool" where "berr x \<longleftrightarrow> tst (b_flags x) BERROR"

lemmas bflag_defs = bdone_def bdel_def bbusy_def blocked_def berr_def

lemma tst_busy_lock: "tst (b_flags x) (BBUSY OR BLOCK) \<longleftrightarrow> bbusy x \<or> blocked x"
proof -
  have "b_flags x AND 34 = (b_flags x AND 2) OR (b_flags x AND 32)"
    by (simp flip: bit.conj_disj_distrib)
  then show ?thesis by (simp add: bflag_defs tst_def or_eq_0_iff)
qed

text \<open>
  \<open>cinv M s\<close>: no two buffers hold the same block of a device; a delayed write is valid and belongs
  to a device; a valid buffer with no delayed write agrees with the disk, unless its holder is
  changing it (the buffers in \<open>M\<close>).
\<close>

definition cinv :: "nat set \<Rightarrow> kst \<Rightarrow> bool" where
  "cinv M s \<longleftrightarrow>
     (\<forall>i<nbuf s. \<forall>j<nbuf s. \<forall>d k. i \<noteq> j \<longrightarrow> vdev d \<longrightarrow> holds (blist s i) d k \<longrightarrow> \<not> holds (blist s j) d k)
   \<and> (\<forall>i<nbuf s. bdel (blist s i) \<longrightarrow> bdone (blist s i) \<and> vdev (b_dev (blist s i)))
   \<and> (\<forall>i<nbuf s. i \<notin> M \<longrightarrow> vdev (b_dev (blist s i)) \<longrightarrow> bdone (blist s i) \<longrightarrow> \<not> bdel (blist s i) \<longrightarrow>
        b_data (blist s i) = disk s (b_dev (blist s i)) (b_blk (blist s i)))
   \<and> (\<forall>i<nbuf s. \<not> berr (blist s i))"

definition view :: "kst \<Rightarrow> u16 \<Rightarrow> u16 \<Rightarrow> bytes" where
  "view s d k = (case scan (\<lambda>i. vdev d \<and> holds (blist s i) d k \<and> bdone (blist s i)) (nbuf s) of
     Some i \<Rightarrow> b_data (blist s i)
   | None \<Rightarrow> disk s d k)"

definition held :: "kst \<Rightarrow> nat set" where
  "held s = {i. i < nbuf s \<and> bbusy (blist s i)}"

definition avail :: "kst \<Rightarrow> nat set" where
  "avail s = {i. i < nbuf s \<and> \<not> bbusy (blist s i) \<and> \<not> blocked (blist s i)}"

lemma cinvD:
  assumes "cinv M s" and "i < nbuf s"
  shows "j < nbuf s \<Longrightarrow> vdev d \<Longrightarrow> holds (blist s i) d k \<Longrightarrow> holds (blist s j) d k \<Longrightarrow> i = j"
    and "bdel (blist s i) \<Longrightarrow> bdone (blist s i)" and "bdel (blist s i) \<Longrightarrow> vdev (b_dev (blist s i))"
    and "i \<notin> M \<Longrightarrow> vdev (b_dev (blist s i)) \<Longrightarrow> bdone (blist s i) \<Longrightarrow> \<not> bdel (blist s i) \<Longrightarrow>
        b_data (blist s i) = disk s (b_dev (blist s i)) (b_blk (blist s i))"
    and "\<not> berr (blist s i)"
  using assms unfolding cinv_def by metis+

lemma view_hit:
  assumes "cinv M s" "i < nbuf s" "vdev d" "holds (blist s i) d k" "bdone (blist s i)"
  shows "view s d k = b_data (blist s i)"
proof -
  obtain j where j: "scan (\<lambda>i. vdev d \<and> holds (blist s i) d k \<and> bdone (blist s i)) (nbuf s) = Some j"
    using scan_ex [of i "nbuf s" "\<lambda>i. vdev d \<and> holds (blist s i) d k \<and> bdone (blist s i)"] assms by auto
  then have "j < nbuf s" "holds (blist s j) d k" by (auto dest: scan_SomeD)
  with cinvD(1) [OF assms(1,2)] assms have "j = i" by blast
  with j show ?thesis by (simp add: view_def)
qed

lemma view_miss:
  assumes "\<And>i. i < nbuf s \<Longrightarrow> vdev d \<Longrightarrow> holds (blist s i) d k \<Longrightarrow> \<not> bdone (blist s i)"
  shows "view s d k = disk s d k"
proof -
  have "scan (\<lambda>i. vdev d \<and> holds (blist s i) d k \<and> bdone (blist s i)) (nbuf s) = None"
    using assms by (auto simp: scan_None_iff)
  then show ?thesis by (simp add: view_def)
qed

lemma view_cong:
  assumes "nbuf s' = nbuf s" "disk s' = disk s" "\<And>j. holds (blist s' j) = holds (blist s j)"
    "\<And>j. bdone (blist s' j) = bdone (blist s j)" "\<And>j. b_data (blist s' j) = b_data (blist s j)"
  shows "view s' = view s"
  using assms by (intro ext) (simp add: view_def split: option.split)

section \<open>Releasing and transferring buffers\<close>

text \<open>\<open>btm x y\<close>: the buffers agree except for the time of last use.\<close>

definition btm :: "buf \<Rightarrow> buf \<Rightarrow> bool" where
  "btm x y \<longleftrightarrow> y = x\<lparr>b_time := b_time y\<rparr>"

lemma btm_refl [simp]: "btm x x"
  by (simp add: btm_def)

lemma btm_trans: "btm x y \<Longrightarrow> btm y z \<Longrightarrow> btm x z"
  unfolding btm_def by (metis buf.surjective buf.update_convs(7))

lemma btm_fields:
  assumes "btm x y"
  shows "b_flags y = b_flags x" "b_dev y = b_dev x" "b_blk y = b_blk x" "b_data y = b_data x" "b_error y = b_error x"
    "holds y = holds x" "bdone y = bdone x" "bdel y = bdel x" "bbusy y = bbusy x" "blocked y = blocked x" "berr y = berr x"
proof -
  from assms obtain t where y: "y = x\<lparr>b_time := t\<rparr>" unfolding btm_def by blast
  show "b_flags y = b_flags x" "b_dev y = b_dev x" "b_blk y = b_blk x" "b_data y = b_data x" "b_error y = b_error x"
    "holds y = holds x" "bdone y = bdone x" "bdel y = bdel x" "bbusy y = bbusy x" "blocked y = blocked x" "berr y = berr x"
    unfolding y by (simp_all add: fun_eq_iff holds_def bflag_defs)
qed

lemma btime_spec:
  obtains c bl where "btime s = (c, s\<lparr>bclock := c, blist := bl\<rparr>)" "\<And>j. btm (blist s j) (bl j)"
proof (cases "bclock s + 1 = 0")
  case True
  show thesis
    by (rule that [of "bclock s + 1" "\<lambda>i. if i < nbuf s then (blist s i)\<lparr>b_time := 0\<rparr> else blist s i"])
      (simp_all add: btime_def Let_def True btm_def)
next
  case False
  show thesis by (rule that [of "bclock s + 1" "blist s"]) (simp_all add: btime_def Let_def False)
qed

lemma brelse_ret:
  assumes "swapok s" and "bbusy (blist s b)"
  obtains s' where "brelse b s = Ret () s'" "bframe s s'" "disk s' = disk s" "u s' = u s"
    "\<And>j. j \<noteq> b \<Longrightarrow> btm (blist s j) (blist s' j)"
    "btm ((blist s b)\<lparr>b_flags := b_flags (blist s b) AND NOT (BBUSY OR BWANT)\<rparr>) (blist s' b)"
proof -
  define w where "w = (if tst (b_flags (blist s b)) BWANT then wakeup (ChBuf b) s else Ret () s)"
  obtain pl r where w: "w = Ret () (s\<lparr>plist := pl, resched := r\<rparr>)"
    and fr: "\<And>q. pl q = plist s q \<or> pl q = awk (plist s q)"
  proof (cases "tst (b_flags (blist s b)) BWANT")
    case True
    obtain pl r where "wakeup (ChBuf b) s = Ret () (s\<lparr>plist := pl, resched := r\<rparr>)"
      "\<And>q. pl q = plist s q \<or> pl q = awk (plist s q)"
      using wakeup_ret [OF assms(1), of "ChBuf b"] by auto
    with True that [of r pl] show thesis by (simp add: w_def)
  next
    case False
    with that [of "resched s" "plist s"] show thesis by (simp add: w_def)
  qed
  define s1 where "s1 = upd_buf b (\<lambda>x. x\<lparr>b_flags := b_flags x AND NOT (BBUSY OR BWANT)\<rparr>) (s\<lparr>plist := pl, resched := r\<rparr>)"
  obtain c bl where t: "btime s1 = (c, s1\<lparr>bclock := c, blist := bl\<rparr>)" and bl: "\<And>j. btm (blist s1 j) (bl j)"
    by (rule btime_spec [of s1]) blast
  let ?s' = "upd_buf b (\<lambda>x. x\<lparr>b_time := c\<rparr>) (s1\<lparr>bclock := c, blist := bl\<rparr>)"
  have tb: "btm (bl b) ((bl b)\<lparr>b_time := c\<rparr>)" by (simp add: btm_def)
  show thesis
  proof (rule that [of ?s'])
    show "brelse b s = Ret () ?s'"
      using assms(2) t w by (simp add: brelse_def bbusy_def s1_def flip: w_def)
    show "bframe s ?s'" using fr by (simp add: bframe_def s1_def upd_buf_def)
    show "disk ?s' = disk s" "u ?s' = u s" by (simp_all add: s1_def upd_buf_def)
    show "btm (blist s j) (blist ?s' j)" if "j \<noteq> b" for j
      using bl [of j] that by (simp add: upd_buf_def s1_def)
    show "btm ((blist s b)\<lparr>b_flags := b_flags (blist s b) AND NOT (BBUSY OR BWANT)\<rparr>) (blist ?s' b)"
      using btm_trans [OF bl [of b] tb] by (simp add: upd_buf_def s1_def)
  qed
qed

lemma drv_okD:
  assumes "drv_ok s" and "vdev d"
  shows "drv s (bmajor d) True d k x dk = (0, dk d k, dk)"
    and "drv s (bmajor d) False d k x dk = (0, x, dk(d := (dk d)(k := x)))"
    and "bmajor d \<noteq> 0" and "bmajor d \<noteq> Suc 0"
  using assms unfolding drv_ok_def vdev_def by auto

lemma upd_buf_sel [simp]:
  "disk (upd_buf b f s) = disk s" "nbuf (upd_buf b f s) = nbuf s" "drv (upd_buf b f s) = drv s"
  "u (upd_buf b f s) = u s" "plist (upd_buf b f s) = plist s" "swapok (upd_buf b f s) = swapok s"
  "blist (upd_buf b f s) = (blist s)(b := f (blist s b))" "bframe s (upd_buf b f s)"
  by (simp_all add: upd_buf_def swapok_def bframe_def)

lemma upd_buf_upd_buf [simp]: "upd_buf b f (upd_buf b g s) = upd_buf b (\<lambda>x. f (g x)) s"
  by (simp add: upd_buf_def)

text \<open>A synchronous transfer: the strategy routine has completed it when it returns.\<close>

lemma strat_write:
  assumes "swapok s" "drv_ok s" "vdev (b_dev (blist s b))" "\<not> tst (b_flags (blist s b)) BREAD"
    "tst (b_flags (blist s b)) BSYNC"
  obtains s' fl where "strat b s = Ret () s'" "bframe s s'" "u s' = u s"
    "disk s' = (disk s)(b_dev (blist s b) := (disk s (b_dev (blist s b)))(b_blk (blist s b) := b_data (blist s b)))"
    "blist s' = (blist s)(b := (blist s b)\<lparr>b_error := 0, b_count := 512, b_flags := fl\<rparr>)"
    "tst fl BDONE" "\<not> tst fl BDELWRI" "tst fl BBUSY" "\<not> tst fl BERROR" "tst fl BLOCK = tst (b_flags (blist s b)) BLOCK"
proof -
  let ?x = "blist s b" and ?m = "bmajor (b_dev (blist s b))"
  let ?dk = "(disk s)(b_dev ?x := (disk s (b_dev ?x))(b_blk ?x := b_data ?x))"
  define fl where "fl = (((b_flags ?x OR BBUSY) AND NOT (BDONE OR BERROR)) OR BDONE) AND NOT BDELWRI"
  define s3 where "s3 = upd_buf b (\<lambda>x. x\<lparr>b_error := 0, b_count := 512, b_flags := fl\<rparr>) (s\<lparr>disk := ?dk\<rparr>)"
  note d = drv_okD [OF assms(2,3)]
  have "strat b s = wakeup (ChBuf b) s3"
    using assms(4,5) d by (simp add: strat_def drvstrat_def iodone_def Let_def s3_def fl_def upd_buf_def)
  moreover have "swapok s3" using assms(1) by (simp add: s3_def swapok_def)
  then obtain pl r where "wakeup (ChBuf b) s3 = Ret () (s3\<lparr>plist := pl, resched := r\<rparr>)"
    "\<forall>q. pl q = plist s3 q \<or> pl q = awk (plist s3 q)"
    using wakeup_ret by blast
  ultimately show thesis
    by (intro that [of "s3\<lparr>plist := pl, resched := r\<rparr>" fl])
      (simp_all add: s3_def upd_buf_def bframe_def, simp_all add: fl_def)
qed

lemma strat_read:
  assumes "swapok s" "drv_ok s" "vdev (b_dev (blist s b))" "tst (b_flags (blist s b)) BREAD"
    "tst (b_flags (blist s b)) BSYNC"
  obtains s' fl where "strat b s = Ret () s'" "bframe s s'" "u s' = u s" "disk s' = disk s"
    "blist s' = (blist s)(b := (blist s b)\<lparr>b_error := 0, b_count := 512,
       b_data := disk s (b_dev (blist s b)) (b_blk (blist s b)), b_flags := fl\<rparr>)"
    "tst fl BDONE" "\<not> tst fl BDELWRI" "tst fl BBUSY" "\<not> tst fl BERROR" "tst fl BLOCK = tst (b_flags (blist s b)) BLOCK"
proof -
  let ?x = "blist s b" and ?m = "bmajor (b_dev (blist s b))"
  define fl where "fl = (((b_flags ?x OR BBUSY) AND NOT (BDONE OR BERROR)) OR BDONE) AND NOT BDELWRI"
  define s3 where "s3 = upd_buf b (\<lambda>x. x\<lparr>b_error := 0, b_count := 512,
      b_data := disk s (b_dev ?x) (b_blk ?x), b_flags := fl\<rparr>) s"
  note d = drv_okD [OF assms(2,3)]
  have "strat b s = wakeup (ChBuf b) s3"
    using assms(4,5) d by (simp add: strat_def drvstrat_def iodone_def Let_def s3_def fl_def upd_buf_def)
  moreover have "swapok s3" using assms(1) by (simp add: s3_def)
  then obtain pl r where "wakeup (ChBuf b) s3 = Ret () (s3\<lparr>plist := pl, resched := r\<rparr>)"
    "\<forall>q. pl q = plist s3 q \<or> pl q = awk (plist s3 q)"
    using wakeup_ret by blast
  ultimately show thesis
    by (intro that [of "s3\<lparr>plist := pl, resched := r\<rparr>" fl])
      (simp_all add: s3_def upd_buf_def bframe_def, simp_all add: fl_def)
qed

section \<open>Changing one buffer\<close>

text \<open>
  The operations change one buffer \<open>b\<close> and the time stamps of others. The invariant and the abstract
  disk afterwards depend on that buffer only.
\<close>

lemma cinv_one:
  assumes inv: "cinv M s" and b: "b < nbuf s" and nb: "nbuf s' = nbuf s"
    and others: "\<And>j. j \<noteq> b \<Longrightarrow> btm (blist s j) (blist s' j)"
    and same: "holds (blist s' b) = holds (blist s b)"
    and dk: "\<And>d k. vdev d \<Longrightarrow> \<not> holds (blist s b) d k \<Longrightarrow> disk s' d k = disk s d k"
    and del: "bdel (blist s' b) \<Longrightarrow> bdone (blist s' b) \<and> vdev (b_dev (blist s' b))"
    and clean: "b \<notin> M' \<Longrightarrow> vdev (b_dev (blist s' b)) \<Longrightarrow> bdone (blist s' b) \<Longrightarrow> \<not> bdel (blist s' b) \<Longrightarrow>
       b_data (blist s' b) = disk s' (b_dev (blist s' b)) (b_blk (blist s' b))"
    and err: "\<not> berr (blist s' b)" and M: "M - {b} \<subseteq> M'"
  shows "cinv M' s'"
proof -
  have hs: "holds (blist s' j) = holds (blist s j)" for j
    using others [THEN btm_fields(6), of j] same by (cases "j = b") auto
  have "\<not> (i \<noteq> j \<and> vdev d \<and> holds (blist s' i) d k \<and> holds (blist s' j) d k)"
    if "i < nbuf s" "j < nbuf s" for i j d k
    using cinvD(1) [OF inv that] unfolding hs by blast
  moreover have "bdel (blist s' i) \<longrightarrow> bdone (blist s' i) \<and> vdev (b_dev (blist s' i))" if "i < nbuf s" for i
    using cinvD(2,3) [OF inv that] del btm_fields [OF others, of i] by (cases "i = b") auto
  moreover have "b_data (blist s' i) = disk s' (b_dev (blist s' i)) (b_blk (blist s' i))"
    if "i < nbuf s" "i \<notin> M'" "vdev (b_dev (blist s' i))" "bdone (blist s' i)" "\<not> bdel (blist s' i)" for i
  proof (cases "i = b")
    case True with clean that show ?thesis by blast
  next
    case False
    note f = btm_fields [OF others [OF False]]
    have "\<not> holds (blist s b) (b_dev (blist s i)) (b_blk (blist s i))"
      using cinvD(1) [OF inv b that(1)] False that(3) unfolding f holds_def by blast
    with that M False show ?thesis using cinvD(4) [OF inv that(1)] by (auto simp: f dk)
  qed
  moreover have "\<not> berr (blist s' i)" if "i < nbuf s" for i
    using cinvD(5) [OF inv that] err btm_fields(11) [OF others, of i] by (cases "i = b") auto
  ultimately show ?thesis unfolding cinv_def nb by blast
qed

lemma view_other:
  assumes inv: "cinv M s" "cinv M' s'" and nb: "nbuf s' = nbuf s"
    and others: "\<And>j. j \<noteq> b \<Longrightarrow> btm (blist s j) (blist s' j)"
    and same: "holds (blist s' b) = holds (blist s b)"
    and dk: "\<And>d k. \<not> (vdev d \<and> holds (blist s b) d k) \<Longrightarrow> disk s' d k = disk s d k"
    and not: "\<not> (vdev d \<and> holds (blist s b) d k)"
  shows "view s' d k = view s d k"
proof (cases "\<exists>i<nbuf s. vdev d \<and> holds (blist s i) d k \<and> bdone (blist s i)")
  case True
  then obtain i where i: "i < nbuf s" "vdev d" "holds (blist s i) d k" "bdone (blist s i)" by blast
  with not have "i \<noteq> b" by blast
  note f = btm_fields [OF others [OF this]]
  from i view_hit [OF inv(1), of i] view_hit [OF inv(2), of i] show ?thesis by (simp add: f nb)
next
  case False
  have "\<not> bdone (blist s' i)" if "i < nbuf s'" "vdev d" "holds (blist s' i) d k" for i
    using that False not same btm_fields [OF others, of i] nb by (cases "i = b") auto
  with False show ?thesis by (subst view_miss, blast, subst view_miss, blast, simp add: dk not)
qed

lemma view_one:
  assumes inv: "cinv M s" "cinv M' s'" and b: "b < nbuf s" "vdev (b_dev (blist s b))" and nb: "nbuf s' = nbuf s"
    and others: "\<And>j. j \<noteq> b \<Longrightarrow> btm (blist s j) (blist s' j)"
    and same: "holds (blist s' b) = holds (blist s b)"
    and dk: "\<And>d k. \<not> holds (blist s b) d k \<Longrightarrow> disk s' d k = disk s d k"
    and dn: "bdone (blist s' b)"
  shows "view s' = (view s)(b_dev (blist s b) := (view s (b_dev (blist s b)))(b_blk (blist s b) := b_data (blist s' b)))"
proof (intro ext)
  fix d k x
  let ?v = "(view s)(b_dev (blist s b) := (view s (b_dev (blist s b)))(b_blk (blist s b) := b_data (blist s' b)))"
  have "view s' d k = ?v d k"
  proof (cases "holds (blist s b) d k")
    case True
    then have "view s' d k = b_data (blist s' b)"
      using b same dn nb by (intro view_hit [OF inv(2)]) (auto simp: holds_def)
    with True show ?thesis by (simp add: holds_def)
  next
    case False
    have "disk s' d k = disk s d k" if "\<not> (vdev d \<and> holds (blist s b) d k)" for d k
      using that b(2) dk [of d k] by (auto simp: holds_def)
    with False have "view s' d k = view s d k"
      using others by (intro view_other [OF inv nb _ same]) auto
    with False show ?thesis by (auto simp: holds_def)
  qed
  then show "view s' d k x = ?v d k x" by simp
qed

section \<open>The operations on the abstract disk\<close>

text \<open>A working kernel: the swap process is in core, the drives work, the cache is consistent.\<close>

definition cok :: "nat set \<Rightarrow> kst \<Rightarrow> bool" where
  "cok M s \<longleftrightarrow> swapok s \<and> drv_ok s \<and> cinv M s"

definition lckd :: "kst \<Rightarrow> nat set" where
  "lckd s = {i. i < nbuf s \<and> blocked (blist s i)}"

lemma avail_alt: "avail s = {..<nbuf s} - held s - lckd s"
  by (auto simp: avail_def held_def lckd_def)

lemma cok_frame:
  assumes "cok M s" "bframe s s'" "cinv M' s'"
  shows "cok M' s'"
proof -
  have "drv_ok s' = drv_ok s" by (simp add: drv_ok_def bframe_same(2) [OF assms(2)])
  with assms bframe_swapok [OF assms(2)] show ?thesis by (simp add: cok_def)
qed

lemma held_one:
  assumes "nbuf s' = nbuf s" "\<And>j. j \<noteq> b \<Longrightarrow> btm (blist s j) (blist s' j)" "b < nbuf s"
  shows "held s' = (if bbusy (blist s' b) then insert b (held s) else held s - {b})"
    and "blocked (blist s' b) = blocked (blist s b) \<Longrightarrow> lckd s' = lckd s"
  using assms(1,3) btm_fields(9,10) [OF assms(2)] unfolding held_def lckd_def by (auto, metis+)

text \<open>
  \<^verbatim>\<open>brelse\<close> gives a buffer back that its holder has not left modified.
\<close>

lemma brelse_spec:
  assumes ok: "cok M s" and b: "b \<in> held s" "b \<notin> M"
  shows "\<exists>s'. brelse b s = Ret () s' \<and> bframe s s' \<and> cok M s' \<and> view s' = view s \<and> disk s' = disk s \<and> u s' = u s \<and>
    held s' = held s - {b} \<and> lckd s' = lckd s \<and> (\<forall>j. j \<noteq> b \<longrightarrow> btm (blist s j) (blist s' j)) \<and>
    btm ((blist s b)\<lparr>b_flags := b_flags (blist s b) AND NOT (BBUSY OR BWANT)\<rparr>) (blist s' b)"
proof -
  from ok have ci: "cinv M s" and sw: "swapok s" by (auto simp: cok_def)
  from b have bb: "bbusy (blist s b)" "b < nbuf s" by (auto simp: held_def)
  from sw bb(1) obtain s' where r: "brelse b s = Ret () s'" "bframe s s'" "disk s' = disk s" "u s' = u s"
    and oth: "\<And>j. j \<noteq> b \<Longrightarrow> btm (blist s j) (blist s' j)"
    and one: "btm ((blist s b)\<lparr>b_flags := b_flags (blist s b) AND NOT (BBUSY OR BWANT)\<rparr>) (blist s' b)"
    by (rule brelse_ret) blast
  have f: "holds (blist s' b) = holds (blist s b)" "bdone (blist s' b) = bdone (blist s b)"
    "bdel (blist s' b) = bdel (blist s b)" "blocked (blist s' b) = blocked (blist s b)" "\<not> bbusy (blist s' b)"
    "berr (blist s' b) = berr (blist s b)" "b_data (blist s' b) = b_data (blist s b)"
    "b_dev (blist s' b) = b_dev (blist s b)" "b_blk (blist s' b) = b_blk (blist s b)"
    unfolding btm_fields [OF one] by (simp_all add: fun_eq_iff holds_def bflag_defs)
  have nb: "nbuf s' = nbuf s" using r(2) by (rule bframe_same)
  have ci': "cinv M s'"
    by (rule cinv_one [OF ci bb(2) nb oth f(1)])
      (use cinvD [OF ci bb(2)] b r(3) in \<open>auto simp: f\<close>)
  have "view s' = view s"
  proof (rule view_cong [OF nb r(3)])
    show "holds (blist s' j) = holds (blist s j)" "bdone (blist s' j) = bdone (blist s j)"
      "b_data (blist s' j) = b_data (blist s j)" for j
      using f btm_fields [OF oth, of j] by (cases "j = b"; simp)+
  qed
  moreover have "held s' = held s - {b}" "lckd s' = lckd s" using held_one [OF nb oth bb(2)] f by simp_all
  ultimately show ?thesis using r oth one cok_frame [OF ok r(2) ci'] by blast
qed

text \<open>\<^verbatim>\<open>bwrite\<close> writes a held buffer through to the disk and releases it.\<close>

lemma bwrite_spec:
  assumes ok: "cok M s" and b: "b \<in> held s" and v: "vdev (b_dev (blist s b))"
  shows "\<exists>s'. bwrite b s = Ret () s' \<and> bframe s s' \<and> cok (M - {b}) s' \<and> u s' = u s \<and>
    view s' = (view s)(b_dev (blist s b) := (view s (b_dev (blist s b)))(b_blk (blist s b) := b_data (blist s b))) \<and>
    disk s' = (disk s)(b_dev (blist s b) := (disk s (b_dev (blist s b)))(b_blk (blist s b) := b_data (blist s b))) \<and>
    held s' = held s - {b} \<and> lckd s' = lckd s \<and> (\<forall>j. j \<noteq> b \<longrightarrow> btm (blist s j) (blist s' j)) \<and>
    bdone (blist s' b) \<and> \<not> bdel (blist s' b) \<and> holds (blist s' b) = holds (blist s b) \<and> b_data (blist s' b) = b_data (blist s b)"
proof -
  let ?x = "blist s b"
  from ok have ci: "cinv M s" and sw: "swapok s" and dr: "drv_ok s" by (auto simp: cok_def)
  from b have bb: "bbusy ?x" "b < nbuf s" by (auto simp: held_def)
  define s1 where "s1 = upd_buf b (\<lambda>x. x\<lparr>b_flags := (b_flags x OR BSYNC) AND NOT BREAD\<rparr>) s"
  have "swapok s1" "drv_ok s1" "vdev (b_dev (blist s1 b))" "\<not> tst (b_flags (blist s1 b)) BREAD" "tst (b_flags (blist s1 b)) BSYNC"
    using sw dr v by (simp_all add: s1_def drv_ok_def)
  then obtain s2 fl where st: "strat b s1 = Ret () s2" "bframe s1 s2" "u s2 = u s1"
    and dk: "disk s2 = (disk s1)(b_dev (blist s1 b) := (disk s1 (b_dev (blist s1 b)))(b_blk (blist s1 b) := b_data (blist s1 b)))"
    and bl: "blist s2 = (blist s1)(b := (blist s1 b)\<lparr>b_error := 0, b_count := 512, b_flags := fl\<rparr>)"
    and fl: "tst fl BDONE" "\<not> tst fl BDELWRI" "tst fl BBUSY" "\<not> tst fl BERROR" "tst fl BLOCK = tst (b_flags (blist s1 b)) BLOCK"
    by (rule strat_write) blast
  have fr: "bframe s s2" using st(2) by (rule bframe_trans [rotated]) (simp add: s1_def)
  have nb: "nbuf s2 = nbuf s" using fr by (rule bframe_same)
  have f: "holds (blist s2 b) = holds ?x" "bdone (blist s2 b)" "\<not> bdel (blist s2 b)" "bbusy (blist s2 b)"
    "blocked (blist s2 b) = blocked ?x" "\<not> berr (blist s2 b)" "b_data (blist s2 b) = b_data ?x"
    "b_dev (blist s2 b) = b_dev ?x" "b_blk (blist s2 b) = b_blk ?x"
    using fl by (simp_all add: bl s1_def fun_eq_iff holds_def bflag_defs)
  have dk2: "disk s2 = (disk s)(b_dev ?x := (disk s (b_dev ?x))(b_blk ?x := b_data ?x))" using dk by (simp add: s1_def)
  have oth: "btm (blist s j) (blist s2 j)" if "j \<noteq> b" for j using that by (simp add: bl s1_def)
  have ci2: "cinv (M - {b}) s2"
    by (rule cinv_one [OF ci bb(2) nb oth f(1)]) (use v f dk2 in \<open>auto simp: holds_def\<close>)
  have dko: "disk s2 d k = disk s d k" if "\<not> holds ?x d k" for d k using that by (auto simp: dk2 holds_def)
  have vw: "view s2 = (view s)(b_dev ?x := (view s (b_dev ?x))(b_blk ?x := b_data ?x))"
    using view_one [OF ci ci2 bb(2) v nb oth f(1) dko f(2)] by (simp add: f)
  have h2: "held s2 = held s" "lckd s2 = lckd s" using held_one [OF nb oth bb(2)] b f by auto
  with b have "b \<in> held s2" by simp
  from brelse_spec [OF cok_frame [OF ok fr ci2] this] obtain s' where r: "brelse b s2 = Ret () s'" "bframe s2 s'"
    "cok (M - {b}) s'" "view s' = view s2" "disk s' = disk s2" "u s' = u s2" "held s' = held s2 - {b}" "lckd s' = lckd s2"
    "\<forall>j. j \<noteq> b \<longrightarrow> btm (blist s2 j) (blist s' j)"
    and one: "btm ((blist s2 b)\<lparr>b_flags := b_flags (blist s2 b) AND NOT (BBUSY OR BWANT)\<rparr>) (blist s' b)" by auto
  have f': "bdone (blist s' b)" "\<not> bdel (blist s' b)" "holds (blist s' b) = holds ?x" "b_data (blist s' b) = b_data ?x"
    using f unfolding btm_fields [OF one] by (simp_all add: fun_eq_iff holds_def bflag_defs)
  have "bwrite b s = Ret () s'"
    using st(1) r(1) f(2) unfolding bwrite_def s1_def [symmetric] by (simp add: bwait_def bdone_def)
  moreover have "\<forall>j. j \<noteq> b \<longrightarrow> btm (blist s j) (blist s' j)" using r(9) oth btm_trans by blast
  ultimately show ?thesis
    using r vw dk2 h2 f' st(3) bframe_trans [OF fr r(2)] by (simp add: s1_def)
qed

text \<open>
  \<^verbatim>\<open>bget\<close>. The search finds the buffer of the block, or else a buffer that is neither busy nor locked.
\<close>

lemma bscan_Inl: "bscan bl blk dev bs f = Inl b \<Longrightarrow> b \<in> set bs \<and> holds (bl b) dev blk"
  by (induction bs arbitrary: f) (auto simp: holds_def split: if_splits)

lemma bscan_Inr:
  assumes "bscan bl blk dev bs f = Inr r"
  shows "(\<forall>b\<in>set bs. \<not> holds (bl b) dev blk) \<and>
    (case r of None \<Rightarrow> f = None \<and> (\<forall>b\<in>set bs. bbusy (bl b) \<or> blocked (bl b))
     | Some b \<Rightarrow> f = Some b \<or> b \<in> set bs \<and> \<not> bbusy (bl b) \<and> \<not> blocked (bl b))"
  using assms
proof (induction bs arbitrary: f)
  case (Cons a bs)
  show ?case
  proof (cases "bbusy (bl a) \<or> blocked (bl a)")
    case True
    then have "tst (b_flags (bl a)) (BBUSY OR BLOCK)" by (simp only: tst_busy_lock)
    with Cons.prems have "\<not> holds (bl a) dev blk" "bscan bl blk dev bs f = Inr r" by (auto simp: holds_def split: if_splits)
    with Cons.IH [OF this(2)] True show ?thesis by (auto split: option.splits)
  next
    case False
    then have "\<not> tst (b_flags (bl a)) (BBUSY OR BLOCK)" unfolding tst_busy_lock .
    with Cons.prems obtain g where "\<not> holds (bl a) dev blk" "bscan bl blk dev bs (Some g) = Inr r" "f = Some g \<or> g = a"
      by (auto simp: holds_def split: if_splits option.splits)
    with Cons.IH [OF this(2)] False show ?thesis by (auto split: option.splits)
  qed
qed (auto split: option.splits)

definition ndel :: "kst \<Rightarrow> nat" where
  "ndel s = card {i. i < nbuf s \<and> bdel (blist s i)}"

text \<open>The buffer \<open>b\<close> was taken for block \<open>k\<close> of device \<open>d\<close>.\<close>

definition taken :: "nat set \<Rightarrow> nat \<Rightarrow> u16 \<Rightarrow> u16 \<Rightarrow> kst \<Rightarrow> kst \<Rightarrow> bool" where
  "taken M b d k s s' \<longleftrightarrow> bframe s s' \<and> cok M s' \<and> view s' = view s \<and> b < nbuf s \<and> b \<notin> held s \<and>
     holds (blist s' b) d k \<and> held s' = insert b (held s) \<and> lckd s' = lckd s \<and>
     (\<forall>j\<in>held s. btm (blist s j) (blist s' j))"

lemma block_free:
  assumes ok: "cok M s" and b: "b < nbuf s" "\<not> bbusy (blist s b)"
  defines "s' \<equiv> upd_buf b (\<lambda>x. x\<lparr>b_flags := b_flags x OR BBUSY\<rparr>) s"
  shows "block b s = Ret () s'" "bframe s s'" "cok M s'" "view s' = view s" "held s' = insert b (held s)"
    "lckd s' = lckd s" "\<And>j. j \<noteq> b \<Longrightarrow> blist s' j = blist s j" "holds (blist s' b) = holds (blist s b)"
    "bdel (blist s' b) = bdel (blist s b)" "bdone (blist s' b) = bdone (blist s b)" "ndel s' = ndel s"
proof -
  show "block b s = Ret () s'" using b by (simp add: block_def bbusy_def s'_def)
  show fr: "bframe s s'" by (simp add: s'_def)
  have f: "holds (blist s' j) = holds (blist s j)" "bdone (blist s' j) = bdone (blist s j)"
    "bdel (blist s' j) = bdel (blist s j)" "blocked (blist s' j) = blocked (blist s j)"
    "berr (blist s' j) = berr (blist s j)" "b_data (blist s' j) = b_data (blist s j)"
    "b_dev (blist s' j) = b_dev (blist s j)" "b_blk (blist s' j) = b_blk (blist s j)" for j
    by (simp_all add: s'_def fun_eq_iff holds_def bflag_defs)
  have s: "nbuf s' = nbuf s" "disk s' = disk s" by (simp_all add: s'_def)
  show "holds (blist s' b) = holds (blist s b)" "bdel (blist s' b) = bdel (blist s b)"
    "bdone (blist s' b) = bdone (blist s b)" "ndel s' = ndel s" by (simp_all add: f ndel_def s)
  show "lckd s' = lckd s" by (simp add: lckd_def s f)
  show "held s' = insert b (held s)" using b by (auto simp: held_def s'_def bflag_defs)
  show "view s' = view s" by (rule view_cong) (simp_all add: s f)
  show "\<And>j. j \<noteq> b \<Longrightarrow> blist s' j = blist s j" by (simp add: s'_def)
  have "cinv M s'" using ok unfolding cok_def cinv_def f s by blast
  then show "cok M s'" by (rule cok_frame [OF ok fr])
qed

text \<open>A miss: the chosen buffer has no delayed write and is given the new block number.\<close>

lemma bget_evict:
  assumes ok: "cok M s" and M: "M \<subseteq> held s" and v: "vdev d"
    and b: "b < nbuf s" "\<not> bbusy (blist s b)" "\<not> bdel (blist s b)"
    and miss: "\<And>i. i < nbuf s \<Longrightarrow> \<not> holds (blist s i) d k"
  defines "s' \<equiv> upd_buf b (\<lambda>x. x\<lparr>b_blk := k, b_dev := d, b_flags := b_flags x AND NOT BDONE\<rparr>)
      (upd_buf b (\<lambda>x. x\<lparr>b_flags := b_flags x OR BBUSY\<rparr>) s)"
  shows "taken M b d k s s'"
proof -
  have ci: "cinv M s" using ok by (simp add: cok_def)
  have bM: "b \<notin> M" "b \<notin> held s" using M b by (auto simp: held_def)
  have s: "nbuf s' = nbuf s" "disk s' = disk s" and fr: "bframe s s'" by (simp_all add: s'_def)
  have oth: "blist s' j = blist s j" if "j \<noteq> b" for j using that by (simp add: s'_def)
  have f: "\<not> bdone (blist s' b)" "\<not> bdel (blist s' b)" "bbusy (blist s' b)" "\<not> berr (blist s' b)"
    "blocked (blist s' b) = blocked (blist s b)" "b_dev (blist s' b) = d" "b_blk (blist s' b) = k"
    using b(3) cinvD(5) [OF ci b(1)] by (simp_all add: s'_def bflag_defs)
  have ci': "cinv M s'"
  proof -
    have "\<not> (i \<noteq> j \<and> vdev d' \<and> holds (blist s' i) d' k' \<and> holds (blist s' j) d' k')"
      if "i < nbuf s" "j < nbuf s" for i j d' k'
      using cinvD(1) [OF ci that] miss that f(6,7) oth unfolding holds_def by metis
    moreover have "bdel (blist s' i) \<longrightarrow> bdone (blist s' i) \<and> vdev (b_dev (blist s' i))" if "i < nbuf s" for i
      using cinvD(2,3) [OF ci that] f oth [of i] by (cases "i = b") auto
    moreover have "i \<notin> M \<longrightarrow> vdev (b_dev (blist s' i)) \<longrightarrow> bdone (blist s' i) \<longrightarrow> \<not> bdel (blist s' i) \<longrightarrow>
        b_data (blist s' i) = disk s (b_dev (blist s' i)) (b_blk (blist s' i))" if "i < nbuf s" for i
      using cinvD(4) [OF ci that] f oth [of i] by (cases "i = b") auto
    moreover have "\<not> berr (blist s' i)" if "i < nbuf s" for i
      using cinvD(5) [OF ci that] f oth [of i] by (cases "i = b") auto
    ultimately show ?thesis unfolding cinv_def s by blast
  qed
  have "view s' d' k' = view s d' k'" for d' k'
  proof (cases "\<exists>i<nbuf s. vdev d' \<and> holds (blist s' i) d' k' \<and> bdone (blist s' i)")
    case True
    then obtain i where i: "i < nbuf s" "vdev d'" "holds (blist s' i) d' k'" "bdone (blist s' i)" by blast
    with f(1) have "i \<noteq> b" by auto
    with i oth view_hit [OF ci' _ i(2,3,4)] view_hit [OF ci i(1,2), of k'] show ?thesis by (simp add: s)
  next
    case False
    then have l: "view s' d' k' = disk s d' k'" by (subst view_miss) (auto simp: s)
    show ?thesis
    proof (cases "vdev d' \<and> holds (blist s b) d' k' \<and> bdone (blist s b)")
      case True
      with view_hit [OF ci b(1)] cinvD(4) [OF ci b(1) bM(1)] b(3) l show ?thesis by (auto simp: holds_def)
    next
      case nb: False
      have "\<not> bdone (blist s i)" if "i < nbuf s" "vdev d'" "holds (blist s i) d' k'" for i
        using that False nb oth by metis
      with l show ?thesis by (subst view_miss) auto
    qed
  qed
  then have "view s' = view s" by blast
  moreover have "held s' = insert b (held s)" using b oth f(3) s by (auto simp: held_def) (metis)+
  moreover have "lckd s' = lckd s" using oth f(5) s by (auto simp: lckd_def) (metis)+
  moreover have "\<forall>j\<in>held s. btm (blist s j) (blist s' j)" using bM(2) oth by (metis btm_refl)
  ultimately show ?thesis
    using cok_frame [OF ok fr ci'] fr b(1) bM f unfolding taken_def by (simp add: holds_def)
qed

lemma held_sub: "\<not> bbusy (blist s b) \<Longrightarrow> b \<notin> held s"
  by (simp add: held_def)

lemma bget_loop_spec:
  assumes "cok M s" "M \<subseteq> held s" "vdev d" "\<And>i. i < nbuf s \<Longrightarrow> holds (blist s i) d k \<Longrightarrow> \<not> bbusy (blist s i)"
    "avail s \<noteq> {}" "ndel s < n"
  shows "\<exists>b s'. bget_loop n k d s = Ret b s' \<and> taken M b d k s s' \<and> u s' = u s \<and>
    ((\<forall>i<nbuf s. \<not> holds (blist s i) d k) \<longrightarrow> \<not> bdone (blist s' b))"
  using assms
proof (induction n arbitrary: s)
  case (Suc n)
  note ok = Suc.prems(1)
  show ?case
  proof (cases "bscan (blist s) k d [0..<nbuf s] None")
    case (Inl b)
    from bscan_Inl [OF this] have b: "b < nbuf s" "holds (blist s b) d k" by auto
    with Suc.prems have nb: "\<not> bbusy (blist s b)" by blast
    note bf = block_free [OF ok b(1) nb]
    let ?s' = "upd_buf b (\<lambda>x. x\<lparr>b_flags := b_flags x OR BBUSY\<rparr>) s"
    have "bget_loop (Suc n) k d s = Ret b ?s'" using Inl bf(1) by simp
    moreover have "btm (blist s j) (blist ?s' j)" if "j \<in> held s" for j
      using that held_sub [OF nb] by (cases "j = b") simp_all
    then have "taken M b d k s ?s'"
      unfolding taken_def by (intro conjI bf(2,3,4,5,6) held_sub nb b(1)) (simp_all only: bf(8) b(2), blast)
    ultimately show ?thesis using b by (intro exI conjI) (assumption | simp | blast)+
  next
    case (Inr r)
    note sc = bscan_Inr [OF Inr]
    with Suc.prems(5) obtain b where r: "r = Some b" by (cases r) (auto simp: avail_def)
    with sc have b: "b < nbuf s" "\<not> bbusy (blist s b)" "\<not> blocked (blist s b)"
      and miss: "\<And>i. i < nbuf s \<Longrightarrow> \<not> holds (blist s i) d k" by auto
    note bf = block_free [OF ok b(1,2)]
    let ?s1 = "upd_buf b (\<lambda>x. x\<lparr>b_flags := b_flags x OR BBUSY\<rparr>) s"
    show ?thesis
    proof (cases "bdel (blist s b)")
      case False
      let ?s2 = "upd_buf b (\<lambda>x. x\<lparr>b_blk := k, b_dev := d, b_flags := b_flags x AND NOT BDONE\<rparr>) ?s1"
      have "\<not> tst (b_flags (blist ?s1 b)) BDELWRI" using False by (simp add: bflag_defs)
      then have "bget_loop (Suc n) k d s = Ret b ?s2" using Inr r bf(1) by simp
      moreover have "taken M b d k s ?s2" by (rule bget_evict [OF ok Suc.prems(2,3) b(1,2) False miss])
      moreover have "\<not> bdone (blist ?s2 b)" by (simp add: bflag_defs)
      ultimately show ?thesis by (intro exI conjI impI) (assumption | simp)+
    next
      case True
      have del: "tst (b_flags (blist ?s1 b)) BDELWRI" using True by (simp add: bflag_defs)
      have x: "vdev (b_dev (blist ?s1 b))" "b \<in> held ?s1" "bdone (blist s b)"
        using cinvD(2,3) [of M s b] ok True b bf(5) by (auto simp: cok_def)
      obtain s2 where w: "bwrite b ?s1 = Ret () s2" "bframe ?s1 s2" "cok (M - {b}) s2" "u s2 = u ?s1"
        "view s2 = (view ?s1)(b_dev (blist ?s1 b) := (view ?s1 (b_dev (blist ?s1 b)))(b_blk (blist ?s1 b) := b_data (blist ?s1 b)))"
        "held s2 = held ?s1 - {b}" "lckd s2 = lckd ?s1" "\<forall>j. j \<noteq> b \<longrightarrow> btm (blist ?s1 j) (blist s2 j)"
        "\<not> bdel (blist s2 b)" "holds (blist s2 b) = holds (blist ?s1 b)"
        using bwrite_spec [OF bf(3) x(2,1)] by blast
      have bM: "b \<notin> M" "b \<notin> held s" using Suc.prems(2) b(2) by (auto simp: held_def)
      have fr: "bframe s s2" using bframe_trans [OF bf(2) w(2)] .
      have "b_data (blist s b) = view s (b_dev (blist s b)) (b_blk (blist s b))"
        using view_hit [OF _ b(1) _ _ x(3), of M] x(1) ok by (simp add: cok_def holds_def)
      then have vw: "view s2 = view s" using w(5) bf(4) by simp
      have h: "held s2 = held s" "lckd s2 = lckd s" using w bf bM by auto
      have oth: "btm (blist s j) (blist s2 j)" if "j \<noteq> b" for j using w(8) that by simp
      have nbf: "nbuf s2 = nbuf s" using fr by (rule bframe_same)
      have ok2: "cok M s2" using w(3) bM by simp
      have M2: "M \<subseteq> held s2" using Suc.prems h by simp
      have miss2: "\<not> holds (blist s2 i) d k" if "i < nbuf s2" for i
        using miss that oth w(10) bf(8) nbf btm_fields(6) by metis
      have av: "avail s2 \<noteq> {}" using Suc.prems(5) h nbf by (simp add: avail_alt)
      have "bdel (blist s2 i) \<longrightarrow> bdel (blist s i)" for i using True btm_fields(8) [OF oth, of i] by (cases "i = b") auto
      then have "{i. i < nbuf s2 \<and> bdel (blist s2 i)} \<subset> {i. i < nbuf s \<and> bdel (blist s i)}"
        using True b(1) w(9) unfolding nbf by blast
      from psubset_card_mono [OF _ this] Suc.prems(6) have "ndel s2 < n" unfolding ndel_def by simp
      with Suc.IH [OF ok2 M2 Suc.prems(3) _ av] miss2 obtain b' s' where
        l: "bget_loop n k d s2 = Ret b' s'" and t: "taken M b' d k s2 s'" "u s' = u s2" "\<not> bdone (blist s' b')" by blast
      have "bget_loop (Suc n) k d s = Ret b' s'" using Inr r bf(1) del w(1) l by simp
      moreover have "\<forall>j\<in>held s. btm (blist s j) (blist s' j)"
        using t(1) oth bM(2) h btm_trans unfolding taken_def by metis
      then have "taken M b' d k s s'"
        using t(1) bframe_trans [OF fr] unfolding taken_def by (simp add: vw h nbf)
      ultimately show ?thesis using t(2,3) w(4) by simp
    qed
  qed
qed simp

lemma ndel_le: "ndel s \<le> nbuf s"
  unfolding ndel_def using card_mono [of "{..<nbuf s}" "{i. i < nbuf s \<and> bdel (blist s i)}"] by auto

lemma bget_spec_miss:
  assumes "cok M s" "M \<subseteq> held s" "vdev d" "\<And>i. i \<in> held s \<Longrightarrow> \<not> holds (blist s i) d k" "avail s \<noteq> {}"
  shows "\<exists>b s'. bget k d s = Ret b s' \<and> taken M b d k s s' \<and> u s' = u s \<and>
    ((\<forall>i<nbuf s. \<not> holds (blist s i) d k) \<longrightarrow> \<not> bdone (blist s' b))"
  unfolding bget_def using assms ndel_le [of s]
  by (intro bget_loop_spec) (auto simp: held_def)

lemma bget_spec:
  assumes "cok M s" "M \<subseteq> held s" "vdev d" "\<And>i. i \<in> held s \<Longrightarrow> \<not> holds (blist s i) d k" "avail s \<noteq> {}"
  shows "\<exists>b s'. bget k d s = Ret b s' \<and> taken M b d k s s' \<and> u s' = u s"
  using bget_spec_miss [OF assms] by blast

text \<open>
  \<^verbatim>\<open>bread\<close> takes the buffer and fills it from the disk when it is not valid.
\<close>

lemma tst_done_err:
  assumes "\<not> berr x"
  shows "b_flags x AND (BDONE OR BERROR) = BDONE \<longleftrightarrow> bdone x"
proof -
  have "b_flags x AND 144 = (b_flags x AND 16) OR (b_flags x AND 128)"
    by (simp flip: bit.conj_disj_distrib)
  moreover have "b_flags x AND 128 = 0" using assms by (simp add: berr_def tst_def)
  ultimately show ?thesis using and_exp_cases [of "b_flags x" 4] by (simp add: bdone_def tst_def)
qed

lemma taken_fill:
  assumes t: "taken M b d k s s1" and v: "vdev d" and nd: "\<not> bdone (blist s1 b)"
  shows "\<exists>s2. bnd (strat b (upd_buf b (\<lambda>x. x\<lparr>b_flags := b_flags x OR (BREAD OR BSYNC)\<rparr>) s1)) (\<lambda>_ s. bwait b s) = Ret () s2
    \<and> taken M b d k s s2 \<and> u s2 = u s1 \<and> bdone (blist s2 b)"
proof -
  let ?x = "blist s1 b"
  from t have ok: "cok M s1" and ci: "cinv M s1" and b: "b < nbuf s" "b \<notin> held s" "holds ?x d k"
    and fr: "bframe s s1" and vw: "view s1 = view s" and h: "held s1 = insert b (held s)" "lckd s1 = lckd s"
    and keep: "\<forall>j\<in>held s. btm (blist s j) (blist s1 j)"
    by (auto simp: taken_def cok_def)
  from b have dk: "b_dev ?x = d" "b_blk ?x = k" by (auto simp: holds_def)
  have nb1: "nbuf s1 = nbuf s" using fr by (rule bframe_same)
  define sr where "sr = upd_buf b (\<lambda>x. x\<lparr>b_flags := b_flags x OR (BREAD OR BSYNC)\<rparr>) s1"
  have "swapok sr" "drv_ok sr" "vdev (b_dev (blist sr b))" "tst (b_flags (blist sr b)) BREAD" "tst (b_flags (blist sr b)) BSYNC"
    using ok v dk by (simp_all add: sr_def drv_ok_def cok_def)
  then obtain s2 fl where st: "strat b sr = Ret () s2" "bframe sr s2" "u s2 = u sr" "disk s2 = disk sr"
    and bl: "blist s2 = (blist sr)(b := (blist sr b)\<lparr>b_error := 0, b_count := 512,
       b_data := disk sr (b_dev (blist sr b)) (b_blk (blist sr b)), b_flags := fl\<rparr>)"
    and fl: "tst fl BDONE" "\<not> tst fl BDELWRI" "tst fl BBUSY" "\<not> tst fl BERROR" "tst fl BLOCK = tst (b_flags (blist sr b)) BLOCK"
    by (rule strat_read) blast
  have fr2: "bframe s1 s2" using st(2) by (rule bframe_trans [rotated]) (simp add: sr_def)
  have nb: "nbuf s2 = nbuf s1" using fr2 by (rule bframe_same)
  have f: "holds (blist s2 b) = holds ?x" "bdone (blist s2 b)" "\<not> bdel (blist s2 b)" "bbusy (blist s2 b)"
    "blocked (blist s2 b) = blocked ?x" "\<not> berr (blist s2 b)" "b_data (blist s2 b) = disk s1 d k"
    "b_dev (blist s2 b) = d" "b_blk (blist s2 b) = k" "disk s2 = disk s1"
    using fl dk st(4) by (simp_all add: bl sr_def fun_eq_iff holds_def bflag_defs)
  have oth: "btm (blist s1 j) (blist s2 j)" if "j \<noteq> b" for j using that by (simp add: bl sr_def)
  have ci2: "cinv M s2"
    by (rule cinv_one [OF ci _ nb oth f(1)]) (use v f b nb1 in auto)
  have bd: "view s1 d k = disk s1 d k"
    using nd cinvD(1) [OF ci, of b _ d k] b nb1 by (intro view_miss) metis
  have "view s2 = (view s1)(b_dev ?x := (view s1 (b_dev ?x))(b_blk ?x := b_data (blist s2 b)))"
    using v b nb1 by (intro view_one [OF ci ci2 _ _ nb oth f(1)]) (auto simp: f dk)
  then have vw2: "view s2 = view s1" by (simp add: dk f(7) flip: bd)
  have h2: "held s2 = held s1" "lckd s2 = lckd s1" using held_one [OF nb oth] b nb1 f h by auto
  have "btm (blist s j) (blist s2 j)" if "j \<in> held s" for j
    using keep that b(2) oth [of j] btm_trans by (cases "j = b") auto
  then have "taken M b d k s s2"
    using bframe_trans [OF fr fr2] cok_frame [OF ok fr2 ci2] b h h2 vw vw2 f(1) unfolding taken_def by simp
  moreover have "bwait b s2 = Ret () s2" using f(2) by (simp add: bwait_def bdone_def)
  ultimately show ?thesis using st(1,3) f(2) unfolding sr_def [symmetric] by (simp add: sr_def)
qed

lemma taken_data:
  assumes "taken M b d k s s'" "vdev d" "bdone (blist s' b)"
  shows "b_data (blist s' b) = view s d k"
  using assms view_hit [of M s' b d k] bframe_same(1) unfolding taken_def cok_def by fastforce

lemma taken_error:
  assumes "taken M b d k s s'"
  shows "taken M b d k s (set_error e s')" "blist (set_error e s') = blist s'"
proof -
  have fr: "bframe s' (set_error e s')" by (simp add: bframe_def set_error_def)
  have vw: "view (set_error e s') = view s'" by (rule view_cong) (simp_all add: set_error_def)
  have same: "held (set_error e s') = held s'" "lckd (set_error e s') = lckd s'"
    "cinv M (set_error e s') = cinv M s'" by (simp_all add: set_error_def held_def lckd_def cinv_def)
  show "blist (set_error e s') = blist s'" by (simp add: set_error_def)
  then show "taken M b d k s (set_error e s')"
    using assms cok_frame [OF _ fr, of M M] bframe_trans [OF _ fr] unfolding taken_def same vw by (simp add: cok_def)
qed

lemma bread_spec:
  assumes "cok M s" "M \<subseteq> held s" "vdev d" "\<And>i. i \<in> held s \<Longrightarrow> \<not> holds (blist s i) d k" "avail s \<noteq> {}"
  shows "\<exists>b s'. bread k d s = Ret (Some b) s' \<and> taken M b d k s s' \<and> u s' = (u s)\<lparr>u_error := 0\<rparr> \<and>
    bdone (blist s' b) \<and> b_data (blist s' b) = view s d k"
proof -
  obtain b s1 where g: "bget k d s = Ret b s1" and t1: "taken M b d k s s1" and u1: "u s1 = u s"
    using bget_spec [OF assms] by blast
  have ne1: "\<not> berr (blist s1 b)" using t1 cinvD(5) [of M s1 b] bframe_same(1) [of s s1] by (auto simp: taken_def cok_def)
  obtain s2 where r: "(if b_flags (blist s1 b) AND (BDONE OR BERROR) \<noteq> BDONE
          then bnd (strat b (upd_buf b (\<lambda>x. x\<lparr>b_flags := b_flags x OR (BREAD OR BSYNC)\<rparr>) s1)) (\<lambda>_ s. bwait b s)
          else Ret () s1) = Ret () s2" and t2: "taken M b d k s s2" "u s2 = u s1" "bdone (blist s2 b)"
  proof (cases "bdone (blist s1 b)")
    case True
    then show thesis using that [of s1] t1 tst_done_err [OF ne1] by simp
  next
    case False
    then show thesis using that taken_fill [OF t1 assms(3) False] tst_done_err [OF ne1] by auto
  qed
  have ne: "\<not> berr (blist s2 b)" using t2(1) cinvD(5) [of M s2 b] bframe_same(1) [of s s2] by (auto simp: taken_def cok_def)
  then have "geterror b s2 = (0, set_error 0 s2)" by (simp add: geterror_def berr_def)
  with g r have "bread k d s = Ret (Some b) (set_error 0 s2)" by (simp only: bread_def bnd.simps) simp
  moreover note taken_error [OF t2(1)]
  ultimately show ?thesis
    using taken_data [OF t2(1) assms(3) t2(3)] t2 u1 by (intro exI conjI) (assumption | simp add: set_error_def)+
qed

text \<open>The holder of a valid buffer changes its data: the abstract disk changes with it.\<close>

lemma upd_data_spec:
  fixes y :: bytes
  assumes ok: "cok M s" and b: "b \<in> held s"
  defines "s' \<equiv> upd_buf b (\<lambda>x. x\<lparr>b_data := y\<rparr>) s"
  shows "bframe s s'" "cok (insert b M) s'" "held s' = held s" "lckd s' = lckd s" "u s' = u s"
    "\<And>j. j \<noteq> b \<Longrightarrow> blist s' j = blist s j" "holds (blist s' b) = holds (blist s b)" "b_data (blist s' b) = y"
    "bdone (blist s' b) = bdone (blist s b)" "b_dev (blist s' b) = b_dev (blist s b)" "b_blk (blist s' b) = b_blk (blist s b)"
    "vdev (b_dev (blist s b)) \<Longrightarrow> bdone (blist s b) \<Longrightarrow>
       view s' = (view s)(b_dev (blist s b) := (view s (b_dev (blist s b)))(b_blk (blist s b) := y))"
    "\<not> holds (blist s b) d k \<Longrightarrow> view s' d k = view s d k"
proof -
  have ci: "cinv M s" and bn: "b < nbuf s" using ok b by (auto simp: cok_def held_def)
  show fr: "bframe s s'" by (simp add: s'_def)
  have f: "holds (blist s' j) = holds (blist s j)" "bdone (blist s' j) = bdone (blist s j)"
    "bdel (blist s' j) = bdel (blist s j)" "blocked (blist s' j) = blocked (blist s j)" "bbusy (blist s' j) = bbusy (blist s j)"
    "berr (blist s' j) = berr (blist s j)" "b_dev (blist s' j) = b_dev (blist s j)" "b_blk (blist s' j) = b_blk (blist s j)" for j
    by (simp_all add: s'_def fun_eq_iff holds_def bflag_defs)
  have s: "nbuf s' = nbuf s" "disk s' = disk s" by (simp_all add: s'_def)
  show "held s' = held s" "lckd s' = lckd s" by (simp_all add: held_def lckd_def s f)
  show "u s' = u s" and dat: "b_data (blist s' b) = y" by (simp_all add: s'_def)
  show oth: "\<And>j. j \<noteq> b \<Longrightarrow> blist s' j = blist s j" by (simp add: s'_def)
  show "holds (blist s' b) = holds (blist s b)" "bdone (blist s' b) = bdone (blist s b)"
    "b_dev (blist s' b) = b_dev (blist s b)" "b_blk (blist s' b) = b_blk (blist s b)" by (rule f)+
  have oth': "btm (blist s j) (blist s' j)" if "j \<noteq> b" for j using oth that by simp
  have ci': "cinv (insert b M) s'"
    by (rule cinv_one [OF ci bn s(1) oth' f(1)]) (use cinvD [OF ci bn] s f in auto)
  then show "cok (insert b M) s'" by (rule cok_frame [OF ok fr])
  show "view s' = (view s)(b_dev (blist s b) := (view s (b_dev (blist s b)))(b_blk (blist s b) := y))"
    if "vdev (b_dev (blist s b))" "bdone (blist s b)"
    using view_one [OF ci ci' bn that(1) s(1) oth' f(1)] that(2) s f by (simp add: dat)
  show "view s' d k = view s d k" if "\<not> holds (blist s b) d k"
    using view_other [OF ci ci' s(1) oth' f(1)] that s by simp
qed

text \<open>\<^verbatim>\<open>bdwrite\<close> marks a held buffer for a delayed write and releases it.\<close>

lemma bdwrite_spec:
  assumes ok: "cok M s" and b: "b \<in> held s" and v: "vdev (b_dev (blist s b))"
  shows "\<exists>s'. bdwrite b s = Ret () s' \<and> bframe s s' \<and> cok (M - {b}) s' \<and> u s' = u s \<and>
    view s' = (view s)(b_dev (blist s b) := (view s (b_dev (blist s b)))(b_blk (blist s b) := b_data (blist s b))) \<and>
    held s' = held s - {b} \<and> lckd s' = lckd s \<and> (\<forall>j. j \<noteq> b \<longrightarrow> btm (blist s j) (blist s' j))"
proof -
  let ?x = "blist s b"
  have ci: "cinv M s" and bn: "b < nbuf s" using ok b by (auto simp: cok_def held_def)
  define s1 where "s1 = upd_buf b (\<lambda>x. x\<lparr>b_flags := b_flags x OR (BDELWRI OR BDONE)\<rparr>) s"
  have fr: "bframe s s1" and s: "nbuf s1 = nbuf s" "disk s1 = disk s" "u s1 = u s" by (simp_all add: s1_def)
  have f: "holds (blist s1 b) = holds ?x" "bdone (blist s1 b)" "bdel (blist s1 b)" "bbusy (blist s1 b) = bbusy ?x"
    "blocked (blist s1 b) = blocked ?x" "berr (blist s1 b) = berr ?x" "b_dev (blist s1 b) = b_dev ?x"
    "b_data (blist s1 b) = b_data ?x" by (simp_all add: s1_def fun_eq_iff holds_def bflag_defs)
  have oth: "btm (blist s j) (blist s1 j)" if "j \<noteq> b" for j using that by (simp add: s1_def)
  have ci1: "cinv (M - {b}) s1"
    by (rule cinv_one [OF ci bn s(1) oth f(1)]) (use cinvD(5) [OF ci bn] s f v in auto)
  have vw: "view s1 = (view s)(b_dev ?x := (view s (b_dev ?x))(b_blk ?x := b_data ?x))"
    using view_one [OF ci ci1 bn v s(1) oth f(1) _ f(2)] s f by simp
  have h: "held s1 = held s" "lckd s1 = lckd s" using held_one [OF s(1) oth bn] b f by (auto simp: held_def)
  with b have "b \<in> held s1" by simp
  from brelse_spec [OF cok_frame [OF ok fr ci1] this] obtain s' where r: "brelse b s1 = Ret () s'" "bframe s1 s'"
    "cok (M - {b}) s'" "view s' = view s1" "u s' = u s1" "held s' = held s1 - {b}" "lckd s' = lckd s1"
    "\<forall>j. j \<noteq> b \<longrightarrow> btm (blist s1 j) (blist s' j)" by auto
  have "\<forall>j. j \<noteq> b \<longrightarrow> btm (blist s j) (blist s' j)" using r(8) oth btm_trans by blast
  with r h vw s bframe_trans [OF fr r(2)] show ?thesis unfolding bdwrite_def s1_def [symmetric] by simp
qed

text \<open>\<^verbatim>\<open>bawrite\<close>: the completion routine of the driver releases the buffer.\<close>

lemma bawrite_spec:
  assumes ok: "cok M s" and b: "b \<in> held s" and v: "vdev (b_dev (blist s b))"
  shows "\<exists>s'. bawrite b s = Ret () s' \<and> bframe s s' \<and> cok (M - {b}) s' \<and> u s' = u s \<and>
    view s' = (view s)(b_dev (blist s b) := (view s (b_dev (blist s b)))(b_blk (blist s b) := b_data (blist s b))) \<and>
    disk s' = (disk s)(b_dev (blist s b) := (disk s (b_dev (blist s b)))(b_blk (blist s b) := b_data (blist s b))) \<and>
    held s' = held s - {b} \<and> lckd s' = lckd s \<and> (\<forall>j. j \<noteq> b \<longrightarrow> btm (blist s j) (blist s' j)) \<and> \<not> bdel (blist s' b)"
proof -
  let ?x = "blist s b"
  have ci: "cinv M s" and bn: "b < nbuf s" and dr: "drv_ok s" using ok b by (auto simp: cok_def held_def)
  let ?dk = "(disk s)(b_dev ?x := (disk s (b_dev ?x))(b_blk ?x := b_data ?x))"
  define fl where "fl = ((((b_flags ?x AND NOT (BSYNC OR BREAD)) OR BBUSY) AND NOT (BDONE OR BERROR)) OR BDONE) AND NOT BDELWRI"
  define s1 where "s1 = upd_buf b (\<lambda>x. x\<lparr>b_error := 0, b_count := 512, b_flags := fl\<rparr>) (s\<lparr>disk := ?dk\<rparr>)"
  note d = drv_okD [OF dr v]
  have st: "bawrite b s = brelse b s1"
    using d by (simp add: bawrite_def strat_def drvstrat_def iodone_def Let_def s1_def fl_def upd_buf_def)
  have fr: "bframe s s1" and s: "nbuf s1 = nbuf s" "u s1 = u s" "disk s1 = ?dk"
    by (simp_all add: s1_def upd_buf_def bframe_def)
  have f: "holds (blist s1 b) = holds ?x" "bdone (blist s1 b)" "\<not> bdel (blist s1 b)" "bbusy (blist s1 b)"
    "blocked (blist s1 b) = blocked ?x" "\<not> berr (blist s1 b)" "b_data (blist s1 b) = b_data ?x"
    "b_dev (blist s1 b) = b_dev ?x" "b_blk (blist s1 b) = b_blk ?x"
    by (simp_all add: s1_def fl_def fun_eq_iff holds_def bflag_defs)
  have oth: "btm (blist s j) (blist s1 j)" if "j \<noteq> b" for j using that by (simp add: s1_def)
  have dko: "disk s1 d k = disk s d k" if "\<not> holds ?x d k" for d k using that by (auto simp: s holds_def)
  have ci1: "cinv (M - {b}) s1"
    by (rule cinv_one [OF ci bn s(1) oth f(1)]) (use v f s in \<open>auto simp: holds_def\<close>)
  have vw: "view s1 = (view s)(b_dev ?x := (view s (b_dev ?x))(b_blk ?x := b_data ?x))"
    using view_one [OF ci ci1 bn v s(1) oth f(1) dko f(2)] by (simp add: f)
  have h: "held s1 = held s" "lckd s1 = lckd s" using held_one [OF s(1) oth bn] b f by auto
  with b have "b \<in> held s1" by simp
  from brelse_spec [OF cok_frame [OF ok fr ci1] this] obtain s' where r: "brelse b s1 = Ret () s'" "bframe s1 s'"
    "cok (M - {b}) s'" "view s' = view s1" "u s' = u s1" "held s' = held s1 - {b}" "lckd s' = lckd s1"
    "\<forall>j. j \<noteq> b \<longrightarrow> btm (blist s1 j) (blist s' j)" "disk s' = disk s1"
    and one: "btm ((blist s1 b)\<lparr>b_flags := b_flags (blist s1 b) AND NOT (BBUSY OR BWANT)\<rparr>) (blist s' b)" by auto
  have "\<not> bdel (blist s' b)" using f(3) unfolding btm_fields [OF one] by (simp add: bflag_defs)
  moreover have "\<forall>j. j \<noteq> b \<longrightarrow> btm (blist s j) (blist s' j)" using r(8) oth btm_trans by blast
  ultimately show ?thesis using r h vw s bframe_trans [OF fr r(2)] by (simp add: st)
qed

text \<open>
  \<^verbatim>\<open>aread\<close> starts to read a block that is in no buffer. The driver's completion routine releases the buffer, so nobody holds it afterwards.
\<close>

lemma strat_aread:
  assumes "drv_ok s" "vdev (b_dev (blist s b))"
  shows "\<exists>fl. strat b (upd_buf b (\<lambda>x. x\<lparr>b_flags := (b_flags x AND NOT BSYNC) OR BREAD\<rparr>) s) =
      brelse b (upd_buf b (\<lambda>x. x\<lparr>b_error := 0, b_count := 512,
        b_data := disk s (b_dev (blist s b)) (b_blk (blist s b)), b_flags := fl\<rparr>) s) \<and>
    tst fl BDONE \<and> \<not> tst fl BDELWRI \<and> tst fl BBUSY \<and> \<not> tst fl BERROR \<and> tst fl BLOCK = tst (b_flags (blist s b)) BLOCK"
proof -
  let ?x = "blist s b"
  define fl where "fl = ((((b_flags ?x AND NOT BSYNC) OR BREAD) OR BBUSY) AND NOT (BDONE OR BERROR) OR BDONE) AND NOT BDELWRI"
  note d = drv_okD [OF assms]
  show ?thesis
    by (rule exI [of _ fl], intro conjI)
      (simp add: d strat_def drvstrat_def iodone_def Let_def fl_def upd_buf_def, simp_all add: fl_def)
qed

lemma taken_aread:
  assumes t: "taken M b d k s s1" and M: "M \<subseteq> held s" and v: "vdev d" and nd: "\<not> bdone (blist s1 b)"
  shows "\<exists>s2. strat b (upd_buf b (\<lambda>x. x\<lparr>b_flags := (b_flags x AND NOT BSYNC) OR BREAD\<rparr>) s1) = Ret () s2 \<and>
    bframe s s2 \<and> cok M s2 \<and> view s2 = view s \<and> u s2 = u s1 \<and> held s2 = held s \<and> lckd s2 = lckd s \<and>
    (\<forall>j\<in>held s. btm (blist s j) (blist s2 j))"
proof -
  let ?x = "blist s1 b"
  from t have ok: "cok M s1" and ci: "cinv M s1" and b: "b < nbuf s" "b \<notin> held s" "holds ?x d k"
    and fr: "bframe s s1" and vw: "view s1 = view s" and h: "held s1 = insert b (held s)" "lckd s1 = lckd s"
    and keep: "\<forall>j\<in>held s. btm (blist s j) (blist s1 j)" and dr: "drv_ok s1"
    by (auto simp: taken_def cok_def)
  from b have dk: "b_dev ?x = d" "b_blk ?x = k" by (auto simp: holds_def)
  have nb1: "nbuf s1 = nbuf s" using fr by (rule bframe_same)
  obtain fl where st: "strat b (upd_buf b (\<lambda>x. x\<lparr>b_flags := (b_flags x AND NOT BSYNC) OR BREAD\<rparr>) s1) =
      brelse b (upd_buf b (\<lambda>x. x\<lparr>b_error := 0, b_count := 512, b_data := disk s1 d k, b_flags := fl\<rparr>) s1)"
    and fl: "tst fl BDONE" "\<not> tst fl BDELWRI" "tst fl BBUSY" "\<not> tst fl BERROR" "tst fl BLOCK = tst (b_flags ?x) BLOCK"
    using strat_aread [OF dr, of b] v dk by auto
  define s2 where "s2 = upd_buf b (\<lambda>x. x\<lparr>b_error := 0, b_count := 512, b_data := disk s1 d k, b_flags := fl\<rparr>) s1"
  have nb: "nbuf s2 = nbuf s1" and fr2: "bframe s1 s2" by (simp_all add: s2_def)
  have f: "holds (blist s2 b) = holds ?x" "bdone (blist s2 b)" "\<not> bdel (blist s2 b)" "bbusy (blist s2 b)"
    "blocked (blist s2 b) = blocked ?x" "\<not> berr (blist s2 b)" "b_data (blist s2 b) = disk s1 d k"
    "b_dev (blist s2 b) = d" "b_blk (blist s2 b) = k" "disk s2 = disk s1" "u s2 = u s1"
    using fl dk by (simp_all add: s2_def fun_eq_iff holds_def bflag_defs)
  have oth: "btm (blist s1 j) (blist s2 j)" if "j \<noteq> b" for j using that by (simp add: s2_def)
  have ci2: "cinv M s2" by (rule cinv_one [OF ci _ nb oth f(1)]) (use v f b nb1 in auto)
  have bd: "view s1 d k = disk s1 d k"
    using nd cinvD(1) [OF ci, of b _ d k] b nb1 by (intro view_miss) metis
  have "view s2 = (view s1)(b_dev ?x := (view s1 (b_dev ?x))(b_blk ?x := b_data (blist s2 b)))"
    using v b nb1 by (intro view_one [OF ci ci2 _ _ nb oth f(1)]) (auto simp: f dk)
  then have vw2: "view s2 = view s1" by (simp add: dk f(7) flip: bd)
  have h2: "held s2 = held s1" "lckd s2 = lckd s1" using held_one [OF nb oth] b nb1 f h by auto
  have bh: "b \<in> held s2" "b \<notin> M" using h2 h M b(2) by auto
  from brelse_spec [OF cok_frame [OF ok fr2 ci2] bh] obtain s3 where r: "brelse b s2 = Ret () s3" "bframe s2 s3"
    "cok M s3" "view s3 = view s2" "u s3 = u s2" "held s3 = held s2 - {b}" "lckd s3 = lckd s2"
    "\<forall>j. j \<noteq> b \<longrightarrow> btm (blist s2 j) (blist s3 j)" by auto
  have "btm (blist s j) (blist s3 j)" if "j \<in> held s" for j
    using keep that b(2) oth [of j] r(8) btm_trans by (cases "j = b") blast+
  then show ?thesis
    using r st bframe_trans [OF bframe_trans [OF fr fr2] r(2)] vw vw2 h h2 b(2) f(11) by (simp add: s2_def)
qed

lemma aread_spec:
  assumes "cok M s" "M \<subseteq> held s" "vdev d" "avail s \<noteq> {}"
  shows "\<exists>s'. aread k d s = Ret () s' \<and> bframe s s' \<and> cok M s' \<and> view s' = view s \<and> u s' = u s \<and> held s' = held s \<and>
    lckd s' = lckd s \<and> (\<forall>j\<in>held s. btm (blist s j) (blist s' j))"
proof (cases "scan (\<lambda>b. b_blk (blist s b) = k \<and> b_dev (blist s b) = d) (nbuf s)")
  case (Some b)
  then show ?thesis using assms(1) by (simp add: aread_def)
next
  case None
  then have miss: "\<forall>i<nbuf s. \<not> holds (blist s i) d k" by (auto simp: scan_None_iff holds_def)
  then have "\<not> holds (blist s i) d k" if "i \<in> held s" for i using that by (simp add: held_def)
  from bget_spec_miss [OF assms(1-3) this assms(4)] miss obtain b s1 where g: "bget k d s = Ret b s1" "taken M b d k s s1"
    "u s1 = u s" "\<not> bdone (blist s1 b)" by blast
  from taken_aread [OF g(2) assms(2,3) g(4)] None g(1,3) show ?thesis by (auto simp: aread_def)
qed

end
