(* ===== verification/Hold.thy ===== *)
theory Hold
  imports Cache
begin

text \<open>
  The interface of the buffer cache for the routines of the file system: \<open>holding M H s s'\<close> says that
  a routine that started in \<open>s\<close> has come to \<open>s'\<close>, having taken the buffers \<open>H\<close> and not given
  them back, with those of \<open>M\<close> changed and not yet written. The buffers others held are as they were.
\<close>

definition bdat :: "nat \<Rightarrow> kst \<Rightarrow> bytes" where
  "bdat b s = b_data (blist s b)"

definition set_bdat :: "nat \<Rightarrow> bytes \<Rightarrow> kst \<Rightarrow> kst" where
  "set_bdat b d s = upd_buf b (\<lambda>x. x\<lparr>b_data := d\<rparr>) s"

lemma set_bdat_sel [simp]:
  "bdat b (set_bdat b y s) = y" "b' \<noteq> b \<Longrightarrow> bdat b' (set_bdat b y s) = bdat b' s" "u (set_bdat b y s) = u s"
  "nbuf (set_bdat b y s) = nbuf s" "b_dev (blist (set_bdat b y s) j) = b_dev (blist s j)"
  "b_blk (blist (set_bdat b y s) j) = b_blk (blist s j)" "holds (blist (set_bdat b y s) j) = holds (blist s j)"
  "bdone (blist (set_bdat b y s) j) = bdone (blist s j)" "seconds (set_bdat b y s) = seconds s"
  by (simp_all add: bdat_def set_bdat_def upd_buf_def holds_def fun_eq_iff bdone_def)

lemma set_bdat_twice [simp]: "set_bdat b z (set_bdat b y s) = set_bdat b z s"
  by (simp add: set_bdat_def)

definition holding :: "nat set \<Rightarrow> nat set \<Rightarrow> kst \<Rightarrow> kst \<Rightarrow> bool" where
  "holding M H s s' \<longleftrightarrow> bframe s s' \<and> cok M s' \<and> M \<subseteq> held s' \<and> held s' = held s \<union> H \<and> H \<inter> held s = {} \<and>
     lckd s' = lckd s \<and> (\<forall>j\<in>held s. btm (blist s j) (blist s' j))"

lemma holding_refl: "cok M s \<Longrightarrow> M \<subseteq> held s \<Longrightarrow> holding M {} s s"
  by (simp add: holding_def)

lemma holdingD:
  assumes "holding M H s s'"
  shows "bframe s s'" "cok M s'" "M \<subseteq> held s'" "held s' = held s \<union> H" "H \<inter> held s = {}" "lckd s' = lckd s"
    "\<And>j. j \<in> held s \<Longrightarrow> btm (blist s j) (blist s' j)" "nbuf s' = nbuf s" "avail s' = avail s - H"
    "u s' = (u s)\<lparr>u_error := u_error (u s')\<rparr>"
  using assms bframe_same(1) [of s s'] bframe_same(17) [of s s'] unfolding holding_def avail_alt by auto

lemma holding_trans:
  assumes "holding M H s s1" and "holding M' {} s1 s2"
  shows "holding M' H s s2"
proof -
  note a = holdingD [OF assms(1)] and b = holdingD [OF assms(2)]
  have "btm (blist s j) (blist s2 j)" if "j \<in> held s" for j
    using a(4) a(7) [OF that] b(7) [of j] that btm_trans by blast
  then show ?thesis using bframe_trans [OF a(1) b(1)] a b unfolding holding_def by auto
qed

lemma holding_taken:
  assumes h: "holding M H s s1" and t: "taken M b d k s1 s2"
  shows "holding M (insert b H) s s2" "b \<notin> H" "b \<notin> held s" "view s2 = view s1" "holds (blist s2 b) d k"
    "\<And>j. j \<in> H \<Longrightarrow> btm (blist s1 j) (blist s2 j)"
proof -
  note a = holdingD [OF h]
  note t' = t [unfolded taken_def]
  show "b \<notin> H" "b \<notin> held s" "view s2 = view s1" "holds (blist s2 b) d k" using a t' by auto
  show "btm (blist s1 j) (blist s2 j)" if "j \<in> H" for j using that a(4) t' by auto
  have "btm (blist s j) (blist s2 j)" if "j \<in> held s" for j
    using a(4) a(7) [OF that] t' that btm_trans by blast
  then show "holding M (insert b H) s s2"
    using bframe_trans [OF a(1), of s2] a t' unfolding holding_def by auto
qed

lemma hold_bget:
  assumes h: "holding M H s s1" and d: "vdev d" "\<And>i. i \<in> held s1 \<Longrightarrow> \<not> holds (blist s1 i) d k" and av: "avail s1 \<noteq> {}"
  obtains b s2 where "bget k d s1 = Ret b s2" "holding M (insert b H) s s2" "b \<notin> H" "b \<notin> held s" "view s2 = view s1"
    "holds (blist s2 b) d k" "\<And>j. j \<in> H \<Longrightarrow> btm (blist s1 j) (blist s2 j)" "u s2 = u s1"
  using bget_spec [OF holdingD(2,3) [OF h] d av] holding_taken [OF h] by metis

lemma hold_bread:
  assumes h: "holding M H s s1" and d: "vdev d" "\<And>i. i \<in> held s1 \<Longrightarrow> \<not> holds (blist s1 i) d k" and av: "avail s1 \<noteq> {}"
  obtains b s2 where "bread k d s1 = Ret (Some b) s2" "holding M (insert b H) s s2" "b \<notin> H" "b \<notin> held s" "view s2 = view s1"
    "holds (blist s2 b) d k" "\<And>j. j \<in> H \<Longrightarrow> btm (blist s1 j) (blist s2 j)" "u s2 = (u s1)\<lparr>u_error := 0\<rparr>"
    "bdat b s2 = view s1 d k" "bdone (blist s2 b)"
  using bread_spec [OF holdingD(2,3) [OF h] d av] holding_taken [OF h] unfolding bdat_def by metis

lemma hold_set:
  assumes h: "holding M H s s1" and b: "b \<in> H"
  shows "holding (insert b M) H s (set_bdat b y s1)"
    "vdev d \<Longrightarrow> holds (blist s1 b) d k \<Longrightarrow> bdone (blist s1 b) \<Longrightarrow>
      view (set_bdat b y s1) = (view s1)(d := (view s1 d)(k := y))"
    "j \<noteq> b \<Longrightarrow> blist (set_bdat b y s1) j = blist s1 j"
    "holds (blist s1 b) d k \<Longrightarrow>
      (view (set_bdat b y s1))(d := (view (set_bdat b y s1) d)(k := z)) = (view s1)(d := (view s1 d)(k := z))"
    "\<not> holds (blist s1 b) d k \<Longrightarrow> view (set_bdat b y s1) d k = view s1 d k"
proof -
  note a = holdingD [OF h]
  have bh: "b \<in> held s1" "b \<notin> held s" using a b by auto
  note ud = upd_data_spec [OF a(2) bh(1), where y = y, folded set_bdat_def]
  have "btm (blist s j) (blist (set_bdat b y s1) j)" if "j \<in> held s" for j
    using a(7) [OF that] ud(6) [of j] bh(2) that by (cases "j = b") auto
  then show "holding (insert b M) H s (set_bdat b y s1)"
    using bframe_trans [OF a(1) ud(1)] ud(2,3,4) a(3,4,5,6) bh(1) unfolding holding_def by auto
  show "view (set_bdat b y s1) = (view s1)(d := (view s1 d)(k := y))"
    if "vdev d" "holds (blist s1 b) d k" "bdone (blist s1 b)" using ud(12) that by (auto simp: holds_def)
  show "blist (set_bdat b y s1) j = blist s1 j" if "j \<noteq> b" using ud(6) that by blast
  show "(view (set_bdat b y s1))(d := (view (set_bdat b y s1) d)(k := z)) = (view s1)(d := (view s1 d)(k := z))"
    if "holds (blist s1 b) d k"
    using ud(13) that by (auto simp: fun_eq_iff holds_def)
  show "view (set_bdat b y s1) d k = view s1 d k" if "\<not> holds (blist s1 b) d k" by (rule ud(13) [OF that])
qed

lemma hold_release:
  assumes h: "holding M H s s1" and b: "b \<in> H"
    and r: "bframe s1 s2" "cok (M - {b}) s2" "held s2 = held s1 - {b}" "lckd s2 = lckd s1"
      "\<And>j. j \<noteq> b \<Longrightarrow> btm (blist s1 j) (blist s2 j)"
  shows "holding (M - {b}) (H - {b}) s s2"
proof -
  note a = holdingD [OF h]
  have "btm (blist s j) (blist s2 j)" if "j \<in> held s" for j
    using a(5) a(7) [OF that] r(5) [of j] b that btm_trans by (cases "j = b") blast+
  then show ?thesis using bframe_trans [OF a(1) r(1)] r a(3-6) b unfolding holding_def by auto
qed

lemma hold_bdwrite:
  assumes h: "holding M H s s1" and b: "b \<in> H" "holds (blist s1 b) d k" "vdev d"
  obtains s2 where "bdwrite b s1 = Ret () s2" "holding (M - {b}) (H - {b}) s s2"
    "view s2 = (view s1)(d := (view s1 d)(k := bdat b s1))" "u s2 = u s1" "\<And>j. j \<noteq> b \<Longrightarrow> btm (blist s1 j) (blist s2 j)"
proof -
  have "b \<in> held s1" "vdev (b_dev (blist s1 b))" using holdingD(4) [OF h] b by (auto simp: holds_def)
  from bdwrite_spec [OF holdingD(2) [OF h] this] obtain s2 where w: "bdwrite b s1 = Ret () s2" "bframe s1 s2"
    "cok (M - {b}) s2" "u s2 = u s1"
    "view s2 = (view s1)(b_dev (blist s1 b) := (view s1 (b_dev (blist s1 b)))(b_blk (blist s1 b) := b_data (blist s1 b)))"
    "held s2 = held s1 - {b}" "lckd s2 = lckd s1" "\<And>j. j \<noteq> b \<Longrightarrow> btm (blist s1 j) (blist s2 j)" by blast
  show thesis
    using w(5) b(2) by (intro that [OF w(1) hold_release [OF h b(1) w(2,3,6,7,8)] _ w(4,8)])
      (auto simp: holds_def bdat_def)
qed

lemma hold_brelse:
  assumes h: "holding M H s s1" and b: "b \<in> H" "b \<notin> M"
  obtains s2 where "brelse b s1 = Ret () s2" "holding M (H - {b}) s s2" "view s2 = view s1" "u s2 = u s1"
    "\<And>j. j \<noteq> b \<Longrightarrow> btm (blist s1 j) (blist s2 j)"
proof -
  have "b \<in> held s1" using holdingD(4) [OF h] b by auto
  from brelse_spec [OF holdingD(2) [OF h] this b(2)] obtain s2 where w: "brelse b s1 = Ret () s2" "bframe s1 s2"
    "cok M s2" "u s2 = u s1" "view s2 = view s1" "held s2 = held s1 - {b}" "lckd s2 = lckd s1"
    "\<And>j. j \<noteq> b \<Longrightarrow> btm (blist s1 j) (blist s2 j)" by blast
  have "M - {b} = M" using b by auto
  then show thesis using hold_release [OF h b(1) w(2) _ w(6,7,8)] w(3) by (intro that [OF w(1) _ w(5,4,8)]) simp
qed

lemma hold_bawrite:
  assumes h: "holding M H s s1" and b: "b \<in> H" "holds (blist s1 b) d k" "vdev d"
  obtains s2 where "bawrite b s1 = Ret () s2" "holding (M - {b}) (H - {b}) s s2"
    "view s2 = (view s1)(d := (view s1 d)(k := bdat b s1))" "u s2 = u s1" "\<And>j. j \<noteq> b \<Longrightarrow> btm (blist s1 j) (blist s2 j)"
proof -
  have "b \<in> held s1" "vdev (b_dev (blist s1 b))" using holdingD(4) [OF h] b by (auto simp: holds_def)
  from bawrite_spec [OF holdingD(2) [OF h] this] obtain s2 where w: "bawrite b s1 = Ret () s2" "bframe s1 s2"
    "cok (M - {b}) s2" "u s2 = u s1"
    "view s2 = (view s1)(b_dev (blist s1 b) := (view s1 (b_dev (blist s1 b)))(b_blk (blist s1 b) := b_data (blist s1 b)))"
    "held s2 = held s1 - {b}" "lckd s2 = lckd s1" "\<And>j. j \<noteq> b \<Longrightarrow> btm (blist s1 j) (blist s2 j)" by blast
  show thesis
    using w(5) b(2) by (intro that [OF w(1) hold_release [OF h b(1) w(2,3,6,7,8)] _ w(4,8)])
      (auto simp: holds_def bdat_def)
qed

text \<open>Setting the error code or printing on the console changes nothing else.\<close>

lemma hold_still:
  assumes h: "holding M H s s1"
    and same: "s2 = s1\<lparr>cons := c, u := (u s1)\<lparr>u_error := e\<rparr>\<rparr>"
  shows "holding M H s s2" "view s2 = view s1" "blist s2 = blist s1"
proof -
  have fr: "bframe s1 s2" unfolding same by (simp add: bframe_def)
  have "held s2 = held s1" "lckd s2 = lckd s1" "cinv M s2 = cinv M s1"
    unfolding same by (simp_all add: held_def lckd_def cinv_def)
  moreover have "cok M s2"
    using cok_frame [OF holdingD(2) [OF h] fr, of M] holdingD(2) [OF h] calculation by (simp add: cok_def)
  moreover have bl: "blist s2 = blist s1" by (simp add: same)
  ultimately show "holding M H s s2"
    using bframe_trans [OF holdingD(1) [OF h] fr] holdingD(3-7) [OF h] unfolding holding_def bl by auto
  show "view s2 = view s1" by (rule view_cong) (simp_all add: same)
  show "blist s2 = blist s1" by (simp add: same)
qed

lemma hold_error:
  assumes "holding M H s s1"
  shows "holding M H s (set_error e s1)" "view (set_error e s1) = view s1" "blist (set_error e s1) = blist s1"
    "bdat b (set_error e s1) = bdat b s1"
proof -
  have "set_error e s1 = s1\<lparr>cons := cons s1, u := (u s1)\<lparr>u_error := e\<rparr>\<rparr>" by (simp add: set_error_def)
  from hold_still [OF assms this] show "holding M H s (set_error e s1)" "view (set_error e s1) = view s1"
    "blist (set_error e s1) = blist s1" "bdat b (set_error e s1) = bdat b s1" by (simp_all add: bdat_def)
qed

lemma hold_prdev:
  assumes "holding M H s s1"
  shows "holding M H s (prdev m dev s1)" "view (prdev m dev s1) = view s1" "blist (prdev m dev s1) = blist s1"
    "bdat b (prdev m dev s1) = bdat b s1" "u (prdev m dev s1) = u s1"
proof -
  have e: "prdev m dev s1 = s1\<lparr>cons := cons (prdev m dev s1), u := (u s1)\<lparr>u_error := u_error (u s1)\<rparr>\<rparr>"
    by (subst prdev_cons) simp
  from hold_still [OF assms e] show "holding M H s (prdev m dev s1)" "view (prdev m dev s1) = view s1"
    and "blist (prdev m dev s1) = blist s1" "bdat b (prdev m dev s1) = bdat b s1" by (simp_all add: bdat_def)
  show "u (prdev m dev s1) = u s1" by (subst e) simp
qed

text \<open>No buffer that somebody holds is for block \<open>k\<close>, so taking it does not wait.\<close>

definition unheld :: "u16 \<Rightarrow> u16 \<Rightarrow> kst \<Rightarrow> bool" where
  "unheld dev k s \<longleftrightarrow> (\<forall>i\<in>held s. \<not> holds (blist s i) dev k)"

lemma hold_unheld:
  assumes "holding M H s s1" "unheld dev k s" "\<And>b. b \<in> H \<Longrightarrow> \<not> holds (blist s1 b) dev k" "i \<in> held s1"
  shows "\<not> holds (blist s1 i) dev k"
proof (cases "i \<in> H")
  case True with assms(3) show ?thesis .
next
  case False
  with assms(4) holdingD(4) [OF assms(1)] have i: "i \<in> held s" by auto
  then show ?thesis using btm_fields(6) [OF holdingD(7) [OF assms(1) i]] assms(2) by (simp add: unheld_def)
qed

lemma hold_unheld_done: "holding M {} s s1 \<Longrightarrow> unheld dev k s \<Longrightarrow> unheld dev k s1"
  using hold_unheld [of M "{}" s s1] by (simp add: unheld_def)

end
