(* ===== verification/Balloc.thy ===== *)
theory Balloc
  imports Hold
begin

text \<open>
  Disk block allocation (\<^verbatim>\<open>sys/balloc.c\<close>). The free list of a device starts in its superblock, block 1,
  with up to 100 block numbers; entry 0 links to a block that holds the next up to 100 numbers in the
  same layout.
\<close>

section \<open>Operations\<close>

text \<open>Byte offsets of \<^verbatim>\<open>struct super\<close> (\<^verbatim>\<open>fs.h\<close>).\<close>

abbreviation (input) S_ISIZE :: nat where "S_ISIZE \<equiv> 0"
abbreviation (input) S_FSIZE :: nat where "S_FSIZE \<equiv> 2"
abbreviation (input) S_NFREE :: nat where "S_NFREE \<equiv> 4"
abbreviation (input) S_FREE :: nat where "S_FREE \<equiv> 6"
abbreviation (input) S_NINODE :: nat where "S_NINODE \<equiv> 206"
abbreviation (input) S_INODE :: nat where "S_INODE \<equiv> 208"

definition set_bw :: "nat \<Rightarrow> nat \<Rightarrow> u16 \<Rightarrow> kst \<Rightarrow> kst" where
  "set_bw b i v s = set_bdat b (putw (bdat b s) i v) s"

definition bcheck :: "u16 \<Rightarrow> nat \<Rightarrow> u16 \<Rightarrow> kst \<Rightarrow> bool \<times> kst" where
  "bcheck bn sb dev s =
     (if getw (bdat sb s) S_ISIZE + 1 < bn \<and> bn < getw (bdat sb s) S_FSIZE then (True, s)
      else (False, prdev ''Out of range block number'' dev s))"

definition balloc_bad :: "nat \<Rightarrow> u16 \<Rightarrow> kst \<Rightarrow> u16 K" where
  "balloc_bad sb dev s =
     bnd (bdwrite sb (prdev ''No more space'' dev (set_bw sb S_NFREE 0 s))) (\<lambda>_ s. Ret 0 s)"

definition balloc_next :: "u16 \<Rightarrow> u16 \<Rightarrow> nat \<Rightarrow> u16 \<Rightarrow> kst \<Rightarrow> nat option K" where
  "balloc_next n bn sb dev s =
     (if n = 0
      then bnd (bread bn dev s) (\<lambda>fb s. case fb of
             None \<Rightarrow> Ret None s
           | Some fb \<Rightarrow> Ret (Some fb) (set_bdat sb (copyb (bdat fb s) 0 (bdat sb s) S_NFREE 202) s))
      else bnd (bget bn dev s) (\<lambda>fb s. Ret (Some fb) s))"

definition balloc_give :: "u16 \<Rightarrow> nat \<Rightarrow> nat \<Rightarrow> kst \<Rightarrow> u16 K" where
  "balloc_give bn sb fb s =
     bnd (bdwrite fb (set_bdat fb (zerob (bdat fb s) 0 512) s)) (\<lambda>_ s.
     bnd (bdwrite sb s) (\<lambda>_ s. Ret bn s))"

definition balloc :: "u16 \<Rightarrow> kst \<Rightarrow> u16 K" where
  "balloc dev s =
     bnd (getsb dev s) (\<lambda>sb s.
     if bdat sb s S_FLOCK \<noteq> 0 then Ret 0 (set_error EROFS s)
     else if getw (bdat sb s) S_NFREE = 0 then balloc_bad sb dev (set_error ENOSPC s)
     else
       let n = getw (bdat sb s) S_NFREE - 1;
           s1 = set_bw sb S_NFREE n s;
           bn = getw (bdat sb s1) (S_FREE + 2 * unat n)
       in if bn = 0 then balloc_bad sb dev (set_error ENOSPC s1)
       else let (ok, s2) = bcheck bn sb dev s1 in
         if \<not> ok then balloc_bad sb dev (set_error ENOSPC s2)
         else bnd (balloc_next n bn sb dev s2) (\<lambda>fb s.
              case fb of None \<Rightarrow> balloc_bad sb dev s | Some fb \<Rightarrow> balloc_give bn sb fb s))"

definition bfree_room :: "u16 \<Rightarrow> nat \<Rightarrow> u16 \<Rightarrow> kst \<Rightarrow> unit K" where
  "bfree_room bn sb dev s =
     (if getw (bdat sb s) S_NFREE = 0 then Ret () (set_bw sb S_NFREE 1 (set_bw sb S_FREE 0 s))
      else if getw (bdat sb s) S_NFREE \<ge> 100
      then bnd (bget bn dev s) (\<lambda>fb s.
           bnd (bawrite fb (set_bdat fb (copyb (bdat sb s) S_NFREE (bdat fb s) 0 202) s)) (\<lambda>_ s.
           Ret () (set_bw sb S_NFREE 0 s)))
      else Ret () s)"

definition bfree :: "u16 \<Rightarrow> u16 \<Rightarrow> kst \<Rightarrow> unit K" where
  "bfree bn dev s =
     (if bn = 0 then Ret () s
      else bnd (getsb dev s) (\<lambda>sb s.
        let (ok, s1) = bcheck bn sb dev s in
        if \<not> ok then bdwrite sb s1
        else bnd (bfree_room bn sb dev s1) (\<lambda>_ s.
             let n = getw (bdat sb s) S_NFREE
             in bdwrite sb (set_bw sb S_NFREE (n + 1) (set_bw sb (S_FREE + 2 * unat n) bn s)))))"

section \<open>The free list as a list of block numbers\<close>

text \<open>
  \<open>freel V d i bs\<close>: the table at offset \<open>i\<close> of the bytes \<open>d\<close>, continued through the blocks \<open>V\<close> of the
  device, lists the free blocks \<open>bs\<close> in the order in which \<^verbatim>\<open>balloc\<close> hands them out.
\<close>

definition fentry :: "bytes \<Rightarrow> nat \<Rightarrow> nat \<Rightarrow> u16" where
  "fentry d i j = getw d (i + 2 + 2 * j)"

definition entries :: "bytes \<Rightarrow> nat \<Rightarrow> nat \<Rightarrow> u16 list" where
  "entries d i n = map (fentry d i) (rev [1..<n])"

inductive freel :: "(u16 \<Rightarrow> bytes) \<Rightarrow> bytes \<Rightarrow> nat \<Rightarrow> u16 list \<Rightarrow> bool"
  and ftail :: "(u16 \<Rightarrow> bytes) \<Rightarrow> u16 \<Rightarrow> u16 list \<Rightarrow> bool" for V where
  fnil: "getw d i = 0 \<Longrightarrow> freel V d i []"
| ftab: "unat (getw d i) = Suc n \<Longrightarrow> n < 100 \<Longrightarrow> ftail V (fentry d i 0) bs \<Longrightarrow> freel V d i (entries d i (Suc n) @ bs)"
| fend: "ftail V 0 []"
| flink: "bn \<noteq> 0 \<Longrightarrow> freel V (V bn) 0 bs \<Longrightarrow> ftail V bn (bn # bs)"

inductive_cases freelE: "freel V d i bs"
inductive_cases ftail_ConsE: "ftail V bn (b # bs)"
inductive_cases ftail_0E: "ftail V 0 bs"

lemma entries_Suc: "0 < n \<Longrightarrow> entries d i (Suc n) = fentry d i n # entries d i n"
  by (simp add: entries_def)

lemma entries_01 [simp]: "entries d i 0 = []" "entries d i (Suc 0) = []"
  by (simp_all add: entries_def)

lemma entries_cong:
  "(\<And>j. j < n \<Longrightarrow> fentry d' i' j = fentry d i j) \<Longrightarrow> entries d' i' n = entries d i n"
  by (simp add: entries_def)

lemma freel_table:
  assumes "freel V d i bs" and "getw d' i' = getw d i" and "\<And>j. j < unat (getw d i) \<Longrightarrow> fentry d' i' j = fentry d i j"
  shows "freel V d' i' bs"
  using assms(1)
proof cases
  case fnil then show ?thesis using assms by (auto intro: freel_ftail.intros)
next
  case tab: (ftab n bs')
  then have "fentry d' i' 0 = fentry d i 0" "entries d' i' (Suc n) = entries d i (Suc n)"
    using assms by (auto intro!: entries_cong)
  with tab assms ftab [of d' i' n V bs'] show ?thesis by simp
qed

lemma freel_blocks:
  "freel V d i bs \<Longrightarrow> (\<And>b. b \<in> set bs \<Longrightarrow> V' b = V b) \<Longrightarrow> freel V' d i bs"
  "ftail V bn bs \<Longrightarrow> (\<And>b. b \<in> set bs \<Longrightarrow> V' b = V b) \<Longrightarrow> ftail V' bn bs"
  by (induction rule: freel_ftail.inducts) (auto intro: freel_ftail.intros)

text \<open>Taking the first block off a table, and putting one on.\<close>

lemma freel_pop:
  assumes "freel V d i (b # bs)"
  obtains (one) "getw d i = 1" "fentry d i 0 = b" "freel V (V b) 0 bs"
  | (more) n where "unat (getw d i) = Suc n" "0 < n" "n < 100" "fentry d i n = b"
      "\<And>d'. unat (getw d' i) = n \<Longrightarrow> (\<And>j. j < n \<Longrightarrow> fentry d' i j = fentry d i j) \<Longrightarrow> freel V d' i bs"
  using assms
proof cases
  case tab: (ftab n bs')
  show thesis
  proof (cases n)
    case 0
    with tab have "getw d i = 1" "ftail V (fentry d i 0) (b # bs)" by (auto simp: word_unat_eq_iff)
    then show thesis by (intro one) (auto elim: ftail_ConsE)
  next
    case (Suc m)
    with tab have e: "fentry d i n = b" "bs = entries d i n @ bs'" by (simp_all add: entries_Suc)
    have "freel V d' i bs" if "unat (getw d' i) = n" "\<And>j. j < n \<Longrightarrow> fentry d' i j = fentry d i j" for d'
    proof -
      have "entries d' i n = entries d i n" using that entries_cong by metis
      then show ?thesis using ftab [of d' i m V bs'] that tab Suc e by simp
    qed
    with tab Suc e show thesis by (intro more) auto
  qed
qed

lemma freel_empty:
  assumes "freel V d i []"
  shows "getw d i = 0 \<or> getw d i = 1 \<and> fentry d i 0 = 0"
  using assms
proof cases
  case tab: (ftab n bs')
  then have "bs' = []" "n = 0" by (auto simp: entries_def split: if_splits)
  with tab show ?thesis by (auto simp: word_unat_eq_iff elim: ftail.cases)
qed simp

lemma freel_bound: "freel V d i bs \<Longrightarrow> unat (getw d i) \<le> 100"
  by (erule freelE) auto

lemma freel_push:
  assumes f: "freel V d i bs" and n: "0 < unat (getw d i)" "unat (getw d i) < 100"
    and d': "unat (getw d' i) = Suc (unat (getw d i))" "fentry d' i (unat (getw d i)) = b"
      "\<And>j. j < unat (getw d i) \<Longrightarrow> fentry d' i j = fentry d i j"
  shows "freel V d' i (b # bs)"
  using f
proof cases
  case tab: (ftab n bs')
  have "entries d' i (Suc (Suc n)) = b # entries d i (Suc n)" "fentry d' i 0 = fentry d i 0"
    using d' tab entries_cong [of "Suc n" d' i d i] by (simp_all add: entries_Suc)
  with ftab [of d' i "Suc n" V bs'] tab d' n show ?thesis by simp
qed (use n in simp)

section \<open>Allocation pops, freeing pushes\<close>

text \<open>
  \<open>fsok dev bs s\<close>: the abstract disk holds a writable file system on \<open>dev\<close> whose free list is \<open>bs\<close>,
  without repetition and with every block in the data area.
\<close>

definition inarea :: "bytes \<Rightarrow> u16 \<Rightarrow> bool" where
  "inarea d bn \<longleftrightarrow> getw d S_ISIZE + 1 < bn \<and> bn < getw d S_FSIZE"

definition fsok :: "u16 \<Rightarrow> u16 list \<Rightarrow> kst \<Rightarrow> bool" where
  "fsok dev bs s \<longleftrightarrow> vdev dev \<and> view s dev 1 S_FLOCK = 0 \<and> getw (view s dev 1) S_ISIZE < 0xFFFF \<and>
     freel (view s dev) (view s dev 1) S_NFREE bs \<and> distinct bs \<and> (\<forall>b\<in>set bs. inarea (view s dev 1) b)"

lemma inarea_gt1:
  assumes "inarea d bn" and "getw d S_ISIZE < 0xFFFF"
  shows "bn \<noteq> 0" "bn \<noteq> 1"
  using assms unfolding inarea_def by (auto simp: word_less_nat_alt unat_word_ariths)

lemma getsb_spec:
  assumes "cok M s" "M \<subseteq> held s" "vdev dev" "unheld dev 1 s" "avail s \<noteq> {}"
  obtains sb s1 where "getsb dev s = Ret sb s1" "holding M {sb} s s1" "sb \<notin> held s" "view s1 = view s"
    "holds (blist s1 sb) dev 1" "u s1 = (u s)\<lparr>u_error := 0\<rparr>" "bdat sb s1 = view s dev 1" "bdone (blist s1 sb)"
proof -
  from hold_bread [OF holding_refl [OF assms(1,2)] assms(3), of 1] assms(4,5) obtain sb s1 where
    "bread 1 dev s = Ret (Some sb) s1" "holding M {sb} s s1" "sb \<notin> held s" "view s1 = view s"
    "holds (blist s1 sb) dev 1" "u s1 = (u s)\<lparr>u_error := 0\<rparr>" "bdat sb s1 = view s dev 1" "bdone (blist s1 sb)"
    unfolding unheld_def by metis
  then show thesis by (intro that) (simp_all add: getsb_def)
qed

lemma balloc_finish:
  assumes h: "holding (insert sb M) {sb, fb} s s3" and M: "M \<subseteq> held s" and ne: "sb \<noteq> fb"
    and v: "vdev dev" and hd: "holds (blist s3 sb) dev 1" "holds (blist s3 fb) dev bn"
  obtains s' where
    "balloc_give bn sb fb s3 = Ret bn s'"
    "holding M {} s s'" "view s' = (view s3)(dev := (view s3 dev)(bn := zerob (bdat fb s3) 0 512, 1 := bdat sb s3))"
    "u s' = u s3"
proof -
  let ?z = "zerob (bdat fb s3) 0 512" let ?s4 = "set_bdat fb ?z s3"
  have h4: "holding (insert fb (insert sb M)) {sb, fb} s ?s4" using hold_set(1) [OF h] by simp
  have "fb \<in> {sb, fb}" "holds (blist ?s4 fb) dev bn" using hd by simp_all
  from hold_bdwrite [OF h4 this v] obtain s5 where w5: "bdwrite fb ?s4 = Ret () s5"
    "holding (insert fb (insert sb M) - {fb}) ({sb, fb} - {fb}) s s5"
    "view s5 = (view ?s4)(dev := (view ?s4 dev)(bn := ?z))" "u s5 = u ?s4" "btm (blist ?s4 sb) (blist s5 sb)"
    using ne by (metis set_bdat_sel(1))
  have v5: "view s5 = (view s3)(dev := (view s3 dev)(bn := ?z))"
    using hold_set(4) [OF h _ hd(2), of ?z ?z] by (simp add: w5(3))
  have Ms: "insert fb (insert sb M) - {fb} = insert sb M" "insert sb M - {sb} = M" "{sb, fb} - {fb} = {sb}"
    using M ne holdingD(5) [OF h] by auto
  have sb5: "holds (blist s5 sb) dev 1" "bdat sb s5 = bdat sb s3"
    using hd(1) hold_set(3) [OF h, of fb sb ?z] ne btm_fields(4,6) [OF w5(5)] by (simp_all add: bdat_def)
  from w5(2) have h5: "holding (insert sb M) {sb} s s5" unfolding Ms .
  from hold_bdwrite [OF h5 _ sb5(1) v] obtain s6 where w6: "bdwrite sb s5 = Ret () s6" "holding (insert sb M - {sb}) ({sb} - {sb}) s s6"
    "view s6 = (view s5)(dev := (view s5 dev)(1 := bdat sb s5))" "u s6 = u s5" by blast
  show thesis
    by (rule that [of s6]) (use w5(1,4) w6 v5 sb5 in \<open>simp_all add: Ms(2) balloc_give_def\<close>)
qed

lemma bcheck_ok: "inarea (bdat sb s) bn \<Longrightarrow> bcheck bn sb dev s = (True, s)"
  by (simp add: bcheck_def inarea_def)

lemma avail2:
  assumes "2 \<le> card (avail s)"
  shows "avail s \<noteq> {}" "avail s - {b} \<noteq> {}"
proof -
  show "avail s \<noteq> {}" using assms by auto
  show "avail s - {b} \<noteq> {}" using assms card_mono [of "{b}" "avail s"] by (auto simp: Diff_eq_empty_iff)
qed

lemma set_bw_sel [simp]:
  "bdat b (set_bw b i v s) = putw (bdat b s) i v" "b' \<noteq> b \<Longrightarrow> bdat b' (set_bw b i v s) = bdat b' s"
  "holds (blist (set_bw b i v s) j) = holds (blist s j)" "bdone (blist (set_bw b i v s) j) = bdone (blist s j)"
  "u (set_bw b i v s) = u s" "nbuf (set_bw b i v s) = nbuf s"
  by (simp_all add: set_bw_def)

lemma hold_set_bw: "holding M H s s1 \<Longrightarrow> b \<in> H \<Longrightarrow> holding (insert b M) H s (set_bw b i v s1)"
  unfolding set_bw_def by (rule hold_set)

text \<open>The buffer for the allocated block, and the table that follows it when it was the last entry.\<close>

lemma balloc_take:
  assumes h: "holding (insert sb M) {sb} s s2" and v: "vdev dev" and un: "unheld dev bn s" "bn \<noteq> 1"
    and hs: "holds (blist s2 sb) dev 1" and av: "avail s - {sb} \<noteq> {}"
  obtains fb s3 where
    "balloc_next n bn sb dev s2 = Ret (Some fb) s3"
    "holding (insert sb M) {sb, fb} s s3" "sb \<noteq> fb" "holds (blist s3 sb) dev 1" "holds (blist s3 fb) dev bn"
    "bdat sb s3 = (if n = (0::u16) then copyb (view s2 dev bn) 0 (bdat sb s2) S_NFREE 202 else bdat sb s2)"
    "\<And>d k. (d, k) \<noteq> (dev, 1) \<Longrightarrow> view s3 d k = view s2 d k"
proof -
  note a = holdingD [OF h]
  have un2: "\<not> holds (blist s2 i) dev bn" if "i \<in> held s2" for i
    using hold_unheld [OF h un(1)] that hs un(2) by (auto simp: holds_def)
  have av2: "avail s2 \<noteq> {}" using av a(9) by simp
  show thesis
  proof (cases "n = 0")
    case True
    from hold_bread [OF h v un2 av2] obtain fb s3 where r: "bread bn dev s2 = Ret (Some fb) s3"
      "holding (insert sb M) (insert fb {sb}) s s3" "fb \<notin> {sb}" "view s3 = view s2" "holds (blist s3 fb) dev bn"
      "\<And>j. j \<in> {sb} \<Longrightarrow> btm (blist s2 j) (blist s3 j)" "bdat fb s3 = view s2 dev bn" by metis
    let ?y = "copyb (bdat fb s3) 0 (bdat sb s3) S_NFREE 202"
    have sb: "holds (blist s3 sb) dev 1" "bdat sb s3 = bdat sb s2"
      using btm_fields(4,6) [OF r(6), of sb] hs by (simp_all add: bdat_def)
    have "view (set_bdat sb ?y s3) d k = view s3 d k" if "(d, k) \<noteq> (dev, 1)" for d k
      using that sb(1) by (intro hold_set(5) [OF r(2)]) (auto simp: holds_def)
    moreover have "holding (insert sb M) {sb, fb} s (set_bdat sb ?y s3)"
      using hold_set(1) [OF r(2), of sb ?y] by (simp add: insert_commute)
    ultimately show thesis using True r sb by (intro that [of fb "set_bdat sb ?y s3"]) (auto simp: balloc_next_def)
  next
    case False
    from hold_bget [OF h v un2 av2] obtain fb s3 where r: "bget bn dev s2 = Ret fb s3"
      "holding (insert sb M) (insert fb {sb}) s s3" "fb \<notin> {sb}" "view s3 = view s2" "holds (blist s3 fb) dev bn"
      "\<And>j. j \<in> {sb} \<Longrightarrow> btm (blist s2 j) (blist s3 j)" by metis
    have sb: "holds (blist s3 sb) dev 1" "bdat sb s3 = bdat sb s2"
      using btm_fields(4,6) [OF r(6), of sb] hs by (simp_all add: bdat_def)
    with False r show thesis by (intro that [of fb s3]) (auto simp: insert_commute balloc_next_def)
  qed
qed

text \<open>
  The superblock keeps what lies outside the free table; every other block but the allocated one is
  as it was.
\<close>

definition sbsame :: "bytes \<Rightarrow> bytes \<Rightarrow> bool" where
  "sbsame d d' \<longleftrightarrow> (\<forall>i. i < S_NFREE \<or> S_NINODE \<le> i \<longrightarrow> d' i = d i)"

lemma sbsame_getw: "sbsame d d' \<Longrightarrow> i + 2 \<le> S_NFREE \<or> S_NINODE \<le> i \<Longrightarrow> getw d' i = getw d i"
  by (auto simp: sbsame_def getw_def)

lemma table_pop:
  assumes f: "freel V D S_NFREE (bn # bs)"
  defines "n \<equiv> getw D S_NFREE - 1"
  defines "d2 \<equiv> putw D S_NFREE n"
  defines "d3 \<equiv> (if n = 0 then copyb (V bn) 0 d2 S_NFREE 202 else d2)"
  shows "getw D S_NFREE \<noteq> 0" "getw d2 (S_FREE + 2 * unat n) = bn" "freel V d3 S_NFREE bs" "sbsame D d3"
proof -
  have e2: "fentry d2 4 j = fentry D 4 j" for j by (simp add: d2_def fentry_def byte_simps)
  have bnd_f: "getw d2 (S_FREE + 2 * unat n) = fentry D 4 (unat n)" using e2 [of "unat n"] by (simp add: fentry_def)
  show "sbsame D d3"
    by (simp add: sbsame_def d3_def d2_def byte_simps)
  from f have "getw D S_NFREE \<noteq> 0 \<and> getw d2 (S_FREE + 2 * unat n) = bn \<and> freel V d3 S_NFREE bs"
  proof (cases rule: freel_pop)
    case one
    then have n0: "n = 0" by (simp add: n_def)
    have "unat (getw (V bn) 0) \<le> 100" using freel_bound [OF one(3)] .
    then have "freel V d3 S_NFREE bs"
      using n0 by (intro freel_table [OF one(3)]) (auto simp: d3_def fentry_def byte_simps)
    then show ?thesis using bnd_f n0 one by simp
  next
    case (more m)
    then have nm: "unat n = m" "n \<noteq> 0" by (auto simp: n_def unat_minus_one word_unat_eq_iff)
    have "freel V d3 S_NFREE bs" using nm e2 by (intro more(5)) (simp_all add: d3_def, simp add: d2_def)
    then show ?thesis using bnd_f nm more by auto
  qed
  then show "getw D S_NFREE \<noteq> 0" "getw d2 (S_FREE + 2 * unat n) = bn" "freel V d3 S_NFREE bs" by auto
qed

lemma balloc_pop:
  assumes ok: "cok M s" "M \<subseteq> held s" and fs: "fsok dev (bn # bs) s"
    and un: "unheld dev 1 s" "unheld dev bn s" and av: "2 \<le> card (avail s)"
  obtains s' where "balloc dev s = Ret bn s'" "holding M {} s s'" "fsok dev bs s'"
    "\<And>i. i < 512 \<Longrightarrow> view s' dev bn i = 0" "sbsame (view s dev 1) (view s' dev 1)"
    "\<And>d k. (d, k) \<noteq> (dev, 1) \<Longrightarrow> (d, k) \<noteq> (dev, bn) \<Longrightarrow> view s' d k = view s d k"
proof -
  let ?D = "view s dev 1"
  from fs have v: "vdev dev" and fl: "?D S_FLOCK = 0" and isz: "getw ?D S_ISIZE < 0xFFFF"
    and fr: "freel (view s dev) ?D S_NFREE (bn # bs)" and di: "bn \<notin> set bs" "distinct bs"
    and ia: "inarea ?D bn" "\<forall>b\<in>set bs. inarea ?D b" by (auto simp: fsok_def)
  note bn = inarea_gt1 [OF ia(1) isz]
  from getsb_spec [OF ok v un(1) avail2(1) [OF av]] obtain sb s1 where g: "getsb dev s = Ret sb s1" "holding M {sb} s s1"
    "sb \<notin> held s" "view s1 = view s" "holds (blist s1 sb) dev 1" "bdat sb s1 = ?D" by metis
  define n where "n = getw ?D S_NFREE - 1"
  define s2 where "s2 = set_bw sb S_NFREE n s1"
  have h2: "holding (insert sb M) {sb} s s2" "holds (blist s2 sb) dev 1" "bdat sb s2 = putw ?D S_NFREE n"
    using hold_set_bw [OF g(2)] g(5,6) by (simp_all add: s2_def)
  have v2: "view s2 d k = view s d k" if "(d, k) \<noteq> (dev, 1)" for d k
    using hold_set(5) [OF g(2), of sb d k] that g(4,5) by (auto simp: s2_def set_bw_def holds_def)
  from balloc_take [OF h2(1) v un(2) bn(2) h2(2) avail2(2) [OF av], where n = n] obtain fb s3 where t:
    "balloc_next n bn sb dev s2 = Ret (Some fb) s3"
    and h3: "holding (insert sb M) {sb, fb} s s3" "sb \<noteq> fb" "holds (blist s3 sb) dev 1" "holds (blist s3 fb) dev bn"
    and d3: "bdat sb s3 = (if n = 0 then copyb (view s2 dev bn) 0 (bdat sb s2) S_NFREE 202 else bdat sb s2)"
    and v3: "\<And>d k. (d, k) \<noteq> (dev, 1) \<Longrightarrow> view s3 d k = view s2 d k" by blast
  from balloc_finish [OF h3(1) ok(2) h3(2) v h3(3,4)] obtain s' where
    fin: "balloc_give bn sb fb s3 = Ret bn s'"
    and h': "holding M {} s s'"
    and v': "view s' = (view s3)(dev := (view s3 dev)(bn := zerob (bdat fb s3) 0 512, 1 := bdat sb s3))" by blast
  have V2: "view s2 dev bn = view s dev bn" using v2 bn by simp
  note tab = table_pop [OF fr, folded n_def]
  have d3': "bdat sb s3 = (if n = 0 then copyb (view s dev bn) 0 (putw ?D S_NFREE n) S_NFREE 202 else putw ?D S_NFREE n)"
    using d3 h2(3) V2 by simp
  have "inarea (bdat sb s2) bn" using ia(1) h2(3) by (simp add: inarea_def byte_simps)
  then have ck: "bcheck bn sb dev (set_bw sb S_NFREE n s1) = (True, s2)" by (simp add: bcheck_ok s2_def)
  have bn_eq: "getw (bdat sb (set_bw sb S_NFREE n s1)) (S_FREE + 2 * unat n) = bn" using tab(2) g(6) by simp
  have "balloc dev s = Ret bn s'"
    using fl tab(1) t fin by (simp add: balloc_def g(1,6) Let_def n_def [symmetric] bn_eq bn(1) ck del: set_bw_sel)
  moreover have same: "sbsame ?D (view s' dev 1)" using tab(4) bn(2) by (simp add: v' d3')
  moreover have oth: "view s' d k = view s d k" if "(d, k) \<noteq> (dev, 1)" "(d, k) \<noteq> (dev, bn)" for d k
    using that v2 v3 by (auto simp: v')
  moreover have "fsok dev bs s'"
  proof -
    have "freel (view s' dev) (view s' dev 1) S_NFREE bs"
    proof (rule freel_blocks(1) [of "view s dev"])
      show "freel (view s dev) (view s' dev 1) S_NFREE bs" using tab(3) bn(2) by (simp add: v' d3')
      show "view s' dev b = view s dev b" if "b \<in> set bs" for b
        using that inarea_gt1 [OF _ isz, of b] ia(2) di by (intro oth) auto
    qed
    then show ?thesis using v fl isz di ia(2) sbsame_getw [OF same] same
      by (simp add: fsok_def inarea_def) (simp add: sbsame_def)
  qed
  moreover have "view s' dev bn i = 0" if "i < 512" for i using that bn by (simp add: v' zerob_def)
  ultimately show thesis using h' by (intro that [of s']) auto
qed

text \<open>An empty free list: the allocation fails with \<^verbatim>\<open>ENOSPC\<close> and the list stays empty.\<close>

lemma balloc_bad_spec:
  assumes h: "holding M' {sb} s s1" "M' - {sb} = M" and v: "vdev dev" and hs: "holds (blist s1 sb) dev 1" "bdone (blist s1 sb)"
  obtains s' where "balloc_bad sb dev s1 = Ret 0 s'" "holding M {} s s'" "u s' = u s1"
    "view s' = (view s1)(dev := (view s1 dev)(1 := putw (bdat sb s1) S_NFREE 0))"
proof -
  let ?s2 = "prdev ''No more space'' dev (set_bw sb S_NFREE 0 s1)"
  have h1: "holding (insert sb M') {sb} s (set_bw sb S_NFREE 0 s1)" by (rule hold_set_bw [OF h(1)]) simp
  note p = hold_prdev [OF h1, where m = "''No more space''" and dev = dev]
  have v1: "view (set_bw sb S_NFREE 0 s1) = (view s1)(dev := (view s1 dev)(1 := putw (bdat sb s1) S_NFREE 0))"
    unfolding set_bw_def by (rule hold_set(2) [OF h(1) _ v hs]) simp
  have "holds (blist ?s2 sb) dev 1" using hs by (simp add: p)
  from hold_bdwrite [OF p(1) _ this v] obtain s' where w: "bdwrite sb ?s2 = Ret () s'"
    "holding (insert sb M' - {sb}) ({sb} - {sb}) s s'"
    "view s' = (view ?s2)(dev := (view ?s2 dev)(1 := bdat sb ?s2))" "u s' = u ?s2" by blast
  have "insert sb M' - {sb} = M" using h(2) by auto
  with w p v1 show thesis by (intro that [of s']) (simp_all add: balloc_bad_def)
qed

lemma balloc_empty:
  assumes ok: "cok M s" "M \<subseteq> held s" and fs: "fsok dev [] s" and un: "unheld dev 1 s" and av: "avail s \<noteq> {}"
  obtains s' where "balloc dev s = Ret 0 s'" "holding M {} s s'" "u_error (u s') = ENOSPC" "fsok dev [] s'"
    "\<And>d k. (d, k) \<noteq> (dev, 1) \<Longrightarrow> view s' d k = view s d k"
proof -
  let ?D = "view s dev 1"
  from fs have v: "vdev dev" and fl: "?D S_FLOCK = 0" and isz: "getw ?D S_ISIZE < 0xFFFF"
    and fr: "freel (view s dev) ?D S_NFREE []" by (auto simp: fsok_def)
  from getsb_spec [OF ok v un av] obtain sb s1 where g: "getsb dev s = Ret sb s1" "holding M {sb} s s1"
    "sb \<notin> held s" "view s1 = view s" "holds (blist s1 sb) dev 1" "bdat sb s1 = ?D" "bdone (blist s1 sb)" by metis
  have Ms: "insert sb M - {sb} = M" "M - {sb} = M" using ok(2) g(3) by auto
  obtain M' s2 where b: "balloc dev s = balloc_bad sb dev (set_error ENOSPC s2)"
    and h2: "holding M' {sb} s s2" "M' - {sb} = M" "holds (blist s2 sb) dev 1" "bdone (blist s2 sb)"
    and d2: "putw (bdat sb s2) S_NFREE 0 = putw ?D S_NFREE 0" "\<And>d k. (d, k) \<noteq> (dev, 1) \<Longrightarrow> view s2 d k = view s d k"
  proof (cases "getw ?D S_NFREE = 0")
    case True
    with g fl Ms show thesis by (intro that [of s1 M]) (simp_all add: balloc_def)
  next
    case False
    with freel_empty [OF fr] have n: "getw ?D S_NFREE = 1" "fentry ?D 4 0 = 0" by auto
    let ?s2 = "set_bw sb S_NFREE 0 s1"
    have "getw (bdat sb ?s2) S_FREE = 0" using n g(6) by (simp add: fentry_def byte_simps)
    then have "balloc dev s = balloc_bad sb dev (set_error ENOSPC ?s2)"
      using fl by (simp add: balloc_def g(1,6) Let_def n(1) del: set_bw_sel)
    moreover have "view ?s2 d k = view s d k" if "(d, k) \<noteq> (dev, 1)" for d k
      using hold_set(5) [OF g(2), of sb d k] that g(4,5) by (auto simp: set_bw_def holds_def)
    ultimately show thesis
      using hold_set_bw [OF g(2)] g Ms by (intro that [of ?s2 "insert sb M"]) (auto simp: putw_def)
  qed
  note e = hold_error [OF h2(1), where e = ENOSPC]
  from balloc_bad_spec [OF e(1) h2(2) v] h2(3,4) obtain s' where
    r: "balloc_bad sb dev (set_error ENOSPC s2) = Ret 0 s'" "holding M {} s s'" "u s' = u (set_error ENOSPC s2)"
    "view s' = (view (set_error ENOSPC s2))(dev := (view (set_error ENOSPC s2) dev)(1 := putw ?D S_NFREE 0))"
    unfolding e(3) by (metis e(4) d2(1))
  have oth: "view s' d k = view s d k" if "(d, k) \<noteq> (dev, 1)" for d k using that d2(2) by (auto simp: r(4) e(2))
  have "fsok dev [] s'" using v fl isz by (simp add: fsok_def r(4) byte_simps freel_ftail.fnil)
  with b r oth show thesis by (intro that [of s']) (simp_all add: set_error_def)
qed

definition tab_room :: "bytes \<Rightarrow> bytes" where
  "tab_room D = (if getw D S_NFREE = 0 then putw (putw D S_FREE 0) S_NFREE 1
     else if getw D S_NFREE \<ge> 100 then putw D S_NFREE 0 else D)"

definition tab_add :: "u16 \<Rightarrow> bytes \<Rightarrow> bytes" where
  "tab_add bn d = putw (putw d (S_FREE + 2 * unat (getw d S_NFREE)) bn) S_NFREE (getw d S_NFREE + 1)"

lemma table_push:
  fixes D :: bytes
  assumes f: "freel V D S_NFREE bs" and bn: "bn \<noteq> 0" "bn \<notin> set bs"
  defines "n \<equiv> getw D S_NFREE"
  defines "d1 \<equiv> tab_room D"
  defines "m \<equiv> getw d1 S_NFREE"
  defines "d2 \<equiv> tab_add bn d1"
  assumes V': "\<And>b. b \<noteq> bn \<Longrightarrow> V' b = V b" "n \<ge> 100 \<Longrightarrow> V' bn = copyb D S_NFREE x 0 202"
  shows "freel V' d2 S_NFREE (bn # bs)" "sbsame D d2"
proof -
  have nb: "unat n \<le> 100" using freel_bound [OF f] by (simp add: n_def)
  have f': "freel V' D S_NFREE bs" using V'(1) bn(2) by (intro freel_blocks(1) [OF f]) metis
  have m: "m = (if n = 0 then 1 else if n \<ge> 100 then 0 else n)" by (simp add: m_def d1_def tab_room_def n_def)
  have mb: "unat m \<le> 99"
    using nb unfolding m by (auto simp: word_le_nat_alt)
  have m1: "unat (m + 1) = Suc (unat m)" using mb by (subst unat_plus_if') simp
  have d2f: "fentry d2 4 j = (if j = unat m then bn else fentry d1 4 j)" "getw d2 4 = m + 1" for j
    using nat_neq_iff [of j "unat m"] by (auto simp: fentry_def d2_def tab_add_def m_def [symmetric] byte_simps)
  show "sbsame D d2" using mb by (auto simp: sbsame_def d2_def tab_add_def m_def [symmetric] byte_simps) (auto simp: d1_def tab_room_def byte_simps)
  consider (empty) "n = 0" | (full) "n \<ge> 100" | (room) "n \<noteq> 0" "\<not> n \<ge> 100" by blast
  then show "freel V' d2 S_NFREE (bn # bs)"
  proof cases
    case empty
    then have "bs = []" using f by (auto elim: freelE simp: n_def)
    moreover have "fentry d1 4 0 = 0" using empty by (simp add: d1_def tab_room_def n_def fentry_def byte_simps)
    then have "fentry d2 4 0 = 0" "fentry d2 4 1 = bn" "getw d2 4 = 2" using empty m d2f by simp_all
    then have e: "entries d2 4 (Suc 1) = [bn]" "ftail V' (fentry d2 4 0) []" "unat (getw d2 4) = Suc 1"
      by (simp_all add: entries_def freel_ftail.fend)
    ultimately show ?thesis using ftab [OF e(3) _ e(2)] unfolding e(1) by simp
  next
    case full
    then have n0: "n \<noteq> 0" by auto
    have "freel V' (V' bn) 0 bs"
      by (rule freel_table [OF f']) (use V'(2) [OF full] nb in \<open>auto simp: n_def fentry_def byte_simps\<close>)
    then have "ftail V' bn (bn # bs)" using bn by (intro flink)
    moreover have "fentry d2 4 0 = bn" "getw d2 4 = 1" using full n0 m d2f by simp_all
    ultimately show ?thesis using ftab [of d2 4 0 V' "bn # bs"] by simp
  next
    case room
    then have "m = n" "d1 = D" by (simp_all add: m d1_def tab_room_def n_def)
    then show ?thesis using room m1 d2f
      by (intro freel_push [OF f']) (auto simp: n_def unat_gt_0 word_le_nat_alt)
  qed
qed

lemma bfree_room_spec:
  assumes h: "holding M {sb} s s1" and M: "M \<subseteq> held s" and v: "vdev dev" and un: "unheld dev bn s" "bn \<noteq> 1"
    and hs: "holds (blist s1 sb) dev 1" "bdone (blist s1 sb)" and av: "avail s - {sb} \<noteq> {}"
  defines "D \<equiv> bdat sb s1"
  defines "n \<equiv> getw D S_NFREE"
  obtains s2 x where "bfree_room bn sb dev s1 = Ret () s2" "holding (insert sb M) {sb} s s2 \<or> holding M {sb} s s2"
    "holds (blist s2 sb) dev 1"
    "bdat sb s2 = tab_room D"
    "\<And>d k. (d, k) \<noteq> (dev, 1) \<Longrightarrow> (d, k) \<noteq> (dev, bn) \<Longrightarrow> view s2 d k = view s1 d k"
    "n \<ge> 100 \<Longrightarrow> view s2 dev bn = copyb D S_NFREE x 0 202"
proof -
  consider (empty) "n = 0" | (full) "n \<ge> 100" "n \<noteq> 0" | (room) "n \<noteq> 0" "\<not> n \<ge> 100" by blast
  then show thesis
  proof cases
    case empty
    let ?s2 = "set_bdat sb (putw (putw D S_FREE 0) S_NFREE 1) s1"
    have "bfree_room bn sb dev s1 = Ret () ?s2"
      using empty by (simp add: bfree_room_def D_def n_def set_bw_def)
    moreover have "view ?s2 d k = view s1 d k" if "(d, k) \<noteq> (dev, 1)" for d k
      using that hs(1) by (intro hold_set(5) [OF h]) (auto simp: holds_def)
    ultimately show thesis using hold_set(1) [OF h] hs empty by (intro that [of ?s2]) (auto simp: tab_room_def n_def)
  next
    case full
    have un2: "\<not> holds (blist s1 i) dev bn" if "i \<in> held s1" for i
      using hold_unheld [OF h un(1)] that hs un(2) by (auto simp: holds_def)
    have "avail s1 \<noteq> {}" using av holdingD(9) [OF h] by simp
    from hold_bget [OF h v un2 this] obtain fb s3 where r: "bget bn dev s1 = Ret fb s3"
      "holding M (insert fb {sb}) s s3" "fb \<notin> {sb}" "view s3 = view s1" "holds (blist s3 fb) dev bn"
      "\<And>j. j \<in> {sb} \<Longrightarrow> btm (blist s1 j) (blist s3 j)" by metis
    have sb3: "holds (blist s3 sb) dev 1" "bdat sb s3 = D"
      using btm_fields(4,6) [OF r(6), of sb] hs by (simp_all add: bdat_def D_def)
    let ?y = "copyb D S_NFREE (bdat fb s3) 0 202" let ?s4 = "set_bdat fb ?y s3"
    have h4: "holding (insert fb M) (insert fb {sb}) s ?s4" by (rule hold_set(1) [OF r(2)]) simp
    have "fb \<in> insert fb {sb}" "holds (blist ?s4 fb) dev bn" using r by simp_all
    from hold_bawrite [OF h4 this v] obtain s5 where w: "bawrite fb ?s4 = Ret () s5"
      "holding (insert fb M - {fb}) (insert fb {sb} - {fb}) s s5"
      "view s5 = (view ?s4)(dev := (view ?s4 dev)(bn := ?y))" "btm (blist ?s4 sb) (blist s5 sb)"
      using r(3) by (metis set_bdat_sel(1) insertI1)
    have "insert fb M - {fb} = M" "insert fb {sb} - {fb} = {sb}" using M r(3) holdingD(5) [OF r(2)] by auto
    with w(2) have h5: "holding M {sb} s s5" by simp
    have sb5: "holds (blist s5 sb) dev 1" "bdat sb s5 = D"
      using sb3 hold_set(3) [OF r(2), of fb sb ?y] r(3) btm_fields(4,6) [OF w(4)] by (simp_all add: bdat_def)
    have v5: "view s5 = (view s1)(dev := (view s1 dev)(bn := ?y))"
      using hold_set(4) [OF r(2) _ r(5), of ?y ?y] by (simp add: w(3) r(4))
    let ?s6 = "set_bw sb S_NFREE 0 s5"
    have v6: "view ?s6 d k = view s5 d k" if "(d, k) \<noteq> (dev, 1)" for d k
      using that sb5(1) unfolding set_bw_def by (intro hold_set(5) [OF h5]) (auto simp: holds_def)
    have "bfree_room bn sb dev s1 = Ret () ?s6"
      using full r(1) w(1) sb3(2) by (simp add: bfree_room_def D_def [symmetric] n_def [symmetric])
    moreover have "view ?s6 d k = view s1 d k" if "(d, k) \<noteq> (dev, 1)" "(d, k) \<noteq> (dev, bn)" for d k
      using that v6 [of d k] by (auto simp: v5)
    moreover have "view ?s6 dev bn = ?y" using v6 [of dev bn] un(2) by (simp add: v5)
    ultimately show thesis
      using hold_set_bw [OF h5, of sb] sb5 full by (intro that [of ?s6 "bdat fb s3"]) (auto simp: tab_room_def n_def)
  next
    case room
    then show thesis using h hs by (intro that [of s1]) (auto simp: bfree_room_def D_def n_def tab_room_def)
  qed
qed

lemma bfree_push:
  assumes ok: "cok M s" "M \<subseteq> held s" and fs: "fsok dev bs s"
    and bn: "inarea (view s dev 1) bn" "bn \<notin> set bs"
    and un: "unheld dev 1 s" "unheld dev bn s" and av: "2 \<le> card (avail s)"
  obtains s' where "bfree bn dev s = Ret () s'" "holding M {} s s'" "fsok dev (bn # bs) s'"
    "sbsame (view s dev 1) (view s' dev 1)"
    "\<And>d k. (d, k) \<noteq> (dev, 1) \<Longrightarrow> (d, k) \<noteq> (dev, bn) \<Longrightarrow> view s' d k = view s d k"
proof -
  let ?D = "view s dev 1"
  from fs have v: "vdev dev" and fl: "?D S_FLOCK = 0" and isz: "getw ?D S_ISIZE < 0xFFFF"
    and fr: "freel (view s dev) ?D S_NFREE bs" and di: "distinct bs" and ia: "\<forall>b\<in>set bs. inarea ?D b"
    by (auto simp: fsok_def)
  note b0 = inarea_gt1 [OF bn(1) isz]
  from getsb_spec [OF ok v un(1) avail2(1) [OF av]] obtain sb s1 where g: "getsb dev s = Ret sb s1" "holding M {sb} s s1"
    "sb \<notin> held s" "view s1 = view s" "holds (blist s1 sb) dev 1" "bdat sb s1 = ?D" "bdone (blist s1 sb)" by metis
  from bfree_room_spec [OF g(2) ok(2) v un(2) b0(2) g(5,7) avail2(2) [OF av]] obtain s2 x where
    r: "bfree_room bn sb dev s1 = Ret () s2" "holding (insert sb M) {sb} s s2 \<or> holding M {sb} s s2"
      "holds (blist s2 sb) dev 1" "bdat sb s2 = tab_room ?D"
    and v2: "\<And>d k. (d, k) \<noteq> (dev, 1) \<Longrightarrow> (d, k) \<noteq> (dev, bn) \<Longrightarrow> view s2 d k = view s d k"
      "getw ?D S_NFREE \<ge> 100 \<Longrightarrow> view s2 dev bn = copyb ?D S_NFREE x 0 202" unfolding g(4,6) by metis
  let ?d2 = "tab_add bn (tab_room ?D)"
  define s3 where "s3 = set_bdat sb ?d2 s2"
  have M: "insert sb M - {sb} = M" "M - {sb} = M" using ok(2) g(3) by auto
  have h3: "holding (insert sb M) {sb} s s3" using r(2) by (auto simp: s3_def dest: hold_set(1) [of _ "{sb}" s s2 sb ?d2])
  have v3: "view s3 d k = view s2 d k" if "(d, k) \<noteq> (dev, 1)" for d k
    using that r(2,3) hold_set(5) [of _ "{sb}" s s2 sb d k ?d2] by (auto simp: s3_def holds_def)
  have "holds (blist s3 sb) dev 1" using r(3) by (simp add: s3_def)
  from hold_bdwrite [OF h3 _ this v] obtain s' where w: "bdwrite sb s3 = Ret () s'" "holding (insert sb M - {sb}) ({sb} - {sb}) s s'"
    "view s' = (view s3)(dev := (view s3 dev)(1 := bdat sb s3))" by blast
  have "set_bw sb S_NFREE (getw (bdat sb s2) S_NFREE + 1) (set_bw sb (S_FREE + 2 * unat (getw (bdat sb s2) S_NFREE)) bn s2) = s3"
    by (simp add: s3_def set_bw_def r(4) tab_add_def)
  then have res: "bfree bn dev s = Ret () s'"
    using b0 bn(1) w(1) by (simp add: bfree_def g(1) bcheck_ok g(6) r(1) Let_def)
  have V1: "view s' dev 1 = ?d2" by (simp add: w(3) s3_def)
  have oth: "view s' d k = view s d k" if "(d, k) \<noteq> (dev, 1)" "(d, k) \<noteq> (dev, bn)" for d k
    using that v2 v3 by (auto simp: w(3))
  let ?V = "(view s' dev)(1 := ?D)"
  have "?V b = view s dev b" if "b \<noteq> bn" for b using that oth by (cases "b = 1") simp_all
  moreover have "?V bn = copyb ?D S_NFREE x 0 202" if "getw ?D S_NFREE \<ge> 100" using v2(2) that v3 b0(2) by (simp add: w(3))
  ultimately have push: "freel ?V ?d2 S_NFREE (bn # bs)" and same: "sbsame ?D ?d2"
    using table_push [OF fr b0(1) bn(2), of ?V x] by blast+
  have "freel (view s' dev) ?d2 S_NFREE (bn # bs)"
  proof (rule freel_blocks(1) [OF push])
    show "view s' dev b = ?V b" if "b \<in> set (bn # bs)" for b
    proof -
      have "b \<noteq> 1" using that inarea_gt1(2) [OF _ isz, of b] ia b0(2) by auto
      then show ?thesis by simp
    qed
  qed
  then have "fsok dev (bn # bs) s'"
    using v fl isz di bn ia sbsame_getw [OF same] same
    by (simp add: fsok_def inarea_def V1) (simp add: sbsame_def)
  with res w(2) oth same show thesis by (intro that [of s']) (auto simp: V1 M)
qed

section \<open>The allocator interface\<close>

text \<open>
  What the rest of the file system relies on: a pool of blocks from which \<open>alloc\<close> takes the first,
  answering \<open>none\<close> when there is none, and to which \<open>free\<close> returns a block that is not in it.
\<close>

locale block_pool =
  fixes pool :: "'b list \<Rightarrow> 's \<Rightarrow> bool" and valid :: "'b \<Rightarrow> 's \<Rightarrow> bool" and none :: 'b
    and alloc :: "'s \<Rightarrow> ('s, 'c, 'b) outcome" and free :: "'b \<Rightarrow> 's \<Rightarrow> ('s, 'c, unit) outcome"
  assumes pool_pop: "pool (b # bs) s \<Longrightarrow> \<exists>s'. alloc s = Ret b s' \<and> pool bs s' \<and> (\<forall>x. valid x s' = valid x s)"
    and pool_empty: "pool [] s \<Longrightarrow> \<exists>s'. alloc s = Ret none s' \<and> pool [] s'"
    and pool_push: "pool bs s \<Longrightarrow> valid b s \<Longrightarrow> b \<notin> set bs \<Longrightarrow>
          \<exists>s'. free b s = Ret () s' \<and> pool (b # bs) s' \<and> (\<forall>x. valid x s' = valid x s)"
    and pool_distinct: "pool bs s \<Longrightarrow> distinct bs" and pool_valid: "pool bs s \<Longrightarrow> b \<in> set bs \<Longrightarrow> valid b s"
    and none_free: "pool bs s \<Longrightarrow> none \<notin> set bs"
begin

lemma alloc_many: "pool (bs @ cs) s \<Longrightarrow> \<exists>s'. repeat alloc (length bs) s = Ret bs s' \<and> pool cs s'"
proof (induction bs arbitrary: s)
  case (Cons b bs)
  then obtain s1 where "alloc s = Ret b s1" "pool (bs @ cs) s1" using pool_pop [of b "bs @ cs" s] by auto
  with Cons.IH [of s1] show ?case by auto
qed simp

lemma alloc_exhausted:
  assumes "pool bs s"
  shows "\<exists>s'. repeat alloc (Suc (length bs)) s = Ret (bs @ [none]) s' \<and> pool [] s'"
  using assms
proof (induction bs arbitrary: s)
  case Nil
  then show ?case using pool_empty by fastforce
next
  case (Cons b bs)
  then obtain s1 where "alloc s = Ret b s1" "pool bs s1" using pool_pop [of b bs s] by auto
  with Cons.IH [of s1] show ?case by auto
qed

lemma free_alloc:
  assumes "pool bs s" "valid b s" "b \<notin> set bs"
  shows "\<exists>s'. bnd (free b s) (\<lambda>_ s. alloc s) = Ret b s' \<and> pool bs s'"
  using pool_push [OF assms] pool_pop by fastforce

lemma alloc_free:
  assumes "pool (b # bs) s"
  shows "\<exists>s'. bnd (alloc s) (\<lambda>b s. free b s) = Ret () s' \<and> pool (b # bs) s'"
proof -
  obtain s1 where s1: "alloc s = Ret b s1" "pool bs s1" "\<forall>x. valid x s1 = valid x s"
    using pool_pop [OF assms] by blast
  have "valid b s1" "b \<notin> set bs" using s1(3) pool_valid [OF assms] pool_distinct [OF assms] by auto
  with pool_push [OF s1(2)] s1(1) show ?thesis by fastforce
qed

end

text \<open>
  A kernel at rest, nobody holding a buffer, with two buffers at least to work with and a file
  system on \<open>dev\<close> whose free list is \<open>bs\<close>.
\<close>

definition pool_at :: "u16 \<Rightarrow> u16 list \<Rightarrow> kst \<Rightarrow> bool" where
  "pool_at dev bs s \<longleftrightarrow> cok {} s \<and> held s = {} \<and> 2 \<le> card (avail s) \<and> fsok dev bs s"

lemma pool_at_done:
  assumes "pool_at dev bs s" "holding {} {} s s'" "fsok dev bs' s'"
  shows "pool_at dev bs' s'"
  using assms holdingD [OF assms(2)] unfolding pool_at_def by auto

lemma inarea_same: "sbsame d d' \<Longrightarrow> inarea d' b = inarea d b"
  using sbsame_getw [of d d'] by (simp add: inarea_def)

interpretation bp: block_pool "pool_at dev" "\<lambda>b s. inarea (view s dev 1) b" 0 "balloc dev" "\<lambda>b. bfree b dev"
proof
  fix b bs s
  assume p: "pool_at dev (b # bs) s"
  then have "cok {} s" "{} \<subseteq> held s" "fsok dev (b # bs) s" "unheld dev 1 s" "unheld dev b s" "2 \<le> card (avail s)"
    by (auto simp: pool_at_def unheld_def)
  then obtain s' where r: "balloc dev s = Ret b s'" "holding {} {} s s'" "fsok dev bs s'" "sbsame (view s dev 1) (view s' dev 1)"
    by (rule balloc_pop)
  with pool_at_done [OF p r(2,3)] inarea_same [OF r(4)]
  show "\<exists>s'. balloc dev s = Ret b s' \<and> pool_at dev bs s' \<and> (\<forall>x. inarea (view s' dev 1) x = inarea (view s dev 1) x)" by simp
next
  fix s
  assume p: "pool_at dev [] s"
  then have "cok {} s" "{} \<subseteq> held s" "fsok dev [] s" "unheld dev 1 s" "avail s \<noteq> {}"
    by (auto simp: pool_at_def unheld_def)
  then obtain s' where "balloc dev s = Ret 0 s'" "holding {} {} s s'" "fsok dev [] s'" by (rule balloc_empty)
  with pool_at_done [OF p] show "\<exists>s'. balloc dev s = Ret 0 s' \<and> pool_at dev [] s'" by metis
next
  fix b bs s
  assume p: "pool_at dev bs s" and b: "inarea (view s dev 1) b" "b \<notin> set bs"
  then have q: "cok {} s" "{} \<subseteq> held s" "fsok dev bs s" "unheld dev 1 s" "unheld dev b s" "2 \<le> card (avail s)"
    by (auto simp: pool_at_def unheld_def)
  obtain s' where r: "bfree b dev s = Ret () s'" "holding {} {} s s'" "fsok dev (b # bs) s'" "sbsame (view s dev 1) (view s' dev 1)"
    by (rule bfree_push [OF q(1,2,3) b q(4,5,6)])
  with pool_at_done [OF p r(2,3)] inarea_same [OF r(4)]
  show "\<exists>s'. bfree b dev s = Ret () s' \<and> pool_at dev (b # bs) s' \<and> (\<forall>x. inarea (view s' dev 1) x = inarea (view s dev 1) x)" by simp
next
  fix bs s b
  show "distinct bs" if "pool_at dev bs s" using that by (simp add: pool_at_def fsok_def)
  show "inarea (view s dev 1) b" if "pool_at dev bs s" "b \<in> set bs" using that by (simp add: pool_at_def fsok_def)
  show "0 \<notin> set bs" if "pool_at dev bs s" using that inarea_gt1(1) by (auto simp: pool_at_def fsok_def)
qed

end
