(* ===== verification/Inode.thy ===== *)
theory Inode
  imports Balloc
begin

text \<open>
  The in-core inode table (\<^verbatim>\<open>sys/iget.c\<close>), with the look-up of the mount table (\<^verbatim>\<open>mlook\<close> of
  \<^verbatim>\<open>sys/mount.c\<close>) and the conversions of file sizes (\<^verbatim>\<open>x3to4\<close> and \<^verbatim>\<open>x4to3\<close> of \<^verbatim>\<open>sub8.s\<close>).
\<close>

section \<open>Operations\<close>

text \<open>The disk inode, 32 bytes: what \<^verbatim>\<open>copy(dp, &ip->i_mode, 32)\<close> moves, field by field.\<close>

definition dsk_get :: "bytes \<Rightarrow> nat \<Rightarrow> dsknod" where
  "dsk_get b i = \<lparr>d_mode = getw b i, d_nlink = b (i + 2), d_uid = b (i + 3), d_gid = b (i + 4),
     d_size0 = b (i + 5), d_size1 = getw b (i + 6), d_addr = (\<lambda>j. if j < 8 then getw b (i + 8 + 2 * j) else 0),
     d_atime = getl b (i + 24), d_mtime = getl b (i + 28)\<rparr>"

fun put_addr :: "bytes \<Rightarrow> nat \<Rightarrow> (nat \<Rightarrow> u16) \<Rightarrow> nat \<Rightarrow> bytes" where
  "put_addr b i a 0 = b"
| "put_addr b i a (Suc j) = putw (put_addr b i a j) (i + 2 * j) (a j)"

definition dsk_put :: "dsknod \<Rightarrow> bytes \<Rightarrow> nat \<Rightarrow> bytes" where
  "dsk_put d b i =
     (let b1 = (putw b i (d_mode d))(i + 2 := d_nlink d, i + 3 := d_uid d, i + 4 := d_gid d, i + 5 := d_size0 d);
          b2 = put_addr (putw b1 (i + 6) (d_size1 d)) (i + 8) (d_addr d) 8
      in putl (putl b2 (i + 24) (d_atime d)) (i + 28) (d_mtime d))"

definition x3to4 :: "u8 \<Rightarrow> u16 \<Rightarrow> u32" where
  "x3to4 size0 size1 = word_cat (ucast size0 :: u16) size1"

definition x4to3 :: "u32 \<Rightarrow> u8 \<times> u16" where
  "x4to3 sz = (ucast (drop_bit 16 sz), ucast sz)"

definition i_mode :: "inode \<Rightarrow> u16" where "i_mode x = d_mode (i_d x)"

definition upd_dsk :: "nat \<Rightarrow> (dsknod \<Rightarrow> dsknod) \<Rightarrow> kst \<Rightarrow> kst" where
  "upd_dsk ip f s = upd_inode ip (\<lambda>x. x\<lparr>i_d := f (i_d x)\<rparr>) s"

definition set_iflag :: "u8 \<Rightarrow> nat \<Rightarrow> kst \<Rightarrow> kst" where
  "set_iflag m ip s = upd_inode ip (\<lambda>x. x\<lparr>i_flags := i_flags x OR m\<rparr>) s"

definition clr_iflag :: "u8 \<Rightarrow> nat \<Rightarrow> kst \<Rightarrow> kst" where
  "clr_iflag m ip s = upd_inode ip (\<lambda>x. x\<lparr>i_flags := i_flags x AND NOT m\<rparr>) s"

definition mlook :: "u16 \<Rightarrow> kst \<Rightarrow> nat option" where
  "mlook dev s = scan (\<lambda>m. m_dev (mlist s m) = dev) NMOUNT"

text \<open>
  \<^verbatim>\<open>ilock\<close>: the count covers the time asleep, so that \<^verbatim>\<open>iget\<close> does not take the entry away.
\<close>

definition ilock :: "nat \<Rightarrow> kst \<Rightarrow> unit K" where
  "ilock ip s =
     (let s1 = upd_inode ip (\<lambda>x. x\<lparr>i_count := i_count x + 1\<rparr>) s in
      if tst (i_flags (ilist s1 ip)) IBUSY then sleep (ChInode ip) PRINOD (set_iflag IWANT ip s1)
      else Ret () (upd_inode ip (\<lambda>x. x\<lparr>i_flags := i_flags x OR IBUSY, i_count := i_count x - 1\<rparr>) s1))"

definition itime :: "kst \<Rightarrow> u16 \<times> kst" where
  "itime s =
     (let c = iclock s + 1;
          il = (if c = 0 then (\<lambda>i. if i < NINODE then (ilist s i)\<lparr>i_time := 0\<rparr> else ilist s i) else ilist s)
      in (c, s\<lparr>iclock := c, ilist := il\<rparr>))"

definition irelse :: "nat \<Rightarrow> kst \<Rightarrow> unit K" where
  "irelse ip s =
     bnd (if tst (i_flags (ilist s ip)) IWANT then wakeup (ChInode ip) s else Ret () s) (\<lambda>_ s.
     let s1 = clr_iflag (IBUSY OR IWANT) ip s;
         (c, s2) = itime s1
     in Ret () (upd_inode ip (\<lambda>x. x\<lparr>i_time := c\<rparr>) s2))"

definition irelse_opt :: "nat option \<Rightarrow> kst \<Rightarrow> unit K" where
  "irelse_opt ip s = (case ip of None \<Rightarrow> Ret () s | Some i \<Rightarrow> irelse i s)"

text \<open>\<^verbatim>\<open>iio(flag, ip)\<close>: True reads the disk inode into the table, False writes it.\<close>

definition iio :: "bool \<Rightarrow> nat \<Rightarrow> kst \<Rightarrow> bool K" where
  "iio rd ip s =
     (let inum = i_inum (ilist s ip); dev = i_dev (ilist s ip); i = inum + 31; off = unat (i AND 15) * 32 in
      case mlook dev s of
        None \<Rightarrow> Panic ''iio'' s
      | Some m \<Rightarrow>
          if inum = 0 \<or> inum > push_bit 4 (m_isize (mlist s m))
          then Ret False (set_error EIO (pr ''Bad inumber'' [] s))
          else
            let s1 = (if m_ronly (mlist s m) \<noteq> 0 then set_iflag IRONLY ip s else clr_iflag IRONLY ip s) in
            bnd (bread (drop_bit 4 i) dev s1) (\<lambda>bp s. case bp of
              None \<Rightarrow> Ret False s
            | Some bp \<Rightarrow>
                bnd (if rd
                     then bnd (brelse bp (upd_dsk ip (\<lambda>_. dsk_get (bdat bp s) off) s)) (\<lambda>_ s.
                          Ret () (upd_inode ip (\<lambda>x. x\<lparr>i_size := x3to4 (d_size0 (i_d x)) (d_size1 (i_d x))\<rparr>) s))
                     else
                       let (z0, z1) = x4to3 (i_size (ilist s ip));
                           s2 = upd_dsk ip (\<lambda>d. d\<lparr>d_size0 := z0, d_size1 := z1\<rparr>) s
                       in bdwrite bp (set_bdat bp (dsk_put (i_d (ilist s2 ip)) (bdat bp s2) off) s2)) (\<lambda>_ s.
                Ret True (clr_iflag IMOD ip s))))"

text \<open>
  The search of \<^verbatim>\<open>iget\<close>: the entry of the inode, or the least recently released entry that is neither
  referenced nor busy.
\<close>

fun iscan :: "(nat \<Rightarrow> inode) \<Rightarrow> u16 \<Rightarrow> u16 \<Rightarrow> nat list \<Rightarrow> nat option \<Rightarrow> nat + nat option" where
  "iscan il num dev [] f = Inr f"
| "iscan il num dev (i # r) f =
     (if i_inum (il i) = num \<and> i_dev (il i) = dev then Inl i
      else if i_count (il i) > 0 \<or> tst (i_flags (il i)) IBUSY then iscan il num dev r f
      else iscan il num dev r
        (case f of None \<Rightarrow> Some i | Some g \<Rightarrow> if i_time (il g) > i_time (il i) then Some i else f))"

definition iload :: "nat \<Rightarrow> u16 \<Rightarrow> u16 \<Rightarrow> kst \<Rightarrow> nat option K" where
  "iload i num dev s =
     bnd (ilock i s) (\<lambda>_ s.
     bnd (if tst (i_flags (ilist s i)) IMOD then iio False i s else Ret True s) (\<lambda>ok s.
     if \<not> ok then bnd (irelse i s) (\<lambda>_ s. Ret None s)
     else
       let s1 = upd_inode i (\<lambda>x. x\<lparr>i_inum := num, i_dev := dev, i_count := 0, i_mount := None\<rparr>) s in
       bnd (iio True i s1) (\<lambda>ok s.
       if ok then Ret (Some i) s
       else bnd (irelse i (upd_inode i (\<lambda>_. inode0) s)) (\<lambda>_ s. Ret None s))))"

text \<open>
  An inode with a file system mounted on it stands for the root of that file system: \<^verbatim>\<open>iget\<close> starts over
  there. The look-ups do not change the mounts, so with more rounds than there are mounts it never ends.
\<close>

fun iget_loop :: "nat \<Rightarrow> u16 \<Rightarrow> u16 \<Rightarrow> kst \<Rightarrow> nat option K" where
  "iget_loop 0 num dev s = Spin s"
| "iget_loop (Suc n) num dev s =
     (case iscan (ilist s) num dev [0..<NINODE] None of
        Inl i \<Rightarrow>
          bnd (ilock i s) (\<lambda>_ s.
          case i_mount (ilist s i) of
            Some m \<Rightarrow> let dev' = m_dev (mlist s m) in bnd (irelse i s) (\<lambda>_ s. iget_loop n 1 dev' s)
          | None \<Rightarrow> Ret (Some i) s)
      | Inr None \<Rightarrow> Ret None (set_error ENFILE s)
      | Inr (Some i) \<Rightarrow> iload i num dev s)"

definition iget :: "u16 \<Rightarrow> u16 \<Rightarrow> kst \<Rightarrow> nat option K" where
  "iget num dev s = iget_loop (Suc (Suc NMOUNT)) num dev s"

fun iflush_from :: "u16 \<Rightarrow> nat list \<Rightarrow> kst \<Rightarrow> unit K" where
  "iflush_from dev [] s = Ret () s"
| "iflush_from dev (i # r) s =
     (if i_dev (ilist s i) = dev
      then bnd (ilock i s) (\<lambda>_ s.
           bnd (if tst (i_flags (ilist s i)) IMOD then iio False i s else Ret True s) (\<lambda>_ s.
           bnd (irelse i s) (\<lambda>_ s.
           iflush_from dev r (upd_inode i (\<lambda>_. inode0) s))))
      else iflush_from dev r s)"

definition iflush :: "u16 \<Rightarrow> kst \<Rightarrow> unit K" where
  "iflush dev s = iflush_from dev [0..<NINODE] s"

fun isync_from :: "nat list \<Rightarrow> kst \<Rightarrow> unit K" where
  "isync_from [] s = Ret () s"
| "isync_from (i # r) s =
     (if i_flags (ilist s i) AND (IMOD OR IBUSY) = IMOD
      then bnd (ilock i s) (\<lambda>_ s. bnd (iio False i s) (\<lambda>_ s. bnd (irelse i s) (\<lambda>_ s. isync_from r s)))
      else isync_from r s)"

definition isync :: "kst \<Rightarrow> unit K" where
  "isync s = isync_from [0..<NINODE] s"

section \<open>Permissions (access.c)\<close>

definition ronly :: "nat \<Rightarrow> kst \<Rightarrow> bool \<times> kst" where
  "ronly ip s = (if tst (i_flags (ilist s ip)) IRONLY then (True, set_error EROFS s) else (False, s))"

definition access :: "nat \<Rightarrow> u16 \<Rightarrow> kst \<Rightarrow> bool \<times> kst" where
  "access ip perm s =
     (let x = ilist s ip; mode = i_mode x; p3 = push_bit 3 perm; p6 = push_bit 3 p3 in
      if tst perm IWRITE \<and> \<not> tst mode IIO \<and> fst (ronly ip s) then (False, snd (ronly ip s))
      else if tst perm IWRITE \<and> tst (i_flags x) IWRLOCK then (False, set_error EBUSY s)
      else if u_euid s = 0 then
        (if \<not> tst perm IEXEC then (True, s)
         else if tst mode (IEXEC OR push_bit 3 IEXEC OR push_bit 6 IEXEC) then (True, s)
         else (False, set_error EACCES s))
      else if perm AND mode = perm then (True, s)
      else if u_egid s = d_gid (i_d x) \<and> p3 AND mode = p3 then (True, s)
      else if u_euid s = d_uid (i_d x) \<and> p6 AND mode = p6 then (True, s)
      else (False, set_error EACCES s))"

definition super :: "kst \<Rightarrow> bool \<times> kst" where
  "super s = (if u_euid s = 0 then (True, s) else (False, set_error EPERM s))"

end
