(* ===== verification/Ialloc.thy ===== *)
theory Ialloc
  imports Inode
begin

text \<open>
  Allocation of disk inodes and truncation of files (\<^verbatim>\<open>sys/ialloc.c\<close>).
\<close>

section \<open>Operations\<close>

text \<open>
  One block of disk inodes: the numbers of its free inodes go to the superblock list while it has
  fewer than 100. \<open>j\<close> counts the inodes still to be looked at.
\<close>

fun ifill_block :: "nat \<Rightarrow> nat \<Rightarrow> nat \<Rightarrow> u16 \<Rightarrow> kst \<Rightarrow> kst" where
  "ifill_block sb bp 0 inum s = s"
| "ifill_block sb bp (Suc j) inum s =
     (let n = getw (bdat sb s) S_NINODE;
          s1 = (if \<not> tst (getw (bdat bp s) ((15 - j) * 32)) IALLOC \<and> n < 100
                then set_bw sb S_NINODE (n + 1) (set_bw sb (S_INODE + 2 * unat n) inum s) else s)
      in ifill_block sb bp j (inum + 1) s1)"

fun ifill_loop :: "nat \<Rightarrow> u16 \<Rightarrow> u16 \<Rightarrow> nat \<Rightarrow> u16 \<Rightarrow> kst \<Rightarrow> u16 K" where
  "ifill_loop 0 iblk itop sb dev s = Ret iblk s"
| "ifill_loop (Suc limit) iblk itop sb dev s =
     (let blk = (if iblk > itop then 2 else iblk) in
      bnd (bread blk dev s) (\<lambda>bp s. case bp of
        None \<Rightarrow> ifill_loop limit (blk + 1) itop sb dev s
      | Some bp \<Rightarrow>
          bnd (brelse bp (ifill_block sb bp 16 (16 * blk - 31) s)) (\<lambda>_ s.
          if getw (bdat sb s) S_NINODE \<ge> 100 then Ret blk s
          else ifill_loop limit (blk + 1) itop sb dev s)))"

definition ifill :: "nat \<Rightarrow> u16 \<Rightarrow> kst \<Rightarrow> bool K" where
  "ifill sb dev s =
     bnd (isync s) (\<lambda>_ s.
     let isize = getw (bdat sb s) S_ISIZE in
     bnd (ifill_loop (unat isize) (lastiblock s) (isize + 1) sb dev s) (\<lambda>iblk s.
     let s1 = s\<lparr>lastiblock := iblk\<rparr> in
     if getw (bdat sb s1) S_NINODE \<noteq> 0 then Ret True s1 else Ret False (set_error ENOSPC s1)))"

text \<open>
  The search of \<^verbatim>\<open>ialloc\<close> is an endless loop with two exits. \<open>None\<close> means that it never leaves it.
\<close>

definition ipop :: "nat \<Rightarrow> u16 \<Rightarrow> kst \<Rightarrow> nat option K" where
  "ipop sb dev s =
     (let n = getw (bdat sb s) S_NINODE - 1; s1 = set_bw sb S_NINODE n s
      in iget (getw (bdat sb s1) (S_INODE + 2 * unat n)) dev s1)"

definition ialloc_try :: "nat \<Rightarrow> u16 \<Rightarrow> kst \<Rightarrow> (nat option) option K" where
  "ialloc_try sb dev s =
     bnd (if getw (bdat sb s) S_NINODE = 0 then ifill sb dev s else Ret True s) (\<lambda>some s.
     if \<not> some then Ret (Some None) s
     else bnd (ipop sb dev s) (\<lambda>ip s. case ip of
            None \<Rightarrow> Ret None s
          | Some ip \<Rightarrow>
              if \<not> tst (i_mode (ilist s ip)) IALLOC then Ret (Some (Some ip)) s
              else bnd (irelse ip s) (\<lambda>_ s. Ret None s)))"

partial_function (option) ialloc_loop :: "nat \<Rightarrow> u16 \<Rightarrow> kst \<Rightarrow> nat option K option" where
  "ialloc_loop sb dev s =
     obnd (ialloc_try sb dev s) (\<lambda>r s. case r of Some ip \<Rightarrow> Some (Ret ip s) | None \<Rightarrow> ialloc_loop sb dev s)"

definition ialloc_init :: "nat \<Rightarrow> kst \<Rightarrow> kst" where
  "ialloc_init ip s =
     upd_inode ip (\<lambda>x. x\<lparr>i_d := dsk0\<lparr>d_mode := IALLOC, d_atime := seconds s, d_mtime := seconds s\<rparr>,
       i_flags := i_flags x OR IMOD, i_count := 0, i_mount := None, i_size := 0\<rparr>) s"

definition ialloc :: "u16 \<Rightarrow> kst \<Rightarrow> nat option K" where
  "ialloc dev s =
     bnd (getsb dev s) (\<lambda>sb s.
     bnd (spin (ialloc_loop sb dev s) s) (\<lambda>ip s.
     let s1 = (case ip of None \<Rightarrow> s | Some ip \<Rightarrow> ialloc_init ip s) in
     bnd (bdwrite sb s1) (\<lambda>_ s. Ret ip s)))"

definition ifree :: "nat \<Rightarrow> kst \<Rightarrow> unit K" where
  "ifree ip s =
     bnd (getsb (i_dev (ilist s ip)) s) (\<lambda>sb s.
     let n = getw (bdat sb s) S_NINODE;
         inum = i_inum (ilist s ip);
         new = drop_bit 4 (inum + 31);
         s1 = (if n < 100 then set_bw sb S_NINODE (n + 1) (set_bw sb (S_INODE + 2 * unat n) inum s)
               else if new < lastiblock s then s\<lparr>lastiblock := new\<rparr> else s);
         s2 = set_iflag IMOD ip (upd_dsk ip (\<lambda>_. dsk0) s1)
     in bdwrite sb s2)"

text \<open>
  \<^verbatim>\<open>indfree(ind, level, dev)\<close> walks the 256 entries of an indirect block from the last to the first,
  holding its buffer, and frees what they address, then the block itself.
\<close>

fun indfree :: "u16 \<Rightarrow> nat \<Rightarrow> u16 \<Rightarrow> kst \<Rightarrow> unit K"
  and indfree_from :: "nat \<Rightarrow> nat \<Rightarrow> nat \<Rightarrow> u16 \<Rightarrow> kst \<Rightarrow> unit K" where
  "indfree ind 0 dev s = (if ind = 0 then Ret () s else bfree ind dev s)"
| "indfree ind (Suc l) dev s =
     (if ind = 0 then Ret () s
      else bnd (bread ind dev s) (\<lambda>bp s. case bp of
        None \<Rightarrow> Ret () s
      | Some bp \<Rightarrow>
          bnd (indfree_from bp 256 l dev s) (\<lambda>_ s.
          bnd (brelse bp s) (\<lambda>_ s. bfree ind dev s))))"
| "indfree_from bp 0 l dev s = Ret () s"
| "indfree_from bp (Suc n) l dev s =
     bnd (indfree (getw (bdat bp s) (2 * n)) l dev s) (\<lambda>_ s. indfree_from bp n l dev s)"

fun itrunc_small :: "nat \<Rightarrow> nat \<Rightarrow> u16 \<Rightarrow> kst \<Rightarrow> unit K" where
  "itrunc_small ip 0 dev s = Ret () s"
| "itrunc_small ip (Suc n) dev s =
     bnd (bfree (d_addr (i_d (ilist s ip)) n) dev s) (\<lambda>_ s. itrunc_small ip n dev s)"

fun itrunc_large :: "nat \<Rightarrow> nat \<Rightarrow> u16 \<Rightarrow> kst \<Rightarrow> unit K" where
  "itrunc_large ip 0 dev s = Ret () s"
| "itrunc_large ip (Suc n) dev s =
     bnd (indfree (d_addr (i_d (ilist s ip)) n) 1 dev s) (\<lambda>_ s. itrunc_large ip n dev s)"

definition itrunc :: "nat \<Rightarrow> kst \<Rightarrow> unit K" where
  "itrunc ip s =
     (if tst (i_mode (ilist s ip)) IIO then Ret () s
      else
        let dev = i_dev (ilist s ip) in
        bnd (if tst (i_mode (ilist s ip)) ILARG
             then bnd (indfree (d_addr (i_d (ilist s ip)) 7) 2 dev s) (\<lambda>_ s. itrunc_large ip 7 dev s)
             else itrunc_small ip 8 dev s) (\<lambda>_ s.
        Ret () (upd_inode ip (\<lambda>x. x\<lparr>i_d := (i_d x)\<lparr>d_addr := (\<lambda>_. 0), d_mode := d_mode (i_d x) AND NOT ILARG,
            d_mtime := seconds s\<rparr>, i_size := 0, i_flags := i_flags x OR IMOD\<rparr>) s)))"

definition idec :: "nat \<Rightarrow> kst \<Rightarrow> unit K" where
  "idec ip s =
     bnd (if i_count (ilist s ip) = 0 \<and> d_nlink (i_d (ilist s ip)) = 0
          then bnd (itrunc ip s) (\<lambda>_ s. ifree ip s) else Ret () s) (\<lambda>_ s.
     irelse ip s)"

end
