(* ===== verification/Imap.thy ===== *)
theory Imap
  imports Ialloc
begin

text \<open>
  Translation of a logical block of a file to a disk block (\<^verbatim>\<open>sys/imap.c\<close>). Each routine returns the
  block number and the number of the next block for read-ahead (\<^verbatim>\<open>*rap\<close>).
\<close>

section \<open>Operations\<close>

text \<open>
  \<^verbatim>\<open>plug(p, dev)\<close> for a word \<^verbatim>\<open>*p\<close> of an inode or of an indirect block: allocate a block for it. When
  somebody else filled the word meanwhile the block is freed again, without naming the device.
\<close>

definition plug :: "(kst \<Rightarrow> u16) \<Rightarrow> (u16 \<Rightarrow> kst \<Rightarrow> kst) \<Rightarrow> u16 \<Rightarrow> kst \<Rightarrow> bool K" where
  "plug p setp dev s =
     bnd (balloc dev s) (\<lambda>bn s.
     if bn \<noteq> 0 then
       (if p s = 0 then Ret True (setp bn s)
        else bnd (bfree bn (junk s) s) (\<lambda>_ s. Ret False s))
     else Ret False s)"

definition i_addr :: "nat \<Rightarrow> nat \<Rightarrow> kst \<Rightarrow> u16" where
  "i_addr ip n s = d_addr (i_d (ilist s ip)) n"

definition set_i_addr :: "nat \<Rightarrow> nat \<Rightarrow> u16 \<Rightarrow> kst \<Rightarrow> kst" where
  "set_i_addr ip n v s = upd_dsk ip (\<lambda>d. d\<lparr>d_addr := (d_addr d)(n := v)\<rparr>) s"

definition imapi :: "nat \<Rightarrow> nat \<Rightarrow> kst \<Rightarrow> (u16 \<times> u16) K" where
  "imapi ip n s =
     bnd (if i_addr ip n s = 0
          then bnd (plug (i_addr ip n) (set_i_addr ip n) (i_dev (ilist s ip)) s) (\<lambda>ok s.
               Ret () (if ok then set_iflag IMOD ip s else s))
          else Ret () s) (\<lambda>_ s.
     Ret (i_addr ip n s, if n < 7 then i_addr ip (n + 1) s else 0) s)"

definition imapb :: "u16 \<Rightarrow> nat \<Rightarrow> u16 \<Rightarrow> kst \<Rightarrow> (u16 \<times> u16) K" where
  "imapb ind n dev s =
     (if ind = 0 then Ret (0, 0) s
      else bnd (bread ind dev s) (\<lambda>bp s. case bp of
        None \<Rightarrow> Ret (0, 0) s
      | Some bp \<Rightarrow>
          bnd (if getw (bdat bp s) (2 * n) = 0
               then plug (\<lambda>s. getw (bdat bp s) (2 * n)) (set_bw bp (2 * n)) dev s
               else Ret False s) (\<lambda>ok s.
          bnd (if ok then bdwrite bp s else brelse bp s) (\<lambda>_ s.
          Ret (getw (bdat bp s) (2 * n), if n < 255 then getw (bdat bp s) (2 * n + 2) else 0) s))))"

definition imap_large :: "nat \<Rightarrow> u16 \<Rightarrow> kst \<Rightarrow> bool K" where
  "imap_large ip dev s =
     bnd (balloc dev s) (\<lambda>bn s.
     if bn = 0 then Ret False s
     else bnd (bget bn dev s) (\<lambda>bp s.
       let s1 = set_bdat bp (put_addr (zerob (bdat bp s) 0 512) 0 (\<lambda>n. i_addr ip n s) 8) s;
           s2 = upd_dsk ip (\<lambda>d. d\<lparr>d_addr := (\<lambda>_. 0)(0 := bn)\<rparr>) s1
       in bnd (bdwrite bp s2) (\<lambda>_ s.
          Ret True (set_iflag IMOD ip (upd_dsk ip (\<lambda>d. d\<lparr>d_mode := d_mode d OR ILARG\<rparr>) s)))))"

definition imap :: "nat \<Rightarrow> u16 \<Rightarrow> kst \<Rightarrow> (u16 \<times> u16) K" where
  "imap ip log s =
     (let dev = i_dev (ilist s ip); index = unat (drop_bit 8 log) in
      if tst (i_mode (ilist s ip)) IIO then Ret (log, log + 1) s
      else if log <s 0 then Ret (0, 0) (set_error EFBIG s)
      else if \<not> tst (i_mode (ilist s ip)) ILARG \<and> log < 8 then imapi ip (unat log) s
      else bnd (if tst (i_mode (ilist s ip)) ILARG then Ret True s else imap_large ip dev s) (\<lambda>ok s.
        if \<not> ok then Ret (0, 0) s
        else bnd (imapi ip (min index 7) s) (\<lambda>(ind, _) s.
             bnd (if index \<ge> 7 then imapb ind (index - 7) dev s else Ret (ind, 0) s) (\<lambda>(ind, _) s.
             imapb ind (unat (log AND 0xFF)) dev s))))"

end
