(* ===== verification/Signal.thy ===== *)
theory Signal
  imports Sleep
begin

text \<open>
  Signals (\<^verbatim>\<open>sys/sig.c\<close>) and process numbers (\<^verbatim>\<open>procid\<close>, \<^verbatim>\<open>procptr\<close>, \<^verbatim>\<open>newpid\<close> of \<^verbatim>\<open>sys/fork.c\<close>). A signal
  waits in \<^verbatim>\<open>slist[0]\<close> of the process until the process takes it.
\<close>

section \<open>Operations\<close>

abbreviation (input) TERMIN :: u16 where "TERMIN \<equiv> 0"
abbreviation (input) IGNORE :: u16 where "IGNORE \<equiv> 1"

definition set_slist :: "nat \<Rightarrow> nat \<Rightarrow> u16 \<Rightarrow> kst \<Rightarrow> kst" where
  "set_slist p i v s = upd_proc p (\<lambda>q. q\<lparr>p_slist := (p_slist q)(i := v)\<rparr>) s"

definition signal :: "u16 \<Rightarrow> u16 \<Rightarrow> kst \<Rightarrow> u16 \<times> kst" where
  "signal sg func s =
     (if sg \<ge> of_nat NSIG \<or> sg = SIGKILL \<or> sg = 0 then (junk s, set_error EINVAL s)
      else
        let p = u_p (u s); old = p_slist (plist s p) (unat sg);
            f = (if func = TERMIN \<and> (sg = SIGTINT \<or> sg = SIGBACK) then IGNORE else func);
            s1 = set_slist p (unat sg) f s
        in (old, if p_slist (plist s1 p) 0 = sg \<and> f = IGNORE then set_slist p 0 0 s1 else s1))"

definition send :: "nat \<Rightarrow> u16 \<Rightarrow> kst \<Rightarrow> unit K" where
  "send p sg s =
     (let q = plist s p in
      if \<not> tst (p_mode q) ALIVE then Ret () s
      else if p_slist q (unat sg) = IGNORE then Ret () s
      else if p_slist q 0 = SIGKILL then Ret () s
      else
        let s1 = set_slist p 0 sg s in
        if p_pri q < SIGPRI \<and> \<not> tst (p_mode q) AWAKE \<and> sg \<noteq> SIGTINT then run p s1 else Ret () s1)"

fun killall_from :: "nat list \<Rightarrow> nat option \<Rightarrow> u16 \<Rightarrow> kst \<Rightarrow> unit K" where
  "killall_from [] tty sg s = Ret () s"
| "killall_from (p # ps) tty sg s =
     (if p_tty (plist s p) = tty then bnd (send p sg s) (\<lambda>_ s. killall_from ps tty sg s)
      else killall_from ps tty sg s)"

definition killall :: "nat option \<Rightarrow> u16 \<Rightarrow> kst \<Rightarrow> unit K" where
  "killall tty sg s = killall_from [2..<NPROC] tty sg s"

definition procid :: "nat \<Rightarrow> kst \<Rightarrow> u16" where
  "procid p s = ucast (p_pid (plist s p))"

definition procptr :: "u16 \<Rightarrow> kst \<Rightarrow> nat option" where
  "procptr pid s = scan (\<lambda>p. ucast (p_pid (plist s p)) = pid \<and> tst (p_mode (plist s p)) ALLOC) NPROC"

definition kill :: "u16 \<Rightarrow> u16 \<Rightarrow> kst \<Rightarrow> unit K" where
  "kill pid sg s =
     (if pid = 0 then killall (p_tty (cur s)) sg s
      else case procptr pid s of
        None \<Rightarrow> Ret () (set_error ESRCH s)
      | Some p \<Rightarrow>
          if p \<noteq> u_p (u s) \<and> tst (p_mode (plist s p)) ALIVE \<and> (p_uid (plist s p) = u_uid s \<or> u_euid s = 0)
          then send p sg s else Ret () (set_error ESRCH s))"

definition setback :: "nat \<Rightarrow> kst \<Rightarrow> kst" where
  "setback p s = upd_proc p (\<lambda>q. q\<lparr>p_mode := p_mode q OR BACK,
     p_slist := (\<lambda>i. if i < NSIG then (if i = unat SIGKILL then TERMIN else IGNORE) else p_slist q i)\<rparr>) s"

text \<open>
  \<^verbatim>\<open>newpid\<close>: the serial number goes from 1 to 30000 and around, past numbers in use.
\<close>

partial_function (option) newpid_loop :: "kst \<Rightarrow> (u16 \<times> kst) option" where
  "newpid_loop s =
     (let new = pidctr s; c = pidctr s + 1; s1 = s\<lparr>pidctr := (if 30000 <s c then 1 else c)\<rparr> in
      if procptr new s1 = None then Some (new, s1) else newpid_loop s1)"

definition newpid :: "kst \<Rightarrow> u16 K" where
  "newpid s = (case newpid_loop s of None \<Rightarrow> Spin s | Some (n, s') \<Rightarrow> Ret n s')"

end
