(* ===== verification/Memory.thy ===== *)
theory Memory
  imports Signal Console
begin

text \<open>
  Primary memory and swap space (\<^verbatim>\<open>sys/malloc.c\<close>): 4K segments handed out from \<^verbatim>\<open>segmap\<close>, the memory map
  of a process with its shared grow segment, and the list of free swap space.
\<close>

section \<open>Segments\<close>

fun segalloc_loop :: "nat \<Rightarrow> u16 \<Rightarrow> kst \<Rightarrow> u16 \<times> kst" where
  "segalloc_loop 0 n s = (junk s, s)"
| "segalloc_loop (Suc limit) n s =
     (let n' = (if n \<ge> 256 then 16 else n) in
      if segmap s (unat n') = 0
      then (n', s\<lparr>segmap := (segmap s)(unat n' := 1), nsegs := nsegs s - 1, lastseg := n' + 1\<rparr>)
      else segalloc_loop limit (n' + 1) s)"

definition segalloc :: "kst \<Rightarrow> u16 \<times> kst" where
  "segalloc s = segalloc_loop (MAXSEG - 16) (lastseg s) s"

definition segfree :: "u16 \<Rightarrow> kst \<Rightarrow> kst" where
  "segfree n s =
     (if segmap s (unat n) \<noteq> 0
      then s\<lparr>nsegs := nsegs s + 1, segmap := (segmap s)(unat n := 0), lastseg := n\<rparr> else s)"

definition mwake :: "kst \<Rightarrow> unit K" where
  "mwake s = bnd (if memwant s \<noteq> 0 then wakeup ChMem s else Ret () s) (\<lambda>_ s. Ret () (s\<lparr>memwant := 0\<rparr>))"

definition set_mem :: "nat \<Rightarrow> nat \<Rightarrow> (mem \<Rightarrow> mem) \<Rightarrow> kst \<Rightarrow> kst" where
  "set_mem p i f s = upd_proc p (\<lambda>q. q\<lparr>p_mem := (p_mem q)(i := f (p_mem q i))\<rparr>) s"

fun mfree_from :: "nat \<Rightarrow> nat \<Rightarrow> kst \<Rightarrow> kst" where
  "mfree_from p 0 s = s"
| "mfree_from p (Suc i) s =
     mfree_from p i (set_mem p i (\<lambda>m. m\<lparr>m_seg := 0\<rparr>) (segfree (ucast (m_seg (p_mem (plist s p) i))) s))"

definition mfree :: "nat \<Rightarrow> kst \<Rightarrow> unit K" where
  "mfree p s = mwake (mfree_from p 17 s)"

text \<open>
  \<^verbatim>\<open>newmap(n)\<close> maps the user segment of \<open>n\<close> in, which makes another \<^verbatim>\<open>u\<close> current, and loads the
  segment registers of the user task.
\<close>

definition newmap :: "nat \<Rightarrow> kst \<Rightarrow> kst" where
  "newmap n s =
     (let seg = m_seg (p_mem (plist s n) 16);
          us = (usegs s)(curuseg s := u s)
      in s\<lparr>usegs := us, curuseg := seg, u := (us seg)\<lparr>u_p := n\<rparr>,
           image1 := (\<lambda>i. if i < 16 then p_mem (plist s n) i else image1 s i)\<rparr>)"

fun mrelse_from :: "nat \<Rightarrow> u8 \<Rightarrow> nat \<Rightarrow> kst \<Rightarrow> kst" where
  "mrelse_from p grw 0 s = s"
| "mrelse_from p grw (Suc i) s =
     (let m = p_mem (plist s p) (Suc i);
          s1 = (if m_seg m \<noteq> grw then segfree (ucast (m_seg m)) s else s)
      in mrelse_from p grw i (set_mem p (Suc i) (\<lambda>m. m\<lparr>m_seg := grw, m_per := GROW\<rparr>) s1))"

definition mrelse :: "kst \<Rightarrow> unit K" where
  "mrelse s =
     (let p = u_p (u s); grw = m_seg (p_mem (plist s p) 0);
          s1 = mrelse_from p grw 14 (set_mem p 0 (\<lambda>m. m\<lparr>m_per := GROW\<rparr>) s);
          s2 = upd_proc p (\<lambda>q. q\<lparr>p_nsegs := 3\<rparr>) s1
      in mwake (newmap p s2))"

text \<open>\<^verbatim>\<open>mget(p)\<close>: one segment for each entry of the map, all grow entries sharing one.\<close>

fun mget_from :: "nat \<Rightarrow> nat list \<Rightarrow> u8 \<Rightarrow> kst \<Rightarrow> kst" where
  "mget_from p [] grw s = s"
| "mget_from p (i # r) grw s =
     (if m_per (p_mem (plist s p) i) = GROW then
        (let (g, s1) = (if grw = 0 then (let (n, s1) = segalloc s in (ucast n, s1)) else (grw, s))
         in mget_from p r g (set_mem p i (\<lambda>m. m\<lparr>m_seg := g\<rparr>) s1))
      else
        (let (n, s1) = segalloc s
         in mget_from p r grw (set_mem p i (\<lambda>m. m\<lparr>m_seg := ucast n\<rparr>) s1)))"

definition mget :: "nat \<Rightarrow> kst \<Rightarrow> bool \<times> kst" where
  "mget p s =
     (if ucast (p_nsegs (plist s p)) > nsegs s then (False, s)
      else (True, mget_from p [0..<17] 0 s))"

definition setgrow :: "nat \<Rightarrow> u8 \<Rightarrow> kst \<Rightarrow> kst" where
  "setgrow p g s = upd_proc p (\<lambda>q. q\<lparr>p_mem := (\<lambda>i. if i < 16 \<and> m_per (p_mem q i) = GROW then (p_mem q i)\<lparr>m_seg := g\<rparr> else p_mem q i)\<rparr>) s"

definition grow :: "u16 \<Rightarrow> kst \<Rightarrow> bool K" where
  "grow seg s =
     (let p = u_p (u s); i = unat seg;
          brakeseg = drop_bit 12 (u_brake (u s)); stackseg = drop_bit 12 (u_sp (u s)) in
      if m_per (p_mem (plist s p) i) = FULL then Ret True s
      else if brakeseg < seg \<and> seg < stackseg
      then bnd (send p SIGSEGV (set_error ENXIO s)) (\<lambda>_ s. Ret False s)
      else
        let s1 = set_mem p i (\<lambda>m. m\<lparr>m_per := FULL\<rparr>) s in
        if p_nsegs (plist s1 p) = 17 then Ret True (newmap p s1)
        else
          let s2 = upd_proc p (\<lambda>q. q\<lparr>p_nsegs := p_nsegs q + 1, p_swap := 0\<rparr>) s1 in
          if nsegs s2 = 0 then sleep ChMem PRIMEM (s2\<lparr>memwant := 1\<rparr>)
          else let (g, s3) = segalloc s2 in Ret True (newmap p (setgrow p (ucast g) s3)))"

fun valid_from :: "nat list \<Rightarrow> kst \<Rightarrow> bool K" where
  "valid_from [] s = Ret True s"
| "valid_from (i # r) s =
     (if m_per (p_mem (plist s (u_p (u s))) i) = GROW
      then bnd (grow (of_nat i) s) (\<lambda>ok s. if ok then valid_from r s else Ret False s)
      else valid_from r s)"

definition valid :: "u16 \<Rightarrow> u16 \<Rightarrow> kst \<Rightarrow> bool K" where
  "valid addr cnt s =
     (if cnt = 0 then Ret True s
      else valid_from [unat (drop_bit 12 addr) ..< Suc (unat (drop_bit 12 (addr + cnt - 1)))] s)"

definition segcopy :: "u8 \<Rightarrow> u8 \<Rightarrow> kst \<Rightarrow> kst" where
  "segcopy src dst s =
     s\<lparr>phys := (phys s)(dst := phys s src),
       usegs := (usegs s)(dst := (if src = curuseg s then u s else usegs s src))\<rparr>"

fun bankcopy_from :: "nat \<Rightarrow> nat list \<Rightarrow> kst \<Rightarrow> kst" where
  "bankcopy_from p [] s = s"
| "bankcopy_from p (i # r) s =
     (let m = p_mem (plist s (u_p (u s))) i in
      bankcopy_from p r (if m_per m = FULL then segcopy (m_seg m) (m_seg (p_mem (plist s p) i)) s else s))"

definition bankcopy :: "nat \<Rightarrow> kst \<Rightarrow> kst" where
  "bankcopy p s = bankcopy_from p [0..<17] s"

section \<open>Swap space\<close>

text \<open>
  The swap map is an array of entries in increasing order of addresses, ended by an entry of size 0.
  The pointer loops run to that end marker; \<open>mlen\<close> is the index at which it is found among the 22
  entries of the array.
\<close>

abbreviation (input) MAPSIZE :: nat where "MAPSIZE \<equiv> 22"

definition mend :: "(nat \<Rightarrow> smap) \<Rightarrow> nat \<Rightarrow> nat" where
  "mend m i = (case find (\<lambda>j. s_size (m j) = 0) [i..<MAPSIZE] of None \<Rightarrow> MAPSIZE | Some j \<Rightarrow> j)"

fun lshift_n :: "nat \<Rightarrow> nat \<Rightarrow> (nat \<Rightarrow> smap) \<Rightarrow> (nat \<Rightarrow> smap)" where
  "lshift_n 0 mp m = m"
| "lshift_n (Suc n) mp m =
     (if s_size (m mp) = 0 then m
      else lshift_n n (Suc mp) (m(mp := m (Suc mp))))"

definition lshift :: "nat \<Rightarrow> (nat \<Rightarrow> smap) \<Rightarrow> (nat \<Rightarrow> smap)" where
  "lshift mp m = lshift_n MAPSIZE mp m"

fun rshift_down :: "nat \<Rightarrow> nat \<Rightarrow> (nat \<Rightarrow> smap) \<Rightarrow> (nat \<Rightarrow> smap)" where
  "rshift_down 0 mp m = m"
| "rshift_down (Suc n) mp m = rshift_down n mp (m(mp + Suc n := m (mp + n)))"

definition rshift :: "nat \<Rightarrow> (nat \<Rightarrow> smap) \<Rightarrow> (nat \<Rightarrow> smap)" where
  "rshift mp m = rshift_down (Suc (mend m mp) - mp) mp m"

fun salloc_loop :: "nat \<Rightarrow> u16 \<Rightarrow> nat \<Rightarrow> (nat \<Rightarrow> smap) \<Rightarrow> (u16 \<times> (nat \<Rightarrow> smap)) option" where
  "salloc_loop 0 sz mp m = None"
| "salloc_loop (Suc n) sz mp m =
     (let e = m mp in
      if s_size e = 0 then None
      else if s_size e = sz then Some (s_addr e, lshift mp m)
      else if s_size e > sz then Some (s_addr e, m(mp := \<lparr>s_size = s_size e - sz, s_addr = s_addr e + sz\<rparr>))
      else salloc_loop n sz (Suc mp) m)"

definition salloc :: "u16 \<Rightarrow> kst \<Rightarrow> u16 \<times> kst" where
  "salloc sz s = (case salloc_loop MAPSIZE sz 0 (swapmap s) of
     Some (blk, m) \<Rightarrow> (blk, s\<lparr>swapmap := m\<rparr>)
   | None \<Rightarrow> (0, pr ''Out of swap space'' [] s))"

fun sfree_pos :: "nat \<Rightarrow> u16 \<Rightarrow> nat \<Rightarrow> (nat \<Rightarrow> smap) \<Rightarrow> nat" where
  "sfree_pos 0 blk mp m = mp"
| "sfree_pos (Suc n) blk mp m =
     (if s_addr (m mp) < blk \<and> s_size (m mp) \<noteq> 0 then sfree_pos n blk (Suc mp) m else mp)"

text \<open>
  The merging loop also runs into the end marker when the address there happens to continue the
  entry; it then adds 0 for ever (\<open>None\<close>). Fewer than \<open>MAPSIZE\<close> merges use up the entries.
\<close>

fun sfree_merge :: "nat \<Rightarrow> nat \<Rightarrow> (nat \<Rightarrow> smap) \<Rightarrow> (nat \<Rightarrow> smap) option" where
  "sfree_merge 0 mp m = None"
| "sfree_merge (Suc n) mp m =
     (if s_addr (m mp) + s_size (m mp) = s_addr (m (Suc mp))
      then sfree_merge n mp (lshift (Suc mp) (m(mp := (m mp)\<lparr>s_size := s_size (m mp) + s_size (m (Suc mp))\<rparr>)))
      else Some m)"

definition sfree :: "u16 \<Rightarrow> u16 \<Rightarrow> kst \<Rightarrow> unit K" where
  "sfree sz blk s =
     (let m = swapmap s; mp = sfree_pos MAPSIZE blk 0 m;
          m1 = (rshift mp m)(mp := \<lparr>s_size = sz, s_addr = blk\<rparr>)
      in case sfree_merge MAPSIZE (mp - 1) m1 of
           None \<Rightarrow> Spin s
         | Some m2 \<Rightarrow> Ret () (s\<lparr>swapmap := m2\<rparr>))"

end
