(* ===== verification/Fio.thy ===== *)
theory Fio
  imports Imap Memory
begin

text \<open>
  File input and output (\<^verbatim>\<open>sys/fio.c\<close>), the memory moves of \<^verbatim>\<open>mem.s\<close> it uses, and the character
  device switch (\<^verbatim>\<open>sys/cio.c\<close>, \<^verbatim>\<open>sys/con.c\<close>).
\<close>

section \<open>User memory\<close>

text \<open>
  An address of the running process is translated by \<^verbatim>\<open>image1\<close>, one entry per 4K. \<^verbatim>\<open>copyin\<close> and
  \<^verbatim>\<open>copyout\<close> of \<^verbatim>\<open>mem.s\<close> move one byte after the other.
\<close>

definition useg :: "kst \<Rightarrow> u16 \<Rightarrow> u8" where
  "useg s a = m_seg (image1 s (unat a div 4096))"

definition ugetc :: "kst \<Rightarrow> u16 \<Rightarrow> u8" where
  "ugetc s a = phys s (useg s a) (unat a mod 4096)"

definition uputc :: "u16 \<Rightarrow> u8 \<Rightarrow> kst \<Rightarrow> kst" where
  "uputc a v s = s\<lparr>phys := (phys s)(useg s a := (phys s (useg s a))(unat a mod 4096 := v))\<rparr>"

fun copyin :: "kst \<Rightarrow> u16 \<Rightarrow> bytes \<Rightarrow> nat \<Rightarrow> nat \<Rightarrow> bytes" where
  "copyin s a dst i 0 = dst"
| "copyin s a dst i (Suc n) = copyin s (a + 1) (dst(i := ugetc s a)) (Suc i) n"

fun copyout :: "bytes \<Rightarrow> nat \<Rightarrow> u16 \<Rightarrow> nat \<Rightarrow> kst \<Rightarrow> kst" where
  "copyout src i a 0 s = s"
| "copyout src i a (Suc n) s = copyout src (Suc i) (a + 1) n (uputc a (src i) s)"

section \<open>Operations\<close>

definition upd_u :: "(user \<Rightarrow> user) \<Rightarrow> kst \<Rightarrow> kst" where
  "upd_u f s = s\<lparr>u := f (u s)\<rparr>"

text \<open>The kernel objects \<^verbatim>\<open>u.base\<close> points at when \<^verbatim>\<open>u.segflg\<close> is \<^verbatim>\<open>KSEG\<close>.\<close>

definition kget :: "kptr \<Rightarrow> kst \<Rightarrow> bytes \<times> nat" where
  "kget p s = (case p of Kdir i \<Rightarrow> (u_dir (u s), i) | Khdr i \<Rightarrow> (hdr s, i) | _ \<Rightarrow> (\<lambda>_. 0, 0))"

definition kput :: "kptr \<Rightarrow> bytes \<Rightarrow> nat \<Rightarrow> nat \<Rightarrow> kst \<Rightarrow> kst" where
  "kput p src i n s = (case p of
     Kdir j \<Rightarrow> upd_u (\<lambda>x. x\<lparr>u_dir := copyb src i (u_dir x) j n\<rparr>) s
   | Khdr j \<Rightarrow> s\<lparr>hdr := copyb src i (hdr s) j n\<rparr>
   | _ \<Rightarrow> s)"

definition uaddr :: "kptr \<Rightarrow> u16" where
  "uaddr p = (case p of Uaddr a \<Rightarrow> a | _ \<Rightarrow> 0)"

text \<open>
  \<^verbatim>\<open>iomove(READ, buf, count)\<close> and \<^verbatim>\<open>iomove(WRITE, buf, count)\<close> for a buffer at offset \<open>i\<close> of the bytes \<open>b\<close>.
\<close>

definition iomove_step :: "u16 \<Rightarrow> kst \<Rightarrow> kst" where
  "iomove_step n s = upd_u (\<lambda>x. x\<lparr>u_count := u_count x - n, u_offset := u_offset x + ucast n\<rparr>) s"

definition iomove_read :: "bytes \<Rightarrow> nat \<Rightarrow> u16 \<Rightarrow> kst \<Rightarrow> kst" where
  "iomove_read b i n s =
     (let s1 = iomove_step n s; p = u_base (u s1);
          s2 = (if u_segflg (u s1) = KSEG then kput p b i (unat n) s1 else copyout b i (uaddr p) (unat n) s1)
      in upd_u (\<lambda>x. x\<lparr>u_base := kp_add p n\<rparr>) s2)"

definition iomove_write :: "bytes \<Rightarrow> nat \<Rightarrow> u16 \<Rightarrow> kst \<Rightarrow> bytes \<times> kst" where
  "iomove_write b i n s =
     (let s1 = iomove_step n s; p = u_base (u s1);
          b' = (if u_segflg (u s1) = KSEG then (let (src, j) = kget p s1 in copyb src j b i (unat n))
                else copyin s1 (uaddr p) b i (unat n))
      in (b', upd_u (\<lambda>x. x\<lparr>u_base := kp_add p n\<rparr>) s1))"

definition cmajor :: "u16 \<Rightarrow> nat" where
  "cmajor dev = (if major dev \<ge> 5 then 0 else major dev)"

definition nodev :: "kst \<Rightarrow> kst" where "nodev s = set_error ENXIO s"
definition nullwrite :: "kst \<Rightarrow> kst" where "nullwrite s = upd_u (\<lambda>x. x\<lparr>u_count := 0\<rparr>) s"

definition cdev_io :: "bool \<Rightarrow> u16 \<Rightarrow> kst \<Rightarrow> unit K" where
  "cdev_io rd dev s =
     (case cdrv s (cmajor dev) rd dev (u s) (phys s) of
        Inl (ch, pri) \<Rightarrow> sleep ch pri s
      | Inr (u', ph) \<Rightarrow> Ret () (s\<lparr>u := u', phys := ph\<rparr>))"

definition cread :: "u16 \<Rightarrow> kst \<Rightarrow> unit K" where
  "cread dev s = (if cmajor dev = 0 then Ret () s else cdev_io True dev s)"

definition cwrite :: "u16 \<Rightarrow> kst \<Rightarrow> unit K" where
  "cwrite dev s = (if cmajor dev = 0 then Ret () (nullwrite s) else cdev_io False dev s)"

text \<open>
  The loop of \<^verbatim>\<open>iread\<close>. Every round moves at least one byte, so \<open>u_count\<close> rounds are enough. The error
  of \<^verbatim>\<open>imap\<close> ends it, and so does a block that cannot be read.
\<close>

definition rlen :: "u16 \<Rightarrow> u16 \<Rightarrow> u16" where
  "rlen cnt into = (if cnt < 512 - into then cnt else 512 - into)"

fun iread_loop :: "nat \<Rightarrow> nat \<Rightarrow> u16 \<Rightarrow> u16 \<Rightarrow> u16 \<Rightarrow> kst \<Rightarrow> unit K" where
  "iread_loop 0 ip dev log into s = (if u_count (u s) = 0 then Ret () s else Spin s)"
| "iread_loop (Suc k) ip dev log into s =
     (if u_count (u s) = 0 then Ret () s
      else bnd (imap ip log s) (\<lambda>(ph, rahead) s.
        if u_error (u s) \<noteq> 0 then Ret () s
        else
          let n = rlen (u_count (u s)) into in
          bnd (if rahead \<noteq> 0 \<and> into + n = 512 then aread rahead dev s else Ret () s) (\<lambda>_ s.
          bnd (bread ph dev s) (\<lambda>bp s. case bp of
            None \<Rightarrow> Ret () s
          | Some bp \<Rightarrow>
              bnd (brelse bp (iomove_read (bdat bp s) (unat into) n s)) (\<lambda>_ s.
              iread_loop k ip dev (log + 1) 0 s)))))"

definition idev :: "nat \<Rightarrow> kst \<Rightarrow> u16" where
  "idev ip s = (if tst (i_mode (ilist s ip)) IIO then i_addr ip 0 s else i_dev (ilist s ip))"

definition itouch_read :: "nat \<Rightarrow> kst \<Rightarrow> kst" where
  "itouch_read ip s =
     (if tst (i_flags (ilist s ip)) IRONLY then s
      else upd_inode ip (\<lambda>x. x\<lparr>i_d := (i_d x)\<lparr>d_atime := seconds s\<rparr>, i_flags := i_flags x OR IMOD\<rparr>) s)"

definition iread :: "nat \<Rightarrow> kst \<Rightarrow> u16 K" where
  "iread ip s =
     (let request = u_count (u s); type = i_mode (ilist s ip) AND IFMT; dev = idev ip s;
          gap = i_size (ilist s ip) - u_offset (u s);
          req = (if type \<noteq> IFBLK \<and> gap <s (scast request :: u32) then ucast gap else request);
          fin = (\<lambda>req s. let s1 = itouch_read ip s in Ret (req - u_count (u s1)) s1)
      in if request = 0 then Ret 0 s
         else if type = IFCHR then bnd (cread dev s) (\<lambda>_ s. fin request s)
         else if type \<noteq> IFBLK \<and> gap \<le>s 0 then Ret (request - u_count (u s)) s
         else
           let s1 = upd_u (\<lambda>x. x\<lparr>u_count := req\<rparr>) s in
           bnd (iread_loop (unat req) ip dev (ucast (drop_bit 9 (u_offset (u s)))) (ucast (u_offset (u s) AND 511)) s1)
             (\<lambda>_ s. fin req s))"

definition iwrite_block :: "u16 \<Rightarrow> u16 \<Rightarrow> u16 \<Rightarrow> bool \<Rightarrow> nat \<Rightarrow> kst \<Rightarrow> unit K" where
  "iwrite_block into n dev pip bp s =
     (let (b, s1) = iomove_write (bdat bp s) (unat into) n s;
          s2 = set_bdat bp b s1
      in if into + n = 512 \<and> \<not> pip then bawrite bp s2 else bdwrite bp s2)"

fun iwrite_loop :: "nat \<Rightarrow> nat \<Rightarrow> u16 \<Rightarrow> bool \<Rightarrow> u16 \<Rightarrow> u16 \<Rightarrow> kst \<Rightarrow> unit K" where
  "iwrite_loop 0 ip dev pip log into s = (if u_count (u s) = 0 then Ret () s else Spin s)"
| "iwrite_loop (Suc k) ip dev pip log into s =
     (if u_count (u s) = 0 then Ret () s
      else bnd (imap ip log s) (\<lambda>(ph, _) s.
        if u_error (u s) \<noteq> 0 then Ret () s
        else
          let n = rlen (u_count (u s)) into in
          bnd (if n = 512 then bnd (bget ph dev s) (\<lambda>b s. Ret (Some b) s) else bread ph dev s) (\<lambda>bp s. case bp of
            None \<Rightarrow> Ret () s
          | Some bp \<Rightarrow>
              bnd (iwrite_block into n dev pip bp s) (\<lambda>_ s.
              iwrite_loop k ip dev pip (log + 1) 0 s))))"

definition itouch_write :: "nat \<Rightarrow> kst \<Rightarrow> kst" where
  "itouch_write ip s =
     (let s1 = (if i_size (ilist s ip) < u_offset (u s) then upd_inode ip (\<lambda>x. x\<lparr>i_size := u_offset (u s)\<rparr>) s else s) in
      if tst (i_flags (ilist s1 ip)) IRONLY then s1
      else upd_inode ip (\<lambda>x. x\<lparr>i_d := (i_d x)\<lparr>d_mtime := seconds s\<rparr>, i_flags := i_flags x OR IMOD\<rparr>) s1)"

definition iwrite :: "nat \<Rightarrow> kst \<Rightarrow> u16 K" where
  "iwrite ip s =
     (let request = u_count (u s); type = i_mode (ilist s ip) AND IFMT; dev = idev ip s;
          pip = tst (i_flags (ilist s ip)) IPIPE
      in if request = 0 then Ret 0 s
         else bnd (if type = IFCHR then cwrite dev s
                   else iwrite_loop (unat request) ip dev pip (ucast (drop_bit 9 (u_offset (u s))))
                          (ucast (u_offset (u s) AND 511)) s) (\<lambda>_ s.
              let s1 = itouch_write ip s in Ret (request - u_count (u s1)) s1))"

definition nwrite :: "nat \<Rightarrow> kptr \<Rightarrow> u16 \<Rightarrow> kst \<Rightarrow> u16 K" where
  "nwrite ip base cnt s = iwrite ip (upd_u (\<lambda>x. x\<lparr>u_base := base, u_count := cnt\<rparr>) s)"

definition nread :: "nat \<Rightarrow> kptr \<Rightarrow> u16 \<Rightarrow> kst \<Rightarrow> u16 K" where
  "nread ip base cnt s = iread ip (upd_u (\<lambda>x. x\<lparr>u_base := base, u_count := cnt\<rparr>) s)"

end
