(* ===== verification/Files.thy ===== *)
theory Files
  imports Fio
begin

text \<open>
  The open file table (\<^verbatim>\<open>sys/open.c\<close>), path names (\<^verbatim>\<open>sys/name.c\<close>), directory entries (\<^verbatim>\<open>sys/link.c\<close>), file
  creation (\<^verbatim>\<open>sys/create.c\<close>) and mounting (\<^verbatim>\<open>sys/mount.c\<close>). A routine that returns without a value
  leaves \<open>junk\<close> in the result register.
\<close>

abbreviation (input) ERROR :: u16 where "ERROR \<equiv> 0xFFFF"

section \<open>Open files (open.c)\<close>

definition falloc :: "kst \<Rightarrow> nat option \<times> kst" where
  "falloc s = (case scan (\<lambda>f. f_count (flist s f) = 0) NFILE of
     Some f \<Rightarrow> (Some f, upd_file f (\<lambda>_. file0) s)
   | None \<Rightarrow> (None, set_error ENFILE s))"

definition oalloc :: "kst \<Rightarrow> nat option \<times> kst" where
  "oalloc s = (case scan (\<lambda>i. u_olist (u s) i = None) NOPEN of
     Some i \<Rightarrow> (Some i, s)
   | None \<Rightarrow> (None, set_error EMFILE s))"

definition ofile :: "u16 \<Rightarrow> kst \<Rightarrow> nat option \<times> kst" where
  "ofile fd s = (if fd < of_nat NOPEN \<and> u_olist (u s) (unat fd) \<noteq> None
     then (u_olist (u s) (unat fd), s) else (None, set_error EBADF s))"

definition imode :: "u16 \<Rightarrow> u16" where
  "imode m = (if m = 0 then IREAD else if m = 1 then IWRITE else IREAD OR IWRITE)"

definition set_olist :: "nat \<Rightarrow> nat option \<Rightarrow> kst \<Rightarrow> kst" where
  "set_olist fd f s = upd_u (\<lambda>x. x\<lparr>u_olist := (u_olist x)(fd := f)\<rparr>) s"

definition copen :: "u16 \<Rightarrow> u16 \<Rightarrow> kst \<Rightarrow> unit K" where
  "copen dev mode s =
     (if cmajor dev \<notin> {1, 4} then Ret () s
      else case cdrv_open s (cmajor dev) dev mode (cur s) of
        Inl (ch, pri) \<Rightarrow> sleep ch pri s
      | Inr (e, q) \<Rightarrow>
          let s1 = upd_proc (u_p (u s)) (\<lambda>_. q) s in Ret () (if e \<noteq> 0 then set_error e s1 else s1))"

definition cclose :: "u16 \<Rightarrow> u16 \<Rightarrow> kst \<Rightarrow> unit K" where
  "cclose dev mode s =
     (if cmajor dev \<notin> {1, 4} then Ret () s
      else case cdrv_close s (cmajor dev) dev mode of Some (ch, pri) \<Rightarrow> sleep ch pri s | None \<Rightarrow> Ret () s)"

definition bclose :: "u16 \<Rightarrow> u16 \<Rightarrow> kst \<Rightarrow> kst" where
  "bclose dev mode s =
     (let m = bmajor dev in
      if m = 0 then s else if m = 1 then set_error ENXIO s
      else (let e = drv_close s m dev mode in if e \<noteq> 0 then set_error e s else s))"

definition icount :: "(u8 \<Rightarrow> u8) \<Rightarrow> nat \<Rightarrow> kst \<Rightarrow> kst" where
  "icount f ip s = upd_inode ip (\<lambda>x. x\<lparr>i_count := f (i_count x)\<rparr>) s"

definition iopen_dev :: "nat \<Rightarrow> u16 \<Rightarrow> kst \<Rightarrow> unit K" where
  "iopen_dev ip writ s =
     (let dev = i_addr ip 0 s; ty = i_mode (ilist s ip) AND IFMT in
      if ty = IFDIR then Ret () (if writ \<noteq> 0 then set_error EISDIR s else s)
      else if ty = IFCHR then
        bnd (irelse ip (icount (\<lambda>c. c + 1) ip s)) (\<lambda>_ s.
        bnd (copen dev writ s) (\<lambda>_ s.
        bnd (ilock ip s) (\<lambda>_ s. Ret () (icount (\<lambda>c. c - 1) ip s))))
      else if ty = IFBLK then Ret () (bopen dev writ s)
      else Ret () s)"

definition iopen :: "nat \<Rightarrow> u16 \<Rightarrow> kst \<Rightarrow> u16 K" where
  "iopen ip mode s =
     (let writ = mode AND IWRITE;
          s1 = (if writ \<noteq> 0 \<and> tst (i_mode (ilist s ip)) ISVTX then set_iflag IWRLOCK ip s else s)
      in bnd (iopen_dev ip writ s1) (\<lambda>_ s.
         if u_error (u s) \<noteq> 0 then Ret ERROR (clr_iflag IWRLOCK ip s)
         else case falloc s of
           (None, s) \<Rightarrow> Ret ERROR (clr_iflag IWRLOCK ip s)
         | (Some fp, s) \<Rightarrow>
             (case oalloc s of
               (None, s) \<Rightarrow> Ret ERROR (clr_iflag IWRLOCK ip s)
             | (Some fd, s) \<Rightarrow>
                 Ret (of_nat fd) (icount (\<lambda>c. c + 1) ip
                   (upd_file fp (\<lambda>x. x\<lparr>f_inode := Some ip, f_count := 1, f_mode := ucast mode\<rparr>)
                   (set_olist fd (Some fp) s))))))"

definition iclose :: "nat \<Rightarrow> u16 \<Rightarrow> kst \<Rightarrow> unit K" where
  "iclose ip writ s =
     (let s1 = icount (\<lambda>c. c - 1) ip s in
      if i_count (ilist s1 ip) \<noteq> 0 then Ret () s1
      else bnd (ilock ip s1) (\<lambda>_ s.
        let dev = i_addr ip 0 s; ty = i_mode (ilist s ip) AND IFMT in
        bnd (if ty = IFCHR then
               bnd (irelse ip (icount (\<lambda>c. c + 1) ip s)) (\<lambda>_ s.
               bnd (cclose dev writ s) (\<lambda>_ s.
               bnd (ilock ip s) (\<lambda>_ s. Ret () (icount (\<lambda>c. c - 1) ip s))))
             else if ty = IFBLK then bnd (bflush dev s) (\<lambda>_ s. Ret () (bclose dev writ s))
             else Ret () s) (\<lambda>_ s.
        idec ip s)))"

text \<open>\<^verbatim>\<open>fclose\<close> of a file that has an inode, as every open file has.\<close>

definition fclose :: "nat \<Rightarrow> kst \<Rightarrow> unit K" where
  "fclose fp s =
     (let s1 = upd_file fp (\<lambda>x. x\<lparr>f_count := f_count x - 1\<rparr>) s; x = flist s1 fp in
      if f_count x \<noteq> 0 then Ret () s1
      else case f_inode x of
        None \<Rightarrow> Ret () s1
      | Some ip \<Rightarrow>
          let writ = f_mode x AND 2;
              s2 = (if writ \<noteq> 0 then clr_iflag IWRLOCK ip s1 else s1) in
          bnd (if tst (f_mode x) 1 then wakeup (ChInode ip) s2 else Ret () s2) (\<lambda>_ s.
          iclose ip (ucast writ) s))"

definition close :: "u16 \<Rightarrow> kst \<Rightarrow> unit K" where
  "close fd s = (case ofile fd s of
     (None, s) \<Rightarrow> Ret () s
   | (Some fp, s) \<Rightarrow> fclose fp (set_olist (unat fd) None s))"

text \<open>\<^verbatim>\<open>pipe(vec)\<close> returns the two descriptors, both -1 when it fails.\<close>

definition pipe_end :: "u8 \<Rightarrow> nat \<Rightarrow> nat \<Rightarrow> kst \<Rightarrow> kst" where
  "pipe_end mode fp fd s = set_olist fd (Some fp) (upd_file fp (\<lambda>x. x\<lparr>f_count := 1, f_mode := mode\<rparr>) s)"

definition pipe :: "kst \<Rightarrow> (u16 \<times> u16) K" where
  "pipe s =
     (case falloc s of
       (None, s) \<Rightarrow> Ret (ERROR, ERROR) s
     | (Some rfil, s) \<Rightarrow> (case oalloc s of
         (None, s) \<Rightarrow> Ret (ERROR, ERROR) s
       | (Some rd, s) \<Rightarrow>
           let s = pipe_end (4 OR 1) rfil rd s;
               undo = (\<lambda>s. set_olist rd None (upd_file rfil (\<lambda>x. x\<lparr>f_count := 0\<rparr>) s)) in
           (case falloc s of
             (None, s) \<Rightarrow> Ret (ERROR, ERROR) (undo s)
           | (Some wfil, s) \<Rightarrow> (case oalloc s of
               (None, s) \<Rightarrow> Ret (ERROR, ERROR) (undo s)
             | (Some wd, s) \<Rightarrow>
                 bnd (ialloc (rootdev s) s) (\<lambda>ip s. case ip of
                   None \<Rightarrow> Ret (ERROR, ERROR) (undo s)
                 | Some ip \<Rightarrow>
                     let s1 = pipe_end (2 OR 1) wfil wd s;
                         s2 = upd_file rfil (\<lambda>x. x\<lparr>f_inode := Some ip\<rparr>) (upd_file wfil (\<lambda>x. x\<lparr>f_inode := Some ip\<rparr>) s1);
                         s3 = set_iflag IPIPE ip (icount (\<lambda>_. 2) ip s2) in
                     bnd (irelse ip s3) (\<lambda>_ s. Ret (of_nat rd, of_nat wd) s))))))"

section \<open>Path names (name.c)\<close>

text \<open>
  The loops over the characters of a path in user memory end at a zero byte or a slash. Without one in
  the 64K of the process they do not end.
\<close>

partial_function (option) skip_name :: "kst \<Rightarrow> u16 \<Rightarrow> u16 option" where
  "skip_name s p = (if ugetc s p = 0 \<or> ugetc s p = 47 then Some p else skip_name s (p + 1))"

partial_function (option) skip_slash :: "kst \<Rightarrow> u16 \<Rightarrow> u16 option" where
  "skip_slash s p = (if ugetc s p = 47 then skip_slash s (p + 1) else Some p)"

definition path_end :: "kst \<Rightarrow> u16 \<Rightarrow> u16 option" where
  "path_end s p = (case skip_name s p of None \<Rightarrow> None | Some q \<Rightarrow> skip_slash s q)"

text \<open>The length of the component in the 14 bytes copied from the path.\<close>

definition namelen :: "bytes \<Rightarrow> nat" where
  "namelen b = (case find (\<lambda>i. b i = 0 \<or> b i = 47) [0..<14] of None \<Rightarrow> 14 | Some i \<Rightarrow> i)"

definition nambuf :: "u16 \<Rightarrow> kst \<Rightarrow> bytes" where
  "nambuf np s =
     (let b = copyin s np (\<lambda>i. u_dir (u s) (2 + i)) 0 14; n = namelen b in if n < 14 then b(n := 0) else b)"

fun direqu_from :: "nat \<Rightarrow> nat \<Rightarrow> bytes \<Rightarrow> bytes \<Rightarrow> bool" where
  "direqu_from 0 i a b = True"
| "direqu_from (Suc n) i a b =
     (if a i \<noteq> b i then False else if a i = 0 then True else direqu_from n (Suc i) a b)"

definition direqu :: "bytes \<Rightarrow> bytes \<Rightarrow> bool" where
  "direqu a b = direqu_from 14 0 a b"

text \<open>
  The entries of one directory block, from index \<open>j\<close> on, \<open>n\<close> of them: a hit with its place, or the first
  free slot so far and the place after the block.
\<close>

fun dscan :: "bytes \<Rightarrow> bytes \<Rightarrow> nat \<Rightarrow> nat \<Rightarrow> u16 \<Rightarrow> u16 \<Rightarrow> (u16 \<times> u16) + (u16 \<times> u16)" where
  "dscan b nam j 0 slot place = Inr (slot, place)"
| "dscan b nam j (Suc n) slot place =
     (let inum = getw b (16 * j) in
      if inum = 0 then dscan b nam (Suc j) n (if slot = 0 then place else slot) (place + 16)
      else if direqu (\<lambda>i. b (16 * j + 2 + i)) nam then Inl (inum, place)
      else dscan b nam (Suc j) n slot (place + 16))"

fun dlook_loop :: "nat \<Rightarrow> u16 \<Rightarrow> u16 \<Rightarrow> u16 \<Rightarrow> nat \<Rightarrow> u16 \<Rightarrow> u16 \<Rightarrow> kst \<Rightarrow> (u16 + (u16 \<times> u16)) K" where
  "dlook_loop 0 log nblks tail ip slot place s = Ret (Inr (slot, place)) s"
| "dlook_loop (Suc k) log nblks tail ip slot place s =
     bnd (imap ip log s) (\<lambda>(ph, _) s.
     if ph = 0 then dlook_loop k (log + 1) nblks tail ip slot place s
     else bnd (bread ph (i_dev (ilist s ip)) s) (\<lambda>b s. case b of
       None \<Rightarrow> dlook_loop k (log + 1) nblks tail ip slot place s
     | Some b \<Rightarrow>
         let en = (if tail \<noteq> 0 \<and> log = nblks - 1 then unat tail else 512) in
         (case dscan (bdat b s) (\<lambda>i. u_dir (u s) (2 + i)) 0 ((en + 15) div 16) slot place of
           Inl (inum, pl) \<Rightarrow>
             bnd (brelse b (upd_u (\<lambda>x. x\<lparr>u_offset := ucast pl\<rparr>) s)) (\<lambda>_ s. Ret (Inl inum) s)
         | Inr (slot', place') \<Rightarrow>
             bnd (brelse b s) (\<lambda>_ s. dlook_loop k (log + 1) nblks tail ip slot' place' s))))"

text \<open>\<^verbatim>\<open>dlook(ip, &name)\<close> returns the inode number, 0 when there is none, and the rest of the path.\<close>

definition dlook :: "nat \<Rightarrow> u16 \<Rightarrow> kst \<Rightarrow> (u16 \<times> u16) K" where
  "dlook ip np s =
     (let nb = nambuf np s;
          n = namelen (copyin s np (\<lambda>i. u_dir (u s) (2 + i)) 0 14);
          s1 = upd_u (\<lambda>x. x\<lparr>u_dir := copyb nb 0 (u_dir x) 2 14\<rparr>) s in
      case path_end s1 (np + of_nat n) of
        None \<Rightarrow> Spin s1
      | Some np' \<Rightarrow>
          let sz = i_size (ilist s1 ip);
              tail = ucast (sz AND 511);
              nblks = ucast (drop_bit 9 sz) + (if tail \<noteq> (0::u16) then 1 else 0) in
          bnd (dlook_loop (unat nblks) 0 nblks tail ip 0 0 s1) (\<lambda>r s. case r of
            Inl inum \<Rightarrow> Ret (inum, np') s
          | Inr (slot, place) \<Rightarrow>
              let s2 = upd_u (\<lambda>x. x\<lparr>u_offset := ucast (if slot \<noteq> 0 then slot else place)\<rparr>) s
              in Ret (0, np') (if u_error (u s2) \<noteq> 0 then s2
                               else set_error (if ugetc s2 np' = 0 then ENOENT else ENOTDIR) s2)))"

partial_function (option) iname_loop :: "nat \<Rightarrow> u16 \<Rightarrow> kst \<Rightarrow> nat option K option" where
  "iname_loop ip np s =
     (if ugetc s np = 0 then Some (Ret (Some ip) s)
      else if i_mode (ilist s ip) AND IFMT \<noteq> IFDIR
      then Some (bnd (irelse ip (set_error ENOTDIR s)) (\<lambda>_ s. Ret None s))
      else
        let s1 = upd_u (\<lambda>x. x\<lparr>u_iparent := Some ip\<rparr>) s; (ok, s2) = access ip IEXEC s1 in
        if \<not> ok then Some (bnd (irelse ip s2) (\<lambda>_ s. Ret None s))
        else obnd (dlook ip np s2) (\<lambda>(inum, np') s.
          if inum = 0 then Some (bnd (irelse ip s) (\<lambda>_ s. Ret None s))
          else obnd (irelse ip (icount (\<lambda>c. c + 1) ip s)) (\<lambda>_ s.
            obnd (iget inum (i_dev (ilist s ip)) s) (\<lambda>child s.
              let s3 = icount (\<lambda>c. c - 1) ip s in
              case child of None \<Rightarrow> Some (Ret None s3) | Some i \<Rightarrow> iname_loop i np' s3))))"

definition iname :: "u16 \<Rightarrow> kst \<Rightarrow> nat option K" where
  "iname name s =
     (let s1 = upd_u (\<lambda>x. x\<lparr>u_iparent := None\<rparr>) s;
          start = (if ugetc s1 name = 47 then rootdir s1 else u_cdir (u s1)) in
      case skip_slash s1 name of
        None \<Rightarrow> Spin s1
      | Some np \<Rightarrow> bnd (ilock start s1) (\<lambda>_ s. spin (iname_loop start np s) s))"

end
