(* ===== verification/Dirs.thy ===== *)
theory Dirs
  imports Files
begin

text \<open>
  Directory entries (\<^verbatim>\<open>sys/link.c\<close>), file creation (\<^verbatim>\<open>sys/create.c\<close>), opening by name (\<^verbatim>\<open>open\<close> of
  \<^verbatim>\<open>sys/open.c\<close>), the access call (\<^verbatim>\<open>permission\<close> of \<^verbatim>\<open>sys/access.c\<close>) and mounting (\<^verbatim>\<open>sys/mount.c\<close>).
  \<^verbatim>\<open>u.iparent\<close> is set by \<^verbatim>\<open>iname\<close>; the routines that use it after a failed look-up rely on that.
\<close>

section \<open>Links (link.c)\<close>

definition iparent :: "kst \<Rightarrow> nat" where
  "iparent s = (case u_iparent (u s) of Some i \<Rightarrow> i | None \<Rightarrow> 0)"

text \<open>The name in \<^verbatim>\<open>u.dir.name\<close> is padded with zeros from its first zero byte on.\<close>

definition padname :: "bytes \<Rightarrow> bytes" where
  "padname d = (case find (\<lambda>i. d (2 + i) = 0) [0..<14] of
     None \<Rightarrow> d
   | Some i \<Rightarrow> zerob d (2 + i) (14 - i))"

definition ilink :: "u16 \<Rightarrow> kst \<Rightarrow> unit K" where
  "ilink inum s =
     (let s1 = upd_u (\<lambda>x. x\<lparr>u_dir := putw (padname (u_dir x)) 0 inum, u_segflg := KSEG\<rparr>) s; ip = iparent s1 in
      bnd (ilock ip s1) (\<lambda>_ s.
      bnd (nwrite ip (Kdir 0) 16 s) (\<lambda>_ s. irelse ip s)))"

definition link :: "u16 \<Rightarrow> u16 \<Rightarrow> kst \<Rightarrow> unit K" where
  "link old new s =
     bnd (iname old s) (\<lambda>ip s. case ip of
       None \<Rightarrow> Ret () s
     | Some ip \<Rightarrow>
         bnd (irelse ip s) (\<lambda>_ s.
         if i_mode (ilist s ip) AND IFMT = IFDIR \<and> \<not> fst (super s) then Ret () (snd (super s))
         else if d_nlink (i_d (ilist s ip)) = 127 then Ret () (set_error EMLINK s)
         else
           let inum = i_inum (ilist s ip); dev = i_dev (ilist s ip) in
           bnd (iname new s) (\<lambda>nip s. case nip of
             Some ip \<Rightarrow> bnd (irelse ip s) (\<lambda>_ s. Ret () (set_error EEXIST s))
           | None \<Rightarrow>
               if u_error (u s) \<noteq> ENOENT then Ret () s
               else if i_dev (ilist s (iparent s)) \<noteq> dev then Ret () (set_error EXDEV s)
               else
                 let s1 = set_error 0 s; (ok, s2) = access (iparent s1) IWRITE s1 in
                 if \<not> ok then Ret () s2
                 else bnd (iget inum dev s2) (\<lambda>ip s. case ip of
                   None \<Rightarrow> Ret () s
                 | Some ip \<Rightarrow>
                     let s3 = set_iflag IMOD ip (upd_dsk ip (\<lambda>d. d\<lparr>d_nlink := d_nlink d + 1\<rparr>) s) in
                     bnd (irelse ip s3) (\<lambda>_ s. ilink inum s)))))"

definition unlink :: "u16 \<Rightarrow> kst \<Rightarrow> unit K" where
  "unlink name s =
     bnd (iname name s) (\<lambda>ip s. case ip of
       None \<Rightarrow> Ret () s
     | Some ip \<Rightarrow>
         bnd (irelse ip s) (\<lambda>_ s. case u_iparent (u s) of
           None \<Rightarrow> Ret () (set_error ENOENT s)
         | Some parent \<Rightarrow>
             if i_mode (ilist s ip) AND IFMT = IFDIR \<and> \<not> fst (super s) then Ret () (snd (super s))
             else
               let (ok, s1) = access parent IWRITE s in
               if \<not> ok then Ret () s1
               else
                 let s2 = (if d_nlink (i_d (ilist s1 ip)) > 0
                           then set_iflag IMOD ip (upd_dsk ip (\<lambda>d. d\<lparr>d_nlink := d_nlink d - 1\<rparr>) s1) else s1) in
                 bnd (idec ip (icount (\<lambda>c. c + 1) parent s2)) (\<lambda>_ s.
                 ilink 0 (icount (\<lambda>c. c - 1) parent s))))"

section \<open>Creation (create.c) and opening\<close>

definition imkfile :: "u16 \<Rightarrow> u16 \<Rightarrow> kst \<Rightarrow> nat option K" where
  "imkfile mode dev s =
     (if u_error (u s) \<noteq> ENOENT then Ret None s
      else
        let s1 = set_error 0 s; (ok, s2) = access (iparent s1) IWRITE s1 in
        if \<not> ok then Ret None s2
        else bnd (ilock (iparent s2) s2) (\<lambda>_ s.
             bnd (ialloc (i_dev (ilist s (iparent s))) s) (\<lambda>ip s.
             bnd (irelse (iparent s) s) (\<lambda>_ s. case ip of
               None \<Rightarrow> Ret None s
             | Some ip \<Rightarrow>
                 bnd (ilink (i_inum (ilist s ip)) s) (\<lambda>_ s.
                 Ret (Some ip) (upd_dsk ip (\<lambda>d. d\<lparr>d_nlink := 1, d_mode := d_mode d OR mode, d_uid := u_uid s, d_gid := u_gid s,
                   d_addr := (if tst mode IIO then (d_addr d)(0 := dev) else d_addr d)\<rparr>) s))))))"

text \<open>\<^verbatim>\<open>creat\<close> calls \<^verbatim>\<open>imkfile(mode & 07777)\<close> without a device.\<close>

definition creat :: "u16 \<Rightarrow> u16 \<Rightarrow> kst \<Rightarrow> u16 K" where
  "creat name mode s =
     bnd (iname name s) (\<lambda>ip s.
     bnd (case ip of
            None \<Rightarrow> imkfile (mode AND 0xFFF) (junk s) s
          | Some ip \<Rightarrow>
              if i_mode (ilist s ip) AND IFMT = IFDIR
              then bnd (irelse ip (set_error EISDIR s)) (\<lambda>_ s. Ret None s)
              else
                let (ok, s1) = access ip IWRITE s in
                if \<not> ok then bnd (irelse ip s1) (\<lambda>_ s. Ret None s)
                else bnd (itrunc ip s1) (\<lambda>_ s. Ret (Some ip) s)) (\<lambda>r s. case r of
       None \<Rightarrow> Ret ERROR s
     | Some ip \<Rightarrow> bnd (iopen ip IWRITE s) (\<lambda>fd s. bnd (irelse ip s) (\<lambda>_ s. Ret fd s))))"

definition mknod :: "u16 \<Rightarrow> u16 \<Rightarrow> u16 \<Rightarrow> kst \<Rightarrow> unit K" where
  "mknod name mode dev s =
     (let (ok, s1) = super s in
      if \<not> ok then Ret () s1
      else bnd (iname name s1) (\<lambda>ip s. case ip of
        Some ip \<Rightarrow> irelse ip (set_error EEXIST s)
      | None \<Rightarrow> bnd (imkfile mode dev s) (\<lambda>ip s. irelse_opt ip s)))"

definition kopen :: "u16 \<Rightarrow> u16 \<Rightarrow> kst \<Rightarrow> u16 K" where
  "kopen name mode s =
     bnd (iname name s) (\<lambda>ip s. case ip of
       None \<Rightarrow> Ret (junk s) s
     | Some ip \<Rightarrow>
         let (ok, s1) = access ip (imode mode) s in
         if \<not> ok then bnd (irelse ip s1) (\<lambda>_ s. Ret (junk s) s)
         else bnd (iopen ip (imode mode) s1) (\<lambda>fd s. bnd (irelse ip s) (\<lambda>_ s. Ret fd s)))"

definition permission :: "u16 \<Rightarrow> u16 \<Rightarrow> kst \<Rightarrow> unit K" where
  "permission name mode s =
     bnd (iname name s) (\<lambda>ip s. case ip of
       None \<Rightarrow> Ret () s
     | Some ip \<Rightarrow>
         let euid = u_euid s; egid = u_egid s;
             s1 = set_u_euid (u_uid s) s; s2 = set_u_egid (u_gid s1) s1;
             s3 = snd (access ip mode s2);
             s4 = set_u_egid egid (set_u_euid euid s3)
         in irelse ip s4)"

section \<open>Mounting (mount.c)\<close>

definition tmount_fill :: "u16 \<Rightarrow> nat option \<Rightarrow> u16 \<Rightarrow> nat \<Rightarrow> nat \<Rightarrow> kst \<Rightarrow> kst" where
  "tmount_fill dev ip rdonly m sb s =
     (let s1 = upd_buf sb (\<lambda>x. x\<lparr>b_flags := b_flags x OR BLOCK, b_data := (b_data x)(S_FLOCK := ucast rdonly)\<rparr>) s;
          s2 = (if dev = rootdev s1 then s1\<lparr>seconds := getl (bdat sb s1) S_TIME\<rparr> else s1)
      in s2\<lparr>mlist := (mlist s2)(m := \<lparr>m_dev = dev, m_inode = ip, m_ronly = ucast rdonly,
              m_fsize = getw (bdat sb s2) S_FSIZE, m_isize = getw (bdat sb s2) S_ISIZE\<rparr>)\<rparr>)"

definition tmount :: "u16 \<Rightarrow> nat option \<Rightarrow> u16 \<Rightarrow> kst \<Rightarrow> nat option K" where
  "tmount dev ip rdonly s =
     (case mlook 0 s of
       None \<Rightarrow> Ret None (set_error EBUSY s)
     | Some m \<Rightarrow>
         bnd (bread 1 dev s) (\<lambda>sb s.
         if u_error (u s) \<noteq> 0 then bnd (brelse_opt sb s) (\<lambda>_ s. Ret None s)
         else case sb of
           None \<Rightarrow> Ret None s
         | Some sb \<Rightarrow> bnd (brelse sb (tmount_fill dev ip rdonly m sb s)) (\<lambda>_ s. Ret (Some m) s)))"

definition kmount :: "u16 \<Rightarrow> u16 \<Rightarrow> u16 \<Rightarrow> kst \<Rightarrow> unit K" where
  "kmount ioname dname rdonly s =
     (let (ok, s1) = super s in
      if \<not> ok then Ret () s1
      else bnd (iname ioname s1) (\<lambda>io s. case io of
        None \<Rightarrow> Ret () s
      | Some io \<Rightarrow>
          bnd (irelse io s) (\<lambda>_ s.
          if i_mode (ilist s io) AND IFMT \<noteq> IFBLK then Ret () (set_error ENOTBLK s)
          else
            let dev = i_addr io 0 s; idev = i_dev (ilist s io); inum = i_inum (ilist s io) in
            bnd (iname dname s) (\<lambda>idp s. case idp of
              None \<Rightarrow> Ret () s
            | Some idp \<Rightarrow>
                if i_mode (ilist s idp) AND IFMT \<noteq> IFDIR then irelse idp (set_error ENOTDIR s)
                else if mlook dev s \<noteq> None \<or> i_mount (ilist s idp) \<noteq> None then irelse idp (set_error EBUSY s)
                else
                  let s2 = bopen dev (if rdonly = 0 then 1 else 0) s in
                  if u_error (u s2) \<noteq> 0 then irelse idp s2
                  else bnd (tmount dev (Some idp) rdonly s2) (\<lambda>m s. case m of
                    None \<Rightarrow> irelse idp s
                  | Some m \<Rightarrow>
                      let s3 = upd_inode idp (\<lambda>x. x\<lparr>i_mount := Some m, i_count := i_count x + 1\<rparr>) s in
                      bnd (iget inum idev s3) (\<lambda>io s.
                      bnd (case io of None \<Rightarrow> Ret () s | Some io \<Rightarrow> irelse io (icount (\<lambda>c. c + 1) io s)) (\<lambda>_ s.
                      irelse idp s)))))))"

text \<open>
  In \<^verbatim>\<open>umount\<close> the test \<^verbatim>\<open>io->i_mode & IFMT != IFBLK\<close> compares first: \<^verbatim>\<open>IFMT != IFBLK\<close> is 0.
\<close>

definition mounted_busy :: "u16 \<Rightarrow> kst \<Rightarrow> bool" where
  "mounted_busy dev s \<longleftrightarrow> (\<exists>i<NINODE. i_dev (ilist s i) = dev \<and>
     (tst (i_flags (ilist s i)) (IBUSY OR IMOD) \<or> i_count (ilist s i) > 0))"

definition umount_done :: "nat \<Rightarrow> nat \<Rightarrow> kst \<Rightarrow> unit K" where
  "umount_done m io s =
     bnd (irelse io s) (\<lambda>_ s.
     bnd (iclose io (if m_ronly (mlist s m) = 0 then 1 else 0) s) (\<lambda>_ s.
     let ip = (case m_inode (mlist s m) of Some i \<Rightarrow> i | None \<Rightarrow> 0);
         s1 = upd_inode ip (\<lambda>x. x\<lparr>i_mount := None, i_count := i_count x - 1\<rparr>) s in
     bnd (idec ip s1) (\<lambda>_ s. Ret () (s\<lparr>mlist := (mlist s)(m := mount0)\<rparr>))))"

definition umount :: "u16 \<Rightarrow> kst \<Rightarrow> unit K" where
  "umount ioname s =
     (let (ok, s1) = super s in
      if \<not> ok then Ret () s1
      else bnd (iname ioname s1) (\<lambda>io s. case io of
        None \<Rightarrow> Ret () s
      | Some io \<Rightarrow>
          if tst (i_mode (ilist s io)) (if IFMT \<noteq> IFBLK then 1 else 0) then irelse io (set_error ENOTBLK s)
          else
            let dev = i_addr io 0 s in
            case (if dev = rootdev s then None else mlook dev s) of
              None \<Rightarrow> irelse io (set_error EINVAL s)
            | Some m \<Rightarrow>
                bnd (isync s) (\<lambda>_ s.
                if mounted_busy dev s then irelse io (set_error EBUSY s)
                else bnd (iflush dev s) (\<lambda>_ s.
                     bnd (getsb dev s) (\<lambda>sb s.
                     bnd (brelse sb (upd_buf sb (\<lambda>x. x\<lparr>b_flags := b_flags x AND NOT BLOCK\<rparr>) s)) (\<lambda>_ s.
                     umount_done m io s))))))"

end
