(* ===== verification/Syscalls.thy ===== *)
theory Syscalls
  imports Dirs
begin

text \<open>
  Reading, writing and pipes (\<^verbatim>\<open>sys/rdwri.c\<close>), terminal modes (\<^verbatim>\<open>sys/cio.c\<close>) and the small system calls
  (\<^verbatim>\<open>sys/sys1.c\<close>, \<^verbatim>\<open>sys/sys2.c\<close>).
\<close>

section \<open>Read and write (rdwri.c)\<close>

abbreviation (input) PIPSIZE :: u32 where "PIPSIZE \<equiv> 4096"

fun pwrite_loop :: "nat \<Rightarrow> nat \<Rightarrow> u16 \<Rightarrow> u16 \<Rightarrow> kst \<Rightarrow> u16 K" where
  "pwrite_loop 0 ip request nleft s = Spin s"
| "pwrite_loop (Suc k) ip request nleft s =
     (if nleft = 0 then bnd (irelse ip s) (\<lambda>_ s. Ret (request - nleft) s)
      else if i_size (ilist s ip) \<ge> PIPSIZE
      then bnd (irelse ip s) (\<lambda>_ s. sleep (ChInode ip) PRIPIPE (set_iflag IWANT ip s))
      else
        let sz = i_size (ilist s ip);
            room = PIPSIZE - sz;
            cnt = (if room < scast nleft then ucast room else nleft);
            s1 = upd_u (\<lambda>x. x\<lparr>u_offset := sz, u_count := cnt\<rparr>) s in
        bnd (iwrite ip s1) (\<lambda>n s.
        if u_error (u s) \<noteq> 0 then bnd (irelse ip s) (\<lambda>_ s. Ret (request - (nleft - n)) s)
        else pwrite_loop k ip request (nleft - n) s))"

definition pwrite :: "nat \<Rightarrow> kst \<Rightarrow> u16 K" where
  "pwrite ip s =
     (let request = u_count (u s) in
      bnd (ilock ip s) (\<lambda>_ s.
      if i_count (ilist s ip) < 2
      then bnd (irelse ip s) (\<lambda>_ s.
           let s1 = set_error EPIPE s in bnd (send (u_p (u s1)) SIGPIPE s1) (\<lambda>_ s. Ret (junk s) s))
      else pwrite_loop (Suc (unat request)) ip request request s))"

definition pread :: "nat \<Rightarrow> kst \<Rightarrow> u16 K" where
  "pread ip s =
     bnd (ilock ip s) (\<lambda>_ s.
     if u_offset (u s) \<ge> i_size (ilist s ip) then
       (if i_count (ilist s ip) < 2 then bnd (irelse ip s) (\<lambda>_ s. Ret 0 s)
        else
          let s1 = upd_inode ip (\<lambda>x. x\<lparr>i_size := 0\<rparr>) (upd_u (\<lambda>x. x\<lparr>u_offset := 0\<rparr>) s) in
          bnd (irelse ip s1) (\<lambda>_ s. sleep (ChInode ip) PRIPIPE (set_iflag IWANT ip s)))
     else bnd (iread ip s) (\<lambda>n s. bnd (irelse ip s) (\<lambda>_ s. Ret n s)))"

definition rdwri :: "bool \<Rightarrow> u16 \<Rightarrow> u16 \<Rightarrow> u16 \<Rightarrow> kst \<Rightarrow> u16 K" where
  "rdwri rd fd buf cnt s =
     bnd (valid buf cnt s) (\<lambda>ok s.
     if \<not> ok then Ret (junk s) s
     else case ofile fd s of
       (None, s) \<Rightarrow> Ret (junk s) s
     | (Some fp, s) \<Rightarrow>
         let mode = f_mode (flist s fp) in
         if \<not> tst mode (if rd then 4 else 2) then Ret (junk s) (set_error EBADF s)
         else if cnt = 0 then Ret 0 s
         else
           let ip = (case f_inode (flist s fp) of Some i \<Rightarrow> i | None \<Rightarrow> 0);
               s1 = upd_u (\<lambda>x. x\<lparr>u_base := Uaddr buf, u_count := cnt, u_offset := f_rwptr (flist s fp), u_segflg := USEG\<rparr>) s in
           bnd (if tst mode 1 then (if rd then pread ip s1 else pwrite ip s1)
                else (if rd then iread ip s1 else iwrite ip s1)) (\<lambda>n s.
           Ret n (upd_file fp (\<lambda>x. x\<lparr>f_rwptr := u_offset (u s)\<rparr>) s)))"

definition kread :: "u16 \<Rightarrow> u16 \<Rightarrow> u16 \<Rightarrow> kst \<Rightarrow> u16 K" where "kread fd buf cnt s = rdwri True fd buf cnt s"
definition kwrite :: "u16 \<Rightarrow> u16 \<Rightarrow> u16 \<Rightarrow> kst \<Rightarrow> u16 K" where "kwrite fd buf cnt s = rdwri False fd buf cnt s"

section \<open>Terminal modes (cio.c)\<close>

definition cmode :: "u16 \<Rightarrow> u16 \<Rightarrow> bool \<Rightarrow> kst \<Rightarrow> unit K" where
  "cmode fd addr rd s = (case ofile fd s of
     (None, s) \<Rightarrow> Ret () s
   | (Some fp, s) \<Rightarrow>
       let ip = (case f_inode (flist s fp) of Some i \<Rightarrow> i | None \<Rightarrow> 0) in
       if i_mode (ilist s ip) AND IFMT \<noteq> IFCHR then Ret () (set_error ENOTTY s)
       else bnd (valid addr 6 s) (\<lambda>ok s.
         if \<not> ok then Ret () s
         else
           let s1 = upd_u (\<lambda>x. x\<lparr>u_base := Uaddr addr, u_segflg := USEG\<rparr>) s; dev = i_addr ip 0 s1 in
           if cmajor dev \<notin> {1, 4} then Ret () (nodev s1)
           else let (u', ph) = cdrv_mode s1 (cmajor dev) dev rd (u s1) (phys s1) in Ret () (s1\<lparr>u := u', phys := ph\<rparr>)))"

definition gtty :: "u16 \<Rightarrow> u16 \<Rightarrow> kst \<Rightarrow> unit K" where "gtty fd addr s = cmode fd addr True s"
definition stty :: "u16 \<Rightarrow> u16 \<Rightarrow> kst \<Rightarrow> unit K" where "stty fd addr s = cmode fd addr False s"

section \<open>Small system calls (sys1.c)\<close>

text \<open>\<^verbatim>\<open>u.sp - 12\<close> is 12 words below the stack pointer.\<close>

definition brake :: "u16 \<Rightarrow> kst \<Rightarrow> kst" where
  "brake addr s =
     (if addr > u_sp (u s) - 24 \<and> u_brake (u s) < u_sp (u s) then set_error ENOMEM s
      else upd_u (\<lambda>x. x\<lparr>u_brake := addr\<rparr>) s)"

definition chdir :: "u16 \<Rightarrow> kst \<Rightarrow> unit K" where
  "chdir name s =
     bnd (iname name s) (\<lambda>i s. case i of
       None \<Rightarrow> Ret () s
     | Some i \<Rightarrow>
         if i_mode (ilist s i) AND IFMT \<noteq> IFDIR then irelse i (set_error ENOTDIR s)
         else
           let (ok, s1) = access i IEXEC s in
           if \<not> ok then irelse i s1
           else
             let c = u_cdir (u s1) in
             bnd (idec c (icount (\<lambda>n. n - 1) c s1)) (\<lambda>_ s.
             irelse i (icount (\<lambda>n. n + 1) i (upd_u (\<lambda>x. x\<lparr>u_cdir := i\<rparr>) s))))"

definition chmod :: "u16 \<Rightarrow> u16 \<Rightarrow> kst \<Rightarrow> unit K" where
  "chmod name mode s =
     bnd (iname name s) (\<lambda>i s. case i of
       None \<Rightarrow> Ret () s
     | Some i \<Rightarrow>
         let (ro, s1) = ronly i s;
             (ok, s2) = (if u_euid s1 = d_uid (i_d (ilist s1 i)) then (True, s1) else super s1) in
         if ro then irelse i s1
         else irelse i (if ok then set_iflag IMOD i (upd_dsk i (\<lambda>d. d\<lparr>d_mode := (d_mode d AND NOT 0xFFF) OR (mode AND 0xFFF)\<rparr>) s2) else s2))"

definition chown :: "u16 \<Rightarrow> u16 \<Rightarrow> kst \<Rightarrow> unit K" where
  "chown name owner s =
     (let (ok, s1) = super s in
      if \<not> ok then Ret () s1
      else bnd (iname name s1) (\<lambda>ip s. case ip of
        None \<Rightarrow> Ret () s
      | Some ip \<Rightarrow>
          let (ro, s2) = ronly ip s in
          irelse ip (if ro then s2
            else set_iflag IMOD ip (upd_dsk ip (\<lambda>d. d\<lparr>d_uid := ucast owner, d_gid := ucast (drop_bit 8 owner)\<rparr>) s2))))"

definition dup :: "u16 \<Rightarrow> kst \<Rightarrow> u16 \<times> kst" where
  "dup fd s = (case ofile fd s of
     (None, s) \<Rightarrow> (junk s, s)
   | (Some fp, s) \<Rightarrow> (case oalloc s of
       (None, s) \<Rightarrow> (junk s, s)
     | (Some nfd, s) \<Rightarrow>
         (of_nat nfd, upd_file fp (\<lambda>x. x\<lparr>f_count := f_count x + 1\<rparr>) (set_olist nfd (Some fp) s))))"

definition sync :: "kst \<Rightarrow> unit K" where
  "sync s = bnd (isync s) (\<lambda>_ s. bsync s)"

definition getuid :: "kst \<Rightarrow> u16" where
  "getuid s = push_bit 8 (ucast (u_gid s)) OR ucast (u_uid s)"

text \<open>
  \<^verbatim>\<open>register char uid, gid\<close> are integers; \<^verbatim>\<open>(char) id\<close> extends the sign of the low byte.
\<close>

definition setuid :: "u16 \<Rightarrow> kst \<Rightarrow> kst" where
  "setuid idn s =
     (let uid = (scast (ucast idn :: u8) :: u16); gid = drop_bit 8 idn;
          (ok, s1) = (if uid = ucast (u_uid s) \<and> gid = ucast (u_gid s) then (True, s) else super s) in
      if \<not> ok then s1
      else set_u_egid (ucast gid) (set_u_euid (ucast uid) (set_u_gid (ucast gid) (set_u_uid (ucast uid)
             (upd_proc (u_p (u s1)) (\<lambda>q. q\<lparr>p_uid := ucast uid\<rparr>) s1)))))"

definition knice :: "u16 \<Rightarrow> kst \<Rightarrow> kst" where
  "knice n s =
     (let (ok, s1) = (if n <s 0 then super s else (True, s)) in
      if \<not> ok then s1 else upd_proc (u_p (u s1)) (\<lambda>q. q\<lparr>p_nice := ucast (128 - n)\<rparr>) s1)"

section \<open>Small system calls (sys2.c)\<close>

text \<open>The 36 bytes of \<^verbatim>\<open>struct stat\<close> with which an inode starts.\<close>

definition stat_bytes :: "inode \<Rightarrow> bytes" where
  "stat_bytes x = dsk_put (i_d x) (putw (putw (\<lambda>_. 0) 0 (i_dev x)) 2 (i_inum x)) 4"

definition istat :: "nat \<Rightarrow> u16 \<Rightarrow> kst \<Rightarrow> unit K" where
  "istat ip buf s =
     bnd (valid buf 36 s) (\<lambda>ok s.
     if \<not> ok then Ret () s
     else
       let (z0, z1) = x4to3 (i_size (ilist s ip));
           s1 = upd_dsk ip (\<lambda>d. d\<lparr>d_size0 := z0, d_size1 := z1\<rparr>) s
       in irelse ip (copyout (stat_bytes (ilist s1 ip)) 0 buf 36 s1))"

definition stat :: "u16 \<Rightarrow> u16 \<Rightarrow> kst \<Rightarrow> unit K" where
  "stat name buf s = bnd (iname name s) (\<lambda>ip s. case ip of None \<Rightarrow> Ret () s | Some ip \<Rightarrow> istat ip buf s)"

definition fstat :: "u16 \<Rightarrow> u16 \<Rightarrow> kst \<Rightarrow> unit K" where
  "fstat fd buf s = (case ofile fd s of
     (None, s) \<Rightarrow> Ret () s
   | (Some fp, s) \<Rightarrow>
       let ip = (case f_inode (flist s fp) of Some i \<Rightarrow> i | None \<Rightarrow> 0) in
       bnd (ilock ip s) (\<lambda>_ s. istat ip buf s))"

definition getpid :: "kst \<Rightarrow> u16" where "getpid s = procid (u_p (u s)) s"

definition stime :: "u16 \<Rightarrow> u16 \<Rightarrow> kst \<Rightarrow> kst" where
  "stime high low s =
     (let (ok, s1) = super s in
      if \<not> ok then s1 else s1\<lparr>seconds := push_bit 16 (ucast high) OR ucast low\<rparr>)"

definition seek_offset :: "u16 \<Rightarrow> u16 \<Rightarrow> u32 \<Rightarrow> u32 \<Rightarrow> u32" where
  "seek_offset disp from rwptr sz =
     (let f = from mod 6;
          o1 = (if f = 0 \<or> f = 3 then ucast disp else scast disp);
          o2 = (if f \<ge> 3 then push_bit 9 o1 else o1)
      in if f = 1 \<or> f = 4 then o2 + rwptr else if f = 2 \<or> f = 5 then o2 + sz else o2)"

definition seek :: "u16 \<Rightarrow> u16 \<Rightarrow> u16 \<Rightarrow> kst \<Rightarrow> kst" where
  "seek fd disp from s = (case ofile fd s of
     (None, s) \<Rightarrow> s
   | (Some fp, s) \<Rightarrow>
       if tst (f_mode (flist s fp)) 1 then set_error ESPIPE s
       else
         let ip = (case f_inode (flist s fp) of Some i \<Rightarrow> i | None \<Rightarrow> 0);
             off = seek_offset disp from (f_rwptr (flist s fp)) (i_size (ilist s ip)) in
         if off <s 0 then set_error EINVAL s else upd_file fp (\<lambda>x. x\<lparr>f_rwptr := off\<rparr>) s)"

definition snooze :: "u16 \<Rightarrow> kst \<Rightarrow> unit K" where
  "snooze secs s =
     (let waketime = seconds s + ucast secs in
      if seconds s <s waketime then
        (let left = ucast (waketime - seconds s);
             s1 = (if revel s \<le>s 0 \<or> left < revel s then s\<lparr>revel := left\<rparr> else s)
         in sleep ChRevel PRIUSER s1)
      else Ret () s)"

definition alarm :: "u16 \<Rightarrow> kst \<Rightarrow> u16 \<times> kst" where
  "alarm secs s = (p_alarm (cur s), upd_proc (u_p (u s)) (\<lambda>q. q\<lparr>p_alarm := secs\<rparr>) s)"

definition pause :: "kst \<Rightarrow> unit K" where "pause s = sleep ChPause PRIUSER s"

end
