(* ===== verification/Process.thy ===== *)
theory Process
  imports Syscalls
begin

text \<open>
  Processes: context switch (\<^verbatim>\<open>next\<close> of \<^verbatim>\<open>sys/sleep.c\<close>), signal delivery (\<^verbatim>\<open>sig\<close>, \<^verbatim>\<open>abort\<close> of \<^verbatim>\<open>sys/sig.c\<close>,
  \<^verbatim>\<open>setexit\<close> of \<^verbatim>\<open>sys/trap.c\<close>), fork, exit and wait (\<^verbatim>\<open>sys/fork.c\<close>), the choices of the swap process
  (\<^verbatim>\<open>sys/swap.c\<close>), the clock (\<^verbatim>\<open>sys/time.c\<close>) and the memory fault handler (\<^verbatim>\<open>sys/malloc.c\<close>). The C stacks
  of the processes are not modelled: \<^verbatim>\<open>saveframe\<close> and \<^verbatim>\<open>setframe\<close> have no counterpart. The transfer of
  a core image to and from the swap device is a parameter \<open>sio\<close>.
\<close>

section \<open>Context switch and signals\<close>

definition knext :: "kst \<Rightarrow> unit K" where
  "knext s = bnd (sched s) (\<lambda>n s.
     let s1 = (if n \<noteq> u_p (u s) then newmap n s else s) in Ret () (s1\<lparr>resched := 0\<rparr>))"

definition uputw :: "u16 \<Rightarrow> u16 \<Rightarrow> kst \<Rightarrow> kst" where
  "uputw v a s = uputc (a + 1) (ucast (drop_bit 8 v)) (uputc a (ucast v) s)"

definition ugetw :: "kst \<Rightarrow> u16 \<Rightarrow> u16" where
  "ugetw s a = word_cat (ugetc s (a + 1)) (ugetc s a)"

text \<open>The bytes \<^verbatim>\<open>hlt; sys; exit\<close> at the restart vector, address 8.\<close>

definition setexit :: "kst \<Rightarrow> u16 \<times> kst" where
  "setexit s = (9, copyout ((\<lambda>_. 0)(0 := 0x76, 1 := 0xCF, 2 := 1)) 0 8 3 s)"

text \<open>
  \<^verbatim>\<open>sig()\<close>. The terminal queues are not part of the state, so \<^verbatim>\<open>drainall\<close> is not seen here.
\<close>

definition sig :: "kst \<Rightarrow> u16 K" where
  "sig s =
     (let p = u_p (u s); sg = p_slist (plist s p) 0; func = p_slist (plist s p) (unat sg) in
      if sg = 0 then Ret 0 s
      else if func = IGNORE \<or> p_pri (plist s p) \<ge> SIGPRI then Ret 0 s
      else
        let (f, s1) = (if func = TERMIN then setexit (upd_proc p (\<lambda>q. q\<lparr>p_status := sg\<rparr>) s) else (func, s));
            s2 = set_slist p 0 0 s1;
            s3 = (if sg \<noteq> SIGTINT then set_slist p (unat sg) 0 s2 else s2);
            s4 = upd_u (\<lambda>x. x\<lparr>u_sp := u_sp x - 2\<rparr>) s3 in
        bnd (valid (u_sp (u s4)) 2 s4) (\<lambda>_ s.
        Ret sg (upd_u (\<lambda>x. x\<lparr>u_pc := f\<rparr>) (uputw (u_pc (u s)) (u_sp (u s)) s))))"

definition abort :: "kst \<Rightarrow> bool K" where
  "abort s = bnd (sig s) (\<lambda>sg s. if sg = 0 \<or> sg = SIGTINT then Ret False s else Ret True (set_error EINTR s))"

section \<open>Swapping (swap.c)\<close>

fun findin_from :: "(nat \<Rightarrow> proc) \<Rightarrow> nat list \<Rightarrow> nat option \<Rightarrow> nat option" where
  "findin_from pl [] n = n"
| "findin_from pl (p # ps) n =
     findin_from pl ps
       (if alls (p_mode (pl p)) (AWAKE OR SWAPPED) \<and> (case n of None \<Rightarrow> True | Some m \<Rightarrow> p_time (pl m) < p_time (pl p))
        then Some p else n)"

definition findin :: "kst \<Rightarrow> nat option" where
  "findin s = findin_from (plist s) [0..<NPROC] None"

text \<open>
  \<^verbatim>\<open>n->mode & AWAKE == p->mode & AWAKE\<close> compares \<^verbatim>\<open>AWAKE\<close> with \<^verbatim>\<open>p->mode\<close> first.
\<close>

definition findout_better :: "proc \<Rightarrow> proc \<Rightarrow> bool" where
  "findout_better n p \<longleftrightarrow>
     (p_mode n AND (if AWAKE = p_mode p then 1 else 0) AND AWAKE \<noteq> 0 \<and> p_time n < p_time p) \<or> tst (p_mode n) AWAKE"

fun findout_from :: "(nat \<Rightarrow> proc) \<Rightarrow> nat list \<Rightarrow> nat option \<Rightarrow> nat option" where
  "findout_from pl [] n = n"
| "findout_from pl (p # ps) n =
     findout_from pl ps
       (if p_mode (pl p) AND (ALIVE OR LOADED OR LOCKED) = (ALIVE OR LOADED) \<and> p_time (pl p) \<ge> MINRUN
           \<and> (case n of None \<Rightarrow> True | Some m \<Rightarrow> findout_better (pl m) (pl p))
        then Some p else n)"

definition findout :: "kst \<Rightarrow> nat option" where
  "findout s = findout_from (plist s) [0..<NPROC] None"

type_synonym swapio = "bool \<Rightarrow> nat \<Rightarrow> kst \<Rightarrow> bool K"

definition swapout :: "swapio \<Rightarrow> nat \<Rightarrow> kst \<Rightarrow> bool K" where
  "swapout sio p s =
     (let s1 = upd_proc p (\<lambda>q. q\<lparr>p_mode := p_mode q AND NOT LOADED\<rparr>) s;
          (blk, s2) = salloc (push_bit 3 (ucast (p_nsegs (plist s1 p)))) s1;
          s3 = upd_proc p (\<lambda>q. q\<lparr>p_swap := blk\<rparr>) s2 in
      bnd (if blk \<noteq> 0 then sio False p s3 else Ret False s3) (\<lambda>ok s.
      if ok then Ret True (upd_proc p (\<lambda>q. q\<lparr>p_mode := p_mode q OR SWAPPED\<rparr>) s)
      else bnd (send p SIGKILL (upd_proc p (\<lambda>q. q\<lparr>p_mode := p_mode q OR LOADED\<rparr>) s)) (\<lambda>_ s.
           Ret False (pr ''swap error: process %i killed\<newline>'' [PInt (procid p s)] s))))"

definition swapin :: "swapio \<Rightarrow> nat \<Rightarrow> kst \<Rightarrow> bool K" where
  "swapin sio p s =
     bnd (sio True p (upd_proc p (\<lambda>q. q\<lparr>p_mode := p_mode q AND NOT SWAPPED\<rparr>) s)) (\<lambda>ok s.
     if ok then
       bnd (sfree (push_bit 3 (ucast (p_nsegs (plist s p)))) (p_swap (plist s p)) s) (\<lambda>_ s.
       Ret True (upd_proc p (\<lambda>q. q\<lparr>p_mode := p_mode q OR LOADED\<rparr>) s))
     else bnd (mfree p s) (\<lambda>_ s. Ret False (pr ''swap error: process %i hung\<newline>'' [PInt (procid p s)] s)))"

definition swapinit :: "kst \<Rightarrow> unit K" where
  "swapinit s =
     bnd (if swapdev s = rootdev s
          then bnd (getsb (rootdev s) s) (\<lambda>b s. brelse b (s\<lparr>swapaddr := getw (bdat b s) S_FSIZE\<rparr>))
          else Ret () s) (\<lambda>_ s.
     Ret () (s\<lparr>swapmap := (swapmap s)(0 := \<lparr>s_size = swapsize s, s_addr = swapaddr s\<rparr>, 1 := (swapmap s 1)\<lparr>s_size := 0\<rparr>)\<rparr>))"

text \<open>One round of the endless loop of \<^verbatim>\<open>swap()\<close>.\<close>

definition swap_idle :: "kst \<Rightarrow> unit K" where
  "swap_idle s = sleep ChMem PRISWAP (s\<lparr>swapping := 0\<rparr>)"

definition swap_in_one :: "swapio \<Rightarrow> kst \<Rightarrow> unit K" where
  "swap_in_one sio s = (case findin s of
     None \<Rightarrow> swap_idle s
   | Some n \<Rightarrow>
       let (ok, s1) = mget n s in
       if ok then bnd (swapin sio n s1) (\<lambda>_ s. Ret () s) else Ret () (s1\<lparr>memwant := 1\<rparr>))"

definition swap_round :: "swapio \<Rightarrow> kst \<Rightarrow> unit K" where
  "swap_round sio s =
     (if memwant s = 0 then swap_in_one sio s
      else case findout s of
        None \<Rightarrow> swap_idle s
      | Some n \<Rightarrow> bnd (swapout sio n s) (\<lambda>ok s.
          if ok then bnd (mfree n s) (\<lambda>_ s. swap_in_one sio s) else swap_idle s))"

section \<open>Fork, exit, wait (fork.c)\<close>

definition procopy :: "swapio \<Rightarrow> nat \<Rightarrow> kst \<Rightarrow> unit K" where
  "procopy sio child s =
     (let p = u_p (u s);
          s1 = upd_proc child (\<lambda>_. (plist s p)\<lparr>p_time := 0, p_parent := Some p\<rparr>) s in
      bnd (newpid s1) (\<lambda>pid s.
      let (ok, s3) = mget child (upd_proc child (\<lambda>q. q\<lparr>p_pid := ucast pid\<rparr>) s) in
      if ok then Ret () (bankcopy child s3)
      else
        let mode = p_mode (plist s3 p);
            s4 = upd_proc p (\<lambda>q. q\<lparr>p_mode := p_mode q OR LOCKED\<rparr>) s3 in
        bnd (bnd (if swapdev s4 \<noteq> 0 then swapout sio child s4 else Ret False s4) (\<lambda>out s.
             if out then run 0 s else Ret () (set_error EAGAIN (upd_proc child (\<lambda>_. proc0) s)))) (\<lambda>_ s.
        Ret () (upd_proc p (\<lambda>q. q\<lparr>p_mode := mode\<rparr>) s))))"

fun fbump :: "nat list \<Rightarrow> kst \<Rightarrow> kst" where
  "fbump [] s = s"
| "fbump (i # r) s = fbump r (case u_olist (u s) i of
     None \<Rightarrow> s | Some f \<Rightarrow> upd_file f (\<lambda>x. x\<lparr>f_count := f_count x + 1\<rparr>) s)"

definition fork :: "swapio \<Rightarrow> kst \<Rightarrow> u16 K" where
  "fork sio s = (case scan (\<lambda>p. \<not> tst (p_mode (plist s p)) ALLOC) NPROC of
     None \<Rightarrow> Ret (junk s) (set_error EAGAIN s)
   | Some child \<Rightarrow>
       let s1 = fbump [0..<NOPEN] (icount (\<lambda>c. c + 1) (u_cdir (u s)) s) in
       bnd (procopy sio child s1) (\<lambda>_ s. Ret (procid child s) s))"

fun exit_close :: "nat list \<Rightarrow> kst \<Rightarrow> unit K" where
  "exit_close [] s = Ret () s"
| "exit_close (fd # r) s = bnd (close (of_nat fd) s) (\<lambda>_ s. exit_close r (set_error 0 s))"

definition orphan :: "nat \<Rightarrow> nat \<Rightarrow> proc \<Rightarrow> proc" where
  "orphan me ini q = (if p_parent q = Some me then (if tst (p_mode q) ALIVE then q\<lparr>p_parent := Some ini\<rparr> else proc0) else q)"

definition exit :: "u16 \<Rightarrow> kst \<Rightarrow> unit K" where
  "exit st s =
     (let me = u_p (u s); s1 = upd_proc me (\<lambda>q. q\<lparr>p_status := p_status q OR push_bit 8 st\<rparr>) s in
      bnd (exit_close [0..<NOPEN] s1) (\<lambda>_ s.
      let s2 = s\<lparr>plist := (\<lambda>q. if q < NPROC then orphan me (initproc s) (plist s q) else plist s q)\<rparr>;
          s3 = icount (\<lambda>c. c - 1) (u_cdir (u s2)) s2;
          s4 = upd_proc me (\<lambda>q. q\<lparr>p_mode := p_mode q AND NOT (ALIVE OR AWAKE)\<rparr>) s3 in
      bnd (case p_parent (plist s4 me) of None \<Rightarrow> Ret () s4 | Some par \<Rightarrow> wakeup (ChProc par) s4) (\<lambda>_ s.
      bnd (mfree me s) (\<lambda>_ s. knext s))))"

text \<open>One search of \<^verbatim>\<open>wait\<close>: the status and number of a dead child, or whether there is a child at all.\<close>

definition wait :: "kst \<Rightarrow> (u16 \<times> u16 option) K" where
  "wait s =
     (let me = u_p (u s) in
      case scan (\<lambda>p. p_parent (plist s p) = Some me \<and> \<not> tst (p_mode (plist s p)) ALIVE) NPROC of
        Some p \<Rightarrow> Ret (procid p s, Some (p_status (plist s p))) (upd_proc p (\<lambda>_. proc0) s)
      | None \<Rightarrow>
          if \<exists>p<NPROC. p_parent (plist s p) = Some me then sleep (ChProc me) PRIWAIT s
          else Ret (junk s, None) (set_error ECHILD s))"

section \<open>The clock (time.c)\<close>

fun clock_procs :: "nat list \<Rightarrow> kst \<Rightarrow> unit K" where
  "clock_procs [] s = Ret () s"
| "clock_procs (p # r) s =
     (if tst (p_mode (plist s p)) ALIVE then
        (let s1 = upd_proc p (\<lambda>q. q\<lparr>p_time := p_time q + 1\<rparr>) s in
         if p_alarm (plist s1 p) = 0 then clock_procs r s1
         else
           let s2 = upd_proc p (\<lambda>q. q\<lparr>p_alarm := p_alarm q - 1\<rparr>) s1 in
           bnd (if p_alarm (plist s2 p) = 0 then send p SIGALRM s2 else Ret () s2) (\<lambda>_ s. clock_procs r s))
      else clock_procs r s)"

text \<open>
  \<^verbatim>\<open>clock()\<close> after \<^verbatim>\<open>timein()\<close>. The seconds are incremented word by word, low word with carry.
\<close>

definition tick_seconds :: "u32 \<Rightarrow> u32" where
  "tick_seconds sec =
     (let lo = (ucast sec :: u16) + 1; hi = (ucast (drop_bit 16 sec) :: u16) + (if lo = 0 then 1 else 0)
      in word_cat hi lo)"

definition clock :: "kst \<Rightarrow> unit K" where
  "clock s =
     (let s1 = s\<lparr>resched := 1, ticks := ticks s + 1\<rparr> in
      if tst (ticks s1) 7 then Ret () s1
      else
        let s2 = s1\<lparr>seconds := tick_seconds (seconds s1), revel := revel s1 - 1\<rparr> in
        bnd (if revel s2 = 0 then wakeup ChRevel s2 else Ret () s2) (\<lambda>_ s.
        bnd (if memwant s \<noteq> 0 \<and> swapping s = 0 \<and> \<not> tst (ticks s) 31 then run 0 s else Ret () s) (\<lambda>_ s.
        clock_procs [0..<NPROC] s)))"

text \<open>
  A request for a time-out (\<^verbatim>\<open>timeout\<close>): it takes the first free slot; with all slots taken the kernel panics. A function is named by a number. The pass over the slots
  at a tick, \<^verbatim>\<open>timein\<close>, is in theory \<open>Timeouts\<close>.
\<close>

definition timeout :: "nat \<Rightarrow> u16 \<Rightarrow> u16 \<Rightarrow> tmout list \<Rightarrow> tmout list option" where
  "timeout func a tk ts = (case find (\<lambda>i. t_func (ts ! i) = None) [0..<length ts] of
     None \<Rightarrow> None
   | Some i \<Rightarrow> Some (ts[i := \<lparr>t_func = Some func, t_arg = a, t_ticks = tk + 1\<rparr>]))"

section \<open>Memory faults (fault of malloc.c)\<close>

definition fault :: "kst \<Rightarrow> unit K" where
  "fault s =
     (let tseg = ucast (drop_bit 4 (trapad s)) :: u16; pseg = ucast (trapad s AND 15) :: u16 in
      bnd (grow tseg s) (\<lambda>ok s.
      if \<not> ok then Ret () s
      else if m_per (p_mem (cur s) (unat pseg)) = FULL then Ret () s
      else
        let src = push_bit 12 tseg + (if tseg < pseg then 0 else 4095);
            dst = push_bit 12 pseg + (if tseg < pseg then 0 else 4095);
            temp = ugetc s src in
        bnd (grow pseg s) (\<lambda>_ s. Ret () (uputc dst temp s))))"

end
