(* ===== verification/Exec.thy ===== *)
theory Exec
  imports Process
begin

text \<open>
  Program execution (\<^verbatim>\<open>sys/exec.c\<close>). The argument strings are collected in buffers of the device
  \<^verbatim>\<open>NODEV\<close>; the header of the file is \<open>hdr\<close>. \<open>xargs\<close> holds
  the static variables \<^verbatim>\<open>bp\<close> (the entries 1 to \<^verbatim>\<open>nblks\<close>), \<^verbatim>\<open>nargs\<close> and \<^verbatim>\<open>nbytes\<close> during a call.
\<close>

section \<open>Operations\<close>

text \<open>
  \<^verbatim>\<open>bp[NBLKS]\<close> has the indices 0 to 3, and the code uses 1 to 4: \<open>x_over\<close> records that \<^verbatim>\<open>bp[4]\<close>, which lies
  outside of the array, was written.
\<close>

record xargs =
  x_bp :: "nat list"
  x_nargs :: u16
  x_nbytes :: u16
  x_over :: bool

definition xnblks :: "xargs \<Rightarrow> nat" where "xnblks x = length (x_bp x)"

definition xchk :: "u16 \<Rightarrow> kst \<Rightarrow> (bool \<times> nat option) K" where
  "xchk name s =
     bnd (iname name s) (\<lambda>ip s. case ip of
       None \<Rightarrow> Ret (False, None) s
     | Some ip \<Rightarrow>
         if i_mode (ilist s ip) AND IFMT \<noteq> IFREG \<or> i_size (ilist s ip) = 0 then Ret (False, Some ip) (set_error ENOEXEC s)
         else let (ok, s1) = access ip IEXEC s in Ret (ok, Some ip) s1)"

text \<open>
  One argument string: copy bytes up to and with the zero byte, taking a new buffer every 512 bytes.
\<close>

partial_function (option) getstr :: "u16 \<Rightarrow> xargs \<Rightarrow> kst \<Rightarrow> (bool \<times> xargs) K option" where
  "getstr p x s =
     obnd (if x_nbytes x AND 511 = 0 then
             (if xnblks x < 4
              then bnd (bget (of_nat (xnblks x) + 1) 0xFFFF s) (\<lambda>b s.
                   Ret (True, x\<lparr>x_bp := x_bp x @ [b], x_over := x_over x \<or> xnblks x = 3\<rparr>) s)
              else Ret (False, x) (set_error E2BIG s))
           else Ret (True, x) s) (\<lambda>(ok, x) s.
     if \<not> ok then Some (Ret (False, x) s)
     else
       let c = ugetc s p; b = last (x_bp x);
           s1 = set_bdat b ((bdat b s)(unat (x_nbytes x AND 511) := c)) s;
           x1 = x\<lparr>x_nbytes := x_nbytes x + 1\<rparr>
       in if c = 0 then Some (Ret (True, x1) s1) else getstr (p + 1) x1 s1)"

partial_function (option) getargs_loop :: "u16 \<Rightarrow> xargs \<Rightarrow> kst \<Rightarrow> (bool \<times> xargs) K option" where
  "getargs_loop args x s =
     (let p = ugetw s args in
      if p = 0 then Some (Ret (True, x) s)
      else obnd (spin (getstr p (x\<lparr>x_nargs := x_nargs x + 1\<rparr>) s) s) (\<lambda>(ok, x) s.
        if ok then getargs_loop (args + 2) x s else Some (Ret (False, x) s)))"

definition getargs :: "u16 \<Rightarrow> kst \<Rightarrow> (bool \<times> xargs) K" where
  "getargs args s = spin (getargs_loop args \<lparr>x_bp = [], x_nargs = 0, x_nbytes = 0, x_over = False\<rparr> s) s"

text \<open>Offsets of \<^verbatim>\<open>struct obj\<close>: text 4, data 6, bss 8, heap 10, textoff 12, dataoff 14.\<close>

definition cpmhdr :: bytes where
  "cpmhdr = putw ((\<lambda>_. 0)(0 := 0x99, 1 := 0x94)) 12 0x100"

definition rdhdr :: "nat \<Rightarrow> kst \<Rightarrow> bool K" where
  "rdhdr ip s =
     bnd (nread ip (Khdr 0) 16 (upd_u (\<lambda>x. x\<lparr>u_offset := 0, u_segflg := KSEG\<rparr>) s)) (\<lambda>n s.
     if n <s 0 then Ret False s
     else if hdr s 0 \<noteq> 0x99
     then
       let text = ucast (i_size (ilist s ip));
           h = putw (copyb cpmhdr 0 (hdr s) 0 16) 4 text
       in Ret True (upd_u (\<lambda>x. x\<lparr>u_offset := 0\<rparr>) (s\<lparr>hdr := putw h 14 (text + getw h 12)\<rparr>))
     else Ret True s)"

definition fit :: "xargs \<Rightarrow> kst \<Rightarrow> bool \<times> kst" where
  "fit x s =
     (let h = hdr s;
          br = getw h 14 + getw h 6 + getw h 8;
          tb = getw h 12 + getw h 4;
          b = (if br > tb then br else tb)
      in if b + getw h 10 + 4 + x_nargs x + x_nargs x + x_nbytes x > 0xFFFF then (False, set_error ENOMEM s)
         else (True, upd_u (\<lambda>y. y\<lparr>u_brake := b\<rparr>) s))"

text \<open>
  \<^verbatim>\<open>putargs\<close>: the addresses of the strings and the strings themselves at the top of memory, 0xFFFF.
  The walk over the bytes of a buffer writes an address at the start of each string.
\<close>

fun putargv :: "nat \<Rightarrow> bytes \<Rightarrow> nat \<Rightarrow> u8 \<Rightarrow> u16 \<Rightarrow> u16 \<Rightarrow> u16 \<Rightarrow> u16 \<Rightarrow> kst \<Rightarrow> (u8 \<times> u16 \<times> u16) \<times> kst" where
  "putargv 0 b i c ac a av nargs s = ((c, ac, a), s)"
| "putargv (Suc n) b i c ac a av nargs s =
     (let s1 = (if c = 0 then uputw a (av + 2 * ac) s else s);
          ac1 = (if c = 0 then ac + 1 else ac)
      in if c = 0 \<and> ac1 \<ge> nargs then ((c, ac1, a), s1)
         else putargv n b (Suc i) (b i) ac1 (a + 1) av nargs s1)"

fun putblocks :: "nat list \<Rightarrow> u8 \<Rightarrow> u16 \<Rightarrow> u16 \<Rightarrow> u16 \<Rightarrow> u16 \<Rightarrow> u16 \<Rightarrow> u16 \<Rightarrow> kst \<Rightarrow> kst" where
  "putblocks [] c ac a av d nargs left s = s"
| "putblocks (b # bs) c ac a av d nargs left s =
     (let ((c1, ac1, a1), s1) = putargv 512 (bdat b s) 0 c ac a av nargs s;
          cnt = (if 512 < left then 512 else left)
      in putblocks bs c1 ac1 a1 av (d + cnt) nargs (left - cnt) (copyout (bdat b s1) 0 d (unat cnt) s1))"

definition putargs :: "xargs \<Rightarrow> kst \<Rightarrow> unit K" where
  "putargs x s =
     (let a = 0xFFFF - x_nbytes x; av = a - 2 * x_nargs x - 2; sp = av - 2;
          s1 = upd_u (\<lambda>y. y\<lparr>u_sp := sp\<rparr>) s in
      bnd (valid sp (4 + x_nargs x + x_nargs x + x_nbytes x) s1) (\<lambda>_ s.
      let s2 = putblocks (x_bp x) 0 0 a av a (x_nargs x) (x_nbytes x) s;
          first = (case x_bp x of [] \<Rightarrow> (\<lambda>_. 0) | b # _ \<Rightarrow> bdat b s2);
          s3 = upd_proc (u_p (u s2)) (\<lambda>q. q\<lparr>p_args := copyb first 0 (p_args q) 0 8\<rparr>) s2
      in Ret () (uputw (x_nargs x) sp (uputw 0xFFFF (av + 2 * x_nargs x) s3))))"

text \<open>\<^verbatim>\<open>*sp > 1\<close> is a signed comparison: handlers in the upper half of memory are kept.\<close>

definition setusr :: "nat \<Rightarrow> kst \<Rightarrow> kst" where
  "setusr ip s =
     (let x = ilist s ip;
          s1 = upd_u (\<lambda>y. y\<lparr>u_pc := getw (hdr s) 12\<rparr>) s;
          s2 = set_u_euid (if tst (i_mode x) ISUID then d_uid (i_d x) else u_uid s1) s1;
          s3 = set_u_egid (if tst (i_mode x) ISGID then d_gid (i_d x) else u_gid s2) s2
      in upd_proc (u_p (u s3)) (\<lambda>q. q\<lparr>p_slist := (\<lambda>i. if i < NSIG \<and> 1 <s p_slist q i then 0 else p_slist q i)\<rparr>) s3)"

definition readin :: "nat \<Rightarrow> kst \<Rightarrow> unit K" where
  "readin ip s =
     (let me = u_p (u s); h = hdr s;
          s1 = upd_proc me (\<lambda>q. q\<lparr>p_mode := p_mode q OR LOCKED\<rparr>) (upd_u (\<lambda>x. x\<lparr>u_segflg := USEG\<rparr>) s) in
      bnd (valid 8 1 s1) (\<lambda>_ s.
      bnd (valid (getw h 12) (getw h 4) (uputc 8 0x76 s)) (\<lambda>_ s.
      bnd (nread ip (Uaddr (getw h 12)) (getw h 4) s) (\<lambda>_ s.
      bnd (valid (getw h 14) (getw h 6) s) (\<lambda>_ s.
      bnd (nread ip (Uaddr (getw h 14)) (getw h 6) s) (\<lambda>_ s.
      Ret () (upd_proc me (\<lambda>q. q\<lparr>p_mode := p_mode q AND NOT LOCKED\<rparr>) s)))))))"

fun arelse :: "nat list \<Rightarrow> kst \<Rightarrow> unit K" where
  "arelse [] s = Ret () s"
| "arelse (b # bs) s = bnd (brelse b s) (\<lambda>_ s. arelse bs s)"

definition exec_load :: "nat \<Rightarrow> xargs \<Rightarrow> kst \<Rightarrow> unit K" where
  "exec_load ip x s =
     bnd (mrelse s) (\<lambda>_ s.
     bnd (putargs x s) (\<lambda>_ s.
     bnd (readin ip (setusr ip s)) (\<lambda>_ s.
     if u_error (u s) \<noteq> 0 then send (u_p (u s)) SIGKILL s else Ret () s)))"

text \<open>
  The buffers released at the end are those of \<^verbatim>\<open>bp\<close> and \<^verbatim>\<open>nblks\<close>, which keep the values of the previous
  call when the file is refused before \<^verbatim>\<open>getargs\<close>.
\<close>

definition exec_try :: "nat \<Rightarrow> u16 \<Rightarrow> kst \<Rightarrow> unit K" where
  "exec_try i args s =
     bnd (getargs args s) (\<lambda>(ok, x) s.
     let s1 = s\<lparr>xbp := x_bp x\<rparr> in
     if \<not> ok then Ret () s1
     else bnd (rdhdr i s1) (\<lambda>ok s.
       if \<not> ok then Ret () s
       else let (ok, s2) = fit x s in if \<not> ok then Ret () s2 else exec_load i x s2))"

definition exec :: "u16 \<Rightarrow> u16 \<Rightarrow> kst \<Rightarrow> unit K" where
  "exec name args s =
     (if execing s then sleep ChExec PRIWAIT s
      else
        bnd (xchk name (s\<lparr>execing := True\<rparr>)) (\<lambda>(ok, ip) s.
        bnd (case ip of Some i \<Rightarrow> if ok then exec_try i args s else Ret () s | None \<Rightarrow> Ret () s) (\<lambda>_ s.
        bnd (irelse_opt ip s) (\<lambda>_ s.
        bnd (arelse (xbp s) s) (\<lambda>_ s. wakeup ChExec (s\<lparr>execing := False\<rparr>))))))"

end
