(* ===== verification/System.thy ===== *)
theory System
  imports Exec
begin

text \<open>
  The system call interface: the call table and dispatcher (\<^verbatim>\<open>sys/system.c\<close>), the register wrappers
  (\<^verbatim>\<open>sys/reg.c\<close>) and the trap handler (\<^verbatim>\<open>sys/trap.c\<close>).
\<close>

section \<open>Dispatch\<close>

datatype syscall = Indir | SExit | SFork | SRead | SWrite | SOpen | SClose | SWait | SCreat | SLink | SUnlink
  | SExec | SChdir | STime | SMknod | SChmod | SChown | SBrake | SStat | SSeek | SGetpid | SMount | SUmount
  | SSetuid | SGetuid | SStime | SUnimp | SAlarm | SFstat | SPause | SBadcall | SStty | SGtty | SPermission
  | SNice | SSleep | SSync | SKill | SCsw | SSsw | SDup | SPipe | SSignal

definition syssw :: "(nat \<times> syscall) list" where
  "syssw = [(2, Indir), (0, SExit), (0, SFork), (4, SRead), (4, SWrite), (4, SOpen), (0, SClose), (0, SWait),
     (4, SCreat), (4, SLink), (2, SUnlink), (4, SExec), (2, SChdir), (0, STime), (6, SMknod), (4, SChmod),
     (4, SChown), (2, SBrake), (4, SStat), (4, SSeek), (0, SGetpid), (6, SMount), (2, SUmount), (0, SSetuid),
     (0, SGetuid), (0, SStime), (6, SUnimp), (0, SAlarm), (2, SFstat), (0, SPause), (0, SBadcall), (2, SStty),
     (2, SGtty), (4, SPermission), (0, SNice), (0, SSleep), (0, SSync), (2, SKill), (0, SCsw), (0, SSsw),
     (0, SBadcall), (0, SDup), (0, SPipe), (2, SUnimp), (8, SUnimp), (0, SBadcall), (0, SBadcall), (0, SBadcall),
     (4, SSignal)]"

abbreviation (input) BADCALL :: nat where "BADCALL \<equiv> 47"

definition set_hl :: "u16 \<Rightarrow> kst \<Rightarrow> kst" where "set_hl v s = upd_u (\<lambda>x. x\<lparr>u_hl := v\<rparr>) s"

definition ret_hl :: "u16 K \<Rightarrow> unit K" where
  "ret_hl r = bnd r (\<lambda>v s. Ret () (set_hl v s))"

definition badcall :: "kst \<Rightarrow> unit K" where
  "badcall s = (let s1 = set_error EINVAL s in send (u_p (u s1)) SIGSYS s1)"

definition r_fork :: "swapio \<Rightarrow> kst \<Rightarrow> unit K" where
  "r_fork sio s = bnd (fork sio s) (\<lambda>pid s.
     Ret () (if pid \<noteq> 0 then upd_u (\<lambda>x. x\<lparr>u_pc := u_pc x + 3, u_hl := pid\<rparr>) s else s))"

definition r_wait :: "kst \<Rightarrow> unit K" where
  "r_wait s = bnd (wait s) (\<lambda>(pid, st) s.
     Ret () (set_hl pid (case st of None \<Rightarrow> s | Some v \<Rightarrow> upd_u (\<lambda>x. x\<lparr>u_de := v\<rparr>) s)))"

definition r_pipe :: "kst \<Rightarrow> unit K" where
  "r_pipe s = bnd (pipe s) (\<lambda>(rd, wr) s. Ret () (upd_u (\<lambda>x. x\<lparr>u_hl := rd, u_de := wr\<rparr>) s))"

definition r_time :: "kst \<Rightarrow> kst" where
  "r_time s = upd_u (\<lambda>x. x\<lparr>u_de := ucast (seconds s), u_hl := ucast (drop_bit 16 (seconds s))\<rparr>) s"

text \<open>
  A call with its arguments from \<^verbatim>\<open>arg\<close> and the registers; \<open>Indir\<close> is handled by the dispatcher.
\<close>

fun docall1 :: "swapio \<Rightarrow> syscall \<Rightarrow> kst \<Rightarrow> unit K" where
  "docall1 sio SExit s = exit (u_hl (u s)) s"
| "docall1 sio SFork s = r_fork sio s"
| "docall1 sio SRead s = ret_hl (kread (u_hl (u s)) (arg s 0) (arg s 1) s)"
| "docall1 sio SWrite s = ret_hl (kwrite (u_hl (u s)) (arg s 0) (arg s 1) s)"
| "docall1 sio SOpen s = ret_hl (kopen (arg s 0) (arg s 1) s)"
| "docall1 sio SClose s = close (u_hl (u s)) s"
| "docall1 sio SWait s = r_wait s"
| "docall1 sio SCreat s = ret_hl (creat (arg s 0) (arg s 1) s)"
| "docall1 sio SLink s = link (arg s 0) (arg s 1) s"
| "docall1 sio SUnlink s = unlink (arg s 0) s"
| "docall1 sio SExec s = exec (arg s 0) (arg s 1) s"
| "docall1 sio SChdir s = chdir (arg s 0) s"
| "docall1 sio STime s = Ret () (r_time s)"
| "docall1 sio SMknod s = mknod (arg s 0) (arg s 1) (arg s 2) s"
| "docall1 sio SChmod s = chmod (arg s 0) (arg s 1) s"
| "docall1 sio SChown s = chown (arg s 0) (arg s 1) s"
| "docall1 sio SBrake s = Ret () (brake (arg s 0) s)"
| "docall1 sio SStat s = stat (arg s 0) (arg s 1) s"
| "docall1 sio SSeek s = Ret () (seek (u_hl (u s)) (arg s 0) (arg s 1) s)"
| "docall1 sio SGetpid s = Ret () (set_hl (getpid s) s)"
| "docall1 sio SMount s = kmount (arg s 0) (arg s 1) (arg s 2) s"
| "docall1 sio SUmount s = umount (arg s 0) s"
| "docall1 sio SSetuid s = Ret () (setuid (u_hl (u s)) s)"
| "docall1 sio SGetuid s = Ret () (set_hl (getuid s) s)"
| "docall1 sio SStime s = Ret () (stime (u_hl (u s)) (u_de (u s)) s)"
| "docall1 sio SUnimp s = Ret () (set_error EINVAL s)"
| "docall1 sio SAlarm s = (let (v, s1) = alarm (u_hl (u s)) s in Ret () (set_hl v s1))"
| "docall1 sio SFstat s = fstat (u_hl (u s)) (arg s 0) s"
| "docall1 sio SPause s = pause s"
| "docall1 sio SBadcall s = badcall s"
| "docall1 sio SStty s = stty (u_hl (u s)) (arg s 0) s"
| "docall1 sio SGtty s = gtty (u_hl (u s)) (arg s 0) s"
| "docall1 sio SPermission s = permission (arg s 0) (arg s 1) s"
| "docall1 sio SNice s = Ret () (knice (u_hl (u s)) s)"
| "docall1 sio SSleep s = snooze (u_hl (u s)) s"
| "docall1 sio SSync s = sync s"
| "docall1 sio SKill s = kill (u_hl (u s)) (arg s 0) s"
| "docall1 sio SCsw s = Ret () (set_hl (csw s) s)"
| "docall1 sio SSsw s = Ret () (ssw (u_hl (u s)) s)"
| "docall1 sio SDup s = (let (v, s1) = dup (u_hl (u s)) s in Ret () (set_hl v s1))"
| "docall1 sio SPipe s = r_pipe s"
| "docall1 sio SSignal s = (let (v, s1) = signal (arg s 0) (arg s 1) s in Ret () (set_hl v s1))"
| "docall1 sio Indir s = Ret () s"

definition getcall :: "nat \<Rightarrow> nat \<times> syscall" where
  "getcall c = syssw ! (if c \<ge> length syssw then BADCALL else c)"

text \<open>The in-line arguments: \<^verbatim>\<open>copyin(addr, arg, nbytes)\<close> with \<^verbatim>\<open>nbytes\<close> even.\<close>

definition get_args :: "u16 \<Rightarrow> nat \<Rightarrow> kst \<Rightarrow> kst" where
  "get_args addr nb s = s\<lparr>arg := (\<lambda>i. if 2 * i < nb then ugetw s (addr + 2 * of_nat i) else arg s i)\<rparr>"

definition docall_ind :: "swapio \<Rightarrow> u16 \<Rightarrow> kst \<Rightarrow> unit K" where
  "docall_ind sio addr s =
     (let sys = ugetc s addr; c = ugetc s (addr + 1) in
      if sys = 0xCF \<and> c = 0 then Ret () s
      else
        let (nb, call) = (if sys = 0xCF then getcall (unat c) else getcall BADCALL);
            a = (if sys = 0xCF then addr + 2 else addr + 1)
        in docall1 sio call (get_args a nb s))"

definition docall :: "swapio \<Rightarrow> u16 \<Rightarrow> kst \<Rightarrow> unit K" where
  "docall sio addr s =
     (let (nb, call) = getcall (unat (ugetc s addr));
          s1 = upd_u (\<lambda>x. x\<lparr>u_pc := u_pc x + of_nat nb + 1\<rparr>) (get_args (addr + 1) nb s)
      in if call = Indir then docall_ind sio (arg s1 0) s1 else docall1 sio call s1)"

definition system :: "swapio \<Rightarrow> kst \<Rightarrow> unit K" where
  "system sio s =
     (let p = u_p (u s);
          s1 = upd_proc p (\<lambda>q. q\<lparr>p_mode := p_mode q OR SYSM, p_pri := PRISYS\<rparr>) s;
          s2 = upd_u (\<lambda>x. x\<lparr>u_pc := ugetw s1 (u_sp x), u_sp := u_sp x + 2, u_segflg := USEG, u_error := 0\<rparr>) s1 in
      bnd (docall sio (u_pc (u s2)) s2) (\<lambda>_ s.
      Ret () (upd_proc (u_p (u s)) (\<lambda>q. q\<lparr>p_pri := PRIUSER, p_mode := p_mode q AND NOT SYSM\<rparr>) s)))"

definition r_system :: "swapio \<Rightarrow> kst \<Rightarrow> unit K" where
  "r_system sio s = bnd (system sio s) (\<lambda>_ s.
     Ret () (if u_error (u s) \<noteq> 0 then upd_u (\<lambda>x. x\<lparr>u_af := u_af x OR 1, u_hl := ucast (u_error x)\<rparr>) s
             else upd_u (\<lambda>x. x\<lparr>u_af := u_af x AND NOT 1\<rparr>) s))"

section \<open>Traps (trap.c)\<close>

abbreviation (input) MTRAP :: u8 where "MTRAP \<equiv> 0x40"
abbreviation (input) IOTRAP :: u8 where "IOTRAP \<equiv> 2"
abbreviation (input) HALTRAP :: u8 where "HALTRAP \<equiv> 4"

definition trap :: "swapio \<Rightarrow> u8 \<Rightarrow> kst \<Rightarrow> unit K" where
  "trap sio cause s =
     bnd (if \<not> tst cause HALTRAP then r_system sio s
          else if \<not> tst cause IOTRAP then send (u_p (u s)) SIGILL s
          else if alls cause MTRAP then fault s
          else Ret () s) (\<lambda>_ s.
     bnd (if resched s \<noteq> 0 then knext s else Ret () s) (\<lambda>_ s.
     if p_slist (cur s) 0 \<noteq> 0 then bnd (sig s) (\<lambda>_ s. Ret () s) else Ret () s))"

end
