(* ===== verification/Lock.thy ===== *)
theory Lock
  imports Files
begin

text \<open>
  Locking of file regions (\<^verbatim>\<open>sys/lock.c\<close>, \<^verbatim>\<open>lock.h\<close>): a table of ten locks, each an open file and a region of
  bytes. Regions of one inode do not overlap.
\<close>

section \<open>Operations\<close>

abbreviation (input) NLOCK :: nat where "NLOCK \<equiv> 10"

record lock =
  l_file :: "nat option"
  l_offset :: u32
  l_size :: u16

type_synonym llist = "nat \<Rightarrow> lock"

definition lockhit :: "lock \<Rightarrow> kst \<Rightarrow> bool" where
  "lockhit l s \<longleftrightarrow> u_offset (u s) + ucast (u_count (u s)) > l_offset l \<and> l_offset l + ucast (l_size l) > u_offset (u s)"

text \<open>The loop of \<^verbatim>\<open>reclock\<close>: None when a lock of the inode is hit, otherwise the last free entry, if any.\<close>

fun reclock_loop :: "nat list \<Rightarrow> nat option \<Rightarrow> llist \<Rightarrow> kst \<Rightarrow> nat option \<Rightarrow> nat option option" where
  "reclock_loop [] ip ll s new = Some new"
| "reclock_loop (i # iz) ip ll s new =
     (case l_file (ll i) of
        Some f \<Rightarrow> if f_inode (flist s f) = ip \<and> lockhit (ll i) s then None else reclock_loop iz ip ll s new
      | None \<Rightarrow> reclock_loop iz ip ll s (Some i))"

definition reclock :: "u16 \<Rightarrow> u16 \<Rightarrow> llist \<Rightarrow> kst \<Rightarrow> llist \<times> kst" where
  "reclock fd sz ll s =
     (case ofile fd s of
        (None, s1) \<Rightarrow> (ll, s1)
      | (Some fp, s1) \<Rightarrow>
          let s2 = upd_u (\<lambda>x. x\<lparr>u_count := sz, u_offset := f_rwptr (flist s1 fp)\<rparr>) s1 in
          (case reclock_loop [0..<NLOCK] (f_inode (flist s2 fp)) ll s2 None of
             None \<Rightarrow> (ll, set_error EBUSY s2)
           | Some None \<Rightarrow> (ll, set_error ENFILE s2)
           | Some (Some i) \<Rightarrow> (ll(i := \<lparr>l_file = Some fp, l_offset = u_offset (u s2), l_size = u_count (u s2)\<rparr>), s2)))"

definition unlock :: "u16 \<Rightarrow> llist \<Rightarrow> kst \<Rightarrow> llist \<times> kst" where
  "unlock fd ll s =
     (case ofile fd s of
        (None, s1) \<Rightarrow> (ll, s1)
      | (Some fp, s1) \<Rightarrow>
          let s2 = upd_u (\<lambda>x. x\<lparr>u_count := 1, u_offset := f_rwptr (flist s1 fp)\<rparr>) s1 in
          (\<lambda>i. if i < NLOCK \<and> l_file (ll i) = Some fp \<and> lockhit (ll i) s2 then (ll i)\<lparr>l_file := None\<rparr> else ll i, s2))"

definition lclose :: "nat \<Rightarrow> llist \<Rightarrow> llist" where
  "lclose fp ll = (\<lambda>i. if i < NLOCK \<and> l_file (ll i) = Some fp then (ll i)\<lparr>l_file := None\<rparr> else ll i)"

section \<open>Locked regions\<close>

text \<open>The bytes a lock covers, and the inode they belong to.\<close>

definition region :: "lock \<Rightarrow> nat set" where
  "region l = {unat (l_offset l)..<unat (l_offset l) + unat (l_size l)}"

definition lock_inode :: "kst \<Rightarrow> lock \<Rightarrow> nat option" where
  "lock_inode s l = (case l_file l of None \<Rightarrow> None | Some f \<Rightarrow> f_inode (flist s f))"

definition locks_ok :: "llist \<Rightarrow> kst \<Rightarrow> bool" where
  "locks_ok ll s \<longleftrightarrow>
     (\<forall>i<NLOCK. l_file (ll i) \<noteq> None \<longrightarrow> unat (l_offset (ll i)) + unat (l_size (ll i)) < 2 ^ 32) \<and>
     (\<forall>i<NLOCK. \<forall>j<NLOCK. i \<noteq> j \<and> l_file (ll i) \<noteq> None \<and> l_file (ll j) \<noteq> None \<and> lock_inode s (ll i) = lock_inode s (ll j) \<longrightarrow>
        region (ll i) \<inter> region (ll j) = {})"

lemma region_end:
  assumes "unat (a :: u32) + unat (b :: u16) < 2 ^ 32"
  shows "unat (a + ucast b) = unat a + unat b"
proof -
  have "unat b < 2 ^ 32" using unsigned_less [where 'a = nat and w = b] by simp
  then have "unat (ucast b :: u32) = unat b" by (simp add: unsigned_ucast_eq take_bit_nat_eq_self)
  with assms show ?thesis by (simp add: unat_add_lem [THEN iffD1])
qed

lemma lockhit_iff:
  assumes "unat (u_offset (u s)) + unat (u_count (u s)) < 2 ^ 32" "unat (l_offset l) + unat (l_size l) < 2 ^ 32"
  shows "lockhit l s \<longleftrightarrow> unat (l_offset l) < unat (u_offset (u s)) + unat (u_count (u s)) \<and>
    unat (u_offset (u s)) < unat (l_offset l) + unat (l_size l)"
  using assms by (simp add: lockhit_def word_less_nat_alt region_end)

lemma lockhit_disjoint:
  assumes "unat (u_offset (u s)) + unat (u_count (u s)) < 2 ^ 32" "unat (l_offset l) + unat (l_size l) < 2 ^ 32" "\<not> lockhit l s"
  shows "{unat (u_offset (u s))..<unat (u_offset (u s)) + unat (u_count (u s))} \<inter> region l = {}"
  using assms(3) unfolding lockhit_iff [OF assms(1,2)] by (auto simp: region_def)

lemma reclock_loop_Some:
  "reclock_loop iz ip ll s new = Some r \<Longrightarrow>
     (\<forall>i\<in>set iz. \<forall>f. l_file (ll i) = Some f \<longrightarrow> \<not> (f_inode (flist s f) = ip \<and> lockhit (ll i) s)) \<and>
     (r = new \<or> (\<exists>i\<in>set iz. r = Some i \<and> l_file (ll i) = None)) \<and> (r = None \<longrightarrow> new = None \<and> (\<forall>i\<in>set iz. l_file (ll i) \<noteq> None))"
  by (induction iz ip ll s new rule: reclock_loop.induct) (auto split: option.splits if_splits)

lemma reclock_loop_None:
  "reclock_loop iz ip ll s new = None \<longleftrightarrow>
     (\<exists>i\<in>set iz. \<exists>f. l_file (ll i) = Some f \<and> f_inode (flist s f) = ip \<and> lockhit (ll i) s)"
  by (induction iz ip ll s new rule: reclock_loop.induct) (auto split: option.splits if_splits)

lemma ofile_flist: "ofile fd s = (r, s1) \<Longrightarrow> flist s1 = flist s \<and> (r \<noteq> None \<longrightarrow> s1 = s)"
  by (auto simp: ofile_def set_error_def split: if_splits)

lemma locks_ok_flist: "flist s' = flist s \<Longrightarrow> locks_ok ll s' = locks_ok ll s"
proof -
  assume "flist s' = flist s"
  then have "lock_inode s' = lock_inode s" by (simp add: lock_inode_def fun_eq_iff split: option.split)
  then show ?thesis by (simp add: locks_ok_def)
qed

text \<open>A new lock of an inode whose other locks it does not hit.\<close>

lemma locks_ok_new:
  assumes ok: "locks_ok ll s" and nw: "unat off + unat sz < 2 ^ 32"
    and free: "\<forall>j<NLOCK. l_file (ll j) \<noteq> None \<and> lock_inode s (ll j) = f_inode (flist s fp) \<longrightarrow> {unat off..<unat off + unat sz} \<inter> region (ll j) = {}"
  shows "locks_ok (ll(i := \<lparr>l_file = Some fp, l_offset = off, l_size = sz\<rparr>)) s"
proof -
  let ?l = "\<lparr>l_file = Some fp, l_offset = off, l_size = sz\<rparr>"
  have new: "region ?l = {unat off..<unat off + unat sz}" "lock_inode s ?l = f_inode (flist s fp)" "l_file ?l \<noteq> None"
    by (simp_all add: region_def lock_inode_def)
  have "region ?l \<inter> region (ll j) = {}" if "j < NLOCK" "l_file (ll j) \<noteq> None" "lock_inode s (ll j) = lock_inode s ?l" for j
    using free that new by auto
  then show ?thesis using ok nw unfolding locks_ok_def by (auto simp: Int_commute)
qed

lemma locks_ok_less:
  assumes "locks_ok ll s" "\<And>i. i < NLOCK \<Longrightarrow> l_file (ll' i) \<noteq> None \<Longrightarrow> ll' i = ll i"
  shows "locks_ok ll' s"
  using assms unfolding locks_ok_def by (metis (no_types, lifting))

text \<open>The outcomes of \<^verbatim>\<open>reclock\<close> on an open file.\<close>

definition lock_req :: "nat \<Rightarrow> u16 \<Rightarrow> kst \<Rightarrow> kst" where
  "lock_req fp sz s = upd_u (\<lambda>x. x\<lparr>u_count := sz, u_offset := f_rwptr (flist s fp)\<rparr>) s"

lemma lock_req_simps [simp]:
  "flist (lock_req fp sz s) = flist s" "u_offset (u (lock_req fp sz s)) = f_rwptr (flist s fp)" "u_count (u (lock_req fp sz s)) = sz"
  by (simp_all add: lock_req_def upd_u_def)

definition lock_taken :: "nat \<Rightarrow> u16 \<Rightarrow> llist \<Rightarrow> kst \<Rightarrow> bool" where
  "lock_taken fp sz ll s \<longleftrightarrow> (\<exists>i<NLOCK. l_file (ll i) \<noteq> None \<and> lock_inode s (ll i) = f_inode (flist s fp) \<and>
     unat (l_offset (ll i)) < unat (f_rwptr (flist s fp)) + unat sz \<and>
     unat (f_rwptr (flist s fp)) < unat (l_offset (ll i)) + unat (l_size (ll i)))"

lemma reclock_loop_taken:
  assumes "locks_ok ll s" "unat (f_rwptr (flist s fp)) + unat sz < 2 ^ 32"
  shows "reclock_loop [0..<NLOCK] (f_inode (flist s fp)) ll (lock_req fp sz s) None = None \<longleftrightarrow> lock_taken fp sz ll s"
proof -
  have "lockhit (ll i) (lock_req fp sz s) \<longleftrightarrow> unat (l_offset (ll i)) < unat (f_rwptr (flist s fp)) + unat sz \<and>
     unat (f_rwptr (flist s fp)) < unat (l_offset (ll i)) + unat (l_size (ll i))" if "i < NLOCK" "l_file (ll i) \<noteq> None" for i
    using assms that lockhit_iff [of "lock_req fp sz s" "ll i"] by (simp add: locks_ok_def)
  then show ?thesis
    unfolding reclock_loop_None lock_taken_def by (fastforce simp: lock_inode_def)
qed

lemma reclock_open:
  assumes "ofile fd s = (Some fp, s)"
  shows "reclock fd sz ll s = (case reclock_loop [0..<NLOCK] (f_inode (flist s fp)) ll (lock_req fp sz s) None of
             None \<Rightarrow> (ll, set_error EBUSY (lock_req fp sz s))
           | Some None \<Rightarrow> (ll, set_error ENFILE (lock_req fp sz s))
           | Some (Some i) \<Rightarrow> (ll(i := \<lparr>l_file = Some fp, l_offset = f_rwptr (flist s fp), l_size = sz\<rparr>), lock_req fp sz s))"
  using assms lock_req_simps [of fp sz s] by (simp add: reclock_def lock_req_def [symmetric] Let_def del: lock_req_simps split: option.split)

lemma not_taken_disjoint:
  assumes "\<not> lock_taken fp sz ll s" "j < NLOCK" "l_file (ll j) \<noteq> None" "lock_inode s (ll j) = f_inode (flist s fp)"
  shows "{unat (f_rwptr (flist s fp))..<unat (f_rwptr (flist s fp)) + unat sz} \<inter> region (ll j) = {}"
proof -
  from assms have "unat (l_offset (ll j)) \<ge> unat (f_rwptr (flist s fp)) + unat sz \<or>
     unat (f_rwptr (flist s fp)) \<ge> unat (l_offset (ll j)) + unat (l_size (ll j))"
    unfolding lock_taken_def by force
  then show ?thesis by (auto simp: region_def)
qed

lemma locks_ok_grant:
  assumes "locks_ok ll s" "unat (f_rwptr (flist s fp)) + unat sz < 2 ^ 32" "\<not> lock_taken fp sz ll s"
  shows "locks_ok (ll(i := \<lparr>l_file = Some fp, l_offset = f_rwptr (flist s fp), l_size = sz\<rparr>)) s"
  using assms not_taken_disjoint by (intro locks_ok_new) auto

lemma lock_req_ok: "locks_ok ll (lock_req fp sz s) = locks_ok ll s" "locks_ok ll (set_error e (lock_req fp sz s)) = locks_ok ll s"
  by (rule locks_ok_flist, simp add: set_error_def)+

section \<open>Properties\<close>

text \<open>
  C6. Locked regions of one inode never overlap, and this is kept by \<^verbatim>\<open>reclock\<close> (also when it fails), by \<^verbatim>\<open>unlock\<close> and by
  \<^verbatim>\<open>lclose\<close>. The region asked for has to end below 2^32, as file offsets do.
\<close>

theorem locks_never_overlap:
  assumes "locks_ok ll s" "\<And>fp. u_olist (u s) (unat fd) = Some fp \<Longrightarrow> unat (f_rwptr (flist s fp)) + unat sz < 2 ^ 32"
  shows "locks_ok (fst (reclock fd sz ll s)) (snd (reclock fd sz ll s)) \<and>
    locks_ok (fst (unlock fd ll s)) (snd (unlock fd ll s)) \<and> locks_ok (lclose fp ll) s"
proof (intro conjI)
  show "locks_ok (lclose fp ll) s"
    by (rule locks_ok_less [OF assms(1)]) (auto simp: lclose_def split: if_splits)
  obtain r s1 where o: "ofile fd s = (r, s1)" by (cases "ofile fd s")
  note fl = ofile_flist [OF o]
  show "locks_ok (fst (reclock fd sz ll s)) (snd (reclock fd sz ll s))"
  proof (cases r)
    case None
    with o fl assms(1) show ?thesis by (simp add: reclock_def locks_ok_flist [of s1 s])
  next
    case (Some fp)
    with fl o have o': "ofile fd s = (Some fp, s)" by simp
    then have nw: "unat (f_rwptr (flist s fp)) + unat sz < 2 ^ 32"
      using assms(2) by (simp add: ofile_def split: if_splits)
    show ?thesis
    proof (cases "lock_taken fp sz ll s")
      case True
      with reclock_loop_taken [OF assms(1) nw] assms(1) show ?thesis by (simp add: reclock_open [OF o'] lock_req_ok)
    next
      case False
      with reclock_loop_taken [OF assms(1) nw] locks_ok_grant [OF assms(1) nw False] assms(1) show ?thesis
        by (auto simp: reclock_open [OF o'] lock_req_ok split: option.splits)
    qed
  qed
  show "locks_ok (fst (unlock fd ll s)) (snd (unlock fd ll s))"
  proof (cases r)
    case None
    with o fl assms(1) show ?thesis by (simp add: unlock_def locks_ok_flist [of s1 s])
  next
    case (Some fp)
    with fl o have o': "ofile fd s = (Some fp, s)" by simp
    have "locks_ok (fst (unlock fd ll s)) s"
      by (rule locks_ok_less [OF assms(1)]) (auto simp: unlock_def o' Let_def split: if_splits)
    moreover have "flist (snd (unlock fd ll s)) = flist s" by (simp add: unlock_def o' Let_def upd_u_def)
    ultimately show ?thesis using locks_ok_flist by blast
  qed
qed

text \<open>Two open files of inode 7, the second at byte 100; the first holds the bytes 0 to 99.\<close>

definition lock_kernel :: kst where
  "lock_kernel = kst0\<lparr>u := user0\<lparr>u_olist := (\<lambda>_. None)(0 := Some 0, 1 := Some 1)\<rparr>,
     flist := (\<lambda>_. file0)(0 := file0\<lparr>f_inode := Some 7\<rparr>, 1 := file0\<lparr>f_inode := Some 7, f_rwptr := 100\<rparr>)\<rparr>"

definition lock_table :: llist where
  "lock_table = (\<lambda>_. \<lparr>l_file = None, l_offset = 0, l_size = 0\<rparr>)(3 := \<lparr>l_file = Some 0, l_offset = 0, l_size = 100\<rparr>)"

lemma lock_table_ok: "locks_ok lock_table lock_kernel"
  by (auto simp: locks_ok_def lock_table_def)

lemma lock_kernel_simps [simp]:
  "u_olist (u lock_kernel) = (\<lambda>_. None)(0 := Some 0, 1 := Some 1)" "f_rwptr (flist lock_kernel (Suc 0)) = 100"
  "f_inode (flist lock_kernel (Suc 0)) = Some 7" "f_inode (flist lock_kernel 0) = Some 7" "f_rwptr (flist lock_kernel 0) = 0"
  by (simp_all add: lock_kernel_def zero_defs)

theorem locks_never_overlap_witness:
  "locks_ok (fst (reclock 1 50 lock_table lock_kernel)) (snd (reclock 1 50 lock_table lock_kernel)) \<and>
   locks_ok (fst (unlock 1 lock_table lock_kernel)) (snd (unlock 1 lock_table lock_kernel)) \<and> locks_ok (lclose 0 lock_table) lock_kernel"
  by (rule locks_never_overlap [OF lock_table_ok]) simp

text \<open>
  C27. \<^verbatim>\<open>reclock\<close> on an open file refuses with \<^verbatim>\<open>EBUSY\<close> exactly a region that meets a locked region of the same inode,
  with \<^verbatim>\<open>ENFILE\<close> when all ten entries are in use, and leaves the table alone then; otherwise it adds that region, for that
  file, in an entry that was free, and changes no other lock.
\<close>

theorem reclock_decides:
  assumes "locks_ok ll s" "ofile fd s = (Some fp, s)" "unat (f_rwptr (flist s fp)) + unat sz < 2 ^ 32"
  shows "if lock_taken fp sz ll s then fst (reclock fd sz ll s) = ll \<and> u_error (u (snd (reclock fd sz ll s))) = EBUSY
    else if \<forall>i<NLOCK. l_file (ll i) \<noteq> None then fst (reclock fd sz ll s) = ll \<and> u_error (u (snd (reclock fd sz ll s))) = ENFILE
    else \<exists>i<NLOCK. l_file (ll i) = None \<and> u_error (u (snd (reclock fd sz ll s))) = u_error (u s) \<and>
      fst (reclock fd sz ll s) = ll(i := \<lparr>l_file = Some fp, l_offset = f_rwptr (flist s fp), l_size = sz\<rparr>)"
proof (cases "reclock_loop [0..<NLOCK] (f_inode (flist s fp)) ll (lock_req fp sz s) None")
  case None
  then show ?thesis
    using reclock_loop_taken [OF assms(1,3)] by (simp add: reclock_open [OF assms(2)] set_error_def)
next
  case (Some r)
  then have "\<not> lock_taken fp sz ll s" using reclock_loop_taken [OF assms(1,3)] by auto
  with reclock_loop_Some [OF Some] Some show ?thesis
    by (cases r) (auto simp: reclock_open [OF assms(2)] set_error_def lock_req_def upd_u_def)
qed

theorem reclock_decides_witness:
  "\<exists>i<NLOCK. l_file (lock_table i) = None \<and> u_error (u (snd (reclock 1 50 lock_table lock_kernel))) = u_error (u lock_kernel) \<and>
     fst (reclock 1 50 lock_table lock_kernel) = lock_table(i := \<lparr>l_file = Some 1, l_offset = 100, l_size = 50\<rparr>)"
proof -
  have o: "ofile 1 lock_kernel = (Some 1, lock_kernel)" by (simp add: ofile_def)
  have "l_file (lock_table 0) = None" by (simp add: lock_table_def)
  then have full: "\<not> (\<forall>i<NLOCK. l_file (lock_table i) \<noteq> None)" by (metis zero_less_numeral)
  have taken: "\<not> lock_taken 1 50 lock_table lock_kernel"
    by (auto simp: lock_taken_def lock_table_def split: if_splits)
  have "unat (f_rwptr (flist lock_kernel 1)) + unat (50 :: u16) < 2 ^ 32" by simp
  from reclock_decides [OF lock_table_ok o this] show ?thesis
    unfolding if_not_P [OF taken] if_not_P [OF full] by simp
qed

end
