(* ===== verification/Storage.thy ===== *)
theory Storage
  imports Balloc
begin

text \<open>
  What the storage layer guarantees as a whole: reading and delayed writing through the buffer cache
  (\<^verbatim>\<open>uio.c\<close>), and allocation of disk blocks on top of it (\<^verbatim>\<open>balloc.c\<close>). The last section has a small file system on a memory disk.
\<close>

section \<open>A small file system\<close>

text \<open>
  A kernel with three buffers and, on device 0x0208, a file system of ten blocks: two hold inodes, the blocks 6 and 5 are free, in that order.
\<close>

definition sample_super :: bytes where
  "sample_super = putw (putw (putw (putw (putw (\<lambda>_. 0) 0 2) 2 10) 4 3) 8 5) 10 6"

definition sample_kernel :: kst where
  "sample_kernel = kst0\<lparr>nbuf := 3, plist := (\<lambda>_. proc0\<lparr>p_mode := ALLOC OR ALIVE OR LOADED OR LOCKED\<rparr>),
     disk := (\<lambda>_ _ _. 0)(0x0208 := (\<lambda>_ _. 0)(1 := sample_super)), rootdev := 0x0208\<rparr>"

lemma sample_sel [simp]:
  "nbuf sample_kernel = 3" "blist sample_kernel = (\<lambda>_. buf0)" "drv sample_kernel = (\<lambda>_. ramdrv)" "rootdev sample_kernel = 0x0208"
  "disk sample_kernel = (\<lambda>_ _ _. 0)(0x0208 := (\<lambda>_ _. 0)(1 := sample_super))"
  "plist sample_kernel = (\<lambda>_. proc0\<lparr>p_mode := ALLOC OR ALIVE OR LOADED OR LOCKED\<rparr>)"
  by (simp_all add: sample_kernel_def kst0_def)

lemma sample_dev [simp]: "vdev 0x0208" "\<not> vdev 0"
  by (simp_all add: vdev_def bmajor_def major_def drop_bit_eq_div)

lemma sample_flags [simp]: "\<not> bdone buf0" "\<not> bdel buf0" "\<not> bbusy buf0" "\<not> blocked buf0" "\<not> berr buf0" "b_dev buf0 = 0"
  by (simp_all add: bflag_defs buf0_def)

lemma sample_cok: "cok {} sample_kernel"
  by (auto simp: cok_def swapok_def drv_ok_def ramdrv_def cinv_def holds_def tst_def)

lemma sample_held [simp]: "held sample_kernel = {}" "avail sample_kernel = {0..<3}" "unheld d k sample_kernel"
  by (auto simp: held_def avail_def unheld_def)

lemma sample_view [simp]: "view sample_kernel d k = disk sample_kernel d k"
  by (rule view_miss) simp

lemma sample_words [simp]:
  "getw sample_super 0 = 2" "getw sample_super 2 = 10" "getw sample_super 4 = 3" "fentry sample_super 4 0 = 0"
  "fentry sample_super 4 (Suc 0) = 5" "fentry sample_super 4 (Suc (Suc 0)) = 6" "sample_super 408 = 0"
proof -
  have z: "getw (\<lambda>_. 0) i = 0" for i by (simp add: getw_def word_cat_eq)
  show "getw sample_super 0 = 2" "getw sample_super 2 = 10" "getw sample_super 4 = 3" "fentry sample_super 4 0 = 0"
    "fentry sample_super 4 (Suc 0) = 5" "fentry sample_super 4 (Suc (Suc 0)) = 6" "sample_super 408 = 0"
    by (simp_all add: sample_super_def fentry_def byte_simps z)
qed

lemma sample_free: "fsok 0x0208 [6, 5] sample_kernel"
proof -
  have e: "entries sample_super 4 (Suc 2) = [6, 5]" by (simp add: entries_def upt_rec)
  have "freel V sample_super 4 ([6, 5] @ [])" for V
    unfolding e [symmetric] by (rule ftab) (auto intro: fend)
  then show ?thesis by (simp add: fsok_def inarea_def)
qed

lemma sample_pool: "pool_at 0x0208 [6, 5] sample_kernel"
  using sample_free sample_cok by (simp add: pool_at_def)

section \<open>Properties\<close>

text \<open>
  C4. The buffer cache implements an abstract disk: \<^verbatim>\<open>bread\<close> returns, without error and without waiting, a buffer with the
  abstract content of the block, whatever was cached, delayed or evicted before, and leaves the abstract disk as it was. The buffer
  is one nobody held. (Nobody holds the block, one buffer is free, the drives work.)
\<close>

theorem bread_reads_disk:
  assumes "cok M s" "M \<subseteq> held s" "vdev d" "unheld d k s" "avail s \<noteq> {}"
  shows "\<exists>b s'. bread k d s = Ret (Some b) s' \<and> b_data (blist s' b) = view s d k \<and> view s' = view s \<and>
    b \<notin> held s \<and> held s' = insert b (held s) \<and> holds (blist s' b) d k \<and> cok M s' \<and> u_error (u s') = 0"
  using bread_spec [OF assms(1-3), of k] assms(4,5) by (auto simp: unheld_def taken_def)

theorem bread_reads_disk_witness:
  "\<exists>b s'. bread 1 0x0208 sample_kernel = Ret (Some b) s' \<and> b_data (blist s' b) = view sample_kernel 0x0208 1 \<and>
    view s' = view sample_kernel \<and> b \<notin> held sample_kernel \<and> held s' = insert b (held sample_kernel) \<and>
    holds (blist s' b) 0x0208 1 \<and> cok {} s' \<and> u_error (u s') = 0"
  by (rule bread_reads_disk [OF sample_cok]) simp_all

text \<open>
  C2. What is written is what is read: take a block, replace its data and give it back as a delayed write; then \<^verbatim>\<open>bread\<close> of the
  same block returns the new data, every other block of every device reads as before, and the cache is consistent.
\<close>

theorem write_read_roundtrip:
  assumes "cok {} s" "held s = {}" "vdev d" "avail s \<noteq> {}"
  shows "\<exists>b s' b' s''. bread k d s = Ret (Some b) s' \<and>
    bnd (bdwrite b (set_bdat b y s')) (\<lambda>_ s. bread k d s) = Ret (Some b') s'' \<and> b_data (blist s'' b') = y \<and>
    (\<forall>d' k'. (d', k') \<noteq> (d, k) \<longrightarrow> view s'' d' k' = view s d' k') \<and> cok {} s''"
proof -
  obtain b s1 where r: "bread k d s = Ret (Some b) s1" "holding {} {b} s s1" "view s1 = view s" "holds (blist s1 b) d k" "bdone (blist s1 b)"
    by (rule hold_bread [OF holding_refl [OF assms(1)] assms(3) _ assms(4)]) (use assms(2) in auto)
  note hs = hold_set [OF r(2), of b]
  have h2: "holding {b} {b} s (set_bdat b y s1)" "holds (blist (set_bdat b y s1) b) d k" using hs(1) r(4) by simp_all
  obtain s2 where w: "bdwrite b (set_bdat b y s1) = Ret () s2" "holding ({b} - {b}) ({b} - {b}) s s2"
    "view s2 = (view (set_bdat b y s1))(d := (view (set_bdat b y s1) d)(k := bdat b (set_bdat b y s1)))"
    by (rule hold_bdwrite [OF h2(1) _ h2(2) assms(3)]) auto
  have v2: "view s2 = (view s)(d := (view s d)(k := y))"
    using hs(4) [OF _ r(4), of y y] by (simp add: w(3) r(3))
  have h3: "cok {} s2" "held s2 = {}" "avail s2 = avail s" using holdingD [OF w(2)] assms(2) by simp_all
  obtain b' s3 where r3: "bread k d s2 = Ret (Some b') s3" "b_data (blist s3 b') = view s2 d k" "view s3 = view s2" "cok {} s3"
    using bread_reads_disk [OF h3(1) _ assms(3), of k] h3 assms(4) by (auto simp: unheld_def)
  show ?thesis using r(1) w(1) r3 v2 by (intro exI [of _ b] exI [of _ s1] exI [of _ b'] exI [of _ s3]) auto
qed

theorem write_read_roundtrip_witness:
  "\<exists>b s' b' s''. bread 7 0x0208 sample_kernel = Ret (Some b) s' \<and>
    bnd (bdwrite b (set_bdat b (\<lambda>_. 42) s')) (\<lambda>_ s. bread 7 0x0208 s) = Ret (Some b') s'' \<and> b_data (blist s'' b') = (\<lambda>_. 42) \<and>
    (\<forall>d' k'. (d', k') \<noteq> (0x0208, 7) \<longrightarrow> view s'' d' k' = view sample_kernel d' k') \<and> cok {} s''"
  by (rule write_read_roundtrip [OF sample_cok]) simp_all

text \<open>
  \<^verbatim>\<open>balloc\<close> hands out a fresh block: the first of the free list, in the data area, zeroed, and no other block but the super
  block changes. The rest of the list stays free.
\<close>

theorem balloc_fresh:
  assumes "pool_at dev (b # bs) s"
  shows "\<exists>s'. balloc dev s = Ret b s' \<and> pool_at dev bs s' \<and> b \<notin> set bs \<and> inarea (view s dev 1) b \<and> (\<forall>i<512. view s' dev b i = 0) \<and>
    (\<forall>d k. (d, k) \<noteq> (dev, 1) \<longrightarrow> (d, k) \<noteq> (dev, b) \<longrightarrow> view s' d k = view s d k)"
proof -
  have q: "cok {} s" "{} \<subseteq> held s" "fsok dev (b # bs) s" "unheld dev 1 s" "unheld dev b s" "2 \<le> card (avail s)"
    using assms by (auto simp: pool_at_def unheld_def)
  obtain s' where r: "balloc dev s = Ret b s'" "holding {} {} s s'" "fsok dev bs s'" "\<And>i. i < 512 \<Longrightarrow> view s' dev b i = 0"
    "sbsame (view s dev 1) (view s' dev 1)" "\<And>d k. (d, k) \<noteq> (dev, 1) \<Longrightarrow> (d, k) \<noteq> (dev, b) \<Longrightarrow> view s' d k = view s d k"
    by (rule balloc_pop [OF q]) blast
  have "pool_at dev bs s'" by (rule pool_at_done [OF assms r(2,3)])
  moreover have "b \<notin> set bs" "inarea (view s dev 1) b" using q(3) by (auto simp: fsok_def)
  ultimately show ?thesis using r by blast
qed

theorem balloc_fresh_witness:
  "\<exists>s'. balloc 0x0208 sample_kernel = Ret 6 s' \<and> pool_at 0x0208 [5] s' \<and> 6 \<notin> set [5 :: u16] \<and> inarea (view sample_kernel 0x0208 1) 6 \<and>
    (\<forall>i<512. view s' 0x0208 6 i = 0) \<and>
    (\<forall>d k. (d, k) \<noteq> (0x0208, 1) \<longrightarrow> (d, k) \<noteq> (0x0208, 6) \<longrightarrow> view s' d k = view sample_kernel d k)"
  by (rule balloc_fresh [OF sample_pool])

text \<open>
  C12. Calling \<^verbatim>\<open>balloc\<close> again and again hands out every free block exactly once, and then 0.
\<close>

theorem balloc_each_once:
  assumes "pool_at dev bs s"
  shows "\<exists>s'. repeat (balloc dev) (Suc (length bs)) s = Ret (bs @ [0]) s' \<and> distinct bs \<and> 0 \<notin> set bs \<and> pool_at dev [] s'"
  using bp.alloc_exhausted [OF assms] bp.pool_distinct [OF assms] bp.none_free [OF assms] by blast

theorem balloc_each_once_witness:
  "\<exists>s'. repeat (balloc 0x0208) (Suc (length [6, 5 :: u16])) sample_kernel = Ret ([6, 5] @ [0]) s' \<and> distinct [6, 5 :: u16] \<and>
    0 \<notin> set [6, 5 :: u16] \<and> pool_at 0x0208 [] s'"
  by (rule balloc_each_once [OF sample_pool])

text \<open>
  C13. \<^verbatim>\<open>bfree\<close> and \<^verbatim>\<open>balloc\<close> are inverse to each other: a block just freed is the next one handed out and the list is as before,
  and a block just allocated and freed again is back at its place. This also holds when the table in the super block is full
  or empty and spills to or is refilled from a block of the list.
\<close>

theorem bfree_balloc_inverse:
  assumes "pool_at dev bs s"
  shows "(\<forall>b. inarea (view s dev 1) b \<longrightarrow> b \<notin> set bs \<longrightarrow> (\<exists>s'. bnd (bfree b dev s) (\<lambda>_ s. balloc dev s) = Ret b s' \<and> pool_at dev bs s')) \<and>
    (bs \<noteq> [] \<longrightarrow> (\<exists>s'. bnd (balloc dev s) (\<lambda>b s. bfree b dev s) = Ret () s' \<and> pool_at dev bs s'))"
  using bp.free_alloc [OF assms] bp.alloc_free [of dev "hd bs" "tl bs" s] assms by (cases bs) auto

theorem bfree_balloc_inverse_witness:
  "(\<exists>s'. bnd (bfree 8 0x0208 sample_kernel) (\<lambda>_ s. balloc 0x0208 s) = Ret 8 s' \<and> pool_at 0x0208 [6, 5] s') \<and>
   (\<exists>s'. bnd (balloc 0x0208 sample_kernel) (\<lambda>b s. bfree b 0x0208 s) = Ret () s' \<and> pool_at 0x0208 [6, 5] s')"
proof -
  have "inarea (view sample_kernel 0x0208 1) 8" by (simp add: inarea_def)
  with bfree_balloc_inverse [OF sample_pool] show ?thesis by simp
qed

text \<open>
  C22. With no free block left \<^verbatim>\<open>balloc\<close> answers 0 with \<^verbatim>\<open>ENOSPC\<close>, holds no buffer and changes no block but the super block.
\<close>

theorem balloc_no_space:
  assumes "pool_at dev [] s"
  shows "\<exists>s'. balloc dev s = Ret 0 s' \<and> u_error (u s') = ENOSPC \<and> pool_at dev [] s' \<and> (\<forall>d k. (d, k) \<noteq> (dev, 1) \<longrightarrow> view s' d k = view s d k)"
proof -
  have q: "cok {} s" "{} \<subseteq> held s" "fsok dev [] s" "unheld dev 1 s" "avail s \<noteq> {}"
    using assms by (auto simp: pool_at_def unheld_def)
  obtain s' where r: "balloc dev s = Ret 0 s'" "holding {} {} s s'" "u_error (u s') = ENOSPC" "fsok dev [] s'"
    "\<And>d k. (d, k) \<noteq> (dev, 1) \<Longrightarrow> view s' d k = view s d k"
    by (rule balloc_empty [OF q]) blast
  then show ?thesis using pool_at_done [OF assms r(2,4)] by blast
qed

definition full_kernel :: kst where
  "full_kernel = sample_kernel\<lparr>disk := (\<lambda>_ _ _. 0)(0x0208 := (\<lambda>_ _. 0)(1 := putw sample_super 4 0))\<rparr>"

lemma full_pool: "pool_at 0x0208 [] full_kernel"
proof -
  have v: "view full_kernel d k = disk full_kernel d k" for d k by (rule view_miss) (simp add: full_kernel_def)
  have c: "cok {} full_kernel" "held full_kernel = {}" "avail full_kernel = avail sample_kernel"
    using sample_cok by (simp_all add: full_kernel_def cok_def swapok_def drv_ok_def cinv_def held_def avail_def)
  have "freel V (putw sample_super 4 0) 4 []" for V by (rule fnil) simp
  then have "fsok 0x0208 [] full_kernel" unfolding fsok_def v by (simp add: full_kernel_def byte_simps)
  with c show ?thesis by (simp add: pool_at_def)
qed

theorem balloc_no_space_witness:
  "\<exists>s'. balloc 0x0208 full_kernel = Ret 0 s' \<and> u_error (u s') = ENOSPC \<and> pool_at 0x0208 [] s' \<and>
    (\<forall>d k. (d, k) \<noteq> (0x0208, 1) \<longrightarrow> view s' d k = view full_kernel d k)"
  by (rule balloc_no_space [OF full_pool])

text \<open>
  C23. On a read-only file system \<^verbatim>\<open>balloc\<close> answers 0 with \<^verbatim>\<open>EROFS\<close> but does not release the super block, and so the next
  call of \<^verbatim>\<open>balloc\<close> on that device goes to sleep waiting for it.
\<close>

theorem balloc_readonly_keeps_super:
  assumes "cok {} s" "held s = {}" "vdev dev" "avail s \<noteq> {}" "view s dev 1 S_FLOCK \<noteq> 0" "memwant s = 0"
  shows "\<exists>s' sb t. balloc dev s = Ret 0 s' \<and> u_error (u s') = EROFS \<and> held s' = {sb} \<and> holds (blist s' sb) dev 1 \<and>
    balloc dev s' = Slept (ChBuf sb) PRIBIO t"
proof -
  obtain sb s1 where g: "getsb dev s = Ret sb s1" "holding {} {sb} s s1" "view s1 = view s" "holds (blist s1 sb) dev 1" "bdat sb s1 = view s dev 1"
    by (rule getsb_spec [OF assms(1) _ assms(3) _ assms(4)]) (use assms(2) in \<open>auto simp: unheld_def\<close>)
  let ?s' = "set_error EROFS s1"
  have r: "balloc dev s = Ret 0 ?s'" using g(1,5) assms(5) by (simp add: balloc_def)
  note h = hold_error [OF g(2), where e = EROFS]
  have c: "cok {} ?s'" and he: "held ?s' = {sb}" and mw: "memwant ?s' = 0"
    using holdingD [OF h(1)] assms(2,6) bframe_same(8) [OF holdingD(1) [OF h(1)]] by simp_all
  have sb: "sb < nbuf ?s'" "bbusy (blist ?s' sb)" using he by (auto simp: held_def)
  have hd: "holds (blist ?s' sb) dev 1" using g(4) h(3) by simp
  have "bscan (blist ?s') 1 dev [0..<nbuf ?s'] None = Inl sb"
  proof (cases "bscan (blist ?s') 1 dev [0..<nbuf ?s'] None")
    case (Inl b)
    with bscan_Inl [OF Inl] cinvD(1) [of "{}" ?s' b sb dev 1] sb(1) hd assms(3) c show ?thesis by (auto simp: cok_def)
  next
    case (Inr r)
    with bscan_Inr [OF Inr] hd sb(1) show ?thesis by auto
  qed
  then have "\<exists>t. bget 1 dev ?s' = Slept (ChBuf sb) PRIBIO t"
    using sb(2) mw by (simp add: bget_def block_def bbusy_def sleep_def upd_buf_def upd_proc_def Let_def)
  then obtain t where "balloc dev ?s' = Slept (ChBuf sb) PRIBIO t" by (auto simp: balloc_def getsb_def bread_def)
  with r he hd show ?thesis by (auto simp: set_error_def)
qed

definition readonly_kernel :: kst where
  "readonly_kernel = sample_kernel\<lparr>disk := (\<lambda>_ _ _. 0)(0x0208 := (\<lambda>_ _. 0)(1 := sample_super(408 := 1)))\<rparr>"

theorem balloc_readonly_keeps_super_witness:
  "\<exists>s' sb t. balloc 0x0208 readonly_kernel = Ret 0 s' \<and> u_error (u s') = EROFS \<and> held s' = {sb} \<and> holds (blist s' sb) 0x0208 1 \<and>
    balloc 0x0208 s' = Slept (ChBuf sb) PRIBIO t"
proof (rule balloc_readonly_keeps_super)
  have v: "view readonly_kernel d k = disk readonly_kernel d k" for d k by (rule view_miss) (simp add: readonly_kernel_def)
  show "cok {} readonly_kernel" "held readonly_kernel = {}" "avail readonly_kernel \<noteq> {}"
    using sample_cok sample_held(1,2)
    by (simp_all add: readonly_kernel_def cok_def swapok_def drv_ok_def cinv_def held_def avail_def)
  show "view readonly_kernel 0x0208 1 S_FLOCK \<noteq> 0" unfolding v by (simp add: readonly_kernel_def)
  show "memwant readonly_kernel = 0" by (simp add: readonly_kernel_def sample_kernel_def kst0_def)
qed simp

end
