(* ===== verification/Scheduling.thy ===== *)
theory Scheduling
  imports Sleep
begin

text \<open>
  Properties of the scheduler (\<^verbatim>\<open>sched\<close> of \<^verbatim>\<open>sleep.c\<close>) and of \<^verbatim>\<open>sleep\<close> and \<^verbatim>\<open>wakeup\<close>. The loop of \<^verbatim>\<open>sched\<close> is a fold over the
  process table, from \<^verbatim>\<open>circle\<close> around.
\<close>

section \<open>The round of sched\<close>

definition pick :: "(nat \<Rightarrow> proc) \<Rightarrow> nat \<Rightarrow> nat option \<Rightarrow> nat option" where
  "pick pl p nxt = (if \<not> runnable (pl p) then nxt
     else (case nxt of None \<Rightarrow> Some p | Some n \<Rightarrow> if priority (pl p) > priority (pl n) then Some p else nxt))"

definition round_from :: "nat \<Rightarrow> nat \<Rightarrow> nat list" where
  "round_from c k = map (\<lambda>i. (c + i) mod NPROC) [0..<k]"

lemma round_from_Suc: "round_from c (Suc k) = c mod NPROC # round_from (Suc c) k"
  by (simp add: round_from_def upt_conv_Cons map_Suc_upt [symmetric] del: upt_Suc map_Suc_upt)

lemma round_from_mod: "round_from (c mod NPROC) k = round_from c k"
  by (simp add: round_from_def mod_add_left_eq)

lemma sched_loop_fold: "p \<le> NPROC \<Longrightarrow> sched_loop pl p k nxt = fold (pick pl) (round_from p k) nxt"
proof (induction k arbitrary: p nxt)
  case 0 then show ?case by (simp add: round_from_def)
next
  case (Suc k)
  let ?p = "if p \<ge> NPROC then 0 else p"
  have p: "?p = p mod NPROC" "Suc ?p \<le> NPROC" using Suc.prems by auto
  have "round_from (Suc ?p) k = round_from (Suc p) k"
    unfolding p(1) using round_from_mod [of "Suc (p mod NPROC)" k] round_from_mod [of "Suc p" k] by (simp add: mod_Suc_eq)
  then show ?case using Suc.IH [OF p(2)] p(1) by (simp add: round_from_Suc pick_def Let_def)
qed

text \<open>\<open>best pl xs n\<close>: in the order \<open>xs\<close>, \<open>n\<close> is the first of the runnable processes of highest priority.\<close>

definition best :: "(nat \<Rightarrow> proc) \<Rightarrow> nat list \<Rightarrow> nat \<Rightarrow> bool" where
  "best pl xs n \<longleftrightarrow> (\<exists>ys zs. xs = ys @ n # zs \<and> runnable (pl n) \<and>
     (\<forall>y\<in>set ys. runnable (pl y) \<longrightarrow> priority (pl y) < priority (pl n)) \<and>
     (\<forall>z\<in>set zs. runnable (pl z) \<longrightarrow> priority (pl z) \<le> priority (pl n)))"

lemma best_snoc: "best pl xs n \<Longrightarrow> \<not> (runnable (pl x) \<and> priority (pl n) < priority (pl x)) \<Longrightarrow> best pl (xs @ [x]) n"
proof -
  assume "best pl xs n" and x: "\<not> (runnable (pl x) \<and> priority (pl n) < priority (pl x))"
  then obtain ys zs where n: "xs = ys @ n # zs" "runnable (pl n)" "\<forall>y\<in>set ys. runnable (pl y) \<longrightarrow> priority (pl y) < priority (pl n)"
    "\<forall>z\<in>set zs. runnable (pl z) \<longrightarrow> priority (pl z) \<le> priority (pl n)" by (auto simp: best_def)
  then show ?thesis unfolding best_def using x by (intro exI [of _ ys] exI [of _ "zs @ [x]"]) auto
qed

lemma best_le: "best pl xs n \<Longrightarrow> x \<in> set xs \<Longrightarrow> runnable (pl x) \<Longrightarrow> priority (pl x) \<le> priority (pl n)"
  unfolding best_def using order.strict_implies_order by fastforce

lemma best_last:
  assumes "\<forall>y\<in>set xs. runnable (pl y) \<longrightarrow> priority (pl y) < priority (pl x)" "runnable (pl x)"
  shows "best pl (xs @ [x]) x"
  unfolding best_def using assms by (intro exI [of _ xs] exI [of _ "[]"]) auto

lemma fold_pick:
  "case fold (pick pl) xs None of None \<Rightarrow> \<forall>x\<in>set xs. \<not> runnable (pl x) | Some n \<Rightarrow> best pl xs n"
proof (induction xs rule: rev_induct)
  case (snoc x xs)
  show ?case
  proof (cases "fold (pick pl) xs None")
    case None
    with snoc have "\<forall>y\<in>set xs. \<not> runnable (pl y)" by simp
    then show ?thesis using None best_last [of xs pl x] by (simp add: pick_def [of pl x])
  next
    case (Some n)
    with snoc have n: "best pl xs n" by simp
    show ?thesis
    proof (cases "runnable (pl x) \<and> priority (pl n) < priority (pl x)")
      case True
      then have "\<forall>y\<in>set xs. runnable (pl y) \<longrightarrow> priority (pl y) < priority (pl x)" using best_le [OF n] by fastforce
      with True Some best_last [of xs pl x] show ?thesis by (simp add: pick_def [of pl x])
    next
      case False
      with Some best_snoc [OF n False] show ?thesis by (auto simp: pick_def [of pl x])
    qed
  qed
qed simp

lemma set_round: "set (round_from c NPROC) = {..<NPROC}"
proof -
  have "\<exists>i<NPROC. (c + i) mod NPROC = p" if "p < NPROC" for p
  proof -
    have "(c + (p + (NPROC - c mod NPROC)) mod NPROC) mod NPROC = (c + (p + (NPROC - c mod NPROC))) mod NPROC"
      by (rule mod_add_right_eq)
    also have "c + (p + (NPROC - c mod NPROC)) = p + (c div NPROC + 1) * NPROC"
      by presburger
    also have "\<dots> mod NPROC = p" using that by (subst mod_mult_self1) simp
    finally have "(c + (p + (NPROC - c mod NPROC)) mod NPROC) mod NPROC = p" .
    then show ?thesis by (intro exI [of _ "(p + (NPROC - c mod NPROC)) mod NPROC"]) simp
  qed
  then show ?thesis by (force simp: round_from_def)
qed

lemma sched_spec:
  assumes "circle s \<le> NPROC"
  shows "(if \<exists>p<NPROC. runnable (plist s p)
    then \<exists>n. sched s = Ret n (s\<lparr>circle := Suc n\<rparr>) \<and> n < NPROC \<and> best (plist s) (round_from (circle s) NPROC) n
    else sched s = Spin s)"
proof (cases "fold (pick (plist s)) (round_from (circle s) NPROC) None")
  case None
  with fold_pick [where pl = "plist s" and xs = "round_from (circle s) NPROC"] sched_loop_fold [OF assms, of "plist s" NPROC None]
  show ?thesis by (auto simp: sched_def set_round)
next
  case (Some n)
  with fold_pick [where pl = "plist s" and xs = "round_from (circle s) NPROC"] have b: "best (plist s) (round_from (circle s) NPROC) n" by simp
  then have "n \<in> set (round_from (circle s) NPROC)" "runnable (plist s n)" by (auto simp: best_def)
  with Some b sched_loop_fold [OF assms, of "plist s" NPROC None] show ?thesis by (auto simp: sched_def set_round)
qed

lemma sched_ret:
  assumes "circle s \<le> NPROC" "p < NPROC" "runnable (plist s p)"
  obtains n where "sched s = Ret n (s\<lparr>circle := Suc n\<rparr>)" "n < NPROC" "best (plist s) (round_from (circle s) NPROC) n"
proof -
  have "\<exists>p<NPROC. runnable (plist s p)" using assms(2,3) by blast
  with sched_spec [OF assms(1)] that show thesis by (simp only: if_True) blast
qed

section \<open>Fairness\<close>

text \<open>How many steps from \<open>c\<close> around to \<open>p\<close>; choosing another process of top priority brings \<open>circle\<close> closer to \<open>p\<close>.\<close>

definition dist :: "nat \<Rightarrow> nat \<Rightarrow> nat" where
  "dist c p = (p + NPROC - c) mod NPROC"

lemma best_closer:
  assumes b: "best pl (round_from c NPROC) n" and c: "c \<le> NPROC" and p: "p < NPROC" "runnable (pl p)"
    and top: "\<forall>q<NPROC. runnable (pl q) \<longrightarrow> priority (pl q) \<le> priority (pl p)" and ne: "n \<noteq> p"
  shows "n < NPROC \<and> dist (Suc n) p < dist c p"
proof -
  from b obtain ys zs where d: "round_from c NPROC = ys @ n # zs" "runnable (pl n)"
    "\<forall>y\<in>set ys. runnable (pl y) \<longrightarrow> priority (pl y) < priority (pl n)" by (auto simp: best_def)
  let ?i = "length ys"
  have i: "?i < NPROC" using arg_cong [OF d(1), of length] by (simp add: round_from_def)
  have n: "n = (c + ?i) mod NPROC" using arg_cong [OF d(1), of "\<lambda>xs. xs ! ?i"] i by (simp add: round_from_def nth_append)
  have "priority (pl n) \<le> priority (pl p)" using top d(2) n by simp
  then have "p \<notin> set ys" using d(3) p(2) by fastforce
  moreover have "ys = map (\<lambda>j. (c + j) mod NPROC) [0..<?i]"
  proof -
    have "ys = take ?i (round_from c NPROC)" by (simp add: d(1))
    also have "\<dots> = map (\<lambda>j. (c + j) mod NPROC) [0..<?i]" using i by (simp add: round_from_def take_map)
    finally show ?thesis .
  qed
  ultimately have far: "(c + j) mod NPROC \<noteq> p" if "j < ?i" for j using that by (metis atLeastLessThan_iff image_eqI list.set_map set_upt zero_le)
  have dp: "(c + dist c p) mod NPROC = p" using c p(1) by (auto simp: dist_def mod_simps)
  then have "\<not> dist c p < ?i" "dist c p \<noteq> ?i" using far n ne by auto
  then have lt: "?i < dist c p" by simp
  have "dist (Suc n) p < dist c p"
  proof (cases "c + ?i < NPROC")
    case True
    then have "n = c + ?i" using n by simp
    with lt c p(1) True show ?thesis by (cases "p < c + ?i + 1"; cases "p < c") (auto simp: dist_def mod_if)
  next
    case False
    then have "n = c + ?i - NPROC" using n c i by (simp add: mod_if)
    with lt c p(1) i False show ?thesis by (auto simp: dist_def mod_if split: if_splits)
  qed
  then show ?thesis using n by simp
qed

lemma sched_again:
  assumes "circle s \<le> NPROC" "p < NPROC" "runnable (plist s p)"
  shows "\<exists>ns c. repeat sched m s = Ret ns (s\<lparr>circle := c\<rparr>) \<and> c \<le> NPROC"
  using assms
proof (induction m arbitrary: s)
  case 0
  then show ?case by (intro exI [of _ "[]"] exI [of _ "circle s"]) simp
next
  case (Suc m)
  obtain n where n: "sched s = Ret n (s\<lparr>circle := Suc n\<rparr>)" "n < NPROC" by (rule sched_ret [OF Suc.prems])
  have "circle (s\<lparr>circle := Suc n\<rparr>) \<le> NPROC" "runnable (plist (s\<lparr>circle := Suc n\<rparr>) p)" using n(2) Suc.prems by simp_all
  from Suc.IH [OF this(1) Suc.prems(2) this(2)] n(1) show ?case by auto
qed

lemma sched_reaches:
  assumes "circle s \<le> NPROC" "p < NPROC" "runnable (plist s p)"
    "\<forall>q<NPROC. runnable (plist s q) \<longrightarrow> priority (plist s q) \<le> priority (plist s p)" "dist (circle s) p < m"
  shows "\<exists>ns s'. repeat sched m s = Ret ns s' \<and> p \<in> set ns"
  using assms
proof (induction m arbitrary: s)
  case (Suc m)
  obtain n where n: "sched s = Ret n (s\<lparr>circle := Suc n\<rparr>)" "n < NPROC"
    "best (plist s) (round_from (circle s) NPROC) n" by (rule sched_ret [OF Suc.prems(1-3)])
  let ?s = "s\<lparr>circle := Suc n\<rparr>"
  have p: "circle ?s \<le> NPROC" "runnable (plist ?s p)"
    "\<forall>q<NPROC. runnable (plist ?s q) \<longrightarrow> priority (plist ?s q) \<le> priority (plist ?s p)" using n(2) Suc.prems by simp_all
  show ?case
  proof (cases "n = p")
    case True
    with sched_again [OF p(1) Suc.prems(2) p(2), of m] n(1) show ?thesis by auto
  next
    case False
    then have "dist (circle ?s) p < m" using best_closer [OF n(3) Suc.prems(1-4) False] Suc.prems(5) by simp
    from Suc.IH [OF p(1) Suc.prems(2) p(2,3) this] n(1) show ?thesis by auto
  qed
qed simp

section \<open>Going to sleep\<close>

lemma asleep_not_runnable: "\<not> alls (f AND NOT AWAKE) (ALIVE OR AWAKE OR LOADED)"
proof
  assume "alls (f AND NOT AWAKE) (ALIVE OR AWAKE OR LOADED)"
  then have "bit ((f AND NOT AWAKE) AND (ALIVE OR AWAKE OR LOADED)) 2 = bit (ALIVE OR AWAKE OR LOADED :: u8) 2" by (simp add: alls_def)
  then show False by (simp add: bit_simps)
qed

lemma awake_runnable: "alls f (ALIVE OR LOADED) \<Longrightarrow> alls ((f AND NOT AWAKE) OR AWAKE) (ALIVE OR AWAKE OR LOADED)"
proof -
  assume "alls f (ALIVE OR LOADED)"
  then have "f AND 10 = 10" by (simp add: alls_def)
  moreover have "((f AND - 5) OR 4) AND 14 = (f AND 10) OR (4 :: u8)" by (simp add: bit.conj_disj_distrib2 and.assoc)
  ultimately show ?thesis by (simp add: alls_def)
qed

lemma sleep_spec:
  assumes "swapok s"
  obtains s2 q where "(sleep ch pri s :: 'a K) = Slept ch pri s2" "swapok s2"
    "q = (cur s)\<lparr>p_event := ch, p_pri := pri, p_mode := p_mode (cur s) AND NOT AWAKE\<rparr>"
    "u_p (u s) \<noteq> 0 \<Longrightarrow> plist s2 (u_p (u s)) = q" "plist s2 (u_p (u s)) = q \<or> plist s2 (u_p (u s)) = awk q"
    "s2 = s\<lparr>plist := plist s2, resched := resched s2\<rparr>" "\<And>r. r \<noteq> u_p (u s) \<Longrightarrow> plist s2 r = plist s r \<or> plist s2 r = awk (plist s r)"
proof -
  let ?p = "u_p (u s)"
  define s1 where "s1 = upd_proc ?p (\<lambda>q. q\<lparr>p_event := ch, p_pri := pri, p_mode := p_mode q AND NOT AWAKE\<rparr>) s"
  have s1: "plist s1 ?p = (cur s)\<lparr>p_event := ch, p_pri := pri, p_mode := p_mode (cur s) AND NOT AWAKE\<rparr>"
    by (simp add: s1_def upd_proc_def cur_def)
  have s1': "s1 = s\<lparr>plist := plist s1\<rparr>" "\<And>r. r \<noteq> ?p \<Longrightarrow> plist s1 r = plist s r" by (simp_all add: s1_def upd_proc_def)
  have ok1: "swapok s1" using assms by (simp add: s1_def swapok_def upd_proc_def)
  have sl: "(sleep ch pri s :: 'a K) =
      bnd (if memwant s1 \<noteq> 0 \<and> \<not> tst (p_mode (cur s1)) LOCKED then run 0 s1 else Ret () s1) (\<lambda>_ s. Slept ch pri s)"
    by (simp only: sleep_def Let_def s1_def)
  show thesis
  proof (cases "memwant s1 \<noteq> 0 \<and> \<not> tst (p_mode (cur s1)) LOCKED")
    case False
    then have "(sleep ch pri s :: 'a K) = Slept ch pri s1" unfolding sl by auto
    moreover have "s1 = s\<lparr>plist := plist s1, resched := resched s1\<rparr>" by (simp add: s1_def upd_proc_def)
    ultimately show thesis using ok1 s1 s1'(2) by (intro that [of s1 "plist s1 ?p"]) auto
  next
    case True
    obtain pl r where w: "run 0 s1 = Ret () (s1\<lparr>plist := pl, resched := r\<rparr>)" "pl 0 = awk (plist s1 0)"
      "\<And>q. q \<noteq> 0 \<Longrightarrow> q \<noteq> 0 \<Longrightarrow> pl q = plist s1 q" "\<And>q. pl q = plist s1 q \<or> pl q = awk (plist s1 q)"
      by (rule run_spec [OF ok1, of 0]) blast
    let ?s2 = "s1\<lparr>plist := pl, resched := r\<rparr>"
    have "(sleep ch pri s :: 'a K) = Slept ch pri ?s2" unfolding sl using True w(1) by simp
    moreover have "swapok ?s2" using ok1 w(2) by (simp add: swapok_def)
    moreover have "?s2 = s\<lparr>plist := pl, resched := r\<rparr>" by (subst s1'(1)) simp
    moreover have "pl q = plist s q \<or> pl q = awk (plist s q)" if "q \<noteq> ?p" for q using w(4) [of q] s1'(2) [OF that] by simp
    ultimately show thesis using w(3) w(4) [of ?p] s1 by (intro that [of ?s2 "plist s1 ?p"]) auto
  qed
qed

section \<open>Properties\<close>

text \<open>
  C11. \<^verbatim>\<open>sched\<close> chooses a process that is alive, awake and in core, of the highest priority there is among those, and moves
  \<^verbatim>\<open>circle\<close> just behind it; it idles exactly when there is no such process.
\<close>

theorem sched_picks_highest:
  assumes "circle s \<le> NPROC"
  shows "if \<exists>p<NPROC. runnable (plist s p)
    then \<exists>n<NPROC. sched s = Ret n (s\<lparr>circle := Suc n\<rparr>) \<and> runnable (plist s n) \<and>
      (\<forall>p<NPROC. runnable (plist s p) \<longrightarrow> priority (plist s p) \<le> priority (plist s n))
    else sched s = Spin s"
proof -
  have "runnable (plist s n) \<and> (\<forall>p<NPROC. runnable (plist s p) \<longrightarrow> priority (plist s p) \<le> priority (plist s n))"
    if "best (plist s) (round_from (circle s) NPROC) n" for n
    using best_le [OF that] that by (auto simp: set_round best_def)
  then show ?thesis using sched_spec [OF assms] by (auto split: if_splits)
qed

text \<open>A swap process and two user processes, 5 and 6, of the same priority.\<close>

definition busy_kernel :: kst where
  "busy_kernel = kst0\<lparr>plist := (\<lambda>_. proc0)(0 := proc0\<lparr>p_mode := ALLOC OR ALIVE OR LOADED OR LOCKED\<rparr>,
     5 := proc0\<lparr>p_mode := ALLOC OR ALIVE OR AWAKE OR LOADED, p_pri := PRIUSER\<rparr>,
     6 := proc0\<lparr>p_mode := ALLOC OR ALIVE OR AWAKE OR LOADED, p_pri := PRIUSER\<rparr>),
     u := user0\<lparr>u_p := 5\<rparr>\<rparr>"

lemma busy_sel [simp]: "circle busy_kernel = 0" "memwant busy_kernel = 0" "swapping busy_kernel = 0" "u_p (u busy_kernel) = 5"
  "runnable (plist busy_kernel p) \<longleftrightarrow> p = 5 \<or> p = 6"
  by (simp_all add: busy_kernel_def kst0_def runnable_def alls_def proc0_def user0_def)

theorem sched_picks_highest_witness:
  "\<exists>n<NPROC. sched busy_kernel = Ret n (busy_kernel\<lparr>circle := Suc n\<rparr>) \<and> runnable (plist busy_kernel n) \<and>
     (\<forall>p<NPROC. runnable (plist busy_kernel p) \<longrightarrow> priority (plist busy_kernel p) \<le> priority (plist busy_kernel n))"
proof -
  have "circle busy_kernel \<le> NPROC" and e: "\<exists>p<NPROC. runnable (plist busy_kernel p)"
    by (simp, intro exI [of _ 5]) simp
  from sched_picks_highest [OF this(1)] show ?thesis unfolding if_P [OF e] .
qed

text \<open>
  C18. Scheduling is fair among processes of the highest priority: as long as the process table does not change, a runnable process
  that no runnable process outranks is chosen within \<^verbatim>\<open>NPROC\<close> calls of \<^verbatim>\<open>sched\<close>.
\<close>

theorem sched_fair:
  assumes "circle s \<le> NPROC" "p < NPROC" "runnable (plist s p)"
    "\<forall>q<NPROC. runnable (plist s q) \<longrightarrow> priority (plist s q) \<le> priority (plist s p)"
  shows "\<exists>ns s'. repeat sched NPROC s = Ret ns s' \<and> p \<in> set ns"
  by (rule sched_reaches [OF assms]) (simp add: dist_def)

theorem sched_fair_witness: "\<exists>ns s'. repeat sched NPROC busy_kernel = Ret ns s' \<and> 6 \<in> set ns"
  by (rule sched_fair) (auto simp: busy_kernel_def kst0_def runnable_def alls_def proc0_def)

text \<open>
  C20. \<^verbatim>\<open>wakeup\<close> makes every process that sleeps on the event awake and clears its event, and touches no other process, except that
  it may wake the swap process (process 0) to bring one of them in. It returns and changes nothing else but the rescheduling flag.
\<close>

theorem wakeup_exactly:
  assumes "swapok s"
  shows "\<exists>pl r. wakeup ch s = Ret () (s\<lparr>plist := pl, resched := r\<rparr>) \<and>
    (\<forall>q<NPROC. p_event (plist s q) = ch \<longrightarrow> tst (p_mode (pl q)) AWAKE \<and> p_event (pl q) = NoEvent) \<and>
    (\<forall>q. q \<noteq> 0 \<longrightarrow> q \<ge> NPROC \<or> p_event (plist s q) \<noteq> ch \<longrightarrow> pl q = plist s q) \<and>
    (\<forall>q. pl q = plist s q \<or> pl q = (plist s q)\<lparr>p_mode := p_mode (plist s q) OR AWAKE, p_event := NoEvent\<rparr>)"
proof -
  obtain pl r where w: "wakeup ch s = Ret () (s\<lparr>plist := pl, resched := r\<rparr>)"
    "\<And>q. q < NPROC \<Longrightarrow> p_event (plist s q) = ch \<Longrightarrow> pl q = awk (plist s q)"
    "\<And>q. q \<noteq> 0 \<Longrightarrow> q \<ge> NPROC \<or> p_event (plist s q) \<noteq> ch \<Longrightarrow> pl q = plist s q"
    "\<And>q. pl q = plist s q \<or> pl q = awk (plist s q)" by (rule wakeup_spec [OF assms]) blast
  have "tst (p_mode (pl q)) AWAKE \<and> p_event (pl q) = NoEvent" if "q < NPROC" "p_event (plist s q) = ch" for q
    using w(2) [OF that] by simp
  with w(1,3,4) show ?thesis unfolding awk_def by (intro exI [of _ pl] exI [of _ r]) blast
qed

lemma busy_swapok: "swapok busy_kernel"
  by (simp add: swapok_def busy_kernel_def tst_def)

theorem wakeup_exactly_witness:
  "\<exists>pl r. wakeup (ChInode 3) busy_kernel = Ret () (busy_kernel\<lparr>plist := pl, resched := r\<rparr>) \<and>
    (\<forall>q<NPROC. p_event (plist busy_kernel q) = ChInode 3 \<longrightarrow> tst (p_mode (pl q)) AWAKE \<and> p_event (pl q) = NoEvent) \<and>
    (\<forall>q. q \<noteq> 0 \<longrightarrow> q \<ge> NPROC \<or> p_event (plist busy_kernel q) \<noteq> ChInode 3 \<longrightarrow> pl q = plist busy_kernel q) \<and>
    (\<forall>q. pl q = plist busy_kernel q \<or>
       pl q = (plist busy_kernel q)\<lparr>p_mode := p_mode (plist busy_kernel q) OR AWAKE, p_event := NoEvent\<rparr>)"
  by (rule wakeup_exactly [OF busy_swapok])

lemma sleep_wakeup:
  assumes "swapok s" "u_p (u s) < NPROC" "alls (p_mode (cur s)) (ALIVE OR LOADED)"
  shows "\<exists>s' pl r. (sleep ch pri s :: unit K) = Slept ch pri s' \<and> (u_p (u s) \<noteq> 0 \<longrightarrow> \<not> runnable (plist s' (u_p (u s)))) \<and>
    wakeup ch s' = Ret () (s'\<lparr>plist := pl, resched := r\<rparr>) \<and> runnable (pl (u_p (u s))) \<and> p_pri (pl (u_p (u s))) = pri"
proof -
  let ?p = "u_p (u s)"
  obtain s2 q where sl: "(sleep ch pri s :: unit K) = Slept ch pri s2" and ok2: "swapok s2"
    and q: "q = (cur s)\<lparr>p_event := ch, p_pri := pri, p_mode := p_mode (cur s) AND NOT AWAKE\<rparr>"
      "?p \<noteq> 0 \<Longrightarrow> plist s2 ?p = q" "plist s2 ?p = q \<or> plist s2 ?p = awk q" by (rule sleep_spec [OF assms(1), of ch pri]) blast
  obtain pl r where w: "wakeup ch s2 = Ret () (s2\<lparr>plist := pl, resched := r\<rparr>)"
    "p_event (plist s2 ?p) = ch \<Longrightarrow> pl ?p = awk (plist s2 ?p)" "pl ?p = plist s2 ?p \<or> pl ?p = awk (plist s2 ?p)"
    by (rule wakeup_spec [OF ok2]) (use assms(2) in blast)
  have "pl ?p = awk q" using q(1,3) w(2,3) by auto
  moreover have "runnable (awk q)"
    using awake_runnable [OF assms(3)] by (simp add: runnable_def awk_def q(1))
  moreover have "\<not> runnable q" using asleep_not_runnable by (simp add: q(1) runnable_def)
  ultimately show ?thesis using sl w(1) q(1,2) by (intro exI [of _ s2] exI [of _ pl] exI [of _ r]) auto
qed

text \<open>
  C19. No wakeup is lost: a process that goes to sleep on an event, in core and alive, is not runnable; after the next \<^verbatim>\<open>wakeup\<close> of that event
  it is, with the priority it asked for.
\<close>

theorem sleep_then_wakeup:
  assumes "swapok s" "u_p (u s) < NPROC" "alls (p_mode (cur s)) (ALIVE OR LOADED)"
  shows "\<exists>s' pl r. (sleep ch pri s :: unit K) = Slept ch pri s' \<and> (u_p (u s) \<noteq> 0 \<longrightarrow> \<not> runnable (plist s' (u_p (u s)))) \<and>
    wakeup ch s' = Ret () (s'\<lparr>plist := pl, resched := r\<rparr>) \<and> runnable (pl (u_p (u s))) \<and> p_pri (pl (u_p (u s))) = pri"
  by (rule sleep_wakeup [OF assms])

theorem sleep_then_wakeup_witness:
  "\<exists>s' pl r. (sleep (ChInode 3) PRINOD busy_kernel :: unit K) = Slept (ChInode 3) PRINOD s' \<and>
    (u_p (u busy_kernel) \<noteq> 0 \<longrightarrow> \<not> runnable (plist s' (u_p (u busy_kernel)))) \<and>
    wakeup (ChInode 3) s' = Ret () (s'\<lparr>plist := pl, resched := r\<rparr>) \<and> runnable (pl (u_p (u busy_kernel))) \<and>
    p_pri (pl (u_p (u busy_kernel))) = PRINOD"
  by (rule sleep_then_wakeup [OF busy_swapok]) (simp_all add: cur_def busy_kernel_def kst0_def proc0_def user0_def alls_def)

end
