(* ===== verification/Inodes.thy ===== *)
theory Inodes
  imports Inode Scheduling
begin

text \<open>
  Properties of the inode table: the lock of an inode as a state machine of several processes (\<^verbatim>\<open>ilock\<close>, \<^verbatim>\<open>irelse\<close>), the layout of disk inodes, and
  the access rules (\<^verbatim>\<open>access.c\<close>).
\<close>

section \<open>The inode lock\<close>

text \<open>The loop of \<^verbatim>\<open>ilock\<close>, which a process that was asleep in it resumes.\<close>

definition ilock_loop :: "nat \<Rightarrow> kst \<Rightarrow> unit K" where
  "ilock_loop ip s =
     (if tst (i_flags (ilist s ip)) IBUSY then sleep (ChInode ip) PRINOD (set_iflag IWANT ip s)
      else Ret () (upd_inode ip (\<lambda>x. x\<lparr>i_flags := i_flags x OR IBUSY, i_count := i_count x - 1\<rparr>) s))"

definition iref :: "nat \<Rightarrow> kst \<Rightarrow> kst" where
  "iref ip s = upd_inode ip (\<lambda>x. x\<lparr>i_count := i_count x + 1\<rparr>) s"

lemma ilock_alt: "ilock ip s = ilock_loop ip (iref ip s)"
  by (simp add: ilock_def ilock_loop_def iref_def Let_def)

text \<open>
  Processes that lock and release inodes, one running at a time: who owns an inode, who waits for one. The running process
  calls \<^verbatim>\<open>ilock\<close>, or goes on with it after a sleep, or calls \<^verbatim>\<open>irelse\<close> for an inode it owns, or another process gets to run.
\<close>

record lockst =
  lk :: kst
  owner :: "nat \<Rightarrow> nat option"
  waits :: "nat \<Rightarrow> nat option"

inductive lstep :: "lockst \<Rightarrow> lockst \<Rightarrow> bool" where
  lock: "u_p (u (lk t)) = p \<Longrightarrow> p < NPROC \<Longrightarrow> waits t p = None \<Longrightarrow> ilock ip (lk t) = Ret () s' \<Longrightarrow>
     lstep t (t\<lparr>lk := s', owner := (owner t)(ip := Some p)\<rparr>)"
| lock_sleeps: "u_p (u (lk t)) = p \<Longrightarrow> p < NPROC \<Longrightarrow> waits t p = None \<Longrightarrow> ilock ip (lk t) = Slept ch pri s' \<Longrightarrow>
     lstep t (t\<lparr>lk := s', waits := (waits t)(p := Some ip)\<rparr>)"
| resume: "u_p (u (lk t)) = p \<Longrightarrow> p < NPROC \<Longrightarrow> waits t p = Some ip \<Longrightarrow> ilock_loop ip (lk t) = Ret () s' \<Longrightarrow>
     lstep t (t\<lparr>lk := s', owner := (owner t)(ip := Some p), waits := (waits t)(p := None)\<rparr>)"
| resume_sleeps: "u_p (u (lk t)) = p \<Longrightarrow> p < NPROC \<Longrightarrow> waits t p = Some ip \<Longrightarrow> ilock_loop ip (lk t) = Slept ch pri s' \<Longrightarrow>
     lstep t (t\<lparr>lk := s'\<rparr>)"
| release: "u_p (u (lk t)) = p \<Longrightarrow> p < NPROC \<Longrightarrow> owner t ip = Some p \<Longrightarrow> irelse ip (lk t) = Ret () s' \<Longrightarrow>
     lstep t (t\<lparr>lk := s', owner := (owner t)(ip := None)\<rparr>)"
| switch: "q < NPROC \<Longrightarrow> runnable (plist (lk t) q) \<Longrightarrow> lstep t (t\<lparr>lk := (lk t)\<lparr>u := (u (lk t))\<lparr>u_p := q\<rparr>\<rparr>\<rparr>)"

inductive_cases lstepE: "lstep t t'"

text \<open>The invariant: the flag says whether there is an owner, and whoever sleeps on an inode has left the mark \<^verbatim>\<open>IWANT\<close>.\<close>

definition lock_inv :: "lockst \<Rightarrow> bool" where
  "lock_inv t \<longleftrightarrow> swapok (lk t) \<and>
     (\<forall>ip. tst (i_flags (ilist (lk t) ip)) IBUSY \<longleftrightarrow> owner t ip \<noteq> None) \<and>
     (\<forall>q<NPROC. \<forall>ip. p_event (plist (lk t) q) = ChInode ip \<longrightarrow> tst (i_flags (ilist (lk t) ip)) IWANT \<and> owner t ip \<noteq> None)"

lemma iref_sel [simp]:
  "i_flags (ilist (iref ip s) j) = i_flags (ilist s j)" "plist (iref ip s) = plist s" "swapok (iref ip s) = swapok s" "u (iref ip s) = u s"
  by (simp_all add: iref_def upd_inode_def swapok_def)

lemma flag_busy [simp]: "tst (f OR IBUSY) (IBUSY :: u8)" "tst (f OR IBUSY) (IWANT :: u8) = tst f IWANT"
  "tst (f OR IWANT) (IBUSY :: u8) = tst f IBUSY" "tst (f OR IWANT) (IWANT :: u8)"
  "\<not> tst (f AND NOT (IBUSY OR IWANT)) (IBUSY :: u8)" "\<not> tst (f AND NOT (IBUSY OR IWANT)) (IWANT :: u8)"
  by simp_all

text \<open>The two outcomes of the loop, and the release.\<close>

lemma ilock_loop_Ret:
  assumes "ilock_loop ip s = Ret () s'"
  shows "\<not> tst (i_flags (ilist s ip)) IBUSY" "plist s' = plist s" "u s' = u s" "swapok s' = swapok s"
    "\<And>j. tst (i_flags (ilist s' j)) IBUSY \<longleftrightarrow> j = ip \<or> tst (i_flags (ilist s j)) IBUSY"
    "\<And>j. tst (i_flags (ilist s' j)) IWANT \<longleftrightarrow> tst (i_flags (ilist s j)) IWANT"
proof -
  show nb: "\<not> tst (i_flags (ilist s ip)) IBUSY"
  proof
    assume "tst (i_flags (ilist s ip)) IBUSY"
    with assms show False by (simp add: ilock_loop_def sleep_def Let_def bnd_Ret_iff)
  qed
  with assms have s': "s' = upd_inode ip (\<lambda>x. x\<lparr>i_flags := i_flags x OR IBUSY, i_count := i_count x - 1\<rparr>) s"
    by (simp add: ilock_loop_def)
  show "plist s' = plist s" "u s' = u s" "swapok s' = swapok s"
    "\<And>j. tst (i_flags (ilist s' j)) IBUSY \<longleftrightarrow> j = ip \<or> tst (i_flags (ilist s j)) IBUSY"
    "\<And>j. tst (i_flags (ilist s' j)) IWANT \<longleftrightarrow> tst (i_flags (ilist s j)) IWANT"
    unfolding s' by (auto simp: upd_inode_def swapok_def)
qed

lemma ilock_loop_Slept:
  assumes "ilock_loop ip s = Slept ch pri s'" "swapok s"
  shows "tst (i_flags (ilist s ip)) IBUSY" "swapok s'" "u s' = u s"
    "\<And>j. tst (i_flags (ilist s' j)) IBUSY \<longleftrightarrow> tst (i_flags (ilist s j)) IBUSY"
    "\<And>j. tst (i_flags (ilist s' j)) IWANT \<longleftrightarrow> j = ip \<or> tst (i_flags (ilist s j)) IWANT"
    "\<And>q. p_event (plist s' q) \<in> {p_event (plist s q), NoEvent, ChInode ip}"
proof -
  show b: "tst (i_flags (ilist s ip)) IBUSY" using assms(1) by (simp add: ilock_loop_def split: if_splits)
  let ?s = "set_iflag IWANT ip s"
  have "swapok ?s" using assms(2) by (simp add: set_iflag_def upd_inode_def swapok_def)
  then obtain s2 q where sl: "(sleep (ChInode ip) PRINOD ?s :: unit K) = Slept (ChInode ip) PRINOD s2" "swapok s2"
    "q = (cur ?s)\<lparr>p_event := ChInode ip, p_pri := PRINOD, p_mode := p_mode (cur ?s) AND NOT AWAKE\<rparr>"
    "plist s2 (u_p (u ?s)) = q \<or> plist s2 (u_p (u ?s)) = awk q" "s2 = ?s\<lparr>plist := plist s2, resched := resched s2\<rparr>"
    "\<And>r. r \<noteq> u_p (u ?s) \<Longrightarrow> plist s2 r = plist ?s r \<or> plist s2 r = awk (plist ?s r)"
    by (rule sleep_spec [of ?s "ChInode ip" PRINOD]) blast
  have s': "s' = s2" using assms(1) b sl(1) by (simp add: ilock_loop_def)
  have il: "ilist s2 = ilist ?s" "u s2 = u ?s" by (subst sl(5), simp)+
  show "swapok s'" "u s' = u s" using sl(2) il(2) s' by (simp_all add: set_iflag_def upd_inode_def)
  show "\<And>j. tst (i_flags (ilist s' j)) IBUSY \<longleftrightarrow> tst (i_flags (ilist s j)) IBUSY"
    "\<And>j. tst (i_flags (ilist s' j)) IWANT \<longleftrightarrow> j = ip \<or> tst (i_flags (ilist s j)) IWANT"
    unfolding s' il by (auto simp: set_iflag_def upd_inode_def)
  have pl: "plist ?s = plist s" by (simp add: set_iflag_def upd_inode_def)
  show "p_event (plist s' r) \<in> {p_event (plist s r), NoEvent, ChInode ip}" for r
    using sl(3,4) sl(6) [of r] unfolding s' pl by (cases "r = u_p (u ?s)") auto
qed

lemma itime_sel: "itime s = (c, s1) \<Longrightarrow> i_flags (ilist s1 j) = i_flags (ilist s j) \<and> plist s1 = plist s \<and> u s1 = u s"
  by (auto simp: itime_def Let_def split: if_splits)

lemma irelse_spec:
  assumes "swapok s"
  obtains s' where "irelse ip s = Ret () s'" "swapok s'" "u s' = u s"
    "\<And>j. i_flags (ilist s' j) = (if j = ip then i_flags (ilist s j) AND NOT (IBUSY OR IWANT) else i_flags (ilist s j))"
    "\<And>q. plist s' q = plist s q \<or> plist s' q = awk (plist s q)"
    "\<And>q. q < NPROC \<Longrightarrow> tst (i_flags (ilist s ip)) IWANT \<Longrightarrow> p_event (plist s q) = ChInode ip \<Longrightarrow> plist s' q = awk (plist s q)"
proof -
  obtain pl r where w: "(if tst (i_flags (ilist s ip)) IWANT then wakeup (ChInode ip) s else Ret () s) = Ret () (s\<lparr>plist := pl, resched := r\<rparr>)"
    "\<And>q. pl q = plist s q \<or> pl q = awk (plist s q)" "swapok (s\<lparr>plist := pl, resched := r\<rparr>)"
    "\<And>q. q < NPROC \<Longrightarrow> tst (i_flags (ilist s ip)) IWANT \<Longrightarrow> p_event (plist s q) = ChInode ip \<Longrightarrow> pl q = awk (plist s q)"
  proof (cases "tst (i_flags (ilist s ip)) IWANT")
    case True
    obtain pl r where "wakeup (ChInode ip) s = Ret () (s\<lparr>plist := pl, resched := r\<rparr>)"
      "\<And>q. q < NPROC \<Longrightarrow> p_event (plist s q) = ChInode ip \<Longrightarrow> pl q = awk (plist s q)"
      "\<And>q. pl q = plist s q \<or> pl q = awk (plist s q)" "swapok (s\<lparr>plist := pl, resched := r\<rparr>)"
      by (rule wakeup_spec [OF assms, of "ChInode ip"]) blast
    with True show thesis by (intro that [of r pl]) auto
  next
    case False
    with assms show thesis by (intro that [of "resched s" "plist s"]) auto
  qed
  let ?s1 = "clr_iflag (IBUSY OR IWANT) ip (s\<lparr>plist := pl, resched := r\<rparr>)"
  obtain c s2 where it: "itime ?s1 = (c, s2)" by (cases "itime ?s1")
  note sel = itime_sel [OF it]
  let ?s' = "upd_inode ip (\<lambda>x. x\<lparr>i_time := c\<rparr>) s2"
  have "irelse ip s = Ret () ?s'" using w(1) it by (simp add: irelse_def)
  moreover have "plist ?s' = pl" "u ?s' = u s" using sel by (simp_all add: upd_inode_def clr_iflag_def)
  moreover have "i_flags (ilist ?s' j) = (if j = ip then i_flags (ilist s j) AND NOT (IBUSY OR IWANT) else i_flags (ilist s j))" for j
    using sel [of j] by (auto simp: upd_inode_def clr_iflag_def)
  moreover have "swapok ?s'" using w(3) \<open>plist ?s' = pl\<close> by (simp add: swapok_def)
  ultimately show thesis using w(2,4) by (intro that [of ?s']) auto
qed

lemma lock_inv_grant:
  assumes i: "lock_inv t" and r: "ilock_loop ip s = Ret () s'" and s: "s = lk t \<or> s = iref ip (lk t)"
  shows "owner t ip = None" "lock_inv (t\<lparr>lk := s', owner := (owner t)(ip := Some p), waits := w\<rparr>)"
proof -
  note l = ilock_loop_Ret [OF r]
  have f: "i_flags (ilist s j) = i_flags (ilist (lk t) j)" "plist s = plist (lk t)" "swapok s = swapok (lk t)" for j using s by auto
  show "owner t ip = None" using i l(1) f(1) by (auto simp: lock_inv_def)
  show "lock_inv (t\<lparr>lk := s', owner := (owner t)(ip := Some p), waits := w\<rparr>)"
    using i unfolding lock_inv_def by (simp add: l f)
qed

lemma lock_inv_sleep:
  assumes i: "lock_inv t" and r: "ilock_loop ip s = Slept ch pri s'" and s: "s = lk t \<or> s = iref ip (lk t)"
  shows "lock_inv (t\<lparr>lk := s', waits := w\<rparr>)"
proof -
  have f: "i_flags (ilist s j) = i_flags (ilist (lk t) j)" "plist s = plist (lk t)" "swapok s" for j using s i by (auto simp: lock_inv_def)
  note l = ilock_loop_Slept [OF r f(3)]
  have b: "owner t ip \<noteq> None" using i l(1) f(1) by (auto simp: lock_inv_def)
  have "tst (i_flags (ilist s' j)) IWANT \<and> owner t j \<noteq> None" if "q < NPROC" "p_event (plist s' q) = ChInode j" for q j
    using l(6) [of q] that i b l(5) [of j] f unfolding lock_inv_def by auto
  with i l(2,4) f show ?thesis unfolding lock_inv_def by simp
qed

lemma lock_inv_release:
  assumes i: "lock_inv t" and r: "irelse ip (lk t) = Ret () s'"
  shows "lock_inv (t\<lparr>lk := s', owner := (owner t)(ip := None)\<rparr>)" "\<And>q. q < NPROC \<Longrightarrow> p_event (plist s' q) \<noteq> ChInode ip"
proof -
  have ok: "swapok (lk t)" using i by (simp add: lock_inv_def)
  obtain s2 where e: "irelse ip (lk t) = Ret () s2" "swapok s2"
    "\<And>j. i_flags (ilist s2 j) = (if j = ip then i_flags (ilist (lk t) j) AND NOT (IBUSY OR IWANT) else i_flags (ilist (lk t) j))"
    "\<And>q. plist s2 q = plist (lk t) q \<or> plist s2 q = awk (plist (lk t) q)"
    "\<And>q. q < NPROC \<Longrightarrow> tst (i_flags (ilist (lk t) ip)) IWANT \<Longrightarrow> p_event (plist (lk t) q) = ChInode ip \<Longrightarrow> plist s2 q = awk (plist (lk t) q)"
    by (rule irelse_spec [OF ok, of ip]) blast
  with r have [simp]: "s2 = s'" by simp
  show none: "p_event (plist s' q) \<noteq> ChInode ip" if "q < NPROC" for q
  proof
    assume a: "p_event (plist s' q) = ChInode ip"
    then have "p_event (plist (lk t) q) = ChInode ip" using e(4) [of q] by auto
    with i that have "tst (i_flags (ilist (lk t) ip)) IWANT" unfolding lock_inv_def by blast
    with e(5) [OF that this \<open>p_event (plist (lk t) q) = ChInode ip\<close>] a show False by simp
  qed
  have ev: "p_event (plist s' q) = ChInode j \<Longrightarrow> p_event (plist (lk t) q) = ChInode j" for q j using e(4) [of q] by auto
  have "tst (i_flags (ilist s' j)) IWANT \<and> j \<noteq> ip \<and> owner t j \<noteq> None" if "q < NPROC" "p_event (plist s' q) = ChInode j" for q j
    using none that ev [OF that(2)] i e(3) [of j] unfolding lock_inv_def by auto
  moreover have "tst (i_flags (ilist s' j)) IBUSY \<longleftrightarrow> ((owner t)(ip := None)) j \<noteq> None" for j
    using i e(3) [of j] unfolding lock_inv_def by auto
  ultimately show "lock_inv (t\<lparr>lk := s', owner := (owner t)(ip := None)\<rparr>)"
    using e(2) unfolding lock_inv_def by auto
qed

lemma lock_inv_step: "lock_inv t \<Longrightarrow> lstep t t' \<Longrightarrow> lock_inv t'"
proof (erule lstep.cases, goal_cases)
  case (1 t p ip s') then show ?case using lock_inv_grant(2) [where t = t and ip = ip and s = "iref ip (lk t)" and s' = s' and p = p and w = "waits t"] by (simp add: ilock_alt)
next
  case (2 t p ip ch pri s') then show ?case using lock_inv_sleep [of t ip "iref ip (lk t)" ch pri s'] by (simp add: ilock_alt)
next
  case (3 t p ip s') then show ?case using lock_inv_grant(2) [where t = t and ip = ip and s = "lk t" and s' = s' and p = p] by simp
next
  case (4 t p ip ch pri s') then show ?case using lock_inv_sleep [of t ip "lk t" ch pri s' "waits t"] by simp
next
  case (5 t p ip s') then show ?case using lock_inv_release(1) by simp
next
  case (6 q t) then show ?case by (simp add: lock_inv_def swapok_def)
qed

lemma lock_inv_reach: "lstep\<^sup>*\<^sup>* t t' \<Longrightarrow> lock_inv t \<Longrightarrow> lock_inv t'"
  by (induction rule: rtranclp_induct) (auto intro: lock_inv_step)

definition lock_start :: "kst \<Rightarrow> lockst" where
  "lock_start s = \<lparr>lk = s, owner = (\<lambda>_. None), waits = (\<lambda>_. None)\<rparr>"

definition unlocked :: "kst \<Rightarrow> bool" where
  "unlocked s \<longleftrightarrow> swapok s \<and> (\<forall>ip. \<not> tst (i_flags (ilist s ip)) IBUSY) \<and> (\<forall>q<NPROC. \<forall>ip. p_event (plist s q) \<noteq> ChInode ip)"

lemma lock_start_inv: "unlocked s \<Longrightarrow> lock_inv (lock_start s)"
  by (auto simp: lock_inv_def unlocked_def lock_start_def)

section \<open>Disk inodes\<close>

lemma getw_put_addr:
  "getw (put_addr b i a n) (i + 2 * j) = (if j < n then a j else getw b (i + 2 * j))"
proof (induction n)
  case (Suc n)
  then show ?case by (cases "j = n") (auto simp: byte_simps)
qed simp

lemma put_addr_out [byte_simps]: "k < i \<or> i + 2 * n \<le> k \<Longrightarrow> put_addr b i a n k = b k"
  by (induction n) (auto simp: byte_simps)

lemma getw_put_addr_out [byte_simps]: "k + 2 \<le> i \<or> i + 2 * n \<le> k \<Longrightarrow> getw (put_addr b i a n) k = getw b k"
  by (auto simp: getw_def put_addr_out)

lemma byte_upd_getw [byte_simps]: "k < j \<or> j + 2 \<le> k \<Longrightarrow> getw (b(k := v)) j = getw b j"
  by (auto simp: getw_def)

lemma dsk_get_put:
  assumes "\<And>j. j \<ge> 8 \<Longrightarrow> d_addr d j = 0"
  shows "dsk_get (dsk_put d b i) i = d"
proof -
  have "(\<lambda>j. if j < 8 then getw (dsk_put d b i) (i + 8 + 2 * j) else 0) = d_addr d"
  proof
    fix j
    show "(if j < 8 then getw (dsk_put d b i) (i + 8 + 2 * j) else 0) = d_addr d j"
    proof (cases "j < 8")
      case True
      then have "getw (dsk_put d b i) (i + 8 + 2 * j) = d_addr d j"
        unfolding dsk_put_def Let_def by (subst getw_putl_diff, simp)+ (simp add: getw_put_addr)
      with True show ?thesis by simp
    qed (simp add: assms)
  qed
  moreover have "getw (dsk_put d b i) i = d_mode d" "dsk_put d b i (i + 2) = d_nlink d" "dsk_put d b i (i + 3) = d_uid d"
    "dsk_put d b i (i + 4) = d_gid d" "dsk_put d b i (i + 5) = d_size0 d" "getw (dsk_put d b i) (i + 6) = d_size1 d"
    "getl (dsk_put d b i) (i + 24) = d_atime d" "getl (dsk_put d b i) (i + 28) = d_mtime d"
    by (simp_all add: dsk_put_def Let_def byte_simps)
  ultimately show ?thesis by (simp add: dsk_get_def)
qed

lemma dsk_put_out: "k < i \<or> i + 32 \<le> k \<Longrightarrow> dsk_put d b i k = b k"
  by (auto simp: dsk_put_def Let_def byte_simps)

lemma x3to4_x4to3:
  assumes "z < 0x1000000"
  shows "x3to4 (fst (x4to3 z)) (snd (x4to3 z)) = z"
proof -
  have "unat z < 2 ^ 24" using assms by (simp add: word_less_nat_alt)
  then have "take_bit 24 (unat z) = unat z" by (rule take_bit_nat_eq_self)
  then have b: "n < 24" if "bit z n" for n
    using that by (metis bit_take_bit_iff bit_unsigned_iff possible_bit_nat)
  show ?thesis
    by (rule bit_word_eqI) (auto simp: x3to4_def x4to3_def bit_word_cat_iff bit_ucast_iff bit_drop_bit_eq dest: b)
qed

text \<open>Changing the inode table alone does not disturb the cache.\<close>

definition put_il :: "(nat \<Rightarrow> inode) \<Rightarrow> kst \<Rightarrow> kst" where
  "put_il L s = s\<lparr>ilist := L\<rparr>"

lemma put_il_cache [simp]:
  "cok M (put_il L s) = cok M s" "held (put_il L s) = held s" "avail (put_il L s) = avail s" "view (put_il L s) = view s"
  "lckd (put_il L s) = lckd s" "blist (put_il L s) = blist s" "mlist (put_il L s) = mlist s" "ilist (put_il L s) = L" "u (put_il L s) = u s"
  "bdat b (put_il L s) = bdat b s"
  by (auto simp: put_il_def cok_def swapok_def drv_ok_def cinv_def held_def avail_def lckd_def bdat_def intro!: view_cong)

lemma holding_put_il:
  assumes "holding M H s s1"
  shows "holding M H (put_il L s) (put_il L s1)"
proof -
  have "bframe (put_il L s) (put_il L s1)"
  proof -
    from holdingD(1) [OF assms] obtain b1 c1 d1 p1 r1 o1 e1 where 1: "s1 = s\<lparr>blist := b1, bclock := c1, disk := d1, plist := p1,
      resched := r1, cons := o1, u := (u s)\<lparr>u_error := e1\<rparr>\<rparr>" and 2: "\<forall>q. p1 q = plist s q \<or> p1 q = awk (plist s q)"
      unfolding bframe_def by (metis kst.simps)
    show ?thesis using 2 unfolding bframe_def put_il_def 1 by simp
  qed
  then show ?thesis using assms unfolding holding_def by auto
qed

definition iblk :: "u16 \<Rightarrow> u16" where "iblk inum = drop_bit 4 (inum + 31)"
definition ioff :: "u16 \<Rightarrow> nat" where "ioff inum = unat ((inum + 31) AND 15) * 32"

text \<open>An inode that exists on a mounted device, with the cache at rest.\<close>

definition on_disk :: "nat \<Rightarrow> kst \<Rightarrow> bool" where
  "on_disk ip s \<longleftrightarrow> cok {} s \<and> held s = {} \<and> avail s \<noteq> {} \<and> vdev (i_dev (ilist s ip)) \<and>
     (\<exists>m. mlook (i_dev (ilist s ip)) s = Some m \<and> i_inum (ilist s ip) \<noteq> 0 \<and> i_inum (ilist s ip) \<le> push_bit 4 (m_isize (mlist s m)))"

lemma mlook_cong: "mlist s' = mlist s \<Longrightarrow> mlook d s' = mlook d s"
  by (simp add: mlook_def)

lemma iio_read_block:
  assumes "on_disk ip s"
  obtains m f b s2 where "mlook (i_dev (ilist s ip)) s = Some m" "\<not> (i_inum (ilist s ip) = 0 \<or> i_inum (ilist s ip) > push_bit 4 (m_isize (mlist s m)))"
    "(if m_ronly (mlist s m) \<noteq> 0 then set_iflag IRONLY ip s else clr_iflag IRONLY ip s) = put_il ((ilist s)(ip := (ilist s ip)\<lparr>i_flags := f\<rparr>)) s"
    "bread (iblk (i_inum (ilist s ip))) (i_dev (ilist s ip)) (put_il ((ilist s)(ip := (ilist s ip)\<lparr>i_flags := f\<rparr>)) s) = Ret (Some b) s2"
    "holding {} {b} (put_il ((ilist s)(ip := (ilist s ip)\<lparr>i_flags := f\<rparr>)) s) s2" "view s2 = view s"
    "holds (blist s2 b) (i_dev (ilist s ip)) (iblk (i_inum (ilist s ip)))"
    "bdat b s2 = view s (i_dev (ilist s ip)) (iblk (i_inum (ilist s ip)))" "ilist s2 = (ilist s)(ip := (ilist s ip)\<lparr>i_flags := f\<rparr>)"
    "mlist s2 = mlist s"
proof -
  let ?x = "ilist s ip"
  from assms obtain m where m: "mlook (i_dev ?x) s = Some m" "i_inum ?x \<noteq> 0" "i_inum ?x \<le> push_bit 4 (m_isize (mlist s m))"
    and c: "cok {} s" "held s = {}" "avail s \<noteq> {}" "vdev (i_dev ?x)" by (auto simp: on_disk_def)
  define f where "f = (if m_ronly (mlist s m) \<noteq> 0 then i_flags ?x OR IRONLY else i_flags ?x AND NOT IRONLY)"
  define s1 where "s1 = put_il ((ilist s)(ip := ?x\<lparr>i_flags := f\<rparr>)) s"
  have e: "(if m_ronly (mlist s m) \<noteq> 0 then set_iflag IRONLY ip s else clr_iflag IRONLY ip s) = s1"
    by (simp add: s1_def put_il_def set_iflag_def clr_iflag_def upd_inode_def f_def)
  obtain b s2 where r: "bread (iblk (i_inum ?x)) (i_dev ?x) s1 = Ret (Some b) s2" "holding {} {b} s1 s2" "view s2 = view s1"
    "holds (blist s2 b) (i_dev ?x) (iblk (i_inum ?x))" "bdat b s2 = view s1 (i_dev ?x) (iblk (i_inum ?x))"
    by (rule hold_bread [OF holding_refl [of "{}" s1] c(4)]) (use c in \<open>auto simp: s1_def\<close>)
  show thesis
    using m e r bframe_same(3,5) [OF holdingD(1) [OF r(2)]]
    by (intro that [of m f b s2]) (auto simp: s1_def)
qed

text \<open>\<^verbatim>\<open>iio(IWRITE, ip)\<close> stores the inode at its place in its block, \<^verbatim>\<open>iio(IREAD, ip)\<close> fetches it from there.\<close>

lemma iio_write:
  assumes "on_disk ip s"
  defines "d \<equiv> (i_d (ilist s ip))\<lparr>d_size0 := fst (x4to3 (i_size (ilist s ip))), d_size1 := snd (x4to3 (i_size (ilist s ip)))\<rparr>"
  shows "\<exists>s' f. iio False ip s = Ret True s' \<and> ilist s' = (ilist s)(ip := (ilist s ip)\<lparr>i_d := d, i_flags := f\<rparr>) \<and>
    view s' = (view s)(i_dev (ilist s ip) := (view s (i_dev (ilist s ip)))(iblk (i_inum (ilist s ip)) :=
      dsk_put d (view s (i_dev (ilist s ip)) (iblk (i_inum (ilist s ip)))) (ioff (i_inum (ilist s ip))))) \<and>
    cok {} s' \<and> held s' = {} \<and> avail s' = avail s \<and> mlist s' = mlist s"
proof -
  let ?x = "ilist s ip" let ?dev = "i_dev ?x" let ?k = "iblk (i_inum ?x)"
  obtain m f b s2 where r: "mlook ?dev s = Some m" "\<not> (i_inum ?x = 0 \<or> i_inum ?x > push_bit 4 (m_isize (mlist s m)))"
    "(if m_ronly (mlist s m) \<noteq> 0 then set_iflag IRONLY ip s else clr_iflag IRONLY ip s) = put_il ((ilist s)(ip := ?x\<lparr>i_flags := f\<rparr>)) s"
    "bread ?k ?dev (put_il ((ilist s)(ip := ?x\<lparr>i_flags := f\<rparr>)) s) = Ret (Some b) s2"
    "holding {} {b} (put_il ((ilist s)(ip := ?x\<lparr>i_flags := f\<rparr>)) s) s2" "view s2 = view s" "holds (blist s2 b) ?dev ?k"
    "bdat b s2 = view s ?dev ?k" "ilist s2 = (ilist s)(ip := ?x\<lparr>i_flags := f\<rparr>)" "mlist s2 = mlist s"
    by (rule iio_read_block [OF assms(1)])
  define L where "L = (ilist s)(ip := ?x\<lparr>i_flags := f, i_d := d\<rparr>)"
  define y where "y = dsk_put d (view s ?dev ?k) (ioff (i_inum ?x))"
  have e: "upd_dsk ip (\<lambda>q. q\<lparr>d_size0 := fst (x4to3 (i_size ?x)), d_size1 := snd (x4to3 (i_size ?x))\<rparr>) s2 = put_il L s2"
    by (simp add: upd_dsk_def upd_inode_def put_il_def r(9) L_def d_def)
  have h: "holding {} {b} (put_il L s) (put_il L s2)" using holding_put_il [OF r(5), of L] by (simp add: put_il_def)
  have h1: "holding {b} {b} (put_il L s) (set_bdat b y (put_il L s2))" "holds (blist (put_il L s2) b) ?dev ?k" "vdev ?dev"
    using hold_set(1) [OF h, of b y] r(7) assms(1) by (simp_all add: on_disk_def)
  have "holds (blist (set_bdat b y (put_il L s2)) b) ?dev ?k" using h1(2) by simp
  from hold_bdwrite [OF h1(1) _ this h1(3)] obtain s5 where w: "bdwrite b (set_bdat b y (put_il L s2)) = Ret () s5"
    "holding ({b} - {b}) ({b} - {b}) (put_il L s) s5"
    "view s5 = (view (set_bdat b y (put_il L s2)))(?dev := (view (set_bdat b y (put_il L s2)) ?dev)(?k := bdat b (set_bdat b y (put_il L s2))))"
    by blast
  have v5: "view s5 = (view s)(?dev := (view s ?dev)(?k := y))"
    using hold_set(4) [OF h _ h1(2), of y y] by (simp add: w(3) r(6))
  note fr = bframe_same(3,5) [OF holdingD(1) [OF w(2)]]
  have "iio False ip s = Ret True (clr_iflag IMOD ip s5)"
    using r(1,2) w(1) by (simp add: iio_def Let_def r(3) iblk_def [symmetric] ioff_def [symmetric] r(4) r(9) split_beta e y_def L_def [symmetric] r(8))
      (simp add: L_def)
  moreover have "clr_iflag IMOD ip s5 = put_il (L(ip := ?x\<lparr>i_d := d, i_flags := f AND NOT IMOD\<rparr>)) s5"
    using fr by (simp add: clr_iflag_def upd_inode_def put_il_def L_def)
  moreover have "held s5 = {}" "avail s5 = avail s" "cok {} s5" using holdingD [OF w(2)] assms(1) by (simp_all add: on_disk_def)
  ultimately show ?thesis using v5 fr by (intro exI [of _ "clr_iflag IMOD ip s5"] exI [of _ "f AND NOT IMOD"]) (simp add: y_def L_def)
qed

lemma iio_read:
  assumes "on_disk ip s"
  defines "d \<equiv> dsk_get (view s (i_dev (ilist s ip)) (iblk (i_inum (ilist s ip)))) (ioff (i_inum (ilist s ip)))"
  shows "\<exists>s' f. iio True ip s = Ret True s' \<and>
    ilist s' = (ilist s)(ip := (ilist s ip)\<lparr>i_d := d, i_size := x3to4 (d_size0 d) (d_size1 d), i_flags := f\<rparr>) \<and>
    view s' = view s \<and> cok {} s' \<and> held s' = {} \<and> mlist s' = mlist s \<and> bframe (put_il (ilist s') s) s'"
proof -
  let ?x = "ilist s ip" let ?dev = "i_dev ?x" let ?k = "iblk (i_inum ?x)"
  obtain m f b s2 where r: "mlook ?dev s = Some m" "\<not> (i_inum ?x = 0 \<or> i_inum ?x > push_bit 4 (m_isize (mlist s m)))"
    "(if m_ronly (mlist s m) \<noteq> 0 then set_iflag IRONLY ip s else clr_iflag IRONLY ip s) = put_il ((ilist s)(ip := ?x\<lparr>i_flags := f\<rparr>)) s"
    "bread ?k ?dev (put_il ((ilist s)(ip := ?x\<lparr>i_flags := f\<rparr>)) s) = Ret (Some b) s2"
    "holding {} {b} (put_il ((ilist s)(ip := ?x\<lparr>i_flags := f\<rparr>)) s) s2" "view s2 = view s" "holds (blist s2 b) ?dev ?k"
    "bdat b s2 = view s ?dev ?k" "ilist s2 = (ilist s)(ip := ?x\<lparr>i_flags := f\<rparr>)" "mlist s2 = mlist s"
    by (rule iio_read_block [OF assms(1)])
  define L where "L = (ilist s)(ip := ?x\<lparr>i_flags := f, i_d := d\<rparr>)"
  have e: "upd_dsk ip (\<lambda>_. d) s2 = put_il L s2" by (simp add: upd_dsk_def upd_inode_def put_il_def r(9) L_def)
  have h: "holding {} {b} (put_il L s) (put_il L s2)" using holding_put_il [OF r(5), of L] by (simp add: put_il_def)
  obtain s3 where w: "brelse b (put_il L s2) = Ret () s3" "holding {} ({b} - {b}) (put_il L s) s3" "view s3 = view (put_il L s2)"
    by (rule hold_brelse [OF h]) auto
  note fr = bframe_same(3,5) [OF holdingD(1) [OF w(2)]]
  have "iio True ip s = Ret True (clr_iflag IMOD ip (upd_inode ip (\<lambda>x. x\<lparr>i_size := x3to4 (d_size0 (i_d x)) (d_size1 (i_d x))\<rparr>) s3))"
    using r(1,2) w(1) by (simp add: iio_def Let_def r(3) iblk_def [symmetric] ioff_def [symmetric] r(4) r(9) r(8) d_def [symmetric] e)
  moreover have "clr_iflag IMOD ip (upd_inode ip (\<lambda>x. x\<lparr>i_size := x3to4 (d_size0 (i_d x)) (d_size1 (i_d x))\<rparr>) s3) =
      put_il (L(ip := ?x\<lparr>i_d := d, i_size := x3to4 (d_size0 d) (d_size1 d), i_flags := f AND NOT IMOD\<rparr>)) s3"
    using fr by (simp add: clr_iflag_def upd_inode_def put_il_def L_def)
  moreover have "held s3 = {}" "cok {} s3" using holdingD [OF w(2)] assms(1) by (simp_all add: on_disk_def)
  moreover have "bframe (put_il K s) (put_il K s3)" for K
    using holdingD(1) [OF holding_put_il [OF w(2), of K]] by (simp add: put_il_def)
  ultimately show ?thesis
    using w(3) r(6) fr by (intro exI [of _ "put_il (L(ip := ?x\<lparr>i_d := d, i_size := x3to4 (d_size0 d) (d_size1 d), i_flags := f AND NOT IMOD\<rparr>)) s3"]
      exI [of _ "f AND NOT IMOD"]) (simp add: L_def)
qed

section \<open>Properties\<close>

text \<open>
  C5. The inode lock excludes: in every state that processes can reach from one without locks by calls of \<^verbatim>\<open>ilock\<close> (and resumptions of it after a
  sleep), \<^verbatim>\<open>irelse\<close> by owners and process switches, \<^verbatim>\<open>ilock\<close> lets a process through only when nobody owns the inode, so an owner
  is never replaced before it released.
\<close>

theorem ilock_excludes:
  assumes "unlocked s" "lstep\<^sup>*\<^sup>* (lock_start s) t"
  shows "(\<forall>ip s'. ilock ip (lk t) = Ret () s' \<or> ilock_loop ip (lk t) = Ret () s' \<longrightarrow> owner t ip = None) \<and>
    (\<forall>t' ip p. lstep t t' \<longrightarrow> owner t ip = Some p \<longrightarrow> owner t' ip = Some p \<or> owner t' ip = None \<and> u_p (u (lk t)) = p)"
proof -
  have i: "lock_inv t" using lock_inv_reach assms lock_start_inv by blast
  have g: "owner t ip = None" if "ilock ip (lk t) = Ret () s' \<or> ilock_loop ip (lk t) = Ret () s'" for ip s'
    using that lock_inv_grant(1) [OF i, of ip "iref ip (lk t)" s'] lock_inv_grant(1) [OF i, of ip "lk t" s'] by (auto simp: ilock_alt)
  moreover have "owner t' ip = Some p \<or> owner t' ip = None \<and> u_p (u (lk t)) = p" if "lstep t t'" "owner t ip = Some p" for t' ip p
    using that(1)
  proof cases
    case (lock p' ip' s') then show ?thesis using g [of ip' s'] that(2) by (cases "ip' = ip") auto
  next
    case (resume p' ip' s') then show ?thesis using g [of ip' s'] that(2) by (cases "ip' = ip") auto
  next
    case (release p' ip' s') then show ?thesis using that(2) by (cases "ip' = ip") auto
  qed (use that(2) in auto)
  ultimately show ?thesis by blast
qed

definition lock_kernel2 :: kst where
  "lock_kernel2 = kst0\<lparr>u := user0\<lparr>u_p := 5\<rparr>, plist := (\<lambda>_. proc0\<lparr>p_mode := ALLOC OR ALIVE OR AWAKE OR LOADED\<rparr>)\<rparr>"

lemma lock_kernel2_unlocked: "unlocked lock_kernel2"
  by (simp add: unlocked_def swapok_def lock_kernel2_def zero_defs tst_def)

text \<open>Process 5 locks inode 3, process 6 gets to run.\<close>

definition lock_run :: lockst where
  "lock_run = (let s1 = upd_inode 3 (\<lambda>x. x\<lparr>i_flags := i_flags x OR IBUSY, i_count := i_count x - 1\<rparr>) (iref 3 lock_kernel2)
     in \<lparr>lk = s1\<lparr>u := (u s1)\<lparr>u_p := 6\<rparr>\<rparr>, owner = (\<lambda>_. None)(3 := Some 5), waits = (\<lambda>_. None)\<rparr>)"

lemma lock_run_reached: "lstep\<^sup>*\<^sup>* (lock_start lock_kernel2) lock_run"
proof -
  define s1 where "s1 = upd_inode 3 (\<lambda>x. x\<lparr>i_flags := i_flags x OR IBUSY, i_count := i_count x - 1\<rparr>) (iref 3 lock_kernel2)"
  let ?t1 = "(lock_start lock_kernel2)\<lparr>lk := s1, owner := (\<lambda>_. None)(3 := Some 5)\<rparr>"
  have "ilock 3 lock_kernel2 = Ret () s1" by (simp add: ilock_alt ilock_loop_def s1_def) (simp add: lock_kernel2_def zero_defs)
  then have "lstep (lock_start lock_kernel2) ((lock_start lock_kernel2)\<lparr>lk := s1, owner := (owner (lock_start lock_kernel2))(3 := Some 5)\<rparr>)"
    by (intro lstep.lock) (simp_all add: lock_start_def lock_kernel2_def zero_defs)
  then have "lstep (lock_start lock_kernel2) ?t1" by (simp add: lock_start_def)
  moreover have "lstep ?t1 (?t1\<lparr>lk := (lk ?t1)\<lparr>u := (u (lk ?t1))\<lparr>u_p := 6\<rparr>\<rparr>\<rparr>)"
    by (intro lstep.switch) (simp_all add: s1_def upd_inode_def iref_def lock_kernel2_def zero_defs runnable_def alls_def)
  moreover have "?t1\<lparr>lk := (lk ?t1)\<lparr>u := (u (lk ?t1))\<lparr>u_p := 6\<rparr>\<rparr>\<rparr> = lock_run" by (simp add: lock_run_def s1_def lock_start_def Let_def)
  ultimately show ?thesis by (metis converse_rtranclp_into_rtranclp rtranclp.rtrancl_refl)
qed

theorem ilock_excludes_witness:
  "owner lock_run 3 = Some 5 \<and> (\<nexists>s'. ilock 3 (lk lock_run) = Ret () s') \<and> (\<nexists>t'. lstep lock_run t' \<and> owner t' 3 \<noteq> Some 5)"
proof (intro conjI)
  note e = ilock_excludes [OF lock_kernel2_unlocked lock_run_reached]
  show o: "owner lock_run 3 = Some 5" by (simp add: lock_run_def Let_def)
  show "\<nexists>s'. ilock 3 (lk lock_run) = Ret () s'" using e o by force
  have "u_p (u (lk lock_run)) \<noteq> 5" by (simp add: lock_run_def Let_def)
  then show "\<nexists>t'. lstep lock_run t' \<and> owner t' 3 \<noteq> Some 5" using e o by metis
qed

text \<open>
  C16. No process is left asleep on an inode nobody owns: in every reachable state a process sleeping on an inode has an owner to wait for, and
  when that owner calls \<^verbatim>\<open>irelse\<close>, which returns, every process sleeping on the inode is woken.
\<close>

theorem irelse_wakes_all:
  assumes "unlocked s" "lstep\<^sup>*\<^sup>* (lock_start s) t"
  shows "(\<forall>q<NPROC. \<forall>ip. p_event (plist (lk t) q) = ChInode ip \<longrightarrow> owner t ip \<noteq> None) \<and>
    (\<forall>ip. \<exists>s'. irelse ip (lk t) = Ret () s' \<and> (\<forall>q<NPROC. p_event (plist s' q) \<noteq> ChInode ip) \<and>
       (\<forall>q<NPROC. p_event (plist (lk t) q) = ChInode ip \<longrightarrow> tst (p_mode (plist s' q)) AWAKE))"
proof -
  have i: "lock_inv t" using lock_inv_reach assms lock_start_inv by blast
  have "\<exists>s'. irelse ip (lk t) = Ret () s' \<and> (\<forall>q<NPROC. p_event (plist s' q) \<noteq> ChInode ip) \<and>
       (\<forall>q<NPROC. p_event (plist (lk t) q) = ChInode ip \<longrightarrow> tst (p_mode (plist s' q)) AWAKE)" for ip
  proof -
    have ok: "swapok (lk t)" using i by (simp add: lock_inv_def)
    obtain s2 where e: "irelse ip (lk t) = Ret () s2"
      "\<And>q. q < NPROC \<Longrightarrow> tst (i_flags (ilist (lk t) ip)) IWANT \<Longrightarrow> p_event (plist (lk t) q) = ChInode ip \<Longrightarrow> plist s2 q = awk (plist (lk t) q)"
      by (rule irelse_spec [OF ok, of ip]) blast
    have "tst (p_mode (plist s2 q)) AWAKE" if "q < NPROC" "p_event (plist (lk t) q) = ChInode ip" for q
      using e(2) [OF that(1) _ that(2)] i that by (auto simp: lock_inv_def)
    then show ?thesis using e(1) lock_inv_release(2) [OF i e(1)] by blast
  qed
  moreover have "\<forall>q<NPROC. \<forall>ip. p_event (plist (lk t) q) = ChInode ip \<longrightarrow> owner t ip \<noteq> None" using i unfolding lock_inv_def by blast
  ultimately show ?thesis by blast
qed

theorem irelse_wakes_all_witness:
  "\<exists>s'. irelse 3 (lk lock_run) = Ret () s' \<and> (\<forall>q<NPROC. p_event (plist s' q) \<noteq> ChInode 3)"
  using irelse_wakes_all [OF lock_kernel2_unlocked lock_run_reached] by metis

text \<open>
  C15. An inode survives the disk: \<^verbatim>\<open>iio(IWRITE, ip)\<close> followed by \<^verbatim>\<open>iio(IREAD, ip)\<close>, both without error, leave mode, links, owner, size, addresses and
  times as they were (file sizes have 24 bits), and the write changes no byte of any disk outside the 32 bytes of this inode.
\<close>

theorem inode_roundtrip:
  assumes "on_disk ip s" "i_size (ilist s ip) < 0x1000000" "\<And>j. j \<ge> 8 \<Longrightarrow> d_addr (i_d (ilist s ip)) j = 0"
  defines "z \<equiv> x4to3 (i_size (ilist s ip))"
  shows "\<exists>s' s''. iio False ip s = Ret True s' \<and> iio True ip s' = Ret True s'' \<and>
    i_size (ilist s'' ip) = i_size (ilist s ip) \<and> i_d (ilist s'' ip) = (i_d (ilist s ip))\<lparr>d_size0 := fst z, d_size1 := snd z\<rparr> \<and>
    (\<forall>d k i. (d, k) \<noteq> (i_dev (ilist s ip), iblk (i_inum (ilist s ip))) \<or> i < ioff (i_inum (ilist s ip)) \<or> ioff (i_inum (ilist s ip)) + 32 \<le> i
       \<longrightarrow> view s'' d k i = view s d k i)"
proof -
  let ?x = "ilist s ip"
  define d where "d = (i_d ?x)\<lparr>d_size0 := fst z, d_size1 := snd z\<rparr>"
  obtain s' f where w: "iio False ip s = Ret True s'" "ilist s' = (ilist s)(ip := ?x\<lparr>i_d := d, i_flags := f\<rparr>)"
    "view s' = (view s)(i_dev ?x := (view s (i_dev ?x))(iblk (i_inum ?x) := dsk_put d (view s (i_dev ?x) (iblk (i_inum ?x))) (ioff (i_inum ?x))))"
    "cok {} s'" "held s' = {}" "avail s' = avail s" "mlist s' = mlist s"
    using iio_write [OF assms(1)] unfolding d_def z_def by blast
  have on: "on_disk ip s'" using assms(1) w mlook_cong [OF w(7)] by (simp add: on_disk_def)
  have x': "ilist s' ip = ?x\<lparr>i_d := d, i_flags := f\<rparr>" using w(2) by simp
  obtain s'' g where r: "iio True ip s' = Ret True s''" "view s'' = view s'"
    "ilist s'' ip = (ilist s' ip)\<lparr>i_d := d, i_size := x3to4 (d_size0 d) (d_size1 d), i_flags := g\<rparr>"
    using iio_read [OF on] dsk_get_put [of d] assms(3) by (auto simp: x' w(3) d_def)
  have "i_size (ilist s'' ip) = i_size ?x" using r(3) x3to4_x4to3 [OF assms(2)] by (simp add: d_def z_def)
  moreover have "view s'' e k i = view s e k i"
    if "(e, k) \<noteq> (i_dev ?x, iblk (i_inum ?x)) \<or> i < ioff (i_inum ?x) \<or> ioff (i_inum ?x) + 32 \<le> i" for e k i
    using that dsk_put_out by (auto simp: r(2) w(3))
  ultimately show ?thesis using w(1) r(1,3) by (auto simp: d_def)
qed

definition inode_kernel :: kst where
  "inode_kernel = kst0\<lparr>nbuf := 2, plist := (\<lambda>_. proc0\<lparr>p_mode := LOADED\<rparr>),
     ilist := (\<lambda>_. inode0)(3 := inode0\<lparr>i_dev := 0x0208, i_inum := 5, i_size := 70000, i_d := dsk0\<lparr>d_mode := 0x81A4, d_nlink := 1\<rparr>\<rparr>),
     mlist := (\<lambda>_. mount0)(0 := mount0\<lparr>m_dev := 0x0208, m_isize := 2\<rparr>)\<rparr>"

lemma inode_kernel_on_disk: "on_disk 3 inode_kernel"
proof -
  have v: "vdev 0x0208" "\<not> vdev 0" by (simp_all add: vdev_def bmajor_def major_def drop_bit_eq_div)
  have f: "\<not> bdone buf0" "\<not> bdel buf0" "\<not> bbusy buf0" "\<not> blocked buf0" "\<not> berr buf0" "b_dev buf0 = 0"
    by (simp_all add: bflag_defs buf0_def)
  have c: "cok {} inode_kernel"
    using v by (auto simp: cok_def swapok_def drv_ok_def ramdrv_def cinv_def holds_def inode_kernel_def kst0_def f proc0_def tst_def)
  have "0 \<in> avail inode_kernel" by (simp add: avail_def inode_kernel_def kst0_def f)
  then have h: "held inode_kernel = {}" "avail inode_kernel \<noteq> {}" by (auto simp: held_def inode_kernel_def kst0_def f)
  have m: "mlook 0x0208 inode_kernel = Some 0" by (auto simp: mlook_def scan_Some_iff inode_kernel_def)
  show ?thesis using c h m v unfolding on_disk_def by (simp add: inode_kernel_def mount0_def push_bit_eq_mult)
qed

theorem inode_roundtrip_witness:
  "\<exists>s' s''. iio False 3 inode_kernel = Ret True s' \<and> iio True 3 s' = Ret True s'' \<and>
    i_size (ilist s'' 3) = i_size (ilist inode_kernel 3) \<and>
    i_d (ilist s'' 3) = (i_d (ilist inode_kernel 3))\<lparr>d_size0 := fst (x4to3 (i_size (ilist inode_kernel 3))), d_size1 := snd (x4to3 (i_size (ilist inode_kernel 3)))\<rparr> \<and>
    (\<forall>d k i. (d, k) \<noteq> (i_dev (ilist inode_kernel 3), iblk (i_inum (ilist inode_kernel 3))) \<or> i < ioff (i_inum (ilist inode_kernel 3)) \<or>
       ioff (i_inum (ilist inode_kernel 3)) + 32 \<le> i \<longrightarrow> view s'' d k i = view inode_kernel d k i)"
  by (rule inode_roundtrip [OF inode_kernel_on_disk]) (simp_all add: inode_kernel_def dsk0_def)

text \<open>
  What \<^verbatim>\<open>access\<close> decides. Writing is refused on a read-only file system (except to devices) and while the file is locked against writing, also to the
  super-user. Otherwise the super-user may read and write everything and execute what anybody may execute; for other users all the bits asked for
  have to be granted by one of the three classes (others, group, owner) they belong to. A refusal sets the error, a grant changes nothing.
\<close>

lemma access_rules:
  fixes ip :: nat and perm :: u16 and s :: kst
  defines "x \<equiv> ilist s ip"
  defines "wr \<equiv> tst perm IWRITE"
  defines "may \<equiv> (if u_euid s = 0 then tst perm IEXEC \<longrightarrow> tst (i_mode x) 0x49
     else perm AND i_mode x = perm \<or> u_egid s = d_gid (i_d x) \<and> push_bit 3 perm AND i_mode x = push_bit 3 perm \<or>
          u_euid s = d_uid (i_d x) \<and> push_bit 6 perm AND i_mode x = push_bit 6 perm)"
  shows "access ip perm s =
    (if wr \<and> \<not> tst (i_mode x) IIO \<and> tst (i_flags x) IRONLY then (False, set_error EROFS s)
     else if wr \<and> tst (i_flags x) IWRLOCK then (False, set_error EBUSY s)
     else if may then (True, s) else (False, set_error EACCES s))"
proof -
  have p6: "push_bit 3 (push_bit 3 perm) = push_bit 6 perm" by (simp add: push_bit_push_bit)
  have m: "IEXEC OR push_bit 3 IEXEC OR push_bit 6 IEXEC = (0x49 :: u16)" by (simp add: push_bit_eq_mult)
  show ?thesis unfolding access_def ronly_def Let_def p6 m may_def wr_def x_def by simp
qed

end
