(* ===== verification/Queue.thy ===== *)
theory Queue
  imports Prelude
begin

text \<open>
  Terminal character queues (\<^verbatim>\<open>sys/queue.c\<close>). A queue is a chain of 16-byte blocks, a link and 14
  characters, taken from a free list that all queues share. Pointers are addresses, 0 is null; blocks
  are aligned to 16, which \<^verbatim>\<open>cinit\<close> of \<^verbatim>\<open>cus.c\<close> sees to, so that \<^verbatim>\<open>& 15\<close> finds the end of a block.
\<close>

section \<open>Operations\<close>

abbreviation (input) TTYHOG :: u8 where "TTYHOG \<equiv> 200"

record cst =
  cnext :: "nat \<Rightarrow> nat"
  cdat :: "nat \<Rightarrow> u8"
  cfree :: nat

record que =
  q_count :: u8
  q_first :: nat
  q_last :: nat

definition qinit :: que where
  "qinit = \<lparr>q_count = 0, q_first = 0, q_last = 0\<rparr>"

definition calign :: "nat \<Rightarrow> nat" where
  "calign a = (a - 1) div 16 * 16"

definition qalloc :: "que \<Rightarrow> cst \<Rightarrow> bool \<times> que \<times> cst" where
  "qalloc q c =
     (let reuse = (q_count q = 0 \<and> q_last q \<noteq> 0);
          new = (if reuse then q_last q - 16 else cfree c);
          q1 = (if reuse then q\<lparr>q_last := 0\<rparr> else q);
          c1 = (if reuse then c else c\<lparr>cfree := cnext c (cfree c)\<rparr>) in
      if \<not> reuse \<and> cfree c = 0 then (False, q, c)
      else
        let (q2, c2) = (if q_last q1 \<noteq> 0 then (q1, c1\<lparr>cnext := (cnext c1)(q_last q1 - 16 := new)\<rparr>)
                        else (q1\<lparr>q_first := new + 2\<rparr>, c1))
        in (True, q2\<lparr>q_last := new + 2\<rparr>, c2\<lparr>cnext := (cnext c2)(new := 0)\<rparr>))"

definition qfree :: "que \<Rightarrow> cst \<Rightarrow> bool \<times> que \<times> cst" where
  "qfree q c =
     (if q_first q = 0 then (False, qinit, c)
      else
        let old = q_first q - 16; new = cnext c old;
            c1 = c\<lparr>cnext := (cnext c)(old := cfree c), cfree := old\<rparr>
        in if new \<noteq> 0 then (True, q\<lparr>q_first := new + 2\<rparr>, c1) else (False, qinit, c1))"

definition qrelse :: "que \<Rightarrow> cst \<Rightarrow> que \<times> cst" where
  "qrelse q c =
     (if q_first q = 0 then (q, c)
      else let b = calign (q_first q) + 16 in snd (qfree (q\<lparr>q_first := b, q_last := b\<rparr>) c))"

definition putc :: "que \<Rightarrow> u8 \<Rightarrow> cst \<Rightarrow> bool \<times> que \<times> cst" where
  "putc q ch c =
     (if q_count q \<ge> TTYHOG then (False, q, c)
      else
        let (ok, q1, c1) = (if q_last q mod 16 \<noteq> 0 then (True, q, c) else qalloc q c) in
        if ok then (True, q1\<lparr>q_count := q_count q1 + 1, q_last := q_last q1 + 1\<rparr>, c1\<lparr>cdat := (cdat c1)(q_last q1 := ch)\<rparr>)
        else (False, q1, c1))"

text \<open>\<^verbatim>\<open>getc\<close> returns the character with its sign extended, as \<^verbatim>\<open>char\<close> is signed, or -1.\<close>

definition getc :: "que \<Rightarrow> cst \<Rightarrow> u16 \<times> que \<times> cst" where
  "getc q c =
     (let (ok, q1, c1) = (if q_count q = 0 then (False, q, c)
                          else if q_first q mod 16 \<noteq> 0 then (True, q, c) else qfree q c);
          (r, q2) = (if ok then (scast (cdat c1 (q_first q1)), q1\<lparr>q_count := q_count q1 - 1, q_first := q_first q1 + 1\<rparr>)
                     else (0xFFFF, q1));
          (q3, c3) = (if q_count q2 = 0 then qrelse q2 c1 else (q2, c1))
      in (r, q3, c3))"

definition drain :: "que \<Rightarrow> cst \<Rightarrow> que \<times> cst" where
  "drain q c =
     (qinit, if q_first q \<noteq> 0 \<and> q_last q \<noteq> 0
             then c\<lparr>cnext := (cnext c)(calign (q_last q) := cfree c), cfree := calign (q_first q)\<rparr> else c)"

section \<open>Representation\<close>

text \<open>
  A list of blocks linked by \<^verbatim>\<open>next\<close>, and the addresses of the characters between \<^verbatim>\<open>first\<close> and \<^verbatim>\<open>last\<close>.
\<close>

fun cpath :: "(nat \<Rightarrow> nat) \<Rightarrow> nat \<Rightarrow> nat list \<Rightarrow> bool" where
  "cpath nx p [] \<longleftrightarrow> p = 0"
| "cpath nx p (b # bs) \<longleftrightarrow> p = b \<and> b \<noteq> 0 \<and> b mod 16 = 0 \<and> cpath nx (nx b) bs"

fun span :: "nat list \<Rightarrow> nat \<Rightarrow> nat \<Rightarrow> nat list" where
  "span [] f l = []"
| "span [b] f l = [f..<l]"
| "span (b # b' # bs) f l = [f..<b + 16] @ span (b' # bs) (b' + 2) l"

definition qrep :: "cst \<Rightarrow> que \<Rightarrow> nat list \<Rightarrow> bool" where
  "qrep c q bs \<longleftrightarrow> distinct bs \<and> cpath (cnext c) (if bs = [] then 0 else hd bs) bs \<and>
     unat (q_count q) = length (span bs (q_first q) (q_last q)) \<and>
     (if bs = [] then q = qinit
      else q_count q \<noteq> 0 \<and> hd bs + 2 \<le> q_first q \<and> q_first q \<le> hd bs + 16 \<and>
           last bs + 2 < q_last q \<and> q_last q \<le> last bs + 16)"

definition qtext :: "cst \<Rightarrow> que \<Rightarrow> nat list \<Rightarrow> u8 list" where
  "qtext c q bs = map (cdat c) (span bs (q_first q) (q_last q))"

text \<open>\<open>qheap c q bs fs\<close>: the queue uses the blocks \<open>bs\<close>, the free list has the blocks \<open>fs\<close>.\<close>

definition qheap :: "cst \<Rightarrow> que \<Rightarrow> nat list \<Rightarrow> nat list \<Rightarrow> bool" where
  "qheap c q bs fs \<longleftrightarrow> qrep c q bs \<and> cpath (cnext c) (cfree c) fs \<and> distinct fs \<and> set bs \<inter> set fs = {}"

lemma cpath_upd [simp]: "x \<notin> set bs \<Longrightarrow> cpath (nx(x := y)) p bs = cpath nx p bs"
  by (induction bs arbitrary: p) auto

lemma cpath_blocks: "cpath nx p bs \<Longrightarrow> b \<in> set bs \<Longrightarrow> b \<noteq> 0 \<and> b mod 16 = 0"
  by (induction bs arbitrary: p) auto

lemma cpath_head: "cpath nx p bs \<Longrightarrow> p = (if bs = [] then 0 else hd bs)"
  by (cases bs) auto

lemma cpath_snoc:
  "cpath nx p bs \<Longrightarrow> bs \<noteq> [] \<Longrightarrow> distinct bs \<Longrightarrow> n \<notin> set bs \<Longrightarrow> n \<noteq> 0 \<Longrightarrow> n mod 16 = 0 \<Longrightarrow>
   cpath (nx(last bs := n, n := 0)) p (bs @ [n])"
proof (induction bs arbitrary: p)
  case (Cons b bs)
  show ?case
  proof (cases "bs = []")
    case True with Cons show ?thesis by auto
  next
    case False
    with Cons.prems have "last bs \<noteq> b" by (metis distinct.simps(2) last_in_set)
    with False Cons.prems Cons.IH [of "nx b"] show ?thesis by simp
  qed
qed simp

lemma span_snoc:
  "bs \<noteq> [] \<Longrightarrow> (length bs = 1 \<Longrightarrow> f \<le> l) \<Longrightarrow> last bs + 2 \<le> l \<Longrightarrow> span bs f (Suc l) = span bs f l @ [l]"
  by (induction bs f l rule: span.induct) (auto split: if_splits)

lemma span_new:
  "bs \<noteq> [] \<Longrightarrow> span (bs @ [n]) f (n + 3) = span bs f (last bs + 16) @ [n + 2]"
  by (induction bs f "n + 3" rule: span.induct) (auto simp: numeral_3_eq_3)

lemma span_first:
  "f < b + 16 \<Longrightarrow> (bs = [] \<Longrightarrow> f < l) \<Longrightarrow> span (b # bs) f l = f # span (b # bs) (Suc f) l"
  by (cases bs) (auto simp: upt_conv_Cons)

lemma span_range:
  "x \<in> set (span bs f l) \<Longrightarrow> bs \<noteq> [] \<Longrightarrow> hd bs + 2 \<le> f \<Longrightarrow> l \<le> last bs + 16 \<Longrightarrow> \<exists>b\<in>set bs. b + 2 \<le> x \<and> x < b + 16"
proof (induction bs f l rule: span.induct)
  case (3 b b' bs f l)
  then show ?case by (auto split: if_splits)
qed auto

lemma block_of:
  assumes "(b::nat) mod 16 = 0" "b \<le> x" "x < b + 16"
  shows "x div 16 * 16 = b"
proof -
  from assms(1) obtain k where k: "b = 16 * k" by (auto simp: mod_eq_0_iff_dvd elim: dvdE)
  have "x div 16 = k" using assms(2,3) unfolding k by (intro div_nat_eqI) auto
  with k show ?thesis by simp
qed

lemma span_fresh:
  assumes "cpath nx p bs" "bs \<noteq> []" "hd bs + 2 \<le> f" "l \<le> last bs + 16" "n mod 16 = 0" "n \<notin> set bs" "n \<le> x" "x < n + 16"
  shows "x \<notin> set (span bs f l)"
proof
  assume "x \<in> set (span bs f l)"
  from span_range [OF this assms(2,3,4)] obtain b where b: "b \<in> set bs" "b + 2 \<le> x" "x < b + 16" by blast
  with cpath_blocks [OF assms(1)] have "x div 16 * 16 = b" by (intro block_of) auto
  moreover have "x div 16 * 16 = n" using assms by (intro block_of) auto
  ultimately show False using assms b by simp
qed

lemma span_end_fresh:
  "cpath nx p bs \<Longrightarrow> bs \<noteq> [] \<Longrightarrow> distinct bs \<Longrightarrow> hd bs + 2 \<le> f \<Longrightarrow> last bs + 2 \<le> l \<Longrightarrow> l < last bs + 16 \<Longrightarrow>
   l \<notin> set (span bs f l)"
proof (induction bs f l arbitrary: p rule: span.induct)
  case (3 b b' bs f l)
  from 3 have "l \<notin> set (span (b' # bs) (b' + 2) l)" by auto
  moreover have "l \<notin> set [f..<b + 16]"
  proof
    assume "l \<in> set [f..<b + 16]"
    then have "l div 16 * 16 = b" using "3.prems" by (intro block_of) auto
    moreover have "l div 16 * 16 = last (b' # bs)"
      using "3.prems" cpath_blocks [of nx p "b # b' # bs" "last (b' # bs)"]
      by (intro block_of) (auto split: if_splits)
    ultimately show False using "3.prems" by (metis distinct.simps(2) last_in_set list.distinct(1))
  qed
  ultimately show ?case by simp
qed auto

definition room :: "que \<times> cst \<Rightarrow> bool" where
  "room x \<longleftrightarrow> q_count (fst x) < TTYHOG \<and> (q_last (fst x) mod 16 \<noteq> 0 \<or> cfree (snd x) \<noteq> 0)"

text \<open>What an operation leaves alone: links and characters of blocks that are not its own.\<close>

definition cframe :: "nat set \<Rightarrow> cst \<Rightarrow> cst \<Rightarrow> bool" where
  "cframe B c c' \<longleftrightarrow> (\<forall>b. b \<notin> B \<longrightarrow> cnext c' b = cnext c b) \<and> (\<forall>x. x div 16 * 16 \<notin> B \<longrightarrow> cdat c' x = cdat c x)"

lemma qrepD:
  assumes "qrep c q bs" "bs \<noteq> []"
  shows "distinct bs" "cpath (cnext c) (hd bs) bs" "unat (q_count q) = length (span bs (q_first q) (q_last q))"
    "hd bs + 2 \<le> q_first q" "q_first q \<le> hd bs + 16" "last bs + 2 < q_last q" "q_last q \<le> last bs + 16"
    "q_count q \<noteq> 0" "length bs = 1 \<Longrightarrow> q_first q < q_last q" "last bs mod 16 = 0" "last bs \<noteq> 0" "hd bs mod 16 = 0" "hd bs \<noteq> 0"
proof -
  show "distinct bs" "cpath (cnext c) (hd bs) bs" "unat (q_count q) = length (span bs (q_first q) (q_last q))"
    "hd bs + 2 \<le> q_first q" "q_first q \<le> hd bs + 16" "last bs + 2 < q_last q" "q_last q \<le> last bs + 16" "q_count q \<noteq> 0"
    using assms by (auto simp: qrep_def)
  then show "length bs = 1 \<Longrightarrow> q_first q < q_last q"
    by (cases bs) (auto simp: length_Suc_conv unat_eq_0 [symmetric] simp del: unat_eq_0)
  show "last bs mod 16 = 0" "last bs \<noteq> 0" "hd bs mod 16 = 0" "hd bs \<noteq> 0"
    using cpath_blocks [OF \<open>cpath (cnext c) (hd bs) bs\<close>] assms(2) by auto
qed

lemma count_Suc: "(n::u8) < TTYHOG \<Longrightarrow> unat (n + 1) = Suc (unat n) \<and> n + 1 \<noteq> 0"
proof -
  assume "n < TTYHOG"
  then have "unat n < 200" by (simp add: word_less_nat_alt)
  then have "unat (n + 1) = Suc (unat n)" by (subst unat_plus_if') simp
  then show ?thesis by (metis unat_eq_zero nat.distinct(1))
qed

lemma putc_room_here:
  assumes h: "qheap c q bs fs" and r: "q_count q < TTYHOG" "q_last q mod 16 \<noteq> 0"
  obtains q' c' where "putc q ch c = (True, q', c')" "qheap c' q' bs fs" "qtext c' q' bs = qtext c q bs @ [ch]"
    "cframe (set bs) c c'"
proof -
  let ?q' = "q\<lparr>q_count := q_count q + 1, q_last := q_last q + 1\<rparr>" and ?c' = "c\<lparr>cdat := (cdat c)(q_last q := ch)\<rparr>"
  from h r(2) have ne: "bs \<noteq> []" by (auto simp: qheap_def qrep_def qinit_def)
  from h have rep: "qrep c q bs" by (simp add: qheap_def)
  note d = qrepD [OF rep ne]
  have l: "q_last q < last bs + 16"
  proof -
    have "q_last q \<noteq> last bs + 16" using r(2) d(10) by (metis mod_add_self2)
    with d(7) show ?thesis by simp
  qed
  have sp: "span bs (q_first q) (Suc (q_last q)) = span bs (q_first q) (q_last q) @ [q_last q]"
    using d(6,9) ne by (intro span_snoc) auto
  have fresh: "q_last q \<notin> set (span bs (q_first q) (q_last q))"
    using d l ne by (intro span_end_fresh) auto
  have "putc q ch c = (True, ?q', ?c')" using r by (simp add: putc_def)
  moreover have "qheap ?c' ?q' bs fs"
    using h ne d l sp count_Suc [OF r(1)] by (simp add: qheap_def qrep_def)
  moreover have "qtext ?c' ?q' bs = qtext c q bs @ [ch]" using sp fresh by (simp add: qtext_def)
  moreover have "q_last q div 16 * 16 = last bs" using d(6,10) l by (intro block_of) auto
  then have "cframe (set bs) c ?c'" using ne by (auto simp: cframe_def)
  ultimately show thesis using that by blast
qed

text \<open>At the end of a block a new one is linked in.\<close>

lemma qalloc_spec:
  assumes h: "qheap c q bs (n # fs)" and r: "q_last q mod 16 = 0"
  obtains q' c' where "qalloc q c = (True, q', c')" "cdat c' = cdat c" "q_count q' = q_count q" "q_last q' = n + 2"
    "q_first q' = (if bs = [] then n + 2 else q_first q)" "cfree c' = cnext c n"
    "cnext c' = (if bs = [] then (cnext c)(n := 0) else (cnext c)(last bs := n, n := 0))" "bs \<noteq> [] \<Longrightarrow> q_last q = last bs + 16"
proof -
  from h have rep: "qrep c q bs" and cf: "cfree c = n" "n \<noteq> 0" by (auto simp: qheap_def)
  show thesis
  proof (cases "bs = []")
    case True
    with rep have "q = qinit" by (simp add: qrep_def)
    with True cf show thesis
      by (intro that [of "\<lparr>q_count = 0, q_first = n + 2, q_last = n + 2\<rparr>" "c\<lparr>cfree := cnext c n, cnext := (cnext c)(n := 0)\<rparr>"])
        (simp_all add: qalloc_def qinit_def Let_def)
  next
    case False
    note d = qrepD [OF rep False]
    have "q_last q div 16 * 16 = q_last q" using r by auto
    moreover have "q_last q div 16 * 16 = last bs" if "q_last q < last bs + 16" using d(6,10) that by (intro block_of) auto
    ultimately have l: "q_last q = last bs + 16" using d(6,7) by (cases "q_last q < last bs + 16") auto
    with False cf d(8) show thesis
      by (intro that [of "q\<lparr>q_last := n + 2\<rparr>" "c\<lparr>cfree := cnext c n, cnext := (cnext c)(last bs := n, n := 0)\<rparr>"])
        (simp_all add: qalloc_def Let_def)
  qed
qed

lemma putc_room_new:
  assumes h: "qheap c q bs (n # fs)" and r: "q_count q < TTYHOG" "q_last q mod 16 = 0"
  obtains q' c' where "putc q ch c = (True, q', c')" "qheap c' q' (bs @ [n]) fs" "qtext c' q' (bs @ [n]) = qtext c q bs @ [ch]"
    "cframe (insert n (set bs)) c c'"
proof -
  from h have rep: "qrep c q bs" and f: "cpath (cnext c) (cnext c n) fs" "n \<noteq> 0" "n mod 16 = 0" "n \<notin> set fs" "distinct fs"
    "n \<notin> set bs" "set bs \<inter> set fs = {}" by (auto simp: qheap_def)
  from qalloc_spec [OF h r(2)] obtain q1 c1 where a: "qalloc q c = (True, q1, c1)" "cdat c1 = cdat c" "q_count q1 = q_count q"
    "q_last q1 = n + 2" "q_first q1 = (if bs = [] then n + 2 else q_first q)" "cfree c1 = cnext c n"
    "cnext c1 = (if bs = [] then (cnext c)(n := 0) else (cnext c)(last bs := n, n := 0))" "bs \<noteq> [] \<Longrightarrow> q_last q = last bs + 16"
    by metis
  let ?q' = "q1\<lparr>q_count := q_count q1 + 1, q_last := q_last q1 + 1\<rparr>" and ?c' = "c1\<lparr>cdat := (cdat c1)(n + 2 := ch)\<rparr>"
  have res: "putc q ch c = (True, ?q', ?c')" using r a(1,4) by (simp add: putc_def)
  have free: "cpath (cnext ?c') (cfree ?c') fs"
    using f a(6,7) last_in_set [of bs] by (auto simp: disjoint_iff)
  have fr: "cframe (insert n (set bs)) c ?c'"
    using a(2,7) block_of [OF f(3), of "n + 2"] last_in_set [of bs] by (auto simp: cframe_def)
  show thesis
  proof (cases "bs = []")
    case True
    with rep have q: "q = qinit" by (simp add: qrep_def)
    have "qheap ?c' ?q' (bs @ [n]) fs"
      using True free f a q by (auto simp: qheap_def qrep_def qinit_def)
    moreover have "qtext ?c' ?q' (bs @ [n]) = qtext c q bs @ [ch]" using True a by (simp add: qtext_def)
    ultimately show thesis using that res fr by blast
  next
    case False
    note d = qrepD [OF rep False]
    have sp: "span (bs @ [n]) (q_first q) (n + 3) = span bs (q_first q) (q_last q) @ [n + 2]"
      using span_new [OF False] a(8) False by simp
    have fresh: "n + 2 \<notin> set (span bs (q_first q) (q_last q))"
      using d False f by (intro span_fresh) auto
    have "cpath (cnext ?c') (hd bs) (bs @ [n])"
      using cpath_snoc [OF d(2) False d(1) f(6,2,3)] a(7) False by simp
    then have "qheap ?c' ?q' (bs @ [n]) fs"
      using False free f a d sp count_Suc [OF r(1)] by (simp add: qheap_def qrep_def numeral_3_eq_3)
    moreover have "qtext ?c' ?q' (bs @ [n]) = qtext c q bs @ [ch]"
      using sp fresh a False by (simp add: qtext_def numeral_3_eq_3)
    ultimately show thesis using that res fr by blast
  qed
qed

lemma putc_full:
  assumes h: "qheap c q bs fs" and r: "\<not> room (q, c)"
  shows "putc q ch c = (False, q, c)"
proof (cases "q_count q \<ge> TTYHOG")
  case False
  with r have "q_last q mod 16 = 0" "cfree c = 0" by (auto simp: room_def)
  moreover have "qalloc q c = (False, q, c)"
  proof -
    have "\<not> (q_count q = 0 \<and> q_last q \<noteq> 0)" using h by (auto simp: qheap_def qrep_def qinit_def split: if_splits)
    with \<open>cfree c = 0\<close> show ?thesis by (simp add: qalloc_def Let_def)
  qed
  ultimately show ?thesis using False by (simp add: putc_def)
qed (simp add: putc_def)

text \<open>Taking characters: \<open>qfree\<close> moves on to the next block, the last character releases the only block.\<close>

lemma span_nonempty: "bs \<noteq> [] \<Longrightarrow> last bs + 2 < l \<Longrightarrow> span bs (hd bs + 2) l \<noteq> []"
proof (induction bs "hd bs + 2" l rule: span.induct)
  case (3 b b' bs l)
  then show ?case by (simp add: upt_conv_Cons)
qed auto

lemma qfree_next:
  assumes h: "qheap c q bs fs" and ne: "bs \<noteq> []" and r: "q_first q mod 16 = 0"
  obtains b bs' q' c' where "bs = b # bs'" "qfree q c = (True, q', c')" "qheap c' q' bs' (b # fs)" "qtext c' q' bs' = qtext c q bs"
    "bs' \<noteq> []" "q_first q' mod 16 \<noteq> 0" "cframe {b} c c'"
proof -
  from h have rep: "qrep c q bs" by (simp add: qheap_def)
  note d = qrepD [OF rep ne]
  have "q_first q div 16 * 16 = q_first q" using r by auto
  moreover have "q_first q div 16 * 16 = hd bs" if "q_first q < hd bs + 16" using d(4,12) that by (intro block_of) auto
  ultimately have f: "q_first q = hd bs + 16" using d(4,5) by (cases "q_first q < hd bs + 16") auto
  obtain b b' bs'' where bs: "bs = b # b' # bs''"
    using ne d(7,9) f by (cases bs; cases "tl bs") auto
  let ?q' = "q\<lparr>q_first := b' + 2\<rparr>" and ?c' = "c\<lparr>cnext := (cnext c)(b := cfree c), cfree := b\<rparr>"
  have b: "b \<noteq> 0" "b mod 16 = 0" "b' \<noteq> 0" "b' mod 16 = 0" "cnext c b = b'" "b \<notin> set (b' # bs'')"
    using d(1,2) by (auto simp: bs)
  have "qfree q c = (True, ?q', ?c')" using f b by (simp add: qfree_def bs)
  moreover have "qheap ?c' ?q' (b' # bs'') (b # fs)"
    using h d f b by (auto simp: qheap_def qrep_def bs)
  moreover have "qtext ?c' ?q' (b' # bs'') = qtext c q bs" using f by (simp add: qtext_def bs)
  moreover have "(b' + 2) mod 16 \<noteq> 0" using b(4) mod_add_left_eq [of b' 16 2] by simp
  ultimately show thesis by (intro that [of b "b' # bs''" ?q' ?c']) (auto simp: bs cframe_def)
qed

lemma getc_here:
  assumes h: "qheap c q bs fs" and ne: "bs \<noteq> []" and r: "q_first q mod 16 \<noteq> 0"
  obtains q' c' bs' fs' where "getc q c = (scast (hd (qtext c q bs)), q', c')" "qheap c' q' bs' fs'"
    "qtext c' q' bs' = tl (qtext c q bs)" "set bs' \<union> set fs' = set bs \<union> set fs" "length fs \<le> length fs'" "cframe (set bs) c c'"
proof -
  from h have rep: "qrep c q bs" and fl: "cpath (cnext c) (cfree c) fs" "distinct fs" "set bs \<inter> set fs = {}"
    by (auto simp: qheap_def)
  note d = qrepD [OF rep ne]
  obtain b bs1 where bs: "bs = b # bs1" using ne by (cases bs) auto
  have f: "q_first q < b + 16"
  proof -
    have "q_first q \<noteq> b + 16" using r d(12) bs by (metis list.sel(1) mod_add_self2)
    with d(5) bs show ?thesis by simp
  qed
  have sp: "span bs (q_first q) (q_last q) = q_first q # span bs (Suc (q_first q)) (q_last q)"
    unfolding bs using f d(9) bs by (intro span_first) auto
  let ?q1 = "q\<lparr>q_count := q_count q - 1, q_first := q_first q + 1\<rparr>"
  have cnt: "unat (q_count q - 1) = length (span bs (Suc (q_first q)) (q_last q))"
    using d(3,8) sp by (simp add: unat_minus_one)
  have hd: "cdat c (q_first q) = hd (qtext c q bs)" "tl (qtext c q bs) = map (cdat c) (span bs (Suc (q_first q)) (q_last q))"
    by (simp_all add: qtext_def sp)
  show thesis
  proof (cases "q_count q - 1 = 0")
    case False
    have g: "getc q c = (scast (hd (qtext c q bs)), ?q1, c)" using d(8) r False hd by (simp add: getc_def)
    have "qheap c ?q1 bs fs" using h ne d f cnt False bs by (simp add: qheap_def qrep_def)
    moreover have "qtext c ?q1 bs = tl (qtext c q bs)" unfolding hd(2) by (simp add: qtext_def)
    ultimately show thesis by (intro that [OF g, where bs' = bs and fs' = fs]) (simp_all add: cframe_def)
  next
    case True
    with cnt have e: "span bs (Suc (q_first q)) (q_last q) = []" by (simp add: unat_eq_0)
    have one: "bs1 = []"
    proof (rule ccontr)
      assume "bs1 \<noteq> []"
      then obtain b' bs2 where "bs1 = b' # bs2" by (cases bs1) auto
      with e span_nonempty [of "b' # bs2" "q_last q"] d(6) show False by (simp add: bs)
    qed
    have al: "calign (Suc (q_first q)) = b" using d(4,12) f bs unfolding calign_def by (simp add: block_of)
    let ?c' = "c\<lparr>cnext := (cnext c)(b := cfree c), cfree := b\<rparr>"
    have nx: "cnext c b = 0" "b \<noteq> 0" "b mod 16 = 0" using d(2) by (auto simp: bs one)
    have "qrelse ?q1 c = (qinit, ?c')" using nx by (simp add: qrelse_def al qfree_def Let_def)
    then have g: "getc q c = (scast (hd (qtext c q bs)), qinit, ?c')" using d(8) r True hd by (simp add: getc_def)
    have "qheap ?c' qinit [] (b # fs)" using fl nx bs by (auto simp: qheap_def qrep_def qinit_def)
    moreover have "qtext ?c' qinit [] = tl (qtext c q bs)" unfolding hd(2) e by (simp add: qtext_def)
    ultimately show thesis by (intro that [OF g, where bs' = "[]" and fs' = "b # fs"]) (auto simp: bs one cframe_def)
  qed
qed

lemma getc_empty:
  assumes "qheap c q bs fs" "qtext c q bs = []"
  shows "getc q c = (0xFFFF, q, c)"
proof -
  from assms have "q_count q = 0" by (auto simp: qheap_def qrep_def qtext_def unat_eq_0)
  with assms have "q = qinit" by (auto simp: qheap_def qrep_def split: if_splits)
  then show ?thesis by (simp add: getc_def qinit_def qrelse_def)
qed

section \<open>A queue is first in, first out\<close>

text \<open>
  The contract of a queue: \<open>put\<close> appends while there is room and otherwise changes nothing, \<open>get\<close> takes
  the first element and answers with its value, or with \<open>none\<close> when the queue is empty.
\<close>

locale fifo =
  fixes rep :: "'s \<Rightarrow> 'x list \<Rightarrow> bool" and has_room :: "'s \<Rightarrow> bool" and put :: "'x \<Rightarrow> 's \<Rightarrow> bool \<times> 's"
    and get :: "'s \<Rightarrow> 'r \<times> 's" and val :: "'x \<Rightarrow> 'r" and none :: 'r
  assumes put_room: "rep s xs \<Longrightarrow> has_room s \<Longrightarrow> \<exists>s'. put x s = (True, s') \<and> rep s' (xs @ [x])"
    and put_full: "rep s xs \<Longrightarrow> \<not> has_room s \<Longrightarrow> put x s = (False, s)"
    and get_first: "rep s (x # xs) \<Longrightarrow> \<exists>s'. get s = (val x, s') \<and> rep s' xs"
    and get_none: "rep s [] \<Longrightarrow> get s = (none, s)"
begin

primrec puts :: "'x list \<Rightarrow> 's \<Rightarrow> bool \<times> 's" where
  "puts [] s = (True, s)"
| "puts (x # xs) s = (let (ok, s1) = put x s in if ok then puts xs s1 else (False, s1))"

primrec gets :: "nat \<Rightarrow> 's \<Rightarrow> 'r list \<times> 's" where
  "gets 0 s = ([], s)"
| "gets (Suc n) s = (let (r, s1) = get s; (rs, s2) = gets n s1 in (r # rs, s2))"

lemma puts_rep: "rep s xs \<Longrightarrow> puts ys s = (True, s') \<Longrightarrow> rep s' (xs @ ys)"
proof (induction ys arbitrary: s xs)
  case (Cons y ys)
  show ?case
  proof (cases "has_room s")
    case True
    from put_room [OF Cons.prems(1) True, of y] obtain s1 where "put y s = (True, s1)" "rep s1 (xs @ [y])" by blast
    with Cons.IH [of s1 "xs @ [y]"] Cons.prems(2) show ?thesis by simp
  next
    case False
    with put_full [OF Cons.prems(1) False, of y] Cons.prems(2) show ?thesis by simp
  qed
qed simp

lemma gets_rep: "rep s (xs @ ys) \<Longrightarrow> \<exists>s'. gets (length xs) s = (map val xs, s') \<and> rep s' ys"
proof (induction xs arbitrary: s)
  case (Cons x xs)
  then obtain s1 where "get s = (val x, s1)" "rep s1 (xs @ ys)" using get_first [of s x "xs @ ys"] by auto
  with Cons.IH [of s1] show ?case by auto
qed simp

lemma puts_gets:
  assumes "rep s []" "puts xs s = (True, s')"
  shows "\<exists>t. gets (length xs) s' = (map val xs, t) \<and> rep t []"
  using puts_rep [OF assms] gets_rep [of s' xs "[]"] by simp

end

definition qis :: "que \<times> cst \<Rightarrow> u8 list \<Rightarrow> bool" where
  "qis x cs \<longleftrightarrow> (\<exists>bs fs. qheap (snd x) (fst x) bs fs \<and> qtext (snd x) (fst x) bs = cs)"

definition qput :: "u8 \<Rightarrow> que \<times> cst \<Rightarrow> bool \<times> que \<times> cst" where
  "qput ch x = putc (fst x) ch (snd x)"

definition qget :: "que \<times> cst \<Rightarrow> u16 \<times> que \<times> cst" where
  "qget x = getc (fst x) (snd x)"

lemma qput_room:
  assumes "qis x xs" "room x"
  shows "\<exists>s'. qput ch x = (True, s') \<and> qis s' (xs @ [ch])"
proof -
  obtain q c where x: "x = (q, c)" by (cases x)
  from assms(1) obtain bs fs where h: "qheap c q bs fs" "qtext c q bs = xs" by (auto simp: qis_def x)
  from assms(2) have r: "q_count q < TTYHOG" "q_last q mod 16 \<noteq> 0 \<or> cfree c \<noteq> 0" by (auto simp: room_def x)
  show ?thesis
  proof (cases "q_last q mod 16 = 0")
    case False
    obtain q' c' where "putc q ch c = (True, q', c')" "qheap c' q' bs fs" "qtext c' q' bs = qtext c q bs @ [ch]"
      by (rule putc_room_here [OF h(1) r(1) False, of ch])
    with h(2) show ?thesis by (auto simp: qput_def qis_def x)
  next
    case True
    with r(2) h(1) obtain n fs' where fs: "fs = n # fs'" by (cases fs) (auto simp: qheap_def)
    obtain q' c' where "putc q ch c = (True, q', c')" "qheap c' q' (bs @ [n]) fs'" "qtext c' q' (bs @ [n]) = qtext c q bs @ [ch]"
      by (rule putc_room_new [OF h(1) [unfolded fs] r(1) True, of ch])
    with h(2) show ?thesis by (auto simp: qput_def qis_def x)
  qed
qed

text \<open>Taking a character never takes a block from the free list.\<close>

lemma getc_heap:
  assumes h: "qheap c q bs fs" "qtext c q bs = ch # xs"
  obtains q' c' bs' fs' where "getc q c = (scast ch, q', c')" "qheap c' q' bs' fs'" "qtext c' q' bs' = xs" "length fs \<le> length fs'"
proof (cases "q_first q mod 16 = 0")
  case False
  from h have ne: "bs \<noteq> []" by (auto simp: qtext_def)
  obtain q' c' bs' fs' where "getc q c = (scast (hd (qtext c q bs)), q', c')" "qheap c' q' bs' fs'"
    "qtext c' q' bs' = tl (qtext c q bs)" "length fs \<le> length fs'" by (rule getc_here [OF h(1) ne False]) blast
  with h(2) show thesis by (intro that) auto
next
  case True
  from h have ne: "bs \<noteq> []" by (auto simp: qtext_def)
  obtain b bs' q1 c1 where f: "qfree q c = (True, q1, c1)" "qheap c1 q1 bs' (b # fs)"
    "qtext c1 q1 bs' = qtext c q bs" "bs' \<noteq> []" "q_first q1 mod 16 \<noteq> 0"
    by (rule qfree_next [OF h(1) ne True])
  have "q_count q \<noteq> 0" "q_count q1 \<noteq> 0" using h(1) f(2,4) ne by (auto simp: qheap_def qrep_def)
  then have "getc q c = getc q1 c1" using True f(1,5) by (simp add: getc_def)
  moreover obtain q' c' bs2 fs2 where "getc q1 c1 = (scast (hd (qtext c1 q1 bs')), q', c')" "qheap c' q' bs2 fs2"
    "qtext c' q' bs2 = tl (qtext c1 q1 bs')" "length (b # fs) \<le> length fs2" by (rule getc_here [OF f(2,4,5)]) blast
  ultimately show thesis using f(3) h(2) by (intro that) auto
qed

lemma qget_first:
  assumes "qis x (ch # xs)"
  shows "\<exists>s'. qget x = (scast ch, s') \<and> qis s' xs"
proof -
  obtain q c where x: "x = (q, c)" by (cases x)
  from assms obtain bs fs where h: "qheap c q bs fs" "qtext c q bs = ch # xs" by (auto simp: qis_def x)
  obtain q' c' bs' fs' where "getc q c = (scast ch, q', c')" "qheap c' q' bs' fs'" "qtext c' q' bs' = xs" by (rule getc_heap [OF h]) blast
  then show ?thesis by (auto simp: qget_def qis_def x)
qed

interpretation cq: fifo qis room qput qget "scast :: u8 \<Rightarrow> u16" "0xFFFF"
proof
  fix s xs and ch :: u8
  show "\<exists>s'. qput ch s = (True, s') \<and> qis s' (xs @ [ch])" if "qis s xs" "room s" using qput_room that .
  show "qput ch s = (False, s)" if "qis s xs" "\<not> room s"
    using that putc_full by (cases s) (fastforce simp: qis_def qput_def)
  show "\<exists>s'. qget s = (scast ch, s') \<and> qis s' xs" if "qis s (ch # xs)" using qget_first that .
  show "qget s = (0xFFFF, s)" if "qis s []"
    using that getc_empty by (cases s) (fastforce simp: qis_def qget_def)
qed

end
