(* ===== verification/Tty.thy ===== *)
theory Tty
  imports Fio Queue
begin

text \<open>
  The terminal handler (\<^verbatim>\<open>sys/tty.c\<close>, with \<^verbatim>\<open>fillque\<close>, \<^verbatim>\<open>sendque\<close>, \<^verbatim>\<open>drainques\<close> and \<^verbatim>\<open>drainall\<close> of \<^verbatim>\<open>queue.c\<close>). Its state is
  the kernel state, the terminals, the character blocks of \<^verbatim>\<open>Queue\<close>, and the calls it made of the line
  driver: \<^verbatim>\<open>start\<close>, \<^verbatim>\<open>stop\<close>, \<^verbatim>\<open>put\<close> and \<^verbatim>\<open>set\<close> are assembler routines of \<^verbatim>\<open>mio.s\<close> and the calls are only recorded, in order.
\<close>

section \<open>Terminals\<close>

abbreviation (input) LOWATER :: u8 where "LOWATER \<equiv> 16"

abbreviation (input) EOT :: u16 where "EOT \<equiv> 4"
abbreviation (input) NL :: u16 where "NL \<equiv> 10"
abbreviation (input) XON :: u16 where "XON \<equiv> 17"
abbreviation (input) XOFF :: u16 where "XOFF \<equiv> 19"
abbreviation (input) QUIT :: u16 where "QUIT \<equiv> 28"
abbreviation (input) BSLASH :: u16 where "BSLASH \<equiv> 92"
abbreviation (input) RUB :: u16 where "RUB \<equiv> 127"

abbreviation (input) ALL8 :: u16 where "ALL8 \<equiv> 0x4000"
abbreviation (input) CBREAK :: u16 where "CBREAK \<equiv> 0x2000"
abbreviation (input) MORE :: u16 where "MORE \<equiv> 0x1000"
abbreviation (input) RAW :: u16 where "RAW \<equiv> 0x20"
abbreviation (input) MAPCR :: u16 where "MAPCR \<equiv> 0x10"
abbreviation (input) ECHO :: u16 where "ECHO \<equiv> 0x08"
abbreviation (input) XTABS :: u16 where "XTABS \<equiv> 0x02"

abbreviation (input) LOSTOP :: u8 where "LOSTOP \<equiv> 1"
abbreviation (input) HOSLEEP :: u8 where "HOSLEEP \<equiv> 2"
abbreviation (input) HISLEEP :: u8 where "HISLEEP \<equiv> 4"
abbreviation (input) TOPEN :: u8 where "TOPEN \<equiv> 0x40"
abbreviation (input) TERROR :: u8 where "TERROR \<equiv> 0x80"
abbreviation (input) WOPEN :: u8 where "WOPEN \<equiv> 1"
abbreviation (input) CD :: u8 where "CD \<equiv> 2"
abbreviation (input) DIALER :: u8 where "DIALER \<equiv> 0x20"

record tty =
  ty_ispeed :: u8
  ty_ospeed :: u8
  ty_erase :: u8
  ty_kill :: u8
  ty_mode :: u16
  ty_state :: u8
  ty_col :: u8
  ty_line :: u8
  ty_nextc :: u8
  ty_nbreak :: u8
  ty_rawque :: que
  ty_cokque :: que
  ty_outque :: que
  ty_count :: u8
  ty_mstate :: u8

datatype tcall = CStart nat | CStop nat bool | CPut nat u16 | CSet nat

record tyst =
  kern :: kst
  ttys :: "nat \<Rightarrow> tty"
  clst :: cst
  tcalls :: "tcall list"

type_synonym 'a T = "(tyst, chan, 'a) outcome"

definition upd_tty :: "nat \<Rightarrow> (tty \<Rightarrow> tty) \<Rightarrow> tyst \<Rightarrow> tyst" where
  "upd_tty n f t = t\<lparr>ttys := (ttys t)(n := f (ttys t n))\<rparr>"

definition log_call :: "tcall \<Rightarrow> tyst \<Rightarrow> tyst" where
  "log_call x t = t\<lparr>tcalls := tcalls t @ [x]\<rparr>"

text \<open>A routine of the rest of the kernel.\<close>

definition kcall :: "(kst \<Rightarrow> 'a K) \<Rightarrow> tyst \<Rightarrow> 'a T" where
  "kcall f t = (case f (kern t) of Ret x s \<Rightarrow> Ret x (t\<lparr>kern := s\<rparr>) | Slept ch p s \<Rightarrow> Slept ch p (t\<lparr>kern := s\<rparr>)
     | Panic m s \<Rightarrow> Panic m (t\<lparr>kern := s\<rparr>) | Spin s \<Rightarrow> Spin (t\<lparr>kern := s\<rparr>))"

text \<open>The three queues of a terminal.\<close>

datatype qsel = Raw | Cok | Out

primrec the_que :: "qsel \<Rightarrow> tty \<Rightarrow> que" where
  "the_que Raw y = ty_rawque y"
| "the_que Cok y = ty_cokque y"
| "the_que Out y = ty_outque y"

primrec set_que :: "qsel \<Rightarrow> que \<Rightarrow> tty \<Rightarrow> tty" where
  "set_que Raw q y = y\<lparr>ty_rawque := q\<rparr>"
| "set_que Cok q y = y\<lparr>ty_cokque := q\<rparr>"
| "set_que Out q y = y\<lparr>ty_outque := q\<rparr>"

definition put_que :: "qsel \<Rightarrow> nat \<Rightarrow> que \<times> cst \<Rightarrow> tyst \<Rightarrow> tyst" where
  "put_que x n qc t = (upd_tty n (set_que x (fst qc)) t)\<lparr>clst := snd qc\<rparr>"

definition tputc :: "qsel \<Rightarrow> nat \<Rightarrow> u8 \<Rightarrow> tyst \<Rightarrow> tyst" where
  "tputc x n ch t = put_que x n (snd (putc (the_que x (ttys t n)) ch (clst t))) t"

definition tgetc :: "qsel \<Rightarrow> nat \<Rightarrow> tyst \<Rightarrow> u16 \<times> tyst" where
  "tgetc x n t = (let (c, qc) = getc (the_que x (ttys t n)) (clst t) in (c, put_que x n qc t))"

definition tdrain :: "qsel \<Rightarrow> nat \<Rightarrow> tyst \<Rightarrow> tyst" where
  "tdrain x n t = put_que x n (drain (the_que x (ttys t n)) (clst t)) t"

section \<open>Bulk copies between a queue and the user's memory\<close>

text \<open>\<^verbatim>\<open>fillque\<close> and \<^verbatim>\<open>sendque\<close> move up to a block at a time.\<close>

function fill_loop :: "kst \<Rightarrow> u16 \<Rightarrow> nat \<Rightarrow> que \<Rightarrow> cst \<Rightarrow> u16 \<times> que \<times> cst" where
  "fill_loop s from cleft q c =
     (if cleft = 0 then (from, q, c)
      else
        let (ok, q1, c1) = (if q_last q mod 16 = 0 then qalloc q c else (True, q, c)) in
        if \<not> ok then (from, q1, c1)
        else
          let togo = min cleft (16 - q_last q1 mod 16) in
          fill_loop s (from + of_nat togo) (cleft - togo)
            (q1\<lparr>q_last := q_last q1 + togo, q_count := q_count q1 + of_nat togo\<rparr>)
            (c1\<lparr>cdat := copyin s from (cdat c1) (q_last q1) togo\<rparr>))"
  by pat_completeness auto
termination by (relation "measure (\<lambda>(s, from, cleft, q, c). cleft)") auto

definition fillque :: "que \<Rightarrow> cst \<Rightarrow> kst \<Rightarrow> que \<times> cst \<times> kst" where
  "fillque q c s =
     (let qspace = 200 - ucast (q_count q) :: u16; cleft = min (u_count (u s)) qspace; base = uaddr (u_base (u s));
          (from, q1, c1) = fill_loop s base (unat cleft) q c; nfill = from - base
      in (q1, c1, upd_u (\<lambda>x. x\<lparr>u_count := u_count x - nfill, u_base := Uaddr from\<rparr>) s))"

function send_loop :: "u16 \<Rightarrow> nat \<Rightarrow> que \<Rightarrow> cst \<Rightarrow> kst \<Rightarrow> u16 \<times> que \<times> cst \<times> kst" where
  "send_loop to cleft q c s =
     (if cleft = 0 then (to, q, c, s)
      else
        let (ok, q1, c1) = (if q_first q mod 16 = 0 then qfree q c else (True, q, c)) in
        if \<not> ok then (to, q1, c1, s)
        else
          let togo = min cleft (16 - q_first q1 mod 16) in
          send_loop (to + of_nat togo) (cleft - togo)
            (q1\<lparr>q_first := q_first q1 + togo, q_count := q_count q1 - of_nat togo\<rparr>) c1
            (copyout (cdat c1) (q_first q1) to togo s))"
  by pat_completeness auto
termination by (relation "measure (\<lambda>(to, cleft, q, c, s). cleft)") auto

definition sendque :: "que \<Rightarrow> cst \<Rightarrow> kst \<Rightarrow> que \<times> cst \<times> kst" where
  "sendque q c s =
     (let cleft = min (u_count (u s)) (ucast (q_count q)); base = uaddr (u_base (u s));
          (to, q1, c1, s1) = send_loop base (unat cleft) q c s; nsent = to - base;
          (q2, c2) = (if q_count q1 = 0 then qrelse q1 c1 else (q1, c1))
      in (q2, c2, upd_u (\<lambda>x. x\<lparr>u_base := Uaddr to, u_count := u_count x - nsent\<rparr>) s1))"

declare fill_loop.simps [simp del] send_loop.simps [simp del]

section \<open>Output\<close>

definition ttyopen :: "nat \<Rightarrow> tyst \<Rightarrow> tyst" where
  "ttyopen n t =
     (let s = kern t;
          s1 = (if p_tty (cur s) = None then upd_proc (u_p (u s)) (\<lambda>q. q\<lparr>p_tty := Some n\<rparr>) s else s)
      in upd_tty n (\<lambda>y. y\<lparr>ty_count := ty_count y + 1, ty_state := ty_state y OR TOPEN\<rparr>) (t\<lparr>kern := s1\<rparr>))"

definition ttyclose :: "nat \<Rightarrow> tyst \<Rightarrow> tyst" where
  "ttyclose n t =
     (let t1 = upd_tty n (\<lambda>y. y\<lparr>ty_count := ty_count y - 1\<rparr>) t in
      if ty_count (ttys t1 n) = 0 then upd_tty n (\<lambda>y. y\<lparr>ty_state := ty_state y AND NOT TOPEN\<rparr>) t1 else t1)"

definition drainques :: "nat \<Rightarrow> tyst \<Rightarrow> tyst" where
  "drainques n t =
     upd_tty n (\<lambda>y. y\<lparr>ty_nbreak := 0, ty_nextc := 0\<rparr>) (tdrain Out n (tdrain Cok n (tdrain Raw n t)))"

definition cstart :: "nat \<Rightarrow> tyst \<Rightarrow> tyst" where
  "cstart n t = (if tst (ty_state (ttys t n)) LOSTOP then t else log_call (CStart n) t)"

definition ustart :: "nat \<Rightarrow> tyst \<Rightarrow> tyst" where
  "ustart n t = log_call (CStart n) (upd_tty n (\<lambda>y. y\<lparr>ty_state := ty_state y AND NOT LOSTOP\<rparr>) t)"

definition drainall :: "nat option \<Rightarrow> tyst \<Rightarrow> tyst" where
  "drainall tp t = (case tp of None \<Rightarrow> t | Some n \<Rightarrow> ustart n (drainques n t))"

definition outwait :: "nat \<Rightarrow> u8 \<Rightarrow> tyst \<Rightarrow> unit T" where
  "outwait n cnt t =
     (if q_count (ty_outque (ttys t n)) > cnt
      then kcall (sleep (ChOut n) PRIUSER) (upd_tty n (\<lambda>y. y\<lparr>ty_state := ty_state y OR HOSLEEP\<rparr>) t)
      else Ret () t)"

definition ttyfill :: "nat \<Rightarrow> tyst \<Rightarrow> tyst" where
  "ttyfill n t = (let (q, c, s) = fillque (ty_outque (ttys t n)) (clst t) (kern t)
     in put_que Out n (q, c) (t\<lparr>kern := s\<rparr>))"

partial_function (option) ttywrite_loop :: "nat \<Rightarrow> tyst \<Rightarrow> unit T option" where
  "ttywrite_loop n t =
     (let t1 = cstart n (ttyfill n t) in
      if u_count (u (kern t1)) = 0 then Some (Ret () t1)
      else obnd (outwait n LOWATER t1) (\<lambda>_ t. ttywrite_loop n t))"

definition ttywrite :: "nat \<Rightarrow> tyst \<Rightarrow> unit T" where
  "ttywrite n t = spin (ttywrite_loop n t) t"

text \<open>
  \<^verbatim>\<open>cookout\<close>: the characters of \<^verbatim>\<open>--more--\<close>, and what is pending in \<^verbatim>\<open>nextc\<close>: a newline after a return, up
  to seven spaces of a tab, or (from 32) a position in \<^verbatim>\<open>--more--\<close>.
\<close>

definition more :: "u16 list" where
  "more = map (\<lambda>c. of_nat (of_char c)) ''--more--'' @ replicate 8 8 @ replicate 8 32 @ replicate 8 8"

definition cookout_next :: "nat \<Rightarrow> tyst \<Rightarrow> u16 \<times> tyst" where
  "cookout_next n t =
     (let c = ucast (ty_nextc (ttys t n)) :: u16 in
      if c = NL then (NL, upd_tty n (\<lambda>y. y\<lparr>ty_nextc := 0, ty_line := ty_line y + 1\<rparr>) t)
      else if c < 8 then (32, upd_tty n (\<lambda>y. y\<lparr>ty_nextc := ty_nextc y - 1\<rparr>) t)
      else
        let d = c - 32;
            t1 = (if d = 7 then upd_tty n (\<lambda>y. y\<lparr>ty_state := ty_state y OR LOSTOP\<rparr>) t else t);
            t2 = upd_tty n (\<lambda>y. y\<lparr>ty_nextc := (if d <s 31 then ty_nextc y + 1 else 0)\<rparr>) t1
        in (if d < 32 then more ! unat d else junk (kern t), t2))"

definition cookout_char :: "nat \<Rightarrow> tyst \<Rightarrow> u16 \<times> tyst" where
  "cookout_char n t =
     (let (c, t1) = tgetc Out n t; mode = ty_mode (ttys t n); col = ty_col (ttys t n) in
      if 32 \<le>s c \<and> c \<le>s 0x7F then (c, upd_tty n (\<lambda>y. y\<lparr>ty_col := ty_col y + 1\<rparr>) t1)
      else if c = NL then
        (if tst mode MAPCR then (13, upd_tty n (\<lambda>y. y\<lparr>ty_nextc := 10, ty_col := 0\<rparr>) t1)
         else (NL, upd_tty n (\<lambda>y. y\<lparr>ty_line := ty_line y + 1\<rparr>) t1))
      else if c = 9 then
        let inc = 8 - (col AND 7); t2 = upd_tty n (\<lambda>y. y\<lparr>ty_col := ty_col y + inc\<rparr>) t1 in
        (if tst mode XTABS then (32, upd_tty n (\<lambda>y. y\<lparr>ty_nextc := inc - 1\<rparr>) t2) else (9, t2))
      else if c = 8 then (8, if col \<noteq> 0 then upd_tty n (\<lambda>y. y\<lparr>ty_col := ty_col y - 1\<rparr>) t1 else t1)
      else (c, t1))"

definition cookout :: "nat \<Rightarrow> tyst \<Rightarrow> u16 \<times> tyst" where
  "cookout n t =
     (let y = ttys t n;
          t1 = (if tst (ty_mode y) MORE \<and> ty_line y > 21 then upd_tty n (\<lambda>y. y\<lparr>ty_line := 0, ty_nextc := 32\<rparr>) t else t)
      in if ty_nextc (ttys t1 n) \<noteq> 0 then cookout_next n t1 else cookout_char n t1)"

definition ttyout_put :: "nat \<Rightarrow> tyst \<Rightarrow> tyst" where
  "ttyout_put n t =
     (let y = ttys t n in
      if \<not> tst (ty_state y) LOSTOP \<and> (q_count (ty_outque y) \<noteq> 0 \<or> ty_nextc y \<noteq> 0) then
        let (c, t1) = (if tst (ty_mode y) (MORE OR XTABS OR MAPCR) \<or> ty_nextc y \<noteq> 0 then cookout n t else tgetc Out n t)
        in log_call (CPut n c) t1
      else
        let cold = (\<not> tst (ty_state y) TOPEN \<and> q_count (ty_outque y) = 0 \<and> ty_nextc y = 0);
            t1 = log_call (CStop n cold) t
        in if cold then upd_tty n (\<lambda>y. y\<lparr>ty_state := 0\<rparr>) (drainques n t1) else t1)"

definition ttyout :: "nat \<Rightarrow> tyst \<Rightarrow> unit T" where
  "ttyout n t =
     (let t1 = ttyout_put n t; y = ttys t1 n in
      if tst (ty_state y) HOSLEEP \<and> q_count (ty_outque y) \<le> LOWATER
      then kcall (wakeup (ChOut n)) (upd_tty n (\<lambda>y. y\<lparr>ty_state := ty_state y AND NOT HOSLEEP\<rparr>) t1)
      else Ret () t1)"

section \<open>Input\<close>

definition sleep_raw :: "nat \<Rightarrow> tyst \<Rightarrow> 'a T" where
  "sleep_raw n t = kcall (sleep (ChRaw n) PRIUSER) (upd_tty n (\<lambda>y. y\<lparr>ty_state := ty_state y OR HISLEEP\<rparr>) t)"

definition cwait :: "nat \<Rightarrow> tyst \<Rightarrow> u16 T" where
  "cwait n t = (if q_count (ty_rawque (ttys t n)) = 0 then sleep_raw n t
                else (let (c, t1) = tgetc Raw n t in Ret c t1))"

lemma getc_less: "getc q c = (r, q', c') \<Longrightarrow> r \<noteq> 0xFFFF \<Longrightarrow> unat (q_count q') < unat (q_count q)"
proof -
  assume g: "getc q c = (r, q', c')" and r: "r \<noteq> 0xFFFF"
  then have ne: "q_count q \<noteq> 0" by (auto simp: getc_def Let_def)
  then have lt: "unat (q_count q - 1) < unat (q_count q)" "0 < unat (q_count q)"
    by (simp_all add: unat_minus_one unat_gt_0)
  from g r ne lt show ?thesis
    by (auto simp: getc_def qfree_def qrelse_def qinit_def Let_def split: prod.splits if_splits)
qed

lemma tgetc_raw_less:
  assumes "tgetc Raw n t = (r, t')" "r \<noteq> 0xFFFF"
  shows "unat (q_count (ty_rawque (ttys t' n))) < unat (q_count (ty_rawque (ttys t n)))"
  using assms getc_less by (auto simp: tgetc_def put_que_def upd_tty_def split: prod.splits)

function raw_loop :: "nat \<Rightarrow> u16 \<Rightarrow> tyst \<Rightarrow> tyst" where
  "raw_loop n c t =
     (let t1 = (if ty_nbreak (ttys t n) \<noteq> 0 \<and> (c = NL \<or> c = EOT) then upd_tty n (\<lambda>y. y\<lparr>ty_nbreak := ty_nbreak y - 1\<rparr>) t else t);
          (c', t2) = tgetc Raw n (tputc Cok n (ucast c) t1)
      in if c' = 0xFFFF then t2 else raw_loop n c' t2)"
  by pat_completeness auto
termination
proof (relation "measure (\<lambda>(n, c, t). unat (q_count (ty_rawque (ttys t n))))", goal_cases)
  case (2 n c t t1 x c' t2)
  then have "unat (q_count (ty_rawque (ttys t2 n))) < unat (q_count (ty_rawque (ttys (tputc Cok n (ucast c) t1) n)))"
    by (intro tgetc_raw_less) auto
  with 2(1) show ?case by (auto simp: tputc_def put_que_def upd_tty_def split: if_splits)
qed simp

lemma getc_le: "getc q c = (r, q', c') \<Longrightarrow> unat (q_count q') \<le> unat (q_count q)"
proof (cases "r = 0xFFFF")
  case False
  moreover assume "getc q c = (r, q', c')"
  ultimately show ?thesis using getc_less by (metis order.strict_implies_order)
next
  case True
  assume g: "getc q c = (r, q', c')"
  have "unat (q_count q - 1) \<le> unat (q_count q)" if "q_count q \<noteq> 0" using that by (simp add: unat_minus_one)
  with g show ?thesis
    by (auto simp: getc_def qfree_def qrelse_def qinit_def Let_def split: prod.splits if_splits)
qed

lemma tgetc_raw_le:
  assumes "tgetc Raw n t = (r, t')"
  shows "unat (q_count (ty_rawque (ttys t' n))) \<le> unat (q_count (ty_rawque (ttys t n)))"
  using assms getc_le by (auto simp: tgetc_def put_que_def upd_tty_def split: prod.splits)

lemma tgetc_raw_pos:
  assumes "(r, t') = tgetc Raw n t" "\<not> r <s 0"
  shows "unat (q_count (ty_rawque (ttys t' n))) < unat (q_count (ty_rawque (ttys t n)))"
proof (rule tgetc_raw_less [OF assms(1) [symmetric]])
  have "(0xFFFF :: u16) <s 0" by (simp add: word_sless_alt)
  with assms(2) show "r \<noteq> 0xFFFF" by blast
qed

text \<open>
  The loop that edits a line: the erase character takes back one character, the kill character all of
  them, a backslash quotes either. A line of 198 characters starts over. None: the queue ended before the line did.
\<close>

function line_loop :: "nat \<Rightarrow> u8 list \<Rightarrow> tyst \<Rightarrow> u8 list option \<times> tyst" where
  "line_loop n bf0 t =
     (let bf = (if length bf0 \<ge> 198 then [] else bf0); er = ucast (ty_erase (ttys t n)); kl = ucast (ty_kill (ttys t n));
          (c, t1) = tgetc Raw n t
      in if c <s 0 then (None, t1)
         else if c = EOT then (Some bf, t1)
         else if c = NL then (Some (bf @ [ucast c]), t1)
         else if c = kl then line_loop n [] t1
         else if c = er then line_loop n (butlast bf) t1
         else if c = BSLASH then
           let (c2, t2) = tgetc Raw n t1;
               bf2 = (if c2 = er \<or> c2 = kl then bf @ [ucast c2] else bf @ [ucast BSLASH, ucast c2])
           in if c2 = NL \<or> c2 = EOT then (Some bf2, t2) else line_loop n bf2 t2
         else line_loop n (bf @ [ucast c]) t1)"
  by pat_completeness auto

termination
proof (relation "measure (\<lambda>(n, bf, t). unat (q_count (ty_rawque (ttys t n))))", goal_cases)
  case (4 n bf0 t bf er kl x c t1 y c2 t2)
  have "unat (q_count (ty_rawque (ttys t1 n))) < unat (q_count (ty_rawque (ttys t n)))"
    using 4 by (intro tgetc_raw_less [where r = c]) auto
  moreover have "unat (q_count (ty_rawque (ttys t2 n))) \<le> unat (q_count (ty_rawque (ttys t1 n)))"
    using 4 by (intro tgetc_raw_le [where r = c2]) auto
  ultimately show ?case by simp
qed (auto dest: tgetc_raw_pos)

declare raw_loop.simps [simp del] line_loop.simps [simp del]

fun tputs :: "qsel \<Rightarrow> nat \<Rightarrow> u8 list \<Rightarrow> tyst \<Rightarrow> tyst" where
  "tputs x n [] t = t"
| "tputs x n (ch # cs) t = tputs x n cs (tputc x n ch t)"

definition cookin :: "nat \<Rightarrow> tyst \<Rightarrow> unit T" where
  "cookin n t =
     (if tst (ty_mode (ttys t n)) (RAW OR CBREAK) then bnd (cwait n t) (\<lambda>c t. Ret () (raw_loop n c t))
      else if ty_nbreak (ttys t n) = 0 then sleep_raw n t
      else case line_loop n [] t of
        (None, t1) \<Rightarrow> sleep_raw n (upd_tty n (\<lambda>y. y\<lparr>ty_nbreak := 0\<rparr>) t1)
      | (Some bf, t1) \<Rightarrow>
          Ret () (tputs Cok n bf (upd_tty n (\<lambda>y. if ty_nbreak y \<noteq> 0 then y\<lparr>ty_nbreak := ty_nbreak y - 1\<rparr> else y) t1)))"

definition ttysend :: "nat \<Rightarrow> tyst \<Rightarrow> tyst" where
  "ttysend n t = (let (q, c, s) = sendque (ty_cokque (ttys t n)) (clst t) (kern t)
     in put_que Cok n (q, c) (t\<lparr>kern := s\<rparr>))"

definition ttyread :: "nat \<Rightarrow> tyst \<Rightarrow> unit T" where
  "ttyread n t =
     (if tst (ty_state (ttys t n)) TERROR then
        let t1 = tdrain Raw n (upd_tty n (\<lambda>y. y\<lparr>ty_state := ty_state y AND NOT TERROR\<rparr>) t)
        in Ret () (t1\<lparr>kern := set_error EIO (kern t1)\<rparr>)
      else
        bnd (if q_count (ty_cokque (ttys t n)) = 0 then cookin n t else Ret () t) (\<lambda>_ t.
        let t1 = ttysend n t in
        if q_count (ty_cokque (ttys t1 n)) \<noteq> 0 then kcall (killall (Some n) SIGTINT) t1 else Ret () t1))"

text \<open>The first six bytes of the structure are the terminal's status.\<close>

definition tty_head :: "tty \<Rightarrow> bytes" where
  "tty_head y = putw ((\<lambda>_. 0)(0 := ty_ispeed y, 1 := ty_ospeed y, 2 := ty_erase y, 3 := ty_kill y)) 4 (ty_mode y)"

definition set_head :: "bytes \<Rightarrow> tty \<Rightarrow> tty" where
  "set_head b y = y\<lparr>ty_ispeed := b 0, ty_ospeed := b 1, ty_erase := b 2, ty_kill := b 3, ty_mode := getw b 4\<rparr>"

definition ttymode :: "nat \<Rightarrow> bool \<Rightarrow> tyst \<Rightarrow> tyst" where
  "ttymode n rd t =
     (if rd then t\<lparr>kern := iomove_read (tty_head (ttys t n)) 0 6 (kern t)\<rparr>
      else (let (b, s) = iomove_write (tty_head (ttys t n)) 0 6 (kern t)
            in log_call (CSet n) (upd_tty n (set_head b) (t\<lparr>kern := s\<rparr>))))"

definition ttyerror :: "nat \<Rightarrow> tyst \<Rightarrow> tyst" where
  "ttyerror n t = upd_tty n (\<lambda>y. y\<lparr>ty_state := ty_state y OR TERROR\<rparr>) t"

definition ttyconnect :: "nat \<Rightarrow> tyst \<Rightarrow> unit T" where
  "ttyconnect n t =
     (let t1 = upd_tty n (\<lambda>y. y\<lparr>ty_mstate := ty_mstate y OR CD\<rparr>) t in
      if ty_mstate (ttys t1 n) AND (WOPEN OR DIALER) = WOPEN then kcall (wakeup (ChMstate n)) t1 else Ret () t1)"

definition ttyhangup :: "nat \<Rightarrow> tyst \<Rightarrow> unit T" where
  "ttyhangup n t =
     (let t1 = upd_tty n (\<lambda>y. y\<lparr>ty_mstate := ty_mstate y AND NOT CD\<rparr>) t in
      if tst (ty_mstate (ttys t1 n)) DIALER then Ret () t1
      else kcall (killall (Some n) SIGKILL) (drainques n t1))"

text \<open>\<^verbatim>\<open>ttyin\<close>: the character as the mode has it, the control characters, the deposit and the echo.\<close>

definition ttyin_char :: "u16 \<Rightarrow> u16 \<Rightarrow> u16" where
  "ttyin_char mode c =
     (let c1 = (if tst mode ALL8 then c else c AND 0x7F) in if c1 = 13 \<and> tst mode MAPCR then NL else c1)"

definition ttyin_echo :: "nat \<Rightarrow> u16 \<Rightarrow> tyst \<Rightarrow> tyst" where
  "ttyin_echo n c t =
     (let y = ttys t n in
      cstart n (if tst (ty_mode y) RAW then tputc Out n (ucast c) t
        else if c = ucast (ty_kill y) then tputc Out n 10 t
        else if c = ucast (ty_erase y) then tputs Out n [8, 32, 8] t
        else tputc Out n (ucast c) t))"

definition ttyin_put :: "nat \<Rightarrow> u16 \<Rightarrow> tyst \<Rightarrow> tyst" where
  "ttyin_put n c t =
     tputc Raw n (ucast c) (if c = EOT \<or> c = NL then upd_tty n (\<lambda>y. y\<lparr>ty_nbreak := ty_nbreak y + 1\<rparr>) t else t)"

definition ttyin_wake :: "nat \<Rightarrow> u8 \<Rightarrow> tyst \<Rightarrow> unit T" where
  "ttyin_wake n state t =
     bnd (if tst state HISLEEP
          then kcall (wakeup (ChRaw n)) (upd_tty n (\<lambda>y. y\<lparr>ty_state := ty_state y AND NOT HISLEEP\<rparr>) t)
          else Ret () t) (\<lambda>_ t.
     bnd (kcall (killall (Some n) SIGTINT) t) (\<lambda>_ t.
     Ret () (upd_tty n (\<lambda>y. y\<lparr>ty_line := 0\<rparr>) t)))"

definition ttyin_deposit :: "nat \<Rightarrow> u16 \<Rightarrow> tyst \<Rightarrow> unit T" where
  "ttyin_deposit n c t =
     (let mode = ty_mode (ttys t n); state = ty_state (ttys t n);
          t1 = ttyin_put n c t;
          t2 = (if tst mode ECHO then ttyin_echo n c t1 else t1)
      in if tst mode RAW \<or> tst mode CBREAK \<or> c = NL \<or> c = EOT then ttyin_wake n state t2 else Ret () t2)"

definition ttyin :: "u16 \<Rightarrow> nat \<Rightarrow> tyst \<Rightarrow> unit T" where
  "ttyin c0 n t =
     (let y = ttys t n; mode = ty_mode y; c = ttyin_char mode c0 in
      if q_count (ty_rawque y) \<ge> TTYHOG then Ret () (upd_tty n (\<lambda>y. y\<lparr>ty_nbreak := 0\<rparr>) (tdrain Raw n t))
      else if tst mode RAW then ttyin_deposit n c t
      else if c = QUIT then bnd (kcall (killall (Some n) SIGQUIT) t) (\<lambda>_ t. Ret () (ustart n t))
      else if c = RUB then bnd (kcall (killall (Some n) SIGINT) t) (\<lambda>_ t. Ret () (ustart n t))
      else if c = XOFF then
        Ret () (log_call (CStop n False) (upd_tty n (\<lambda>y. y\<lparr>ty_state := ty_state y OR LOSTOP\<rparr>) t))
      else if c = XON then Ret () (if tst (ty_state y) LOSTOP then ustart n t else t)
      else ttyin_deposit n c t)"

end
