(* ===== verification/Terminal.thy ===== *)
theory Terminal
  imports Tty
begin

text \<open>
  Theorems about terminals: the queues of \<^verbatim>\<open>Queue\<close> and the handler of \<^verbatim>\<open>Tty\<close> together.
\<close>

section \<open>Copying a block at a time is copying character by character\<close>

text \<open>The loop \<^verbatim>\<open>fillque\<close> replaces: one \<^verbatim>\<open>putc\<close> for every byte, until one fails.\<close>

fun putin :: "kst \<Rightarrow> u16 \<Rightarrow> nat \<Rightarrow> que \<Rightarrow> cst \<Rightarrow> u16 \<times> que \<times> cst" where
  "putin s a 0 q c = (a, q, c)"
| "putin s a (Suc k) q c =
     (let (ok, q1, c1) = putc q (ugetc s a) c in if ok then putin s (a + 1) k q1 c1 else (a, q1, c1))"

lemma qalloc_count: "qalloc q c = (ok, q', c') \<Longrightarrow> q_count q' = q_count q"
  by (auto simp: qalloc_def Let_def split: if_splits prod.splits)

lemma count_add: "unat (n :: u8) + k \<le> 200 \<Longrightarrow> unat (n + of_nat k) = unat n + k"
  by (simp add: unat_word_ariths unat_of_nat)

lemma que_upd: "q\<lparr>q_last := x, q_count := y\<rparr> = q\<lparr>q_count := y, q_last := x\<rparr>"
  by (cases q) simp

lemma below_hog: "unat (n :: u8) + Suc k \<le> 200 \<Longrightarrow> n < TTYHOG"
  by (simp add: word_less_nat_alt)

lemma putin_block:
  assumes "q_last q mod 16 \<noteq> 0" "n \<le> 16 - q_last q mod 16" "unat (q_count q) + n \<le> 200"
  shows "putin s a (n + m) q c =
    putin s (a + of_nat n) m (q\<lparr>q_count := q_count q + of_nat n, q_last := q_last q + n\<rparr>) (c\<lparr>cdat := copyin s a (cdat c) (q_last q) n\<rparr>)"
  using assms
proof (induction n arbitrary: a q c)
  case (Suc n)
  let ?q = "q\<lparr>q_count := q_count q + 1, q_last := q_last q + 1\<rparr>" and ?c = "c\<lparr>cdat := (cdat c)(q_last q := ugetc s a)\<rparr>"
  have lt: "q_count q < TTYHOG" using below_hog [OF Suc.prems(3)] .
  then have p: "putc q (ugetc s a) c = (True, ?q, ?c)" using Suc.prems(1) by (simp add: putc_def)
  show ?case
  proof (cases "n = 0")
    case True
    with p show ?thesis by (simp add: fun_upd_def)
  next
    case False
    with Suc.prems(1,2) have m: "Suc (q_last q) mod 16 = Suc (q_last q mod 16)" by (simp add: mod_Suc)
    have "unat (q_count ?q) = Suc (unat (q_count q))" using count_add [of "q_count q" 1] Suc.prems(3) by simp
    with Suc.IH [where q = ?q and c = ?c and a = "a + 1"] Suc.prems(2,3) m p show ?thesis by (simp add: ac_simps fun_upd_def)
  qed
qed simp

text \<open>The same when the first character needs a new block.\<close>

lemma putin_new:
  assumes "q_last q mod 16 = 0" "qalloc q c = (True, q1, c1)" "0 < n" "n \<le> 16 - q_last q1 mod 16" "unat (q_count q) + n \<le> 200"
  shows "putin s a (n + m) q c =
    putin s (a + of_nat n) m (q1\<lparr>q_count := q_count q1 + of_nat n, q_last := q_last q1 + n\<rparr>) (c1\<lparr>cdat := copyin s a (cdat c1) (q_last q1) n\<rparr>)"
proof -
  obtain k where k: "n = Suc k" using assms(3) by (cases n) auto
  let ?q = "q1\<lparr>q_count := q_count q1 + 1, q_last := q_last q1 + 1\<rparr>" and ?c = "c1\<lparr>cdat := (cdat c1)(q_last q1 := ugetc s a)\<rparr>"
  have lt: "q_count q < TTYHOG" using below_hog assms(5) unfolding k .
  then have p: "putc q (ugetc s a) c = (True, ?q, ?c)" using assms(1,2) by (simp add: putc_def)
  show ?thesis
  proof (cases "k = 0")
    case True
    with p k show ?thesis by simp
  next
    case False
    with assms(4) k have m: "Suc (q_last q1) mod 16 = Suc (q_last q1 mod 16)" by (simp add: mod_Suc)
    have "unat (q_count ?q) = Suc (unat (q_count q))" using count_add [of "q_count q" 1] qalloc_count [OF assms(2)] assms(5) k by simp
    with putin_block [of ?q k s "a + 1" m ?c] assms(4,5) m p k show ?thesis by (simp add: ac_simps fun_upd_def)
  qed
qed

lemma fill_loop_putin: "unat (q_count q) + k \<le> 200 \<Longrightarrow> fill_loop s a k q c = putin s a k q c"
proof (induction k arbitrary: a q c rule: less_induct)
  case (less k)
  show ?case
  proof (cases "k = 0")
    case True
    then show ?thesis by (simp add: fill_loop.simps)
  next
    case False
    obtain ok q1 c1 where r: "(if q_last q mod 16 = 0 then qalloc q c else (True, q, c)) = (ok, q1, c1)" by (rule prod_cases3)
    then have cnt: "q_count q1 = q_count q" using qalloc_count [of q c ok q1 c1] by (auto split: if_splits)
    define n where "n = min k (16 - q_last q1 mod 16)"
    have n: "0 < n" "n \<le> k" "n \<le> 16 - q_last q1 mod 16" "n + (k - n) = k" using False by (auto simp: n_def)
    let ?q = "q1\<lparr>q_last := q_last q1 + n, q_count := q_count q1 + of_nat n\<rparr>" and ?c = "c1\<lparr>cdat := copyin s a (cdat c1) (q_last q1) n\<rparr>"
    show ?thesis
    proof (cases ok)
      case True
      have "fill_loop s a k q c = fill_loop s (a + of_nat n) (k - n) ?q ?c"
        using r True False by (subst fill_loop.simps) (simp add: n_def Let_def del: fun_upd_apply)
      also have "?q = q1\<lparr>q_count := q_count q1 + of_nat n, q_last := q_last q1 + n\<rparr>" by (rule que_upd)
      also have "fill_loop s (a + of_nat n) (k - n) (q1\<lparr>q_count := q_count q1 + of_nat n, q_last := q_last q1 + n\<rparr>) ?c =
          putin s (a + of_nat n) (k - n) (q1\<lparr>q_count := q_count q1 + of_nat n, q_last := q_last q1 + n\<rparr>) ?c"
        using less.prems n cnt count_add [of "q_count q" n] by (intro less.IH) auto
      also have "\<dots> = putin s a k q c"
      proof (cases "q_last q mod 16 = 0")
        case al: True
        with r True putin_new [of q c q1 c1 n s a "k - n"] n less.prems show ?thesis by simp
      next
        case na: False
        with r True putin_block [of q n s a "k - n" c] n less.prems show ?thesis by simp
      qed
      finally show ?thesis .
    next
      case nok: False
      with r False have "q_last q mod 16 = 0" "qalloc q c = (False, q1, c1)" by (auto split: if_splits)
      moreover from this less.prems False have "putc q (ugetc s a) c = (False, q1, c1)"
        using below_hog [of "q_count q" "k - 1"] by (simp add: putc_def)
      ultimately show ?thesis using False by (subst fill_loop.simps) (cases k; simp)
    qed
  qed
qed

text \<open>
  C32. \<^verbatim>\<open>fillque\<close>, which copies from the user's memory a block at a time, does exactly what the loop it replaces does: \<^verbatim>\<open>putc\<close> of one byte
  after the other, until the request is satisfied, the queue is full or there is no free block. Queue, blocks, address and count end the same.
\<close>

theorem fillque_putc:
  assumes "q_count q \<le> TTYHOG"
  shows "fillque q c s =
    (let a = uaddr (u_base (u s)); (a', q', c') = putin s a (min (unat (u_count (u s))) (200 - unat (q_count q))) q c
     in (q', c', upd_u (\<lambda>x. x\<lparr>u_count := u_count x - (a' - a), u_base := Uaddr a'\<rparr>) s))"
proof -
  have le: "unat (q_count q) \<le> 200" using assms by (simp add: word_le_nat_alt)
  have "unat (200 - ucast (q_count q) :: u16) = 200 - unat (q_count q)"
    using le by (subst unat_sub) (simp_all add: word_le_nat_alt unsigned_ucast_eq take_bit_nat_eq_self)
  then have m: "unat (min (u_count (u s)) (200 - ucast (q_count q))) = min (unat (u_count (u s))) (200 - unat (q_count q))"
    by (simp add: min_def word_le_nat_alt)
  show ?thesis unfolding fillque_def Let_def m using le by (subst fill_loop_putin) (auto split: prod.splits)
qed

definition feed_kernel :: kst where
  "feed_kernel = kst0\<lparr>u := user0\<lparr>u_count := 3, u_base := Uaddr 0x1000\<rparr>\<rparr>"

theorem fillque_putc_witness:
  "fillque qinit \<lparr>cnext = (\<lambda>_. 0), cdat = (\<lambda>_. 0), cfree = 16\<rparr> feed_kernel =
    (let a = uaddr (u_base (u feed_kernel));
         (a', q', c') = putin feed_kernel a (min (unat (u_count (u feed_kernel))) 200) qinit \<lparr>cnext = (\<lambda>_. 0), cdat = (\<lambda>_. 0), cfree = 16\<rparr>
     in (q', c', upd_u (\<lambda>x. x\<lparr>u_count := u_count x - (a' - a), u_base := Uaddr a'\<rparr>) feed_kernel))"
  using fillque_putc [of qinit "\<lparr>cnext = (\<lambda>_. 0), cdat = (\<lambda>_. 0), cfree = 16\<rparr>" feed_kernel] by (simp add: qinit_def)

section \<open>A queue takes what there is room for and gives it back in order\<close>

text \<open>Two queues share the blocks: what is put into one does not disturb the other.\<close>

lemma qrep_frame:
  assumes "qrep c q bs" "cframe B c c'" "set bs \<inter> B = {}"
  shows "qrep c' q bs" "qtext c' q bs = qtext c q bs"
proof -
  have "cpath (cnext c') p bs = cpath (cnext c) p bs" for p
    using assms(2,3) by (induction bs arbitrary: p) (auto simp: cframe_def)
  then show "qrep c' q bs" using assms(1) by (auto simp: qrep_def)
  show "qtext c' q bs = qtext c q bs"
  proof (cases "bs = []")
    case False
    note d = qrepD [OF assms(1) False]
    have "cdat c' x = cdat c x" if x: "x \<in> set (span bs (q_first q) (q_last q))" for x
    proof -
      from span_range [OF x False d(4,7)] obtain b where b: "b \<in> set bs" "b + 2 \<le> x" "x < b + 16" by blast
      with cpath_blocks [OF d(2)] have "x div 16 * 16 = b" by (intro block_of) auto
      with assms(2,3) b(1) show ?thesis by (auto simp: cframe_def)
    qed
    then show ?thesis by (simp add: qtext_def)
  qed (simp add: qtext_def)
qed

lemma putc_first:
  assumes "qheap c q bs fs" "putc q ch c = (True, q', c')"
  shows "q_first q' = (if bs = [] then cfree c + 2 else q_first q)"
proof (cases "bs = []")
  case True
  with assms(1) have "q = qinit" by (simp add: qheap_def qrep_def)
  with assms(2) True show ?thesis by (auto simp: putc_def qalloc_def qinit_def Let_def split: if_splits)
next
  case False
  with assms(1) have "qrep c q bs" by (simp add: qheap_def)
  from qrepD(6,8) [OF this False] assms(2) False show ?thesis
    by (auto simp: putc_def qalloc_def Let_def split: if_splits)
qed

lemma span_length:
  "bs \<noteq> [] \<Longrightarrow> f = hd bs + 2 \<Longrightarrow> length (span bs f l) = 14 * (length bs - 1) + (l - (last bs + 2))"
  by (induction bs f l rule: span.induct) auto

definition fresh_from :: "que \<Rightarrow> nat list \<Rightarrow> bool" where
  "fresh_from q bs \<longleftrightarrow> bs \<noteq> [] \<longrightarrow> q_first q = hd bs + 2"

lemma qheap_count: "qheap c q bs fs \<Longrightarrow> unat (q_count q) = length (qtext c q bs)"
  by (simp add: qheap_def qrep_def qtext_def)

text \<open>A queue that nothing was taken from fills its blocks.\<close>

lemma free_block_left:
  assumes h: "qheap c q bs fs" "fresh_from q bs" "q_last q mod 16 = 0"
  shows "unat (q_count q) = 14 * length bs"
proof (cases "bs = []")
  case True
  with h(1) show ?thesis by (simp add: qheap_def qrep_def qinit_def)
next
  case ne: False
  have rep: "qrep c q bs" using h by (simp add: qheap_def)
  note d = qrepD [OF rep ne]
  have "q_last q div 16 * 16 = last bs" if "q_last q < last bs + 16" using d(6,10) that by (intro block_of) auto
  moreover have "q_last q div 16 * 16 = q_last q" using h(3) by auto
  ultimately have "q_last q = last bs + 16" using d(6,7) by (cases "q_last q < last bs + 16") auto
  with d(3) span_length [of bs "q_first q" "q_last q"] ne h(2) have "unat (q_count q) = 14 * (length bs - 1) + 14"
    by (simp add: fresh_from_def)
  with ne show ?thesis by (cases bs) auto
qed

lemma puts_shared:
  assumes "qheap c q bs fs" "fresh_from q bs" "unat (q_count q) + length xs \<le> 200"
    "unat (q_count q) + length xs \<le> 14 * (length bs + length fs)" "qheap c p ps fs" "set bs \<inter> set ps = {}"
  obtains q' c' bs' fs' where "cq.puts xs (q, c) = (True, q', c')" "qheap c' q' bs' fs'" "qtext c' q' bs' = qtext c q bs @ xs"
    "qheap c' p ps fs'" "qtext c' p ps = qtext c p ps"
proof -
  have "\<exists>q' c' bs' fs'. cq.puts xs (q, c) = (True, q', c') \<and> qheap c' q' bs' fs' \<and> qtext c' q' bs' = qtext c q bs @ xs \<and>
    qheap c' p ps fs' \<and> qtext c' p ps = qtext c p ps"
    using assms
  proof (induction xs arbitrary: q c bs fs)
    case (Cons ch xs)
    note h = Cons.prems(1)
    have lt: "q_count q < TTYHOG" using below_hog [of "q_count q" "length xs"] Cons.prems(3) by simp
    have step: ?case if p: "putc q ch c = (True, q1, c1)" "qheap c1 q1 bs1 fs1" "qtext c1 q1 bs1 = qtext c q bs @ [ch]"
      "cframe B c c1" "B \<inter> set ps = {}" "bs1 = bs @ us" "fs = us @ fs1" "bs = [] \<longrightarrow> us = [cfree c]" for q1 c1 bs1 fs1 us B
    proof -
      have ps: "qheap c1 p ps fs1" "qtext c1 p ps = qtext c p ps"
        using qrep_frame [of c p ps B c1] Cons.prems(5) p(2,4,5,7) by (auto simp: qheap_def)
      have cnt: "unat (q_count q1) = Suc (unat (q_count q))"
        using qheap_count [OF h] qheap_count [OF p(2)] p(3) by simp
      have fr: "fresh_from q1 bs1" using putc_first [OF h p(1)] Cons.prems(2) p(6,8) by (auto simp: fresh_from_def)
      have dj: "set bs1 \<inter> set ps = {}" using Cons.prems(5,6) p(6,7) by (auto simp: qheap_def)
      obtain q' c' bs' fs' where "cq.puts xs (q1, c1) = (True, q', c')" "qheap c' q' bs' fs'" "qtext c' q' bs' = qtext c1 q1 bs1 @ xs"
        "qheap c' p ps fs'" "qtext c' p ps = qtext c1 p ps"
        using Cons.IH [OF p(2) fr _ _ ps(1) dj] cnt Cons.prems(3,4) p(6,7) by auto
      moreover have "qput ch (q, c) = (True, q1, c1)" using p(1) by (simp add: qput_def)
      ultimately show ?case using p(3) ps(2) by auto
    qed
    show ?case
    proof (cases "q_last q mod 16 = 0")
      case False
      then have "bs \<noteq> []" using h by (auto simp: qheap_def qrep_def qinit_def)
      moreover obtain q1 c1 where "putc q ch c = (True, q1, c1)" "qheap c1 q1 bs fs" "qtext c1 q1 bs = qtext c q bs @ [ch]" "cframe (set bs) c c1"
        by (rule putc_room_here [OF h lt False, of ch])
      ultimately show ?thesis using Cons.prems(6) by (intro step [of q1 c1 bs fs "set bs" "[]"]) auto
    next
      case True
      have "fs \<noteq> []" using free_block_left [OF h Cons.prems(2) True] Cons.prems(4) by auto
      then obtain n fs1 where fs: "fs = n # fs1" by (cases fs) auto
      with h have n: "cfree c = n" "n \<notin> set ps" using Cons.prems(5) by (auto simp: qheap_def)
      obtain q1 c1 where "putc q ch c = (True, q1, c1)" "qheap c1 q1 (bs @ [n]) fs1" "qtext c1 q1 (bs @ [n]) = qtext c q bs @ [ch]"
        "cframe (insert n (set bs)) c c1"
        by (rule putc_room_new [OF h [unfolded fs] lt True, of ch])
      then show ?thesis using Cons.prems(6) n fs by (intro step [of q1 c1 "bs @ [n]" fs1 "insert n (set bs)" "[n]"]) auto
    qed
  qed auto
  then show thesis using that by blast
qed

text \<open>
  C31. A queue is first in, first out, and takes as much as it should: into an empty queue \<^verbatim>\<open>putc\<close> puts any text of up to \<^verbatim>\<open>TTYHOG\<close> = 200 characters
  for which there are enough free blocks of 14, and \<^verbatim>\<open>getc\<close> then returns exactly these characters, in order, each sign-extended, and leaves the queue empty.
\<close>

theorem queue_fifo:
  assumes "qheap c qinit [] fs" "length xs \<le> 200" "length xs \<le> 14 * length fs"
  shows "\<exists>s t. cq.puts xs (qinit, c) = (True, s) \<and> cq.gets (length xs) s = (map scast xs, t) \<and> qis t []"
proof -
  have "q_count qinit = 0" by (simp add: qinit_def)
  with assms have "unat (q_count qinit) + length xs \<le> 200" "unat (q_count qinit) + length xs \<le> 14 * (length ([] :: nat list) + length fs)" by simp_all
  note b = this
  obtain q' c' where "cq.puts xs (qinit, c) = (True, q', c')"
    by (rule puts_shared [OF assms(1) _ b assms(1)]) (auto simp: fresh_from_def)
  moreover have "qis (qinit, c) []" using assms(1) by (auto simp: qis_def qtext_def)
  ultimately show ?thesis using cq.puts_gets by blast
qed

text \<open>Blocks 16 to 256; block 16 is used or free, the others are free.\<close>

definition blocks :: "nat \<Rightarrow> cst" where
  "blocks f = \<lparr>cnext = (\<lambda>b. if b = 16 \<and> f \<noteq> 16 \<or> b = 256 then 0 else b + 16), cdat = (\<lambda>_. 0), cfree = f\<rparr>"

lemma blocks_free: "qheap (blocks 16) qinit [] (map ((*) 16) [1..<17])"
  by (simp add: qheap_def qrep_def blocks_def qinit_def upt_rec)

theorem queue_fifo_witness:
  "\<exists>s t. cq.puts (replicate 200 65) (qinit, blocks 16) = (True, s) \<and> cq.gets 200 s = (map scast (replicate 200 65 :: u8 list), t) \<and> qis t []"
  using queue_fifo [OF blocks_free, of "replicate 200 65"] by simp

section \<open>Editing a line\<close>

text \<open>
  What \<^verbatim>\<open>cookin\<close> does to the characters typed, on lists: with the characters of the line so far, what is typed next decides. The result
  is the line, if it was ended, and what was typed after it.
\<close>

fun edit :: "u8 \<Rightarrow> u8 \<Rightarrow> u8 list \<Rightarrow> u8 list \<Rightarrow> u8 list option \<times> u8 list" where
  "edit er kl bf [] = (None, [])"
| "edit er kl bf [c] = (if c = 4 then (Some (if length bf \<ge> 198 then [] else bf), [])
     else if c = 10 then (Some ((if length bf \<ge> 198 then [] else bf) @ [c]), []) else (None, []))"
| "edit er kl bf (c # d # cs) =
     (let l = (if length bf \<ge> 198 then [] else bf) in
      if c = 4 then (Some l, d # cs)
      else if c = 10 then (Some (l @ [c]), d # cs)
      else if c = kl then edit er kl [] (d # cs)
      else if c = er then edit er kl (butlast l) (d # cs)
      else if c \<noteq> 92 then edit er kl (l @ [c]) (d # cs)
      else if d = er \<or> d = kl then (if d = 10 \<or> d = 4 then (Some (l @ [d]), cs) else edit er kl (l @ [d]) cs)
      else if d = 10 \<or> d = 4 then (Some (l @ [92, d]), cs)
      else edit er kl (l @ [92, d]) cs)"

text \<open>Typing without the special characters gives what was typed; kill starts over; erase takes back a character.\<close>

lemma edit_plain:
  assumes "\<forall>c\<in>set w. c \<notin> {4, 10, 92, er, kl}" "length (bf @ w) < 198" "er \<noteq> 10" "kl \<noteq> 10"
  shows "edit er kl bf (w @ 10 # cs) = (Some (bf @ w @ [10]), cs)"
  using assms
proof (induction w arbitrary: bf)
  case Nil
  then show ?case by (cases cs) simp_all
next
  case (Cons x w)
  from Cons.IH [of "bf @ [x]"] Cons.prems show ?case by (cases w) (simp_all add: Let_def)
qed

lemma edit_kill:
  assumes "\<forall>c\<in>set w. c \<notin> {4, 10, 92, er, kl}" "cs \<noteq> []" "kl \<notin> {4, 10}" "length (bf @ w) < 198"
  shows "edit er kl bf (w @ kl # cs) = edit er kl [] cs"
  using assms
proof (induction w arbitrary: bf)
  case Nil
  then show ?case by (cases cs) (simp_all add: Let_def)
next
  case (Cons x w)
  from Cons.IH [of "bf @ [x]"] Cons.prems show ?case by (cases w) (simp_all add: Let_def)
qed

lemma edit_erase:
  assumes "c \<notin> {4, 10, 92, er, kl}" "cs \<noteq> []" "er \<notin> {4, 10, kl}" "length bf < 197"
  shows "edit er kl bf (c # er # cs) = edit er kl bf cs"
  using assms by (cases cs) (simp_all add: Let_def)

lemma edit_length: "edit er kl bf cs = (Some l, r) \<Longrightarrow> length l \<le> 199"
  by (induction er kl bf cs rule: edit.induct) (auto simp: Let_def split: if_splits)

text \<open>The handler's loop on a terminal whose raw queue holds the characters.\<close>

definition raw_is :: "nat \<Rightarrow> tyst \<Rightarrow> nat \<Rightarrow> u8 list \<Rightarrow> bool" where
  "raw_is n t k xs \<longleftrightarrow> (\<exists>bs fs. qheap (clst t) (ty_rawque (ttys t n)) bs fs \<and> qtext (clst t) (ty_rawque (ttys t n)) bs = xs \<and> k \<le> length fs)"

text \<open>\<open>raw_only n t t'\<close>: the states differ in the raw queue and the blocks only.\<close>

definition raw_only :: "nat \<Rightarrow> tyst \<Rightarrow> tyst \<Rightarrow> bool" where
  "raw_only n t t' \<longleftrightarrow> (\<exists>q c. t' = put_que Raw n (q, c) t)"

lemma raw_only_refl: "raw_only n t t"
proof -
  have "t = put_que Raw n (ty_rawque (ttys t n), clst t) t" by (simp add: put_que_def upd_tty_def)
  then show ?thesis unfolding raw_only_def by blast
qed

lemma raw_only_trans: "raw_only n t t' \<Longrightarrow> raw_only n t' t'' \<Longrightarrow> raw_only n t t''"
  unfolding raw_only_def by (auto simp: put_que_def upd_tty_def) (metis (lifting))

lemma raw_only_fields:
  assumes "raw_only n t t'"
  shows "ty_erase (ttys t' n) = ty_erase (ttys t n)" "ty_kill (ttys t' n) = ty_kill (ttys t n)"
    "ty_cokque (ttys t' n) = ty_cokque (ttys t n)" "ty_nbreak (ttys t' n) = ty_nbreak (ttys t n)" "kern t' = kern t"
  using assms by (auto simp: raw_only_def put_que_def upd_tty_def)

lemma tgetc_raw:
  assumes "raw_is n t k (x # xs)"
  obtains t' where "tgetc Raw n t = (scast x, t')" "raw_is n t' k xs" "raw_only n t t'"
proof -
  from assms obtain bs fs where h: "qheap (clst t) (ty_rawque (ttys t n)) bs fs" "qtext (clst t) (ty_rawque (ttys t n)) bs = x # xs" "k \<le> length fs"
    by (auto simp: raw_is_def)
  obtain q' c' bs' fs' where g: "getc (ty_rawque (ttys t n)) (clst t) = (scast x, q', c')" "qheap c' q' bs' fs'" "qtext c' q' bs' = xs"
    "length fs \<le> length fs'" by (rule getc_heap [OF h(1,2)])
  let ?t = "put_que Raw n (q', c') t"
  have "tgetc Raw n t = (scast x, ?t)" using g(1) by (simp add: tgetc_def)
  moreover have "raw_is n ?t k xs" unfolding raw_is_def
    using g(2,3) le_trans [OF h(3) g(4)] by (intro exI [of _ bs'] exI [of _ fs']) (simp add: put_que_def upd_tty_def)
  ultimately show thesis using that by (auto simp: raw_only_def)
qed

lemma tgetc_raw_empty:
  assumes "raw_is n t k []"
  shows "tgetc Raw n t = (0xFFFF, t)"
  using assms getc_empty [of "clst t" "ty_rawque (ttys t n)"] by (auto simp: raw_is_def tgetc_def put_que_def upd_tty_def)

lemma sext_ascii:
  assumes "(x :: u8) < 128"
  shows "(scast x :: u16) = ucast x"
proof -
  have "unat (take_bit 7 x) = unat x" using assms by (simp add: take_bit_eq_mod unat_mod word_less_nat_alt)
  then have "take_bit 7 x = x" by (rule unsigned_word_eqI)
  then have "bit x k \<Longrightarrow> k < 7" for k by (metis bit_take_bit_iff)
  then show ?thesis by (intro bit_word_eqI) (auto simp: bit_simps min_def, force)
qed

lemma ucast_sext: "ucast (scast (x :: u8) :: u16) = x"
  by (rule bit_word_eqI) (auto simp: bit_simps)

lemma unat_ucast_u16: "unat (ucast (z :: u8) :: u16) = unat z"
proof -
  have "unat z < 2 ^ LENGTH(8)" by (rule unsigned_less)
  then show ?thesis by (simp add: unsigned_ucast_eq take_bit_nat_eq_self)
qed

lemma ucast_u16_eq: "(ucast (x :: u8) :: u16) = ucast y \<longleftrightarrow> x = y"
proof
  assume "(ucast x :: u16) = ucast y"
  then have "unat (ucast x :: u16) = unat (ucast y :: u16)" by simp
  then show "x = y" by (simp add: unat_ucast_u16 unsigned_word_eqI)
qed simp

lemma ascii_cmp:
  assumes "(x :: u8) < 128"
  shows "(scast x :: u16) = ucast y \<longleftrightarrow> x = y" "(scast x :: u16) = 4 \<longleftrightarrow> x = 4" "(scast x :: u16) = 10 \<longleftrightarrow> x = 10"
    "(scast x :: u16) = 92 \<longleftrightarrow> x = 92" "(scast x :: u16) \<noteq> 0xFFFF" "\<not> (scast x :: u16) <s 0"
proof -
  have e: "(scast x :: u16) = ucast x" using sext_ascii [OF assms] .
  have u: "unat (ucast x :: u16) < 128" using assms by (simp add: unat_ucast_u16 word_less_nat_alt)
  show "(scast x :: u16) = ucast y \<longleftrightarrow> x = y" unfolding e by (rule ucast_u16_eq)
  show "(scast x :: u16) = 4 \<longleftrightarrow> x = 4" "(scast x :: u16) = 10 \<longleftrightarrow> x = 10" "(scast x :: u16) = 92 \<longleftrightarrow> x = 92"
    unfolding e using ucast_u16_eq [of x 4] ucast_u16_eq [of x 10] ucast_u16_eq [of x 92] by simp_all
  show "(scast x :: u16) \<noteq> 0xFFFF" unfolding e using u by auto
  have "\<not> bit (ucast x :: u16) 15" using bit_imp_le_length [of x 15] by (auto simp: bit_simps)
  then show "\<not> (scast x :: u16) <s 0" unfolding e using bit_last_iff [of "ucast x :: u16"] by (simp add: word_sless_alt)
qed

lemma line_loop_step:
  fixes t :: tyst
  assumes "tgetc Raw n t = (scast c, t1)" "tgetc Raw n t1 = (scast d, t2)" "c < 128" "d < 128"
    "ty_erase (ttys t n) = er" "ty_kill (ttys t n) = kl"
  shows "line_loop n bf t =
    (let l = (if length bf \<ge> 198 then [] else bf) in
      if c = 4 then (Some l, t1)
      else if c = 10 then (Some (l @ [c]), t1)
      else if c = kl then line_loop n [] t1
      else if c = er then line_loop n (butlast l) t1
      else if c \<noteq> 92 then line_loop n (l @ [c]) t1
      else if d = er \<or> d = kl then (if d = 10 \<or> d = 4 then (Some (l @ [d]), t2) else line_loop n (l @ [d]) t2)
      else if d = 10 \<or> d = 4 then (Some (l @ [92, d]), t2)
      else line_loop n (l @ [92, d]) t2)"
proof -
  note c = ascii_cmp [OF assms(3)] and d = ascii_cmp [OF assms(4)]
  have e: "(ucast (92 :: u16) :: u8) = 92" by simp
  have "line_loop n bf t =
    (let l = (if length bf \<ge> 198 then [] else bf) in
      if c = 4 then (Some l, t1) else if c = 10 then (Some (l @ [c]), t1)
      else if c = kl then line_loop n [] t1 else if c = er then line_loop n (butlast l) t1
      else if c = 92 then
        (let l2 = (if d = er \<or> d = kl then l @ [d] else l @ [92, d]) in
         if d = 10 \<or> d = 4 then (Some l2, t2) else line_loop n l2 t2)
      else line_loop n (l @ [c]) t1)"
    by (subst line_loop.simps) (simp only: assms(1,2,5,6) Let_def prod.case c d ucast_sext if_False refl e)
  then show ?thesis by (simp add: Let_def)
qed

lemma line_loop_edit:
  assumes "raw_is n t k xs" "\<forall>x\<in>set xs. x < 128" "ty_erase (ttys t n) = er" "ty_kill (ttys t n) = kl"
    "edit er kl bf xs = (Some l, rest)"
  shows "\<exists>t'. line_loop n bf t = (Some l, t') \<and> raw_is n t' k rest \<and> raw_only n t t'"
  using assms
proof (induction "length xs" arbitrary: xs bf t rule: less_induct)
  case (less xs)
  show ?case
  proof (cases xs)
    case Nil
    with less.prems(5) show ?thesis by simp
  next
    case (Cons c xs1)
    obtain t1 where g: "tgetc Raw n t = (scast c, t1)" "raw_is n t1 k xs1" "raw_only n t t1"
      by (rule tgetc_raw [OF less.prems(1) [unfolded Cons]])
    show ?thesis
    proof (cases xs1)
      case Nil
      with less.prems Cons g show ?thesis by (subst line_loop.simps) (auto simp: Let_def ascii_cmp ucast_sext split: if_splits)
    next
      case Cons2: (Cons d cs)
      obtain t2 where g2: "tgetc Raw n t1 = (scast d, t2)" "raw_is n t2 k cs" "raw_only n t1 t2"
        by (rule tgetc_raw [OF g(2) [unfolded Cons2]])
      note o2 = raw_only_trans [OF g(3) g2(3)]
      have a: "c < 128" "d < 128" using less.prems(2) Cons Cons2 by auto
      have cont: "\<exists>t'. line_loop n b t0 = (Some l, t') \<and> raw_is n t' k rest \<and> raw_only n t t'"
        if "edit er kl b ys = (Some l, rest)" "raw_is n t0 k ys" "raw_only n t t0" "length ys < length xs" "set ys \<subseteq> set xs" for b ys t0
        using less.hyps [OF that(4,2) _ _ _ that(1)] that(5) raw_only_fields [OF that(3)] less.prems(2-4) raw_only_trans [OF that(3)] by blast
      show ?thesis unfolding line_loop_step [OF g(1) g2(1) a less.prems(3,4), of bf]
        using less.prems(5) cont [OF _ g(2,3)] cont [OF _ g2(2) o2] g(2,3) g2(2) o2 unfolding Cons Cons2 
        by (auto simp: Let_def split: if_splits)
    qed
  qed
qed

lemma tputs_puts:
  "cq.puts xs (the_que x (ttys t n), clst t) = (True, q, c) \<Longrightarrow> tputs x n xs t = put_que x n (q, c) t"
proof (induction xs arbitrary: t)
  case Nil
  then show ?case by (cases x) (auto simp: put_que_def upd_tty_def)
next
  case (Cons ch xs)
  obtain ok q1 c1 where p: "putc (the_que x (ttys t n)) ch (clst t) = (ok, q1, c1)" by (rule prod_cases3)
  then have "qput ch (the_que x (ttys t n), clst t) = (ok, q1, c1)" by (simp add: qput_def)
  with Cons.prems have "ok" "cq.puts xs (q1, c1) = (True, q, c)" by (auto split: if_splits)
  moreover have "the_que x (ttys (put_que x n (q1, c1) t) n) = q1" "clst (put_que x n (q1, c1) t) = c1"
    by (cases x; simp add: put_que_def upd_tty_def)+
  ultimately have "tputs x n xs (put_que x n (q1, c1) t) = put_que x n (q, c) (put_que x n (q1, c1) t)" using Cons.IH by simp
  then show ?case using p by (cases x) (auto simp: tputc_def put_que_def upd_tty_def)
qed

text \<open>
  C29. A line typed arrives edited: when a whole line is waiting in the raw queue of a terminal in cooked mode (7-bit characters, the cooked queue
  empty, 15 blocks free), \<^verbatim>\<open>cookin\<close> returns, the cooked queue holds the edited line, the raw queue what was typed after it, and one line less is waiting.
\<close>

theorem cookin_edits_line:
  assumes "raw_is n t 15 xs" "\<forall>x\<in>set xs. x < 128" "edit (ty_erase (ttys t n)) (ty_kill (ttys t n)) [] xs = (Some l, rest)"
    "ty_cokque (ttys t n) = qinit" "\<not> tst (ty_mode (ttys t n)) (RAW OR CBREAK)" "ty_nbreak (ttys t n) \<noteq> 0"
  shows "\<exists>t'. cookin n t = Ret () t' \<and> qis (ty_cokque (ttys t' n), clst t') l \<and> qis (ty_rawque (ttys t' n), clst t') rest \<and>
    ty_nbreak (ttys t' n) = ty_nbreak (ttys t n) - 1 \<and> kern t' = kern t"
proof -
  from line_loop_edit [OF assms(1,2) refl refl assms(3)] obtain t1 where
    e: "line_loop n [] t = (Some l, t1)" "raw_is n t1 15 rest" "raw_only n t t1" by blast
  note f = raw_only_fields [OF e(3)]
  define t2 where "t2 = upd_tty n (\<lambda>y. if ty_nbreak y \<noteq> 0 then y\<lparr>ty_nbreak := ty_nbreak y - 1\<rparr> else y) t1"
  have t2: "ty_rawque (ttys t2 n) = ty_rawque (ttys t1 n)" "the_que Cok (ttys t2 n) = qinit" "clst t2 = clst t1" "kern t2 = kern t"
    "ty_nbreak (ttys t2 n) = ty_nbreak (ttys t n) - 1"
    using f assms(4,6) by (simp_all add: t2_def upd_tty_def)
  from e(2) obtain bs fs where h: "qheap (clst t1) (ty_rawque (ttys t1 n)) bs fs" "qtext (clst t1) (ty_rawque (ttys t1 n)) bs = rest" "15 \<le> length fs"
    by (auto simp: raw_is_def)
  have z: "q_count qinit = 0" by (simp add: qinit_def)
  have i: "qheap (clst t1) qinit [] fs" using h(1) by (simp add: qheap_def qrep_def qinit_def)
  have len: "length l \<le> 199" using edit_length [OF assms(3)] .
  obtain q' c' bs' fs' where p: "cq.puts l (qinit, clst t1) = (True, q', c')" "qheap c' q' bs' fs'" "qtext c' q' bs' = qtext (clst t1) qinit [] @ l"
    "qheap c' (ty_rawque (ttys t1 n)) bs fs'" "qtext c' (ty_rawque (ttys t1 n)) bs = qtext (clst t1) (ty_rawque (ttys t1 n)) bs"
    by (rule puts_shared [OF i _ _ _ h(1), of l]) (use len z h(3) in \<open>auto simp: fresh_from_def\<close>)
  have "tputs Cok n l t2 = put_que Cok n (q', c') t2" using p(1) t2(2,3) by (intro tputs_puts) simp
  then have "cookin n t = Ret () (put_que Cok n (q', c') t2)"
    using e(1) assms(5,6) by (simp add: cookin_def t2_def)
  moreover have "qis (ty_cokque (ttys (put_que Cok n (q', c') t2) n), clst (put_que Cok n (q', c') t2)) l"
    using p(2,3) by (auto simp: qis_def qtext_def put_que_def upd_tty_def)
  moreover have "qis (ty_rawque (ttys (put_que Cok n (q', c') t2) n), clst (put_que Cok n (q', c') t2)) rest"
    using p(4,5) h(2) t2(1) by (auto simp: qis_def put_que_def upd_tty_def)
  moreover have "ty_nbreak (ttys (put_que Cok n (q', c') t2) n) = ty_nbreak (ttys t n) - 1" "kern (put_que Cok n (q', c') t2) = kern t"
    using t2 by (simp_all add: put_que_def upd_tty_def)
  ultimately show ?thesis by blast
qed

text \<open>The line \<^verbatim>\<open>lx\<close>, backspace, \<^verbatim>\<open>s\<close>, newline.\<close>

definition typed_tty :: tyst where
  "typed_tty = \<lparr>kern = kst0, ttys = (\<lambda>_. \<lparr>ty_ispeed = 0, ty_ospeed = 0, ty_erase = 8, ty_kill = 24, ty_mode = 0, ty_state = 0, ty_col = 0, ty_line = 0,
      ty_nextc = 0, ty_nbreak = 1, ty_rawque = \<lparr>q_count = 5, q_first = 18, q_last = 23\<rparr>, ty_cokque = qinit, ty_outque = qinit, ty_count = 0, ty_mstate = 0\<rparr>),
    clst = (blocks 32)\<lparr>cdat := (\<lambda>_. 0)(18 := 108, 19 := 120, 20 := 8, 21 := 115, 22 := 10)\<rparr>, tcalls = []\<rparr>"

lemma typed_tty_raw: "raw_is 0 typed_tty 15 [108, 120, 8, 115, 10]"
proof -
  have "qheap (clst typed_tty) (ty_rawque (ttys typed_tty 0)) [16] (map ((*) 16) [2..<17])"
    by (simp add: qheap_def qrep_def blocks_def typed_tty_def upt_rec)
  moreover have "qtext (clst typed_tty) (ty_rawque (ttys typed_tty 0)) [16] = [108, 120, 8, 115, 10]"
    by (simp add: qtext_def typed_tty_def upt_rec)
  ultimately show ?thesis unfolding raw_is_def by (intro exI [of _ "[16]"] exI [of _ "map ((*) 16) [2..<17]"]) simp
qed

theorem cookin_edits_line_witness:
  "\<exists>t'. cookin 0 typed_tty = Ret () t' \<and> qis (ty_cokque (ttys t' 0), clst t') [108, 115, 10] \<and> qis (ty_rawque (ttys t' 0), clst t') [] \<and>
    ty_nbreak (ttys t' 0) = 0 \<and> kern t' = kst0"
  using cookin_edits_line [OF typed_tty_raw, of "[108, 115, 10]" "[]"] by (simp add: typed_tty_def tst_def)

end
