(* ===== verification/Output.thy ===== *)
theory Output
  imports Terminal
begin

text \<open>
  What a terminal prints: the output side of the handler refines a function on texts that expands tabs and newlines.
\<close>

section \<open>Expanding a text\<close>

fun expand :: "u16 \<Rightarrow> u8 \<Rightarrow> u8 list \<Rightarrow> u16 list" where
  "expand m col [] = []"
| "expand m col (x # xs) =
     (if 32 \<le> x \<and> x < 128 then ucast x # expand m (col + 1) xs
      else if x = 10 then (if tst m MAPCR then 13 # 10 # expand m 0 xs else 10 # expand m col xs)
      else if x = 9 then
        let k = 8 - unat col mod 8 in
        (if tst m XTABS then replicate k 32 else [9]) @ expand m (col + of_nat k) xs
      else if x = 8 then 8 # expand m (if col = 0 then 0 else col - 1) xs
      else scast x # expand m col xs)"

text \<open>What is still to come of an expansion.\<close>

definition pending :: "u8 \<Rightarrow> u16 list" where
  "pending nx = (if nx = 10 then [10] else replicate (unat nx) 32)"

lemma expand_plain: "\<not> tst m XTABS \<Longrightarrow> expand m col xs = expand m col' xs"
proof (induction xs arbitrary: col col')
  case (Cons x xs)
  obtain g where e: "\<And>c. expand m c xs = g" using Cons.IH [OF Cons.prems] by blast
  show ?case unfolding expand.simps Let_def e using Cons.prems by simp
qed simp

lemma sint_scast: "sint (scast (x :: u8) :: u16) = sint x"
proof -
  have "- 128 \<le> sint x" "sint x < 128" using sint_ge [of x] sint_less [of x] by simp_all
  then show ?thesis by (simp add: signed_scast_eq signed_take_bit_int_eq_self)
qed

lemma sint_byte:
  "(x :: u8) < 128 \<Longrightarrow> sint x = uint x" "\<not> x < 128 \<Longrightarrow> sint x < 0"
proof -
  show "sint x = uint x" if "x < 128"
  proof -
    have "- 128 \<le> uint x" by (rule order_trans [of _ 0]) simp_all
    with that show ?thesis by (simp add: sint_uint word_less_def signed_take_bit_int_eq_self)
  qed
  show "sint x < 0" if n: "\<not> x < 128"
  proof (rule ccontr)
    assume "\<not> sint x < 0"
    moreover have "sint x < 128" using sint_less [of x] by simp
    ultimately have "uint x = sint x" by (simp add: uint_sint take_bit_int_eq_self)
    with \<open>sint x < 128\<close> n show False by (simp add: word_less_def)
  qed
qed

lemma printable: "32 \<le>s (scast (x :: u8) :: u16) \<and> (scast x :: u16) \<le>s 0x7F \<longleftrightarrow> 32 \<le> x \<and> x < 128"
proof (cases "x < 128")
  case True
  then show ?thesis by (simp add: word_sle_eq sint_scast sint_byte(1) word_le_def word_less_def)
next
  case False
  then show ?thesis using sint_byte(2) [OF False] by (simp add: word_sle_eq sint_scast)
qed

lemma tab_stop:
  fixes col :: u8
  shows "8 - (col AND 7) = of_nat (8 - unat col mod 8)" 
proof -
  have "col AND 7 = take_bit 3 col" by (simp add: take_bit_eq_mask mask_eq_exp_minus_1)
  then have "unat (col AND 7) = unat col mod 8" by (simp add: take_bit_eq_mod unat_mod)
  then have "col AND 7 = of_nat (unat col mod 8)" by (metis ucast_id unsigned_ucast_eq of_nat_unat)
  then show ?thesis by (simp add: of_nat_diff)
qed

section \<open>The handler prints the expanded text\<close>

text \<open>\<open>prints n m t ys\<close>: the characters \<open>ys\<close> are what terminal \<open>n\<close>, in mode \<open>m\<close>, has still to print.\<close>

definition prints :: "nat \<Rightarrow> u16 \<Rightarrow> tyst \<Rightarrow> u16 list \<Rightarrow> bool" where
  "prints n m t ys \<longleftrightarrow>
     (\<exists>xs. qis (ty_outque (ttys t n), clst t) xs \<and> ys = pending (ty_nextc (ttys t n)) @ expand m (ty_col (ttys t n)) xs) \<and>
     (ty_nextc (ttys t n) = 10 \<or> ty_nextc (ttys t n) < 8) \<and> ty_mode (ttys t n) = m \<and> \<not> tst m MORE \<and>
     \<not> tst (ty_state (ttys t n)) LOSTOP \<and> \<not> tst (ty_state (ttys t n)) HOSLEEP"

lemma qis_count: "qis (q, c) xs \<Longrightarrow> q_count q = 0 \<longleftrightarrow> xs = []"
  using qheap_count by (fastforce simp: qis_def unat_eq_0)

text \<open>One interrupt prints one character and leaves the rest to print.\<close>

lemma ttyout_char:
  assumes "ttyout_put n t = log_call (CPut n y) t1" "kern t1 = kern t" "tcalls t1 = tcalls t" "prints n m t1 ys"
  shows "\<exists>t'. ttyout n t = Ret () t' \<and> tcalls t' = tcalls t @ [CPut n y] \<and> prints n m t' ys \<and> kern t' = kern t"
  using assms by (auto simp: ttyout_def prints_def log_call_def Let_def)

lemma pending_step:
  assumes "(nx :: u8) < 8" "nx \<noteq> 0"
  shows "pending nx = 32 # pending (nx - 1)" "nx - 1 < 8" "nx - 1 \<noteq> 10" "nx \<noteq> 10" "(ucast nx :: u16) \<noteq> 10" "(ucast nx :: u16) < 8"
proof -
  have u: "unat nx < 8" "unat (nx - 1) = unat nx - 1" "unat nx \<noteq> 0" using assms by (simp_all add: word_less_nat_alt unat_minus_one unat_eq_0)
  then show "nx - 1 < 8" "(ucast nx :: u16) < 8" by (simp_all add: word_less_nat_alt unat_ucast_u16)
  show n: "nx \<noteq> 10" "nx - 1 \<noteq> 10" using u by auto
  then show "(ucast nx :: u16) \<noteq> 10" using ucast_u16_eq [of nx 10] by simp
  show "pending nx = 32 # pending (nx - 1)" using n u by (cases "unat nx") (simp_all add: pending_def)
qed

lemma print_pending:
  assumes p: "prints n m t (y # ys)" and nx: "ty_nextc (ttys t n) \<noteq> 0"
  shows "\<exists>t'. ttyout n t = Ret () t' \<and> tcalls t' = tcalls t @ [CPut n y] \<and> prints n m t' ys \<and> kern t' = kern t"
proof -
  let ?nx = "ty_nextc (ttys t n)"
  from p obtain xs where q: "qis (ty_outque (ttys t n), clst t) xs" "y # ys = pending ?nx @ expand m (ty_col (ttys t n)) xs"
    and f: "?nx = 10 \<or> ?nx < 8" "ty_mode (ttys t n) = m" "\<not> tst m MORE" "\<not> tst (ty_state (ttys t n)) LOSTOP" "\<not> tst (ty_state (ttys t n)) HOSLEEP"
    by (auto simp: prints_def)
  have o: "ttyout_put n t = log_call (CPut n (fst (cookout_next n t))) (snd (cookout_next n t))"
    using nx f by (simp add: ttyout_put_def cookout_def Let_def split_beta)
  show ?thesis
  proof (cases "?nx = 10")
    case True
    let ?t = "upd_tty n (\<lambda>y. y\<lparr>ty_nextc := 0, ty_line := ty_line y + 1\<rparr>) t"
    have "ttyout_put n t = log_call (CPut n y) ?t" unfolding o using True q(2) by (simp add: cookout_next_def pending_def)
    then show ?thesis by (rule ttyout_char) (use True f q in \<open>auto simp: prints_def upd_tty_def pending_def\<close>)
  next
    case False
    with f(1) have lt: "?nx < 8" by simp
    note s = pending_step [OF lt nx]
    let ?t = "upd_tty n (\<lambda>y. y\<lparr>ty_nextc := ty_nextc y - 1\<rparr>) t"
    have "ttyout_put n t = log_call (CPut n y) ?t" unfolding o using s q(2) by (simp add: cookout_next_def)
    then show ?thesis by (rule ttyout_char) (use s f q in \<open>auto simp: prints_def upd_tty_def\<close>)
  qed
qed

lemma tgetc_out:
  assumes "qis (ty_outque (ttys t n), clst t) (x # xs)"
  obtains q c where "tgetc Out n t = (scast x, put_que Out n (q, c) t)" "qis (q, c) xs"
  using cq.get_first [OF assms] by (auto simp: qget_def tgetc_def)

lemma sext_eq: "(scast (x :: u8) :: u16) = 10 \<longleftrightarrow> x = 10" "(scast x :: u16) = 9 \<longleftrightarrow> x = 9" "(scast x :: u16) = 8 \<longleftrightarrow> x = 8"
  using ucast_sext [of x] by (auto; metis ucast_sext)+

lemma tab_pending:
  fixes col :: u8
  defines "k \<equiv> 8 - unat col mod 8"
  shows "pending (of_nat k - 1) = replicate (k - 1) 32" "of_nat k - 1 < (8 :: u8)" "(of_nat k - 1 :: u8) \<noteq> 10" "0 < k"
proof -
  have k: "0 < k" "k \<le> 8" by (simp_all add: k_def)
  then have e: "(of_nat k - 1 :: u8) = of_nat (k - 1)" by (simp add: of_nat_diff)
  have u: "unat (of_nat (k - 1) :: u8) = k - 1" using k by (simp only: unat_of_nat) simp
  show "of_nat k - 1 < (8 :: u8)" "(of_nat k - 1 :: u8) \<noteq> 10" "0 < k" using k u unfolding e by (auto simp: word_less_nat_alt)
  then show "pending (of_nat k - 1) = replicate (k - 1) 32" using u unfolding pending_def e by simp
qed

text \<open>Cooked output of the next character of the queue, by what the character is.\<close>

lemma cookout_char_step:
  fixes t :: tyst and n :: nat and x :: u8
  defines "k \<equiv> 8 - unat (ty_col (ttys t n)) mod 8" and "m \<equiv> ty_mode (ttys t n)"
  assumes "tgetc Out n t = (scast x, t1)"
  shows "cookout_char n t =
    (if 32 \<le> x \<and> x < 128 then (ucast x, upd_tty n (\<lambda>y. y\<lparr>ty_col := ty_col y + 1\<rparr>) t1)
     else if x = 10 then
       (if tst m MAPCR then (13, upd_tty n (\<lambda>y. y\<lparr>ty_nextc := 10, ty_col := 0\<rparr>) t1)
        else (10, upd_tty n (\<lambda>y. y\<lparr>ty_line := ty_line y + 1\<rparr>) t1))
     else if x = 9 then
       (if tst m XTABS then (32, upd_tty n (\<lambda>y. y\<lparr>ty_nextc := of_nat k - 1\<rparr>) (upd_tty n (\<lambda>y. y\<lparr>ty_col := ty_col y + of_nat k\<rparr>) t1))
        else (9, upd_tty n (\<lambda>y. y\<lparr>ty_col := ty_col y + of_nat k\<rparr>) t1))
     else if x = 8 then (8, if ty_col (ttys t n) \<noteq> 0 then upd_tty n (\<lambda>y. y\<lparr>ty_col := ty_col y - 1\<rparr>) t1 else t1)
     else (scast x, t1))"
  unfolding cookout_char_def assms prod.case Let_def printable sext_eq tab_stop k_def m_def
  by (cases "x < 128"; simp only: sext_ascii simp_thms if_False)

lemma cookout_char_prints:
  assumes g: "tgetc Out n t = (scast x, put_que Out n (q, c) t)" "qis (q, c) xs" and nx: "ty_nextc (ttys t n) = 0"
    and f: "ty_mode (ttys t n) = m" "\<not> tst m MORE" "\<not> tst (ty_state (ttys t n)) LOSTOP" "\<not> tst (ty_state (ttys t n)) HOSLEEP"
    and e: "expand m (ty_col (ttys t n)) (x # xs) = y # ys"
  obtains t1 where "cookout_char n t = (y, t1)" "kern t1 = kern t" "tcalls t1 = tcalls t" "prints n m t1 ys"
proof -
  note fin = that
  let ?col = "ty_col (ttys t n)" and ?t1 = "put_que Out n (q, c) t"
  define k where "k = 8 - unat ?col mod 8"
  note tp = tab_pending [of ?col, folded k_def] and st = cookout_char_step [OF g(1), folded k_def]
  have res: thesis if "cookout_char n t = (y, upd_tty n h ?t1)" "ty_outque (h (ttys ?t1 n)) = q" "ty_mode (h (ttys ?t1 n)) = m"
    "ty_state (h (ttys ?t1 n)) = ty_state (ttys t n)" "ty_nextc (h (ttys ?t1 n)) = 10 \<or> ty_nextc (h (ttys ?t1 n)) < 8"
    "ys = pending (ty_nextc (h (ttys ?t1 n))) @ expand m (ty_col (h (ttys ?t1 n))) xs" for h
    using that g(2) f by (intro fin [OF that(1)]) (auto simp: prints_def put_que_def upd_tty_def)
  consider "32 \<le> x \<and> x < 128" | "x = 10" | "x = 9" | "x = 8" | "\<not> (32 \<le> x \<and> x < 128)" "x \<noteq> 10" "x \<noteq> 9" "x \<noteq> 8" by blast
  then show thesis
  proof cases
    case 1
    with e have "y = ucast x" "ys = expand m (?col + 1) xs" by simp_all
    with 1 nx f(1) show thesis by (intro res [of "\<lambda>y. y\<lparr>ty_col := ty_col y + 1\<rparr>"]) (simp_all add: st put_que_def upd_tty_def pending_def)
  next
    case 2
    show thesis
    proof (cases "tst m MAPCR")
      case True
      with e 2 have "y = 13" "ys = 10 # expand m 0 xs" by simp_all
      with True 2 f(1) show thesis
        by (intro res [of "\<lambda>y. y\<lparr>ty_nextc := 10, ty_col := 0\<rparr>"]) (simp_all add: st put_que_def upd_tty_def pending_def)
    next
      case False
      with e 2 have "y = 10" "ys = expand m ?col xs" by simp_all
      with False 2 nx f(1) show thesis
        by (intro res [of "\<lambda>y. y\<lparr>ty_line := ty_line y + 1\<rparr>"]) (simp_all add: st put_que_def upd_tty_def pending_def)
    qed
  next
    case 3
    show thesis
    proof (cases "tst m XTABS")
      case True
      with e 3 have "y # ys = replicate k 32 @ expand m (?col + of_nat k) xs" by (simp add: k_def Let_def)
      then have "y = 32" "ys = replicate (k - 1) 32 @ expand m (?col + of_nat k) xs" using tp(4) by (cases k; simp)+
      with True 3 f(1) tp show thesis
        by (intro res [of "\<lambda>y. y\<lparr>ty_col := ty_col y + of_nat k, ty_nextc := of_nat k - 1\<rparr>"]) (simp_all add: st put_que_def upd_tty_def)
    next
      case False
      with e 3 have "y = 9" "ys = expand m (?col + of_nat k) xs" by (simp_all add: k_def Let_def)
      with False 3 nx f(1) show thesis
        by (intro res [of "\<lambda>y. y\<lparr>ty_col := ty_col y + of_nat k\<rparr>"]) (simp_all add: st put_que_def upd_tty_def pending_def)
    qed
  next
    case 4
    with e have "y = 8" "ys = expand m (if ?col = 0 then 0 else ?col - 1) xs" by simp_all
    with 4 nx f(1) show thesis
      by (intro res [of "\<lambda>y. if ?col \<noteq> 0 then y\<lparr>ty_col := ty_col y - 1\<rparr> else y"]) (auto simp: st put_que_def upd_tty_def pending_def)
  next
    case 5
    with e have "y = scast x" "ys = expand m ?col xs" by simp_all
    with 5 nx f(1) show thesis by (intro res [of "\<lambda>y. y"]) (auto simp: st put_que_def upd_tty_def pending_def)
  qed
qed

lemma tst_mask_or: "tst f (a OR b) \<longleftrightarrow> tst f a \<or> tst f b"
  unfolding tst_def by (simp add: bit.conj_disj_distrib or_eq_0_iff)

lemma expand_uncooked:
  fixes x :: u8
  assumes "\<not> tst m (MORE OR XTABS OR MAPCR)"
  shows "expand m col (x # xs) = scast x # expand m col xs"
proof -
  have n: "\<not> tst m XTABS" "\<not> tst m MAPCR" using assms unfolding tst_mask_or by blast+
  obtain g where e: "\<And>c. expand m c xs = g" using expand_plain [OF n(1)] by blast
  show ?thesis unfolding expand.simps Let_def e using n sext_ascii [of x] sext_eq [of x] by auto
qed

lemma print_char:
  assumes p: "prints n m t (y # ys)" and nx: "ty_nextc (ttys t n) = 0"
  shows "\<exists>t'. ttyout n t = Ret () t' \<and> tcalls t' = tcalls t @ [CPut n y] \<and> prints n m t' ys \<and> kern t' = kern t"
proof -
  from p nx obtain xs where q: "qis (ty_outque (ttys t n), clst t) xs" "y # ys = expand m (ty_col (ttys t n)) xs"
    and f: "ty_mode (ttys t n) = m" "\<not> tst m MORE" "\<not> tst (ty_state (ttys t n)) LOSTOP" "\<not> tst (ty_state (ttys t n)) HOSLEEP"
    by (auto simp: prints_def pending_def)
  then obtain x xs1 where x: "xs = x # xs1" by (cases xs) auto
  obtain q1 c1 where g: "tgetc Out n t = (scast x, put_que Out n (q1, c1) t)" "qis (q1, c1) xs1" by (rule tgetc_out [OF q(1) [unfolded x]])
  have cnt: "q_count (ty_outque (ttys t n)) \<noteq> 0" using qis_count [OF q(1)] x by simp
  show ?thesis
  proof (cases "tst m (MORE OR XTABS OR MAPCR)")
    case True
    obtain t1 where c: "cookout_char n t = (y, t1)" "kern t1 = kern t" "tcalls t1 = tcalls t" "prints n m t1 ys"
      by (rule cookout_char_prints [OF g nx f q(2) [unfolded x, symmetric]])
    have "ttyout_put n t = log_call (CPut n y) t1" using True f nx cnt c(1) by (simp add: ttyout_put_def cookout_def Let_def)
    then show ?thesis using c(2-4) by (rule ttyout_char)
  next
    case False
    with q(2) [unfolded x] have y: "y = scast x" "ys = expand m (ty_col (ttys t n)) xs1" unfolding expand_uncooked [OF False] by simp_all
    have "ttyout_put n t = log_call (CPut n y) (put_que Out n (q1, c1) t)" using False f nx cnt g(1) y by (simp add: ttyout_put_def Let_def)
    then show ?thesis by (rule ttyout_char) (use f g(2) y nx in \<open>auto simp: prints_def put_que_def upd_tty_def pending_def\<close>)
  qed
qed

lemma prints_all:
  "prints n m t ys \<Longrightarrow> \<exists>us t'. repeat (ttyout n) (length ys) t = Ret us t' \<and> tcalls t' = tcalls t @ map (CPut n) ys \<and> prints n m t' []"
proof (induction ys arbitrary: t)
  case (Cons y ys)
  from print_pending [OF Cons.prems] print_char [OF Cons.prems] obtain t1 where
    o: "ttyout n t = Ret () t1" "tcalls t1 = tcalls t @ [CPut n y]" "prints n m t1 ys" by blast
  from Cons.IH [OF o(3)] obtain us t' where "repeat (ttyout n) (length ys) t1 = Ret us t'" "tcalls t' = tcalls t1 @ map (CPut n) ys" "prints n m t' []"
    by blast
  with o show ?case by simp
qed simp

text \<open>
  C30. What is printed: while output is not stopped, the interrupts of a terminal (\<^verbatim>\<open>MORE\<close> off, no writer waiting) hand the line driver exactly the expanded
  text of the output queue, one character each: tabs as spaces to the next multiple of 8 under \<^verbatim>\<open>XTABS\<close>, newline as return and newline under \<^verbatim>\<open>MAPCR\<close>,
  everything else as it is. Afterwards the queue is empty and nothing is pending.
\<close>

theorem ttyout_prints:
  assumes "qis (ty_outque (ttys t n), clst t) xs" "ty_nextc (ttys t n) = 0" "\<not> tst (ty_mode (ttys t n)) MORE"
    "\<not> tst (ty_state (ttys t n)) LOSTOP" "\<not> tst (ty_state (ttys t n)) HOSLEEP"
  defines "out \<equiv> expand (ty_mode (ttys t n)) (ty_col (ttys t n)) xs"
  shows "\<exists>us t'. repeat (ttyout n) (length out) t = Ret us t' \<and> tcalls t' = tcalls t @ map (CPut n) out \<and>
    q_count (ty_outque (ttys t' n)) = 0 \<and> ty_nextc (ttys t' n) = 0"
proof -
  have "prints n (ty_mode (ttys t n)) t out" using assms by (auto simp: prints_def pending_def)
  from prints_all [OF this] obtain us t' where r: "repeat (ttyout n) (length out) t = Ret us t'" "tcalls t' = tcalls t @ map (CPut n) out"
    "prints n (ty_mode (ttys t n)) t' []" by blast
  from r(3) obtain xs' where x: "qis (ty_outque (ttys t' n), clst t') xs'" "expand (ty_mode (ttys t n)) (ty_col (ttys t' n)) xs' = []"
    "pending (ty_nextc (ttys t' n)) = []" by (auto simp: prints_def)
  from x(2) have "xs' = []" using tab_pending(4) by (cases xs') (auto simp: Let_def split: if_splits)
  then have "q_count (ty_outque (ttys t' n)) = 0" using qis_count [OF x(1)] by simp
  moreover have "ty_nextc (ttys t' n) = 0" using x(3) by (auto simp: pending_def unat_eq_0 split: if_splits)
  ultimately show ?thesis using r(1,2) by blast
qed

text \<open>The text \<^verbatim>\<open>a\<close>, tab, \<^verbatim>\<open>b\<close>, newline.\<close>

definition printing_tty :: tyst where
  "printing_tty = typed_tty\<lparr>ttys := (\<lambda>_. (ttys typed_tty 0)\<lparr>ty_mode := 0x12, ty_rawque := qinit, ty_outque := \<lparr>q_count = 4, q_first = 18, q_last = 22\<rparr>\<rparr>),
     clst := (blocks 32)\<lparr>cdat := (\<lambda>_. 0)(18 := 97, 19 := 9, 20 := 98, 21 := 10)\<rparr>\<rparr>"

lemma printing_queue: "qis (ty_outque (ttys printing_tty 0), clst printing_tty) [97, 9, 98, 10]"
proof -
  have "qheap (clst printing_tty) (ty_outque (ttys printing_tty 0)) [16] (map ((*) 16) [2..<17])"
    by (simp add: qheap_def qrep_def blocks_def printing_tty_def upt_rec)
  moreover have "qtext (clst printing_tty) (ty_outque (ttys printing_tty 0)) [16] = [97, 9, 98, 10]"
    by (simp add: qtext_def printing_tty_def upt_rec)
  ultimately show ?thesis unfolding qis_def by auto
qed

theorem ttyout_prints_witness:
  "\<exists>us t'. repeat (ttyout 0) 11 printing_tty = Ret us t' \<and>
    tcalls t' = map (CPut 0) [97, 32, 32, 32, 32, 32, 32, 32, 98, 13, 10] \<and> q_count (ty_outque (ttys t' 0)) = 0 \<and> ty_nextc (ttys t' 0) = 0"
proof -
  have f: "ty_mode (ttys printing_tty 0) = 0x12" "ty_col (ttys printing_tty 0) = 0" "ty_nextc (ttys printing_tty 0) = 0"
    "ty_state (ttys printing_tty 0) = 0" "tcalls printing_tty = []" by (simp_all add: printing_tty_def typed_tty_def)
  have e: "expand 0x12 0 [97, 9, 98, 10] = [97, 32, 32, 32, 32, 32, 32, 32, 98, 13, 10]" by code_simp
  have l: "length [97, 32, 32, 32, 32, 32, 32, 32, 98, 13, 10 :: u16] = 11" by simp
  have "\<not> tst (0x12 :: u16) MORE" by (simp add: tst_def)
  from ttyout_prints [OF printing_queue, unfolded f e l append_Nil, OF refl this tst_zero(1) tst_zero(1)] show ?thesis .
qed

end
