(* ===== verification/Space.thy ===== *)
theory Space
  imports Memory
begin

text \<open>
  Theorems about the two allocators of \<^verbatim>\<open>malloc.c\<close>: \<^verbatim>\<open>salloc\<close> and \<^verbatim>\<open>sfree\<close> keep a sorted map that stands for the set of
  free swap blocks, \<^verbatim>\<open>segalloc\<close> and \<^verbatim>\<open>segfree\<close> a table that stands for the set of free segments.
\<close>

section \<open>The swap map as a list\<close>

definition mend0 :: smap where
  "mend0 = \<lparr>s_size = 0, s_addr = 0\<rparr>"

fun seg_at :: "(nat \<Rightarrow> smap) \<Rightarrow> nat \<Rightarrow> smap list \<Rightarrow> bool" where
  "seg_at m i [] \<longleftrightarrow> True"
| "seg_at m i (e # es) \<longleftrightarrow> m i = e \<and> s_size e \<noteq> 0 \<and> seg_at m (Suc i) es"

text \<open>The map from index \<open>i\<close> on: the entries, and the end marker, whose address is 0 from the start.\<close>

definition map_at :: "(nat \<Rightarrow> smap) \<Rightarrow> nat \<Rightarrow> smap list \<Rightarrow> bool" where
  "map_at m i es \<longleftrightarrow> seg_at m i es \<and> m (i + length es) = mend0"

lemma map_at_simps [simp]:
  "map_at m i [] \<longleftrightarrow> m i = mend0"
  "map_at m i (e # es) \<longleftrightarrow> m i = e \<and> s_size e \<noteq> 0 \<and> map_at m (Suc i) es"
  by (auto simp: map_at_def)

lemma seg_at_cong: "(\<And>j. i \<le> j \<Longrightarrow> j < i + length es \<Longrightarrow> m' j = m j) \<Longrightarrow> seg_at m' i es = seg_at m i es"
  by (induction es arbitrary: i) auto

lemma map_at_upd [simp]: "j < i \<Longrightarrow> map_at (m(j := x)) i es = map_at m i es"
  by (induction es arbitrary: i) auto

lemma seg_at_upd [simp]: "i + length es \<le> j \<Longrightarrow> seg_at (m(j := x)) i es = seg_at m i es"
  by (rule seg_at_cong) auto

lemma map_at_append: "map_at m i (xs @ ys) \<longleftrightarrow> seg_at m i xs \<and> map_at m (i + length xs) ys"
  by (induction xs arbitrary: i) auto

lemma end_size [simp]: "s_size mend0 = 0" "s_addr mend0 = 0"
  by (simp_all add: mend0_def)

lemma lshift_n_map:
  "map_at m i (e # es) \<Longrightarrow> length es < n \<Longrightarrow> map_at (lshift_n n i m) i es \<and> (\<forall>j<i. lshift_n n i m j = m j)"
proof (induction es arbitrary: e i n m)
  case Nil
  then obtain k where n: "n = Suc k" by (cases n) auto
  have "lshift_n k (Suc i) (m(i := m (Suc i))) = m(i := m (Suc i))" using Nil by (cases k) simp_all
  with Nil n show ?case by simp
next
  case (Cons f es)
  then obtain k where n: "n = Suc k" by (cases n) auto
  define m1 where "m1 = m(i := m (Suc i))"
  have m1: "m1 i = f" "\<forall>j<i. m1 j = m j" using Cons.prems(1) by (auto simp: m1_def)
  have "map_at m1 (Suc i) (f # es)" using Cons.prems(1) by (simp add: m1_def)
  then have "map_at (lshift_n k (Suc i) m1) (Suc i) es" "\<forall>j<Suc i. lshift_n k (Suc i) m1 j = m1 j"
    using Cons.IH [of m1 "Suc i" f k] Cons.prems(2) n by auto
  moreover have "lshift_n n i m = lshift_n k (Suc i) m1" using Cons.prems(1) n by (simp add: m1_def)
  ultimately show ?case using m1 Cons.prems(1) by simp
qed

lemma lshift_map:
  assumes "map_at m 0 (xs @ e # es)" "length xs + length es < MAPSIZE"
  shows "map_at (lshift (length xs) m) 0 (xs @ es)"
proof -
  from assms have "map_at (lshift (length xs) m) (length xs) es" "\<forall>j<length xs. lshift (length xs) m j = m j"
    using lshift_n_map [of m "length xs" e es MAPSIZE] by (auto simp: map_at_append lshift_def)
  with assms(1) seg_at_cong [of 0 xs "lshift (length xs) m" m] show ?thesis by (simp add: map_at_append)
qed

lemma rshift_down_val: "rshift_down n mp m j = (if mp < j \<and> j \<le> mp + n then m (j - 1) else m j)"
  by (induction n arbitrary: m) (auto simp: le_Suc_eq)

lemma map_at_shift: "(\<And>j. j \<le> length es \<Longrightarrow> m' (k + j) = m (i + j)) \<Longrightarrow> map_at m i es \<Longrightarrow> map_at m' k es"
proof (induction es arbitrary: i k)
  case Nil
  from Nil(1) [of 0] Nil(2) show ?case by simp
next
  case (Cons e es)
  have "m' (Suc k + j) = m (Suc i + j)" if "j \<le> length es" for j using Cons.prems(1) [of "Suc j"] that by simp
  with Cons.IH [of "Suc k" "Suc i"] Cons.prems(1) [of 0] Cons.prems(2) show ?case by simp
qed

lemma mend_map: "map_at m i es \<Longrightarrow> i + length es < MAPSIZE \<Longrightarrow> mend m i = i + length es"
proof (induction es arbitrary: i)
  case Nil
  then show ?case by (simp add: mend_def upt_conv_Cons)
next
  case (Cons e es)
  then have "mend m i = mend m (Suc i)" by (simp add: mend_def upt_conv_Cons)
  with Cons show ?case by simp
qed

lemma insert_map:
  assumes "map_at m 0 (xs @ ys)" "length xs + length ys < MAPSIZE" "s_size e \<noteq> 0"
  shows "map_at ((rshift (length xs) m)(length xs := e)) 0 (xs @ e # ys)"
proof -
  let ?i = "length xs"
  have y: "map_at m ?i ys" "seg_at m 0 xs" using assms(1) by (simp_all add: map_at_append)
  have v: "rshift ?i m j = (if ?i < j \<and> j \<le> Suc (?i + length ys) then m (j - 1) else m j)" for j
  proof -
    have "Suc (mend m ?i) - ?i = Suc (length ys)" using mend_map [OF y(1)] assms(2) by simp
    then show ?thesis unfolding rshift_def rshift_down_val by simp
  qed
  have "map_at (rshift ?i m) (Suc ?i) ys" by (rule map_at_shift [OF _ y(1)]) (simp add: v)
  moreover have "seg_at (rshift ?i m) 0 xs" using y(2) seg_at_cong [of 0 xs "rshift ?i m" m] by (simp add: v)
  ultimately show ?thesis using assms(3) by (simp add: map_at_append)
qed

section \<open>The set of free blocks\<close>

definition extent :: "u16 \<Rightarrow> u16 \<Rightarrow> nat set" where
  "extent sz blk = {unat blk ..< unat blk + unat sz}"

definition ents :: "smap list \<Rightarrow> nat set" where
  "ents es = (\<Union>e\<in>set es. extent (s_size e) (s_addr e))"

text \<open>Entries are in increasing order, do not overlap, and end below 65536.\<close>

definition below :: "smap \<Rightarrow> smap \<Rightarrow> bool" where
  "below e f \<longleftrightarrow> unat (s_addr e) + unat (s_size e) \<le> unat (s_addr f)"

definition wfm :: "smap list \<Rightarrow> bool" where
  "wfm es \<longleftrightarrow> sorted_wrt below es \<and> (\<forall>e\<in>set es. s_size e \<noteq> 0 \<and> unat (s_addr e) + unat (s_size e) < 65536)"

lemma ents_simps [simp]: "ents [] = {}" "ents (e # es) = extent (s_size e) (s_addr e) \<union> ents es" "ents (xs @ ys) = ents xs \<union> ents ys"
  by (auto simp: ents_def)

lemma size_pos: "(n :: u16) \<noteq> 0 \<Longrightarrow> 0 < unat n"
  by (simp add: unat_gt_0)

lemma wfm_append: "wfm (xs @ ys) \<longleftrightarrow> wfm xs \<and> wfm ys \<and> (\<forall>x\<in>set xs. \<forall>y\<in>set ys. below x y)"
  by (auto simp: wfm_def sorted_wrt_append)

lemma wfm_Cons: "wfm (e # es) \<longleftrightarrow> (\<forall>y\<in>set es. below e y) \<and> s_size e \<noteq> 0 \<and> unat (s_addr e) + unat (s_size e) < 65536 \<and> wfm es"
  by (auto simp: wfm_def)

text \<open>Where \<^verbatim>\<open>salloc\<close> stops: the first entry that is large enough.\<close>

lemma salloc_loop_map:
  assumes "map_at m 0 (xs @ ys)" "length ys < n" "length (xs @ ys) < MAPSIZE" "\<forall>e\<in>set xs. s_size e < sz" "sz \<noteq> 0"
  shows "case salloc_loop n sz (length xs) m of
      None \<Rightarrow> \<forall>e\<in>set (xs @ ys). s_size e < sz
    | Some (b, m') \<Rightarrow> \<exists>as e bs. xs @ ys = as @ e # bs \<and> b = s_addr e \<and> sz \<le> s_size e \<and>
        map_at m' 0 (if s_size e = sz then as @ bs else as @ \<lparr>s_size = s_size e - sz, s_addr = s_addr e + sz\<rparr> # bs)"
  using assms
proof (induction ys arbitrary: xs n)
  case Nil
  then have "m (length xs) = mend0" by (simp add: map_at_def)
  with Nil show ?case by (cases n) auto
next
  case (Cons e ys)
  then obtain k where n: "n = Suc k" by (cases n) auto
  have me: "m (length xs) = e" "s_size e \<noteq> 0" using Cons.prems(1) by (simp_all add: map_at_append)
  consider "s_size e = sz" | "s_size e > sz" | "s_size e < sz" by fastforce
  then show ?case
  proof cases
    case 1
    with lshift_map [of m xs e ys] Cons.prems me n show ?thesis by auto
  next
    case 2
    let ?e = "\<lparr>s_size = s_size e - sz, s_addr = s_addr e + sz\<rparr>"
    have "map_at (m(length xs := ?e)) 0 (xs @ ?e # ys)" using Cons.prems(1) 2 by (auto simp: map_at_append)
    moreover have "salloc_loop n sz (length xs) m = Some (s_addr e, m(length xs := ?e))" "s_size e \<noteq> sz" using 2 me n by auto
    ultimately show ?thesis using 2 by (simp only: option.case prod.case) (intro exI [of _ xs] exI [of _ e] exI [of _ ys], simp)
  next
    case 3
    have "case salloc_loop k sz (length (xs @ [e])) m of
        None \<Rightarrow> \<forall>e\<in>set ((xs @ [e]) @ ys). s_size e < sz
      | Some (b, m') \<Rightarrow> \<exists>as f bs. (xs @ [e]) @ ys = as @ f # bs \<and> b = s_addr f \<and> sz \<le> s_size f \<and>
        map_at m' 0 (if s_size f = sz then as @ bs else as @ \<lparr>s_size = s_size f - sz, s_addr = s_addr f + sz\<rparr> # bs)"
      using Cons.prems 3 n by (intro Cons.IH) auto
    moreover have "salloc_loop n sz (length xs) m = salloc_loop k sz (length (xs @ [e])) m" using 3 me n by auto
    ultimately show ?thesis by (simp only: append_assoc append_Cons append_Nil)
  qed
qed

text \<open>What taking the front of an entry leaves.\<close>

lemma extent_split:
  assumes "sz \<le> n" "unat a + unat n < 65536"
  shows "unat (a + sz) = unat a + unat sz" "unat (n - sz) = unat n - unat sz" "extent (n - sz) (a + sz) = extent n a - extent sz a"
    "extent sz a \<subseteq> extent n a"
proof -
  have le: "unat sz \<le> unat n" using assms(1) by (simp add: word_le_nat_alt)
  with assms(2) show a: "unat (a + sz) = unat a + unat sz" by (simp add: unat_word_ariths)
  show b: "unat (n - sz) = unat n - unat sz" using assms(1) by (rule unat_sub)
  show "extent (n - sz) (a + sz) = extent n a - extent sz a" unfolding extent_def a b using le by auto
  show "extent sz a \<subseteq> extent n a" using le by (auto simp: extent_def)
qed

lemma below_disjoint: "below e f \<Longrightarrow> extent (s_size e) (s_addr e) \<inter> extent (s_size f) (s_addr f) = {}"
  by (auto simp: below_def extent_def)

lemma wfm_disjoint:
  assumes "wfm (xs @ e # ys)"
  shows "ents xs \<inter> extent (s_size e) (s_addr e) = {}" "ents ys \<inter> extent (s_size e) (s_addr e) = {}"
  using assms by (auto simp: wfm_append wfm_Cons ents_def below_def extent_def)

lemma take_front:
  assumes "wfm (xs @ e # ys)" "sz \<le> s_size e" "sz \<noteq> 0"
  defines "zs \<equiv> (if s_size e = sz then xs @ ys else xs @ \<lparr>s_size = s_size e - sz, s_addr = s_addr e + sz\<rparr> # ys)"
  shows "wfm zs" "ents zs = ents (xs @ e # ys) - extent sz (s_addr e)" "extent sz (s_addr e) \<subseteq> ents (xs @ e # ys)"
proof -
  have w: "unat (s_addr e) + unat (s_size e) < 65536" using assms(1) by (auto simp: wfm_append wfm_Cons)
  note x = extent_split [OF assms(2) w] and d = wfm_disjoint [OF assms(1)]
  show "wfm zs" using assms(1,2) x(1,2) unfolding zs_def
    by (auto simp: wfm_append wfm_Cons below_def word_le_nat_alt)
  show "ents zs = ents (xs @ e # ys) - extent sz (s_addr e)" using d x(3,4) unfolding zs_def by auto
  show "extent sz (s_addr e) \<subseteq> ents (xs @ e # ys)" using x(4) by auto
qed

text \<open>\<open>swap_is s F\<close>: the swap map is well formed and stands for the free blocks \<open>F\<close>.\<close>

definition swap_list :: "kst \<Rightarrow> smap list \<Rightarrow> bool" where
  "swap_list s es \<longleftrightarrow> map_at (swapmap s) 0 es \<and> wfm es \<and> length es < MAPSIZE"

lemma salloc_list:
  assumes "swap_list s es" "sz \<noteq> 0"
  shows "(\<exists>e\<in>set es. sz \<le> s_size e) \<Longrightarrow> \<exists>b m es'. salloc sz s = (b, s\<lparr>swapmap := m\<rparr>) \<and> swap_list (s\<lparr>swapmap := m\<rparr>) es' \<and>
      extent sz b \<subseteq> ents es \<and> ents es' = ents es - extent sz b \<and> length es' \<le> length es"
    and "\<not> (\<exists>e\<in>set es. sz \<le> s_size e) \<Longrightarrow> salloc sz s = (0, pr ''Out of swap space'' [] s)"
proof -
  from assms have m: "map_at (swapmap s) 0 es" "wfm es" "length es < MAPSIZE" by (simp_all add: swap_list_def)
  note l = salloc_loop_map [of "swapmap s" "[]" es MAPSIZE sz, simplified, OF m(1,3) assms(2)]
  {
    assume e: "\<exists>e\<in>set es. sz \<le> s_size e"
    then obtain b m' where sl: "salloc_loop MAPSIZE sz 0 (swapmap s) = Some (b, m')" using l by (cases "salloc_loop MAPSIZE sz 0 (swapmap s)") fastforce+
    with l obtain as e bs where x: "es = as @ e # bs" "b = s_addr e" "sz \<le> s_size e"
      "map_at m' 0 (if s_size e = sz then as @ bs else as @ \<lparr>s_size = s_size e - sz, s_addr = s_addr e + sz\<rparr> # bs)" by auto
    note t = take_front [OF m(2) [unfolded x(1)] x(3) assms(2), folded x(1)]
    let ?es = "if s_size e = sz then as @ bs else as @ \<lparr>s_size = s_size e - sz, s_addr = s_addr e + sz\<rparr> # bs"
    have "salloc sz s = (b, s\<lparr>swapmap := m'\<rparr>)" using sl by (simp add: salloc_def)
    moreover have "length ?es \<le> length es" by (simp add: x(1))
    ultimately show "\<exists>b m es'. salloc sz s = (b, s\<lparr>swapmap := m\<rparr>) \<and> swap_list (s\<lparr>swapmap := m\<rparr>) es' \<and>
      extent sz b \<subseteq> ents es \<and> ents es' = ents es - extent sz b \<and> length es' \<le> length es"
      using t x(2,4) m(3) by (intro exI [of _ b] exI [of _ m'] exI [of _ ?es]) (simp add: swap_list_def)
  }
  show "salloc sz s = (0, pr ''Out of swap space'' [] s)" if "\<not> (\<exists>e\<in>set es. sz \<le> s_size e)"
  proof (cases "salloc_loop MAPSIZE sz 0 (swapmap s)")
    case None
    then show ?thesis by (simp add: salloc_def)
  next
    case (Some a)
    with l that show ?thesis by (auto split: prod.splits)
  qed
qed

text \<open>The merging loop of \<^verbatim>\<open>sfree\<close>.\<close>

fun merge :: "smap \<Rightarrow> smap list \<Rightarrow> smap list" where
  "merge e [] = [e]"
| "merge e (f # fs) = (if s_addr e + s_size e = s_addr f then merge (e\<lparr>s_size := s_size e + s_size f\<rparr>) fs else e # f # fs)"

lemma extent_join:
  assumes "s_addr e + s_size e = s_addr f" "unat (s_addr e) + unat (s_size e) < 65536" "unat (s_addr f) + unat (s_size f) < 65536"
  shows "unat (s_addr f) = unat (s_addr e) + unat (s_size e)" "unat (s_size e + s_size f) = unat (s_size e) + unat (s_size f)"
    "extent (s_size e + s_size f) (s_addr e) = extent (s_size e) (s_addr e) \<union> extent (s_size f) (s_addr f)"
proof -
  have "unat (s_addr e + s_size e) = unat (s_addr e) + unat (s_size e)" using assms(2) by (simp add: unat_word_ariths)
  then show a: "unat (s_addr f) = unat (s_addr e) + unat (s_size e)" using assms(1) by simp
  with assms(3) show b: "unat (s_size e + s_size f) = unat (s_size e) + unat (s_size f)" by (simp add: unat_word_ariths)
  show "extent (s_size e + s_size f) (s_addr e) = extent (s_size e) (s_addr e) \<union> extent (s_size f) (s_addr f)"
    unfolding extent_def a b by auto
qed

lemma wfm_join:
  assumes "wfm (xs @ e # f # fs)" "s_addr e + s_size e = s_addr f"
  defines "g \<equiv> e\<lparr>s_size := s_size e + s_size f\<rparr>"
  shows "wfm (xs @ g # fs)" "s_size g \<noteq> 0" "extent (s_size g) (s_addr g) = extent (s_size e) (s_addr e) \<union> extent (s_size f) (s_addr f)"
proof -
  have w: "unat (s_addr e) + unat (s_size e) < 65536" "unat (s_addr f) + unat (s_size f) < 65536" "s_size e \<noteq> 0"
    using assms(1) by (auto simp: wfm_append wfm_Cons)
  note j = extent_join [OF assms(2) w(1,2)]
  show n: "s_size g \<noteq> 0" using j(2) w(3) by (auto simp: g_def unat_eq_0 [symmetric])
  show "extent (s_size g) (s_addr g) = extent (s_size e) (s_addr e) \<union> extent (s_size f) (s_addr f)" using j(3) by (simp add: g_def)
  show "wfm (xs @ g # fs)" using assms(1) j(1,2) n w(2) by (auto simp: wfm_append wfm_Cons below_def g_def)
qed

lemma merge_list: "wfm (xs @ e # es) \<Longrightarrow> wfm (xs @ merge e es) \<and> ents (merge e es) = ents (e # es) \<and> length (merge e es) \<le> Suc (length es)"
proof (induction e es rule: merge.induct)
  case (2 e f fs)
  show ?case
  proof (cases "s_addr e + s_size e = s_addr f")
    case True
    note j = wfm_join [OF "2.prems" True]
    from "2.IH" [OF True j(1)] j(3) True show ?thesis by auto
  qed (use "2.prems" in simp)
qed simp

lemma sfree_merge_map:
  "map_at m 0 (xs @ e # es) \<Longrightarrow> wfm (xs @ e # es) \<Longrightarrow> length es < n \<Longrightarrow> length xs + Suc (length es) < MAPSIZE \<Longrightarrow>
   \<exists>m'. sfree_merge n (length xs) m = Some m' \<and> map_at m' 0 (xs @ merge e es)"
proof (induction e es arbitrary: m n rule: merge.induct)
  case (1 e)
  then obtain k where n: "n = Suc k" by (cases n) auto
  have w: "unat (s_addr e) + unat (s_size e) < 65536" "s_size e \<noteq> 0" using "1.prems"(2) by (auto simp: wfm_append wfm_Cons)
  then have "unat (s_addr e + s_size e) = unat (s_addr e) + unat (s_size e)" by (simp add: unat_word_ariths)
  then have "s_addr e + s_size e \<noteq> 0" using size_pos [OF w(2)] by auto
  with "1.prems"(1) n show ?case by (auto simp: map_at_append)
next
  case (2 e f fs)
  then obtain k where n: "n = Suc k" by (cases n) auto
  have me: "m (length xs) = e" "m (Suc (length xs)) = f" using "2.prems"(1) by (auto simp: map_at_append)
  show ?case
  proof (cases "s_addr e + s_size e = s_addr f")
    case True
    note j = wfm_join [OF "2.prems"(2) True]
    define g where "g = e\<lparr>s_size := s_size e + s_size f\<rparr>"
    have "map_at (m(length xs := g)) 0 ((xs @ [g]) @ f # fs)" using "2.prems"(1) j(2) by (auto simp: map_at_append g_def)
    then have "map_at (lshift (length (xs @ [g])) (m(length xs := g))) 0 ((xs @ [g]) @ fs)"
      using "2.prems"(4) by (intro lshift_map) simp_all
    then have "\<exists>m'. sfree_merge k (length xs) (lshift (Suc (length xs)) (m(length xs := g))) = Some m' \<and> map_at m' 0 (xs @ merge g fs)"
      using "2.IH" [OF True, folded g_def, of "lshift (Suc (length xs)) (m(length xs := g))" k] j(1) "2.prems"(3,4) n by (simp add: g_def)
    then show ?thesis using True me n by (simp add: g_def)
  next
    case False
    with "2.prems"(1) me n show ?thesis by simp
  qed
qed

lemma sfree_pos_map:
  "map_at m i es \<Longrightarrow> length es < n \<Longrightarrow> sfree_pos n blk i m = i + length (takeWhile (\<lambda>e. s_addr e < blk) es)"
proof (induction es arbitrary: i n)
  case Nil
  then show ?case by (cases n) simp_all
next
  case (Cons e es)
  then obtain k where n: "n = Suc k" by (cases n) auto
  with Cons.IH [of "Suc i" k] Cons.prems show ?case by simp
qed

text \<open>Inserting an extent that is not free where \<^verbatim>\<open>sfree\<close> does.\<close>

lemma wfm_insert:
  assumes "wfm es" "sz \<noteq> 0" "unat blk + unat sz < 65536" "extent sz blk \<inter> ents es = {}"
  defines "xs \<equiv> takeWhile (\<lambda>e. s_addr e < blk) es" and "ys \<equiv> dropWhile (\<lambda>e. s_addr e < blk) es"
  shows "wfm (xs @ \<lparr>s_size = sz, s_addr = blk\<rparr> # ys)"
proof -
  have es: "es = xs @ ys" by (simp add: xs_def ys_def)
  have lt: "x \<in> set xs \<Longrightarrow> s_addr x < blk" for x unfolding xs_def by (auto dest: set_takeWhileD)
  have ge: "blk \<le> s_addr y" if "y \<in> set ys" for y
  proof (cases ys)
    case (Cons h t)
    then have "blk \<le> s_addr h" unfolding ys_def by (metis dropWhile_eq_Cons_conv not_le)
    moreover have "unat (s_addr h) \<le> unat (s_addr y)" using that Cons assms(1) by (auto simp: es wfm_append wfm_Cons below_def)
    ultimately show ?thesis by (simp add: word_le_nat_alt)
  qed (use that in simp)
  have dj: "e \<in> set es \<Longrightarrow> extent sz blk \<inter> extent (s_size e) (s_addr e) = {}" for e using assms(4) by (auto simp: ents_def)
  have p: "0 < unat sz" "\<And>e. e \<in> set es \<Longrightarrow> 0 < unat (s_size e)" using assms(1,2) size_pos by (auto simp: wfm_def)
  have "below x \<lparr>s_size = sz, s_addr = blk\<rparr>" if "x \<in> set xs" for x
  proof (rule ccontr)
    assume "\<not> ?thesis"
    then have "unat blk \<in> extent sz blk \<inter> extent (s_size x) (s_addr x)" using lt [OF that] p(1) by (auto simp: below_def extent_def word_less_nat_alt)
    with dj [of x] that es show False by simp
  qed
  moreover have "below \<lparr>s_size = sz, s_addr = blk\<rparr> y" if "y \<in> set ys" for y
  proof (rule ccontr)
    assume "\<not> ?thesis"
    then have "unat (s_addr y) \<in> extent sz blk \<inter> extent (s_size y) (s_addr y)"
      using ge [OF that] p(2) [of y] that es by (auto simp: below_def extent_def word_le_nat_alt)
    with dj [of y] that es show False by simp
  qed
  ultimately show ?thesis using assms(1-3) by (auto simp: es wfm_append wfm_Cons)
qed

lemma sfree_list:
  assumes "swap_list s es" "Suc (length es) < MAPSIZE" "sz \<noteq> 0" "unat blk + unat sz < 65536" "extent sz blk \<inter> ents es = {}"
  shows "\<exists>m es'. sfree sz blk s = Ret () (s\<lparr>swapmap := m\<rparr>) \<and> swap_list (s\<lparr>swapmap := m\<rparr>) es' \<and>
    ents es' = ents es \<union> extent sz blk \<and> length es' \<le> Suc (length es)"
proof -
  from assms(1) have m: "map_at (swapmap s) 0 es" "wfm es" by (simp_all add: swap_list_def)
  define xs ys where "xs = takeWhile (\<lambda>e. s_addr e < blk) es" and "ys = dropWhile (\<lambda>e. s_addr e < blk) es"
  define e where "e = \<lparr>s_size = sz, s_addr = blk\<rparr>"
  define m1 where "m1 = (rshift (length xs) (swapmap s))(length xs := e)"
  have es: "es = xs @ ys" by (simp add: xs_def ys_def)
  have w: "wfm (xs @ e # ys)" unfolding xs_def ys_def e_def using m(2) assms(3-5) by (rule wfm_insert)
  have a: "map_at m1 0 (xs @ e # ys)" unfolding m1_def using m(1) assms(2,3) by (intro insert_map) (simp_all add: es e_def)
  have pos: "sfree_pos MAPSIZE blk 0 (swapmap s) = length xs" using sfree_pos_map [OF m(1)] assms(2) by (simp add: xs_def)
  obtain m' es' where r: "sfree_merge MAPSIZE (length xs - 1) m1 = Some m'" "map_at m' 0 es'" "wfm es'" "ents es' = ents (xs @ e # ys)"
    "length es' \<le> Suc (length es)"
  proof (cases xs rule: rev_cases)
    case Nil
    with a w assms(2) es obtain m' where "sfree_merge MAPSIZE 0 m1 = Some m'" "map_at m' 0 (merge e ys)"
      using sfree_merge_map [of m1 "[]" e ys MAPSIZE] by auto
    with Nil merge_list [of "[]" e ys] w es that show thesis by simp
  next
    case (snoc zs z)
    with a w assms(2) es obtain m' where "sfree_merge MAPSIZE (length zs) m1 = Some m'" "map_at m' 0 (zs @ merge z (e # ys))"
      using sfree_merge_map [of m1 zs z "e # ys" MAPSIZE] by auto
    with snoc merge_list [of zs z "e # ys"] w es that show thesis by auto
  qed
  have "sfree sz blk s = Ret () (s\<lparr>swapmap := m'\<rparr>)"
    using r(1) by (simp add: sfree_def pos Let_def flip: m1_def e_def)
  moreover have "ents (xs @ e # ys) = ents es \<union> extent sz blk" by (auto simp: es e_def)
  ultimately show ?thesis using r assms(2) by (intro exI [of _ m'] exI [of _ es']) (auto simp: swap_list_def)
qed

section \<open>Allocators\<close>

text \<open>
  What the kernel relies on: a request takes cells that were free, and giving them back makes them free again. \<open>room\<close> says that
  the allocator has the table space to take something back.
\<close>

locale allocator =
  fixes free :: "'s \<Rightarrow> 'a set \<Rightarrow> bool" and cells :: "'e \<Rightarrow> 'a set" and ok :: "'e \<Rightarrow> bool" and space :: "'s \<Rightarrow> bool"
    and req :: "'q \<Rightarrow> 's \<Rightarrow> ('e \<times> 's) option" and give :: "'e \<Rightarrow> 's \<Rightarrow> 's option"
  assumes req_free: "free s F \<Longrightarrow> req q s = Some (e, s') \<Longrightarrow> ok e \<and> cells e \<subseteq> F \<and> cells e \<noteq> {} \<and> free s' (F - cells e)"
    and req_space: "free s F \<Longrightarrow> space s \<Longrightarrow> req q s = Some (e, s') \<Longrightarrow> space s'"
    and give_free: "free s F \<Longrightarrow> space s \<Longrightarrow> ok e \<Longrightarrow> cells e \<inter> F = {} \<Longrightarrow> \<exists>s'. give e s = Some s' \<and> free s' (F \<union> cells e)"
begin

primrec reqs :: "'q list \<Rightarrow> 's \<Rightarrow> ('e list \<times> 's) option" where
  "reqs [] s = Some ([], s)"
| "reqs (q # qs) s = (case req q s of None \<Rightarrow> None
     | Some (e, s1) \<Rightarrow> (case reqs qs s1 of None \<Rightarrow> None | Some (es, s2) \<Rightarrow> Some (e # es, s2)))"

lemma reqs_disjoint:
  "free s F \<Longrightarrow> reqs qs s = Some (es, s') \<Longrightarrow>
   (\<Union>e\<in>set es. cells e) \<subseteq> F \<and> free s' (F - (\<Union>e\<in>set es. cells e)) \<and> sorted_wrt (\<lambda>e f. cells e \<inter> cells f = {}) es"
proof (induction qs arbitrary: s F es)
  case (Cons q qs)
  from Cons.prems(2) obtain e s1 fs where r: "req q s = Some (e, s1)" "reqs qs s1 = Some (fs, s')" "es = e # fs"
    by (auto split: option.splits)
  note q = req_free [OF Cons.prems(1) r(1)]
  with Cons.IH [OF _ r(2)] have "(\<Union>e\<in>set fs. cells e) \<subseteq> F - cells e" "free s' (F - cells e - (\<Union>e\<in>set fs. cells e))"
    "sorted_wrt (\<lambda>e f. cells e \<inter> cells f = {}) fs" by blast+
  moreover have "F - cells e - (\<Union>e\<in>set fs. cells e) = F - (\<Union>e\<in>set es. cells e)" by (auto simp: r(3))
  ultimately show ?case using q r(3) by auto
qed simp

lemma req_give:
  assumes "free s F" "space s" "req q s = Some (e, s')"
  shows "\<exists>s''. give e s' = Some s'' \<and> free s'' F"
proof -
  note q = req_free [OF assms(1,3)]
  then have "F - cells e \<union> cells e = F" by auto
  with q give_free [of s' "F - cells e" e] req_space [OF assms] show ?thesis by auto
qed

end

subsection \<open>Swap space\<close>

definition swap_is :: "kst \<Rightarrow> nat set \<Rightarrow> bool" where
  "swap_is s F \<longleftrightarrow> (\<exists>es. swap_list s es \<and> ents es = F \<and> 0 \<notin> F)"

definition sw_cells :: "u16 \<times> u16 \<Rightarrow> nat set" where
  "sw_cells e = extent (fst e) (snd e)"

definition sw_ok :: "u16 \<times> u16 \<Rightarrow> bool" where
  "sw_ok e \<longleftrightarrow> fst e \<noteq> 0 \<and> snd e \<noteq> 0 \<and> unat (snd e) + unat (fst e) < 65536"

definition sw_space :: "kst \<Rightarrow> bool" where
  "sw_space s \<longleftrightarrow> Suc (mend (swapmap s) 0) < MAPSIZE"

definition sw_req :: "u16 \<Rightarrow> kst \<Rightarrow> ((u16 \<times> u16) \<times> kst) option" where
  "sw_req sz s = (if sz = 0 then None else let (b, s') = salloc sz s in if b = 0 then None else Some ((sz, b), s'))"

definition sw_give :: "u16 \<times> u16 \<Rightarrow> kst \<Rightarrow> kst option" where
  "sw_give e s = (case sfree (fst e) (snd e) s of Ret _ s' \<Rightarrow> Some s' | _ \<Rightarrow> None)"

lemma swap_list_space: "swap_list s es \<Longrightarrow> sw_space s \<longleftrightarrow> Suc (length es) < MAPSIZE"
  using mend_map [of "swapmap s" 0 es] by (simp add: swap_list_def sw_space_def)

lemma extent_bound:
  assumes "wfm es" "extent sz b \<subseteq> ents es" "sz \<noteq> 0"
  shows "unat b + unat sz < 65536"
proof -
  have "unat b + unat sz - 1 \<in> extent sz b" using size_pos [OF assms(3)] by (auto simp: extent_def)
  with assms(2) obtain e where "e \<in> set es" "unat b + unat sz - 1 \<in> extent (s_size e) (s_addr e)" by (auto simp: ents_def)
  with assms(1) show ?thesis by (fastforce simp: wfm_def extent_def)
qed

lemma sw_req_spec:
  assumes "swap_is s F" "sw_req sz s = Some (e, s')"
  obtains es es' where "swap_list s es" "swap_list s' es'" "length es' \<le> length es" "e = (sz, snd e)" "sw_ok e"
    "sw_cells e \<subseteq> F" "ents es = F" "ents es' = F - sw_cells e" "0 \<notin> F"
proof -
  from assms(1) obtain es where l: "swap_list s es" "ents es = F" "0 \<notin> F" by (auto simp: swap_is_def)
  from assms(2) obtain b where r: "sz \<noteq> 0" "salloc sz s = (b, s')" "b \<noteq> 0" "e = (sz, b)"
    by (auto simp: sw_req_def split: if_splits prod.splits)
  with salloc_list(2) [OF l(1) r(1)] have "\<exists>e\<in>set es. sz \<le> s_size e" by auto
  from salloc_list(1) [OF l(1) r(1) this] r(2) obtain es' where q: "swap_list s' es'" "extent sz b \<subseteq> ents es" "ents es' = ents es - extent sz b"
    "length es' \<le> length es" by auto
  have "unat b + unat sz < 65536" using l(1) q(2) r(1) by (intro extent_bound) (auto simp: swap_list_def)
  with r q l show thesis by (intro that [of es es']) (auto simp: sw_ok_def sw_cells_def)
qed

interpretation sw: allocator swap_is sw_cells sw_ok sw_space sw_req sw_give
proof
  fix s F sz e s'
  show "sw_ok e \<and> sw_cells e \<subseteq> F \<and> sw_cells e \<noteq> {} \<and> swap_is s' (F - sw_cells e)" if h: "swap_is s F" "sw_req sz s = Some (e, s')"
  proof -
    obtain es es' where q: "swap_list s es" "swap_list s' es'" "e = (sz, snd e)" "sw_ok e" "sw_cells e \<subseteq> F" "ents es' = F - sw_cells e" "0 \<notin> F"
      by (rule sw_req_spec [OF h]) blast
    then have "sw_cells e \<noteq> {}" using size_pos [of "fst e"] by (auto simp: sw_cells_def sw_ok_def extent_def)
    with q show ?thesis by (auto simp: swap_is_def)
  qed
  show "sw_space s'" if h: "swap_is s F" "sw_space s" "sw_req sz s = Some (e, s')"
  proof -
    obtain es es' where "swap_list s es" "swap_list s' es'" "length es' \<le> length es" by (rule sw_req_spec [OF h(1,3)]) blast
    with h(2) show ?thesis by (simp add: swap_list_space)
  qed
  show "\<exists>s'. sw_give e s = Some s' \<and> swap_is s' (F \<union> sw_cells e)" if h: "swap_is s F" "sw_space s" "sw_ok e" "sw_cells e \<inter> F = {}"
  proof -
    from h(1) obtain es where l: "swap_list s es" "ents es = F" "0 \<notin> F" by (auto simp: swap_is_def)
    from h l obtain m es' where r: "sfree (fst e) (snd e) s = Ret () (s\<lparr>swapmap := m\<rparr>)" "swap_list (s\<lparr>swapmap := m\<rparr>) es'"
      "ents es' = ents es \<union> extent (fst e) (snd e)"
      using sfree_list [OF l(1), of "fst e" "snd e"] by (auto simp: sw_ok_def sw_cells_def swap_list_space)
    moreover have "0 \<notin> F \<union> sw_cells e" using l(3) h(3) by (auto simp: sw_cells_def sw_ok_def extent_def unat_gt_0)
    ultimately show ?thesis using l(2) by (auto simp: sw_give_def swap_is_def sw_cells_def)
  qed
qed

subsection \<open>Segments of primary memory\<close>

definition seg_is :: "kst \<Rightarrow> nat set \<Rightarrow> bool" where
  "seg_is s F \<longleftrightarrow> F = {n. 16 \<le> n \<and> n < MAXSEG \<and> segmap s n = 0} \<and> nsegs s = of_nat (card F) \<and> 16 \<le> unat (lastseg s) \<and> unat (lastseg s) \<le> MAXSEG"

definition sg_cells :: "u16 \<Rightarrow> nat set" where
  "sg_cells n = {unat n}"

definition sg_ok :: "u16 \<Rightarrow> bool" where
  "sg_ok n \<longleftrightarrow> 16 \<le> unat n \<and> unat n < MAXSEG"

definition sg_req :: "unit \<Rightarrow> kst \<Rightarrow> (u16 \<times> kst) option" where
  "sg_req q s = (if nsegs s = 0 then None else Some (segalloc s))"

definition sg_give :: "u16 \<Rightarrow> kst \<Rightarrow> kst option" where
  "sg_give n s = Some (segfree n s)"

definition seg_taken :: "u16 \<Rightarrow> kst \<Rightarrow> kst" where
  "seg_taken n s = s\<lparr>segmap := (segmap s)(unat n := 1), nsegs := nsegs s - 1, lastseg := n + 1\<rparr>"

lemma segalloc_loop_finds:
  "16 \<le> unat n \<Longrightarrow> unat n \<le> MAXSEG \<Longrightarrow> j < k \<Longrightarrow> segmap s (16 + (unat n - 16 + j) mod 240) = 0 \<Longrightarrow>
   \<exists>n'. segalloc_loop k n s = (n', seg_taken n' s) \<and> sg_ok n' \<and> segmap s (unat n') = 0"
proof (induction k arbitrary: n j)
  case (Suc k)
  define n1 where "n1 = (if n \<ge> 256 then 16 else n)"
  have u: "unat n1 = 16 + (unat n - 16) mod 240" "16 \<le> unat n1" "unat n1 < 256"
  proof -
    show "unat n1 = 16 + (unat n - 16) mod 240"
    proof (cases "unat n = 256")
      case False
      with Suc.prems(1,2) show ?thesis by (simp add: n1_def word_le_nat_alt)
    qed (simp add: n1_def word_le_nat_alt)
    then show "16 \<le> unat n1" "unat n1 < 256" by simp_all
  qed
  have eq: "segalloc_loop (Suc k) n s = (if segmap s (unat n1) = 0 then (n1, seg_taken n1 s) else segalloc_loop k (n1 + 1) s)"
    unfolding n1_def seg_taken_def segalloc_loop.simps Let_def ..
  show ?case
  proof (cases "segmap s (unat n1) = 0")
    case True
    with u(2,3) show ?thesis unfolding eq by (simp add: sg_ok_def)
  next
    case False
    with Suc.prems(4) u(1) obtain i where j: "j = Suc i" by (cases j) auto
    have s: "unat (n1 + 1) = Suc (unat n1)" using u(3) by (subst unat_plus_if') simp
    have "(unat (n1 + 1) - 16 + i) mod 240 = (unat n - 16 + j) mod 240"
      unfolding s u(1) j using mod_add_left_eq [of "unat n - 16" 240 "Suc i"] by simp
    with Suc.prems(4) have "segmap s (16 + (unat (n1 + 1) - 16 + i) mod 240) = 0" by simp
    moreover have "16 \<le> unat (n1 + 1)" "unat (n1 + 1) \<le> 256" "i < k" using s u(2,3) Suc.prems(3) j by simp_all
    ultimately show ?thesis using Suc.IH [of "n1 + 1" i] False unfolding eq by simp
  qed
qed simp

lemma segalloc_spec:
  assumes "seg_is s F" "nsegs s \<noteq> 0"
  shows "\<exists>n. segalloc s = (n, seg_taken n s) \<and> sg_ok n \<and> unat n \<in> F \<and> seg_is (seg_taken n s) (F - {unat n})"
proof -
  from assms have F: "F = {n. 16 \<le> n \<and> n < 256 \<and> segmap s n = 0}" "nsegs s = of_nat (card F)" "16 \<le> unat (lastseg s)" "unat (lastseg s) \<le> 256"
    by (auto simp: seg_is_def)
  have fin: "finite F" unfolding F(1) by simp
  from assms(2) F(2) have "F \<noteq> {}" by auto
  then obtain m where m: "16 \<le> m" "m < 256" "segmap s m = 0" unfolding F(1) by blast
  define a where "a = unat (lastseg s) - 16"
  define j where "j = (if a \<le> m - 16 then m - 16 - a else m - 16 + 240 - a)"
  have "a \<le> 240" using F(4) by (simp add: a_def)
  with m have "j < 240" by (auto simp: j_def)
  have "(a + j) mod 240 = m - 16"
  proof (cases "a \<le> m - 16")
    case False
    with m \<open>a \<le> 240\<close> have e: "a + j = m - 16 + 240" by (auto simp: j_def)
    have "m - 16 < 240" using m by simp
    then show ?thesis by (simp only: e mod_add_self2 mod_less)
  qed (use m in \<open>simp add: j_def\<close>)
  with m have "segmap s (16 + (unat (lastseg s) - 16 + j) mod 240) = 0" by (simp flip: a_def)
  from segalloc_loop_finds [OF F(3,4) \<open>j < 240\<close> this] obtain n where n: "segalloc s = (n, seg_taken n s)" "sg_ok n" "segmap s (unat n) = 0"
    by (auto simp: segalloc_def)
  then have i: "unat n \<in> F" unfolding F(1) by (simp add: sg_ok_def)
  then have c: "card (F - {unat n}) = card F - 1" "0 < card F" using fin by (auto simp: card_gt_0_iff)
  have "unat (n + 1) = Suc (unat n)" using n(2) by (subst unat_plus_if') (simp add: sg_ok_def)
  then have "seg_is (seg_taken n s) (F - {unat n})"
    using n(2) c F(2) by (auto simp: seg_is_def seg_taken_def sg_ok_def F(1) of_nat_diff)
  with n i show ?thesis by blast
qed

interpretation sg: allocator seg_is sg_cells sg_ok "\<lambda>_. True" sg_req sg_give
proof
  fix s F q e s'
  show "sg_ok e \<and> sg_cells e \<subseteq> F \<and> sg_cells e \<noteq> {} \<and> seg_is s' (F - sg_cells e)" if "seg_is s F" "sg_req q s = Some (e, s')"
    using segalloc_spec [OF that(1)] that(2) by (auto simp: sg_req_def sg_cells_def split: if_splits)
  show "\<exists>s'. sg_give e s = Some s' \<and> seg_is s' (F \<union> sg_cells e)" if h: "seg_is s F" "sg_ok e" "sg_cells e \<inter> F = {}"
  proof -
    have F: "F = {n. 16 \<le> n \<and> n < 256 \<and> segmap s n = 0}" "nsegs s = of_nat (card F)" using h(1) by (simp_all add: seg_is_def)
    have "finite F" unfolding F(1) by simp
    then have "card (F \<union> {unat e}) = Suc (card F)" using h(3) by (simp add: sg_cells_def)
    moreover have "segmap s (unat e) \<noteq> 0" using h(2,3) F(1) by (auto simp: sg_ok_def sg_cells_def)
    ultimately show ?thesis using h(2) F unfolding sg_give_def segfree_def seg_is_def sg_cells_def sg_ok_def by auto
  qed
qed auto

section \<open>Properties\<close>

text \<open>
  C34. Swap space is never handed out twice: starting from a well-formed swap map that stands for the free blocks \<open>F\<close>, the areas that a sequence of successful calls of
  \<^verbatim>\<open>salloc\<close> returns lie in \<open>F\<close> and are pairwise disjoint, and the map afterwards is well formed and stands for the blocks left.
\<close>

theorem salloc_disjoint:
  assumes "swap_is s F" "sw.reqs szs s = Some (es, s')"
  shows "(\<Union>e\<in>set es. sw_cells e) \<subseteq> F \<and> swap_is s' (F - (\<Union>e\<in>set es. sw_cells e)) \<and> sorted_wrt (\<lambda>e f. sw_cells e \<inter> sw_cells f = {}) es"
  by (rule sw.reqs_disjoint [OF assms])

definition swap_kernel :: "smap list \<Rightarrow> kst" where
  "swap_kernel es = kst0\<lparr>swapmap := (\<lambda>i. if i < length es then es ! i else mend0)\<rparr>"

lemma swap_kernel_list:
  assumes "wfm es" "length es < MAPSIZE"
  shows "swap_list (swap_kernel es) es"
proof -
  have "map_at (swapmap (swap_kernel es)) (length xs) ys" if "es = xs @ ys" for xs ys
    using that assms(1)
  proof (induction ys arbitrary: xs)
    case (Cons y ys)
    with Cons.IH [of "xs @ [y]"] show ?case by (auto simp: swap_kernel_def wfm_def nth_append)
  qed (simp add: swap_kernel_def)
  from this [of "[]" es] assms show ?thesis by (simp add: swap_list_def)
qed

lemma swap_kernel_is: "wfm es \<Longrightarrow> length es < MAPSIZE \<Longrightarrow> 0 \<notin> ents es \<Longrightarrow> swap_is (swap_kernel es) (ents es)"
  using swap_kernel_list unfolding swap_is_def by blast

lemma salloc_first:
  assumes "sz < s_size (swapmap s 0)"
  shows "salloc sz s = (s_addr (swapmap s 0),
    s\<lparr>swapmap := (swapmap s)(0 := \<lparr>s_size = s_size (swapmap s 0) - sz, s_addr = s_addr (swapmap s 0) + sz\<rparr>)\<rparr>)"
  using assms salloc_loop.simps(2) [of 21 sz 0 "swapmap s"] by (auto simp: salloc_def Let_def)

theorem salloc_disjoint_witness:
  "\<exists>s'. sw.reqs [8, 16] (swap_kernel [\<lparr>s_size = 100, s_addr = 50\<rparr>]) = Some ([(8, 50), (16, 58)], s') \<and> swap_is s' {74..<150}"
proof -
  let ?es = "[\<lparr>s_size = 100, s_addr = 50\<rparr>]" and ?s = "swap_kernel [\<lparr>s_size = 100, s_addr = 50\<rparr>]"
  have F: "swap_is ?s {50..<150}" using swap_kernel_is [of ?es] by (simp add: wfm_def extent_def)
  obtain s' where r: "sw.reqs [8, 16] ?s = Some ([(8, 50), (16, 58)], s')"
    by (simp add: sw_req_def salloc_first swap_kernel_def)
  have "{50..<150} - (\<Union>e\<in>set [(8, 50), (16, 58)]. sw_cells e) = {74..<150}" by (auto simp: sw_cells_def extent_def)
  with salloc_disjoint [OF F r] r show ?thesis by (intro exI [of _ s']) simp
qed

lemma sfree_gives:
  assumes "swap_is s F" "sw_space s" "sz \<noteq> 0" "blk \<noteq> 0" "unat blk + unat sz < 65536" "extent sz blk \<inter> F = {}"
  obtains s' where "sfree sz blk s = Ret () s'" "swap_is s' (F \<union> extent sz blk)"
  using sw.give_free [OF assms(1,2), of "(sz, blk)"] assms(3-6)
  by (auto simp: sw_ok_def sw_cells_def sw_give_def split: outcome.splits)

text \<open>
  C35. \<^verbatim>\<open>sfree\<close> returns and adds exactly the blocks it is given: on a well-formed swap map with a spare entry, for an area that is not free and ends
  below block 65536, its loops end, the map is well formed again and stands for the free blocks and the area.
\<close>

theorem sfree_adds:
  assumes "swap_is s F" "sw_space s" "sz \<noteq> 0" "blk \<noteq> 0" "unat blk + unat sz < 65536" "extent sz blk \<inter> F = {}"
  shows "\<exists>s'. sfree sz blk s = Ret () s' \<and> swap_is s' (F \<union> extent sz blk)"
  by (rule sfree_gives [OF assms]) blast

theorem sfree_adds_witness:
  "\<exists>s'. sfree 8 142 (swap_kernel [\<lparr>s_size = 92, s_addr = 50\<rparr>]) = Ret () s' \<and> swap_is s' ({50..<142} \<union> extent 8 142)"
proof (rule sfree_adds)
  let ?es = "[\<lparr>s_size = 92, s_addr = 50\<rparr>]"
  show "swap_is (swap_kernel ?es) {50..<142}" using swap_kernel_is [of ?es] by (simp add: wfm_def extent_def)
  have "swap_list (swap_kernel ?es) ?es" by (rule swap_kernel_list) (simp_all add: wfm_def)
  then show "sw_space (swap_kernel ?es)" by (simp add: swap_list_space)
qed (simp_all add: extent_def)

text \<open>
  \<^verbatim>\<open>sfree\<close> does not always join areas: with blocks 5 to 9 and 20 to 24 free, freeing 15 to 19 leaves 15 to 24 free in two entries, because only the entry
  before the new one is compared with its successor, and a request for ten blocks then fails although blocks 15 to 24 are free.
\<close>

theorem sfree_leaves_split:
  "\<exists>s'. sfree 5 15 (swap_kernel [\<lparr>s_size = 5, s_addr = 5\<rparr>, \<lparr>s_size = 5, s_addr = 20\<rparr>]) = Ret () s' \<and>
    swap_is s' ({5..<10} \<union> {15..<25}) \<and> fst (salloc 10 s') = 0"
proof -
  let ?es = "[\<lparr>s_size = 5, s_addr = 5\<rparr>, \<lparr>s_size = 5, s_addr = 20\<rparr>]"
  have w: "wfm ?es" by (simp add: wfm_def below_def)
  have e: "extent 5 5 = {5..<10}" "extent 5 15 = {15..<20}" "extent 5 20 = {20..<25}" by (simp_all add: extent_def)
  have F: "swap_is (swap_kernel ?es) ({5..<10} \<union> {20..<25})" using swap_kernel_is [OF w] by (simp add: e)
  have "swap_list (swap_kernel ?es) ?es" by (rule swap_kernel_list [OF w]) simp
  then have "sw_space (swap_kernel ?es)" by (simp add: swap_list_space)
  note sp = this
  obtain s' where s: "sfree 5 15 (swap_kernel ?es) = Ret () s'" "swap_is s' ({5..<10} \<union> {20..<25} \<union> extent 5 15)"
    by (rule sfree_gives [OF F sp, of 5 15]) (auto simp: e)
  have "(case sfree 5 15 (swap_kernel ?es) of Ret _ s \<Rightarrow> fst (salloc 10 s)) = 0" by code_simp
  with s(1) have "fst (salloc 10 s') = 0" by simp
  moreover have "{5..<10} \<union> {20..<25} \<union> {15..<20} = {5..<10} \<union> {15..<25 :: nat}" by auto
  ultimately show ?thesis using s by (intro exI [of _ s']) (simp add: e)
qed

text \<open>
  C36. Primary memory: from a consistent segment table (\<^verbatim>\<open>nsegs\<close> counts the free segments 16 to 255), the segments that successive calls of \<^verbatim>\<open>segalloc\<close>
  return while \<^verbatim>\<open>nsegs\<close> is not 0 are free, distinct, and marked used, and \<^verbatim>\<open>segfree\<close> of an allocated segment makes it free again; the count stays right.
\<close>

theorem segments_disjoint:
  assumes "seg_is s F"
  shows "(\<forall>qs es s'. sg.reqs qs s = Some (es, s') \<longrightarrow> distinct (map unat es) \<and> unat ` set es \<subseteq> F \<and> seg_is s' (F - unat ` set es)) \<and>
    (\<forall>n. 16 \<le> unat n \<longrightarrow> unat n < MAXSEG \<longrightarrow> unat n \<notin> F \<longrightarrow> seg_is (segfree n s) (insert (unat n) F))"
proof (intro conjI allI impI)
  fix qs es s'
  assume r: "sg.reqs qs s = Some (es, s')"
  have u: "(\<Union>e\<in>set es. sg_cells e) = unat ` set es" by (auto simp: sg_cells_def)
  note d = sg.reqs_disjoint [OF assms r, unfolded u]
  have "sorted_wrt (\<lambda>e f. sg_cells e \<inter> sg_cells f = {}) xs \<Longrightarrow> distinct (map unat xs)" for xs
    by (induction xs) (auto simp: sg_cells_def)
  with d show "distinct (map unat es)" by blast
  show "unat ` set es \<subseteq> F" "seg_is s' (F - unat ` set es)" using d by blast+
next
  fix n :: u16
  assume "16 \<le> unat n" "unat n < MAXSEG" "unat n \<notin> F"
  with sg.give_free [OF assms, of n] show "seg_is (segfree n s) (insert (unat n) F)" by (auto simp: sg_ok_def sg_cells_def sg_give_def)
qed

definition seg_kernel :: kst where
  "seg_kernel = kst0\<lparr>segmap := (\<lambda>i. if i \<in> {21, 22} then 0 else 1), nsegs := 2, lastseg := 21\<rparr>"

lemma segalloc_first: "lastseg s < 256 \<Longrightarrow> segmap s (unat (lastseg s)) = 0 \<Longrightarrow> segalloc s = (lastseg s, seg_taken (lastseg s) s)"
  using segalloc_loop.simps(2) [of 239 "lastseg s" s] by (auto simp: segalloc_def seg_taken_def Let_def)

theorem segments_disjoint_witness:
  "\<exists>s'. sg.reqs [(), ()] seg_kernel = Some ([21, 22], s') \<and> seg_is s' {} \<and> seg_is (segfree 30 seg_kernel) {21, 22, 30}"
proof -
  have F: "{n. 16 \<le> n \<and> n < 256 \<and> segmap seg_kernel n = 0} = {21, 22}" by (auto simp: seg_kernel_def)
  have i: "seg_is seg_kernel {21, 22}" unfolding seg_is_def F by (simp add: seg_kernel_def)
  obtain s' where r: "sg.reqs [(), ()] seg_kernel = Some ([21, 22], s')"
    by (simp add: sg_req_def segalloc_first seg_kernel_def seg_taken_def)
  note d = segments_disjoint [OF i]
  have "seg_is s' ({21, 22} - unat ` set [21 :: u16, 22])" using d r by blast
  moreover have "seg_is (segfree 30 seg_kernel) (insert (unat (30 :: u16)) {21, 22})" using conjunct2 [OF d] by (auto dest: spec [of _ "30 :: u16"])
  ultimately show ?thesis using r by (intro exI [of _ s']) (simp add: insert_commute)
qed

end
