(* ===== verification/Processes.thy ===== *)
theory Processes
  imports Process Scheduling
begin

text \<open>
  Theorems about processes: \<^verbatim>\<open>wait\<close>, the seconds of the clock, process numbers, signals to a terminal's processes, and the choices of the swap process.
\<close>

section \<open>Reaping children\<close>

definition dead_child :: "kst \<Rightarrow> nat \<Rightarrow> bool" where
  "dead_child s p \<longleftrightarrow> p_parent (plist s p) = Some (u_p (u s)) \<and> \<not> tst (p_mode (plist s p)) ALIVE"

definition reaped :: "nat list \<Rightarrow> kst \<Rightarrow> kst" where
  "reaped ds s = s\<lparr>plist := (\<lambda>q. if q \<in> set ds then proc0 else plist s q)\<rparr>"

lemma find_filter: "find P xs = (case filter P xs of [] \<Rightarrow> None | y # _ \<Rightarrow> Some y)"
  by (induction xs) auto

definition dead_children :: "kst \<Rightarrow> nat list" where
  "dead_children s = filter (dead_child s) [0..<NPROC]"

lemma scan_dead: "scan (dead_child s) NPROC = (case dead_children s of [] \<Rightarrow> None | p # _ \<Rightarrow> Some p)"
  unfolding scan_def dead_children_def by (rule find_filter)

lemma wait_alt:
  "wait s = (case dead_children s of
       p # _ \<Rightarrow> Ret (procid p s, Some (p_status (plist s p))) (reaped [p] s)
     | [] \<Rightarrow> if \<exists>p<NPROC. p_parent (plist s p) = Some (u_p (u s)) then sleep (ChProc (u_p (u s))) PRIWAIT s
            else Ret (junk s, None) (set_error ECHILD s))"
proof -
  have "upd_proc p (\<lambda>_. proc0) s = reaped [p] s" for p by (simp add: upd_proc_def reaped_def fun_upd_def)
  then show ?thesis unfolding wait_def Let_def dead_child_def [symmetric] scan_dead by (simp split: list.split)
qed

lemma reaped_dead:
  assumes "dead_children s = p # ds"
  shows "dead_children (reaped [p] s) = ds" "p \<notin> set ds"
proof -
  have "distinct (p # ds)" unfolding assms [symmetric] dead_children_def by simp
  then show n: "p \<notin> set ds" by simp
  have "dead_child (reaped [p] s) = (\<lambda>q. dead_child s q \<and> q \<noteq> p)" by (rule ext) (auto simp: dead_child_def reaped_def proc0_def)
  then have "dead_children (reaped [p] s) = filter (\<lambda>q. q \<noteq> p) (dead_children s)" unfolding dead_children_def filter_filter by simp
  also have "\<dots> = ds" unfolding assms using n by (auto intro: filter_True)
  finally show "dead_children (reaped [p] s) = ds" .
qed

lemma wait_all:
  assumes "dead_children s = ds"
  shows "repeat wait (length ds) s = Ret (map (\<lambda>p. (procid p s, Some (p_status (plist s p)))) ds) (reaped ds s) \<and> dead_children (reaped ds s) = []"
  using assms
proof (induction ds arbitrary: s)
  case (Cons p ds)
  note r = reaped_dead [OF Cons.prems]
  have w: "wait s = Ret (procid p s, Some (p_status (plist s p))) (reaped [p] s)" using Cons.prems by (simp add: wait_alt)
  have "map (\<lambda>q. (procid q (reaped [p] s), Some (p_status (plist (reaped [p] s) q)))) ds = map (\<lambda>q. (procid q s, Some (p_status (plist s q)))) ds"
    using r(2) by (auto simp: procid_def reaped_def)
  moreover have "reaped ds (reaped [p] s) = reaped (p # ds) s" unfolding reaped_def by (simp, rule arg_cong [where f = "\<lambda>f. s\<lparr>plist := f\<rparr>"]) auto
  ultimately show ?case using Cons.IH [OF r(1)] w by simp
qed (simp add: reaped_def)

text \<open>
  C37. Every dead child is reported to its parent exactly once: as many calls of \<^verbatim>\<open>wait\<close> as there are dead children return their numbers and exit statuses in
  the order of the process table, free exactly their entries and change nothing else; the next call then reports \<^verbatim>\<open>ECHILD\<close> when no child is left, and goes to
  sleep on the parent's own entry when one is.
\<close>

theorem wait_reaps:
  assumes "swapok s" "p_parent (plist s 0) \<noteq> Some (u_p (u s))"
  defines "ds \<equiv> dead_children s"
  shows "repeat wait (length ds) s = Ret (map (\<lambda>p. (procid p s, Some (p_status (plist s p)))) ds) (reaped ds s) \<and>
    (if \<exists>p<NPROC. p \<notin> set ds \<and> p_parent (plist s p) = Some (u_p (u s))
     then \<exists>t. wait (reaped ds s) = Slept (ChProc (u_p (u s))) PRIWAIT t
     else wait (reaped ds s) = Ret (junk s, None) (set_error ECHILD (reaped ds s)))"
proof -
  have "dead_children s = ds" by (simp add: ds_def)
  note w = wait_all [OF this]
  have "0 \<notin> set ds" using assms(2) by (auto simp: ds_def dead_children_def dead_child_def)
  with assms(1) have ok: "swapok (reaped ds s)" by (simp add: swapok_def reaped_def)
  have c: "(\<exists>p<NPROC. p_parent (plist (reaped ds s) p) = Some (u_p (u (reaped ds s)))) \<longleftrightarrow>
    (\<exists>p<NPROC. p \<notin> set ds \<and> p_parent (plist s p) = Some (u_p (u s)))"
    by (auto simp: reaped_def proc0_def)
  obtain t :: kst where "(sleep (ChProc (u_p (u s))) PRIWAIT (reaped ds s) :: (u16 \<times> u16 option) K) = Slept (ChProc (u_p (u s))) PRIWAIT t"
    by (rule sleep_spec [OF ok, of "ChProc (u_p (u s))" PRIWAIT]) blast
  moreover have "u_p (u (reaped ds s)) = u_p (u s)" "junk (reaped ds s) = junk s" by (simp_all add: reaped_def)
  ultimately show ?thesis using w c by (auto simp: wait_alt [of "reaped ds s"])
qed

definition family_kernel :: kst where
  "family_kernel = kst0\<lparr>u := user0\<lparr>u_p := 5\<rparr>, plist := (\<lambda>_. proc0)(0 := proc0\<lparr>p_mode := LOADED\<rparr>,
     6 := proc0\<lparr>p_mode := ALLOC, p_pid := 12, p_status := 0x100, p_parent := Some 5\<rparr>,
     7 := proc0\<lparr>p_mode := ALLOC OR ALIVE, p_pid := 13, p_parent := Some 5\<rparr>,
     9 := proc0\<lparr>p_mode := ALLOC, p_pid := 14, p_status := 9, p_parent := Some 5\<rparr>)\<rparr>"

theorem wait_reaps_witness:
  "repeat wait 2 family_kernel = Ret [(12, Some 0x100), (14, Some 9)] (reaped [6, 9] family_kernel) \<and>
    (\<exists>t. wait (reaped [6, 9] family_kernel) = Slept (ChProc 5) PRIWAIT t)"
proof -
  have d: "dead_children family_kernel = [6, 9]"
    by (simp add: dead_children_def dead_child_def family_kernel_def zero_defs tst_def upt_rec)
  have e: "\<exists>p<NPROC. p \<notin> set [6, 9] \<and> p_parent (plist family_kernel p) = Some (u_p (u family_kernel))"
    by (intro exI [of _ 7]) (simp add: family_kernel_def user0_def)
  have "swapok family_kernel" "p_parent (plist family_kernel 0) \<noteq> Some (u_p (u family_kernel))"
    by (simp_all add: swapok_def family_kernel_def zero_defs tst_def)
  note w = wait_reaps [OF this, unfolded d if_P [OF e]]
  have "length [6, 9 :: nat] = 2" "u_p (u family_kernel) = 5" by (simp_all add: family_kernel_def)
  moreover have "map (\<lambda>p. (procid p family_kernel, Some (p_status (plist family_kernel p)))) [6, 9] = [(12, Some 0x100), (14, Some 9)]"
    by (simp add: procid_def family_kernel_def)
  ultimately show ?thesis using w by (simp only:)
qed

section \<open>The choices of the swap process\<close>

definition wants_in :: "proc \<Rightarrow> bool" where
  "wants_in q \<longleftrightarrow> alls (p_mode q) (AWAKE OR SWAPPED)"

lemma findin_from_best:
  assumes "case n of None \<Rightarrow> \<forall>q\<in>set qs. \<not> wants_in (pl q)
    | Some m \<Rightarrow> m \<in> set qs \<and> wants_in (pl m) \<and> (\<forall>q\<in>set qs. wants_in (pl q) \<longrightarrow> p_time (pl q) \<le> p_time (pl m))"
  shows "case findin_from pl ps n of None \<Rightarrow> \<forall>q\<in>set (qs @ ps). \<not> wants_in (pl q)
    | Some m \<Rightarrow> m \<in> set (qs @ ps) \<and> wants_in (pl m) \<and> (\<forall>q\<in>set (qs @ ps). wants_in (pl q) \<longrightarrow> p_time (pl q) \<le> p_time (pl m))"
  using assms
proof (induction ps arbitrary: n qs)
  case (Cons p ps)
  let ?n = "if alls (p_mode (pl p)) (AWAKE OR SWAPPED) \<and> (case n of None \<Rightarrow> True | Some m \<Rightarrow> p_time (pl m) < p_time (pl p)) then Some p else n"
  have "case ?n of None \<Rightarrow> \<forall>q\<in>set (qs @ [p]). \<not> wants_in (pl q)
    | Some m \<Rightarrow> m \<in> set (qs @ [p]) \<and> wants_in (pl m) \<and> (\<forall>q\<in>set (qs @ [p]). wants_in (pl q) \<longrightarrow> p_time (pl q) \<le> p_time (pl m))"
    using Cons.prems unfolding wants_in_def by (cases n) (auto simp: not_less)
  from Cons.IH [OF this] show ?case by (simp only: findin_from.simps append_assoc append_Cons append_Nil)
qed (simp only: findin_from.simps append_Nil2)

text \<open>
  The swap process brings in the right process: \<^verbatim>\<open>findin\<close> chooses a process that is awake and swapped out and has been so for the longest time of all of these,
  and nobody exactly when there is none.
\<close>

theorem findin_longest:
  "case findin s of None \<Rightarrow> \<not> (\<exists>q<NPROC. wants_in (plist s q))
    | Some n \<Rightarrow> n < NPROC \<and> wants_in (plist s n) \<and> (\<nexists>q. q < NPROC \<and> wants_in (plist s q) \<and> p_time (plist s n) < p_time (plist s q))"
proof -
  have "case None of None \<Rightarrow> \<forall>q\<in>set []. \<not> wants_in (plist s q)
    | Some m \<Rightarrow> m \<in> set [] \<and> wants_in (plist s m) \<and> (\<forall>q\<in>set []. wants_in (plist s q) \<longrightarrow> p_time (plist s q) \<le> p_time (plist s m))" by simp
  from findin_from_best [OF this, of "[0..<NPROC]"] show ?thesis
    unfolding findin_def by (cases "findin_from (plist s) [0..<NPROC] None") (auto simp: not_less)
qed

definition may_go :: "proc \<Rightarrow> bool" where
  "may_go q \<longleftrightarrow> p_mode q AND (ALIVE OR LOADED OR LOCKED) = (ALIVE OR LOADED) \<and> p_time q \<ge> MINRUN"

lemma findout_better_awake: "findout_better n p \<longleftrightarrow> tst (p_mode n) AWAKE"
proof -
  have "(p_mode n AND (if AWAKE = p_mode p then 1 else 0)) AND AWAKE = p_mode n AND ((if AWAKE = p_mode p then 1 else 0) AND AWAKE)"
    by (rule and.assoc)
  then show ?thesis by (simp add: findout_better_def)
qed

lemma findout_from_Cons:
  "findout_from pl (p # ps) n =
     findout_from pl ps (if may_go (pl p) \<and> (case n of None \<Rightarrow> True | Some m \<Rightarrow> tst (p_mode (pl m)) AWAKE) then Some p else n)"
  by (cases n) (simp_all only: findout_from.simps findout_better_awake may_go_def option.case conj_assoc)

lemma findout_from_cong:
  "(\<And>q. q \<in> set ps \<Longrightarrow> may_go (pl q) = may_go (pl' q)) \<Longrightarrow> (\<And>q. p_mode (pl q) = p_mode (pl' q)) \<Longrightarrow>
   findout_from pl ps n = findout_from pl' ps n"
proof (induction ps arbitrary: n)
  case (Cons p ps)
  have "may_go (pl p) = may_go (pl' p)" using Cons.prems(1) by simp
  with Cons.IH Cons.prems show ?case unfolding findout_from_Cons by (cases n) simp_all
qed simp

text \<open>
  \<^verbatim>\<open>findout\<close> never compares residence times: on two process tables with the same modes, in which the same processes have been in core for \<^verbatim>\<open>MINRUN\<close> seconds, it makes
  the same choice, however long each has really been there. (The precedence of \<^verbatim>\<open>==\<close> over \<^verbatim>\<open>&\<close> makes the test that was to compare them always fail.)
\<close>

theorem findout_ignores_time:
  assumes "\<forall>q. p_mode (plist s q) = p_mode (plist t q)" "\<forall>q. p_time (plist s q) \<ge> MINRUN \<longleftrightarrow> p_time (plist t q) \<ge> MINRUN"
  shows "findout s = findout t"
  unfolding findout_def by (rule findout_from_cong) (use assms in \<open>auto simp: may_go_def\<close>)

definition core_kernel :: "u16 \<Rightarrow> kst" where
  "core_kernel n = kst0\<lparr>plist := (\<lambda>_. proc0)(3 := proc0\<lparr>p_mode := ALIVE OR LOADED, p_time := 5\<rparr>, 4 := proc0\<lparr>p_mode := ALIVE OR LOADED, p_time := n\<rparr>)\<rparr>"

theorem findout_ignores_time_witness: "findout (core_kernel 6) = findout (core_kernel 30000) \<and> findout (core_kernel 30000) = Some 3"
proof
  show "findout (core_kernel 6) = findout (core_kernel 30000)"
    by (rule findout_ignores_time) (simp_all add: core_kernel_def zero_defs)
  show "findout (core_kernel 30000) = Some 3" by (simp add: findout_def core_kernel_def zero_defs upt_rec findout_better_awake tst_def)
qed

section \<open>Time\<close>

lemma unat_word_cat: "unat (word_cat (a :: u16) (b :: u16) :: u32) = unat a * 65536 + unat b"
proof -
  have "unat a < 2 ^ LENGTH(16)" "unat b < 2 ^ LENGTH(16)" by (rule unsigned_less)+
  then show ?thesis by (simp add: word_cat_eq unat_word_ariths push_bit_eq_mult unsigned_ucast_eq take_bit_nat_eq_self)
qed

text \<open>
  The carry of the clock: \<^verbatim>\<open>clock\<close> increments the two words of the seconds one after the other, and the result is the 32-bit number plus one.
\<close>

theorem tick_seconds_plus_one: "tick_seconds sec = sec + 1"
proof -
  define hi lo :: u16 where "hi = ucast (drop_bit 16 sec)" and "lo = ucast sec"
  have sec: "unat sec = unat hi * 65536 + unat lo" unfolding unat_word_cat [symmetric] hi_def lo_def by simp
  have b: "unat hi < 65536" "unat lo < 65536" 
  proof -
    have "unat hi < 2 ^ LENGTH(16)" "unat lo < 2 ^ LENGTH(16)" by (rule unsigned_less)+
    then show "unat hi < 65536" "unat lo < 65536" by simp_all
  qed
  have l: "unat (lo + 1) = (unat lo + 1) mod 65536" by (simp add: unat_word_ariths)
  have h: "unat (hi + (if lo + 1 = 0 then 1 else 0)) = (unat hi + (if lo + 1 = 0 then 1 else 0)) mod 65536" by (simp add: unat_word_ariths)
  have "unat (tick_seconds sec) = (unat sec + 1) mod 4294967296"
    unfolding tick_seconds_def Let_def hi_def [symmetric] lo_def [symmetric] unat_word_cat h l sec
    using b l by (cases "unat lo = 65535"; cases "unat hi = 65535") (auto simp: unat_eq_0 [symmetric])
  then have "unat (tick_seconds sec) = unat (sec + 1)" by (simp add: unat_word_ariths)
  then show ?thesis by (rule unsigned_word_eqI)
qed

section \<open>Process numbers\<close>

text \<open>
  \<^verbatim>\<open>newpid\<close> tries the numbers from \<^verbatim>\<open>pidctr\<close> on. At most \<^verbatim>\<open>NPROC\<close> numbers are in use, so one of \<^verbatim>\<open>NPROC\<close> + 1 tries is free.
\<close>

definition nextpid :: "u16 \<Rightarrow> u16" where
  "nextpid c = (if 30000 <s c + 1 then 1 else c + 1)"

definition pid_ok :: "u16 \<Rightarrow> bool" where
  "pid_ok c \<longleftrightarrow> 0 < unat c \<and> unat c \<le> 30000"

lemma nextpid_val: "pid_ok c \<Longrightarrow> unat (nextpid c) = (if unat c = 30000 then 1 else Suc (unat c))"
proof -
  assume c: "pid_ok c"
  then have u: "unat (c + 1) = Suc (unat c)" by (simp add: pid_ok_def unat_word_ariths)
  have ui: "uint (c + 1) = int (Suc (unat c))" by (simp only: uint_nat u)
  have "sint (c + 1) = signed_take_bit 15 (int (Suc (unat c)))" by (simp only: sint_uint ui) simp
  also have "\<dots> = int (Suc (unat c))"
  proof -
    have "k \<le> 30001 \<Longrightarrow> signed_take_bit 15 (int k) = int k" for k by (intro signed_take_bit_int_eq_self) simp_all
    moreover have "Suc (unat c) \<le> 30001" using c by (simp add: pid_ok_def)
    ultimately show ?thesis .
  qed
  finally obtain k where k: "sint (c + 1) = int k" "k = Suc (unat c)" by blast
  from k(1) have "30000 <s c + 1 \<longleftrightarrow> 30000 < k" by (simp add: word_sless_alt)
  with u c k(2) show ?thesis by (auto simp: nextpid_def pid_ok_def)
qed

lemma nextpid_ok: "pid_ok c \<Longrightarrow> pid_ok (nextpid c)"
  using nextpid_val [of c] by (auto simp: pid_ok_def split: if_splits)

lemma pids_distinct:
  assumes "pid_ok c"
  shows "pid_ok ((nextpid ^^ i) c)" "unat ((nextpid ^^ i) c) = Suc ((unat c - 1 + i) mod 30000)"
proof -
  have "pid_ok ((nextpid ^^ i) c) \<and> unat ((nextpid ^^ i) c) = Suc ((unat c - 1 + i) mod 30000)"
  proof (induction i)
    case 0
    have "unat c - 1 < 30000" "0 < unat c" using assms by (auto simp: pid_ok_def)
    with assms show ?case by simp
  next
    case (Suc i)
    let ?m = "(unat c - 1 + i) mod 30000"
    have "Suc ((unat c - 1 + i)) mod 30000 = (if Suc ?m = 30000 then 0 else Suc ?m)" by (simp add: mod_Suc)
    with Suc nextpid_val [of "(nextpid ^^ i) c"] nextpid_ok [of "(nextpid ^^ i) c"] show ?case by auto
  qed
  then show "pid_ok ((nextpid ^^ i) c)" "unat ((nextpid ^^ i) c) = Suc ((unat c - 1 + i) mod 30000)" by blast+
qed

lemma mod_shift_inj:
  assumes "(a + i) mod n = (a + j) mod n" "i < n" "j < (n :: nat)"
  shows "i = j"
proof -
  have "i = j" if "i \<le> j" "(a + i) mod n = (a + j) mod n" "j < n" for i j
  proof -
    have "n dvd a + j - (a + i)" using that mod_eq_dvd_iff_nat [of "a + i" "a + j" n] by simp
    then have "n dvd j - i" by simp
    with that show ?thesis using nat_dvd_not_less [of "j - i" n] by (cases "i < j") auto
  qed
  with assms show ?thesis by (metis nat_le_linear)
qed

lemma some_pid_free:
  assumes "pid_ok c"
  obtains i where "i \<le> NPROC" "procptr ((nextpid ^^ i) c) s = None"
proof (rule ccontr)
  assume "\<not> thesis"
  with that have used: "procptr ((nextpid ^^ i) c) s \<noteq> None" if "i \<le> NPROC" for i using that by blast
  define h where "h i = the (procptr ((nextpid ^^ i) c) s)" for i
  have h: "h i < NPROC" "ucast (p_pid (plist s (h i))) = (nextpid ^^ i) c" if i: "i \<le> NPROC" for i
  proof -
    from used [OF i] obtain y where "procptr ((nextpid ^^ i) c) s = Some y" by blast
    then show "h i < NPROC" "ucast (p_pid (plist s (h i))) = (nextpid ^^ i) c"
      unfolding h_def by (auto simp: procptr_def dest: scan_SomeD)
  qed
  have "inj_on h {..NPROC}"
  proof (rule inj_onI)
    fix i j assume ij: "i \<in> {..NPROC}" "j \<in> {..NPROC}" "h i = h j"
    with h [of i] h [of j] have "(nextpid ^^ i) c = (nextpid ^^ j) c" by auto
    then have "(unat c - 1 + i) mod 30000 = (unat c - 1 + j) mod 30000" using pids_distinct(2) [OF assms] by (metis Suc_inject)
    then show "i = j" using ij(1,2) mod_shift_inj [of "unat c - 1" i 30000 j] by simp
  qed
  moreover have "h ` {..NPROC} \<subseteq> {..<NPROC}" using h by auto
  ultimately have "card {..NPROC} \<le> card {..<NPROC}" by (rule card_inj_on_le) simp
  then show False by simp
qed

lemma procptr_pidctr [simp]: "procptr n (s\<lparr>pidctr := c\<rparr>) = procptr n s"
  by (simp add: procptr_def)

lemma newpid_loop_finds:
  "procptr ((nextpid ^^ i) (pidctr s)) s = None \<Longrightarrow>
   \<exists>n. newpid_loop s = Some (n, s\<lparr>pidctr := nextpid n\<rparr>) \<and> procptr n s = None \<and> (\<exists>j\<le>i. n = (nextpid ^^ j) (pidctr s))"
proof (induction i arbitrary: s)
  case 0
  then show ?case by (subst newpid_loop.simps) (simp add: Let_def nextpid_def)
next
  case (Suc i)
  show ?case
  proof (cases "procptr (pidctr s) s = None")
    case True
    then show ?thesis by (subst newpid_loop.simps) (auto simp: Let_def nextpid_def intro!: exI [of _ "0 :: nat"])
  next
    case False
    let ?s = "s\<lparr>pidctr := nextpid (pidctr s)\<rparr>"
    from False obtain y where "procptr (pidctr s) s = Some y" by blast
    then have l: "newpid_loop s = newpid_loop ?s" by (subst newpid_loop.simps) (simp add: Let_def nextpid_def)
    have "procptr ((nextpid ^^ i) (pidctr ?s)) ?s = None" using Suc.prems by (simp add: funpow_swap1)
    from Suc.IH [OF this] obtain n j where "newpid_loop ?s = Some (n, s\<lparr>pidctr := nextpid n\<rparr>)" "procptr n s = None" "j \<le> i" "n = (nextpid ^^ Suc j) (pidctr s)"
      by (auto simp: funpow_swap1)
    with l show ?thesis by (metis Suc_le_mono)
  qed
qed

text \<open>
  C39. \<^verbatim>\<open>newpid\<close> returns: with \<^verbatim>\<open>pidctr\<close> between 1 and 30000 (as \<^verbatim>\<open>newpid\<close> keeps it) its loop ends, after at most 21 tries, with a number from 1 to 30000 that no process in the table has.
\<close>

theorem newpid_returns:
  assumes "0 < unat (pidctr s)" "unat (pidctr s) \<le> 30000"
  shows "\<exists>n c. newpid s = Ret n (s\<lparr>pidctr := c\<rparr>) \<and> 0 < unat n \<and> unat n \<le> 30000 \<and> 0 < unat c \<and> unat c \<le> 30000 \<and>
    \<not> (\<exists>p<NPROC. tst (p_mode (plist s p)) ALLOC \<and> ucast (p_pid (plist s p)) = n)"
proof -
  have c: "pid_ok (pidctr s)" using assms by (simp add: pid_ok_def)
  obtain i where "procptr ((nextpid ^^ i) (pidctr s)) s = None" by (rule some_pid_free [OF c])
  then obtain n j where n: "newpid_loop s = Some (n, s\<lparr>pidctr := nextpid n\<rparr>)" "procptr n s = None" "n = (nextpid ^^ j) (pidctr s)"
    using newpid_loop_finds [of i s] by auto
  have "pid_ok n" unfolding n(3) by (rule pids_distinct(1) [OF c])
  moreover have "\<not> (\<exists>p<NPROC. tst (p_mode (plist s p)) ALLOC \<and> ucast (p_pid (plist s p)) = n)"
    using n(2) by (auto simp: procptr_def scan_None_iff)
  ultimately show ?thesis using n(1) nextpid_ok [of n]
    by (intro exI [of _ n] exI [of _ "nextpid n"]) (simp add: newpid_def pid_ok_def)
qed

theorem newpid_returns_witness:
  "\<exists>n c. newpid (family_kernel\<lparr>pidctr := 12\<rparr>) = Ret n (family_kernel\<lparr>pidctr := c\<rparr>) \<and> 0 < unat n \<and> unat n \<le> 30000 \<and> n \<noteq> 12"
proof -
  have "unat (12 :: u16) = 12" by simp
  then obtain n c where n: "newpid (family_kernel\<lparr>pidctr := 12\<rparr>) = Ret n (family_kernel\<lparr>pidctr := c\<rparr>)" "0 < unat n" "unat n \<le> 30000"
    "\<not> (\<exists>p<NPROC. tst (p_mode (plist family_kernel p)) ALLOC \<and> ucast (p_pid (plist family_kernel p)) = n)"
    using newpid_returns [of "family_kernel\<lparr>pidctr := 12\<rparr>"] by auto
  have "tst (p_mode (plist family_kernel 6)) ALLOC \<and> ucast (p_pid (plist family_kernel 6)) = (12 :: u16)" by (simp add: family_kernel_def tst_def)
  moreover have "(6 :: nat) < NPROC" by simp
  ultimately have "n \<noteq> 12" using n(4) by metis
  with n show ?thesis by blast
qed

section \<open>Signals\<close>

text \<open>What a signal does to the process it is sent to.\<close>

definition posted :: "u16 \<Rightarrow> proc \<Rightarrow> proc" where
  "posted sg q =
     (if tst (p_mode q) ALIVE \<and> p_slist q (unat sg) \<noteq> IGNORE \<and> p_slist q 0 \<noteq> SIGKILL then
        let q1 = q\<lparr>p_slist := (p_slist q)(0 := sg)\<rparr> in
        if p_pri q < SIGPRI \<and> \<not> tst (p_mode q) AWAKE \<and> sg \<noteq> SIGTINT then awk q1 else q1
      else q)"

lemma send_spec:
  assumes "swapok s" "p \<noteq> 0"
  obtains pl r where "send p sg s = Ret () (s\<lparr>plist := pl, resched := r\<rparr>)" "pl p = posted sg (plist s p)"
    "\<And>q. q \<noteq> 0 \<Longrightarrow> q \<noteq> p \<Longrightarrow> pl q = plist s q" "pl 0 = plist s 0 \<or> pl 0 = awk (plist s 0)" "swapok (s\<lparr>plist := pl, resched := r\<rparr>)"
proof -
  let ?q = "plist s p" and ?s1 = "set_slist p 0 sg s"
  have res: "s = s\<lparr>plist := plist s, resched := resched s\<rparr>" by simp
  consider "\<not> (tst (p_mode ?q) ALIVE \<and> p_slist ?q (unat sg) \<noteq> IGNORE \<and> p_slist ?q 0 \<noteq> SIGKILL)"
    | "tst (p_mode ?q) ALIVE" "p_slist ?q (unat sg) \<noteq> IGNORE" "p_slist ?q 0 \<noteq> SIGKILL" "\<not> (p_pri ?q < SIGPRI \<and> \<not> tst (p_mode ?q) AWAKE \<and> sg \<noteq> SIGTINT)"
    | "tst (p_mode ?q) ALIVE" "p_slist ?q (unat sg) \<noteq> IGNORE" "p_slist ?q 0 \<noteq> SIGKILL" "p_pri ?q < SIGPRI \<and> \<not> tst (p_mode ?q) AWAKE \<and> sg \<noteq> SIGTINT" by blast
  then show thesis
  proof cases
    case 1
    then show thesis using assms(1) by (intro that [where pl = "plist s" and r = "resched s"]) (auto simp: send_def posted_def swapok_def Let_def)
  next
    case 2
    then have "send p sg s = Ret () (s\<lparr>plist := plist ?s1, resched := resched s\<rparr>)" by (auto simp: send_def set_slist_def upd_proc_def Let_def)
    then show thesis using 2 assms by (intro that [where pl = "plist ?s1" and r = "resched s"]) (auto simp: posted_def set_slist_def upd_proc_def swapok_def Let_def)
  next
    case 3
    have ok: "swapok ?s1" using assms by (simp add: swapok_def set_slist_def upd_proc_def)
    obtain pl r where r: "run p ?s1 = Ret () (?s1\<lparr>plist := pl, resched := r\<rparr>)" "pl p = awk (plist ?s1 p)"
      "\<And>q. q \<noteq> 0 \<Longrightarrow> q \<noteq> p \<Longrightarrow> pl q = plist ?s1 q" "\<And>q. pl q = plist ?s1 q \<or> pl q = awk (plist ?s1 q)"
      by (rule run_spec [OF ok, of p]) blast
    have e: "?s1\<lparr>plist := pl, resched := r\<rparr> = s\<lparr>plist := pl, resched := r\<rparr>" by (simp add: set_slist_def upd_proc_def)
    have z: "plist ?s1 q = plist s q" if "q \<noteq> p" for q using that by (simp add: set_slist_def upd_proc_def)
    show thesis
    proof (rule that [where pl = pl and r = r])
      show "send p sg s = Ret () (s\<lparr>plist := pl, resched := r\<rparr>)" using 3 r(1) e by (simp add: send_def Let_def)
      show "pl p = posted sg (plist s p)" using 3 r(2) by (simp add: posted_def set_slist_def upd_proc_def)
      show "pl q = plist s q" if "q \<noteq> 0" "q \<noteq> p" for q using r(3) [OF that] z [OF that(2)] by simp
      show p0: "pl 0 = plist s 0 \<or> pl 0 = awk (plist s 0)" using r(4) [of 0] z [of 0] assms(2) by simp
      show "swapok (s\<lparr>plist := pl, resched := r\<rparr>)" using p0 assms(1) by (auto simp: swapok_def)
    qed
  qed
qed

lemma killall_from_spec:
  assumes "swapok s" "0 \<notin> set ps" "distinct ps"
  shows "\<exists>pl r. killall_from ps tty sg s = Ret () (s\<lparr>plist := pl, resched := r\<rparr>) \<and>
    (\<forall>q. q \<noteq> 0 \<longrightarrow> pl q = (if q \<in> set ps \<and> p_tty (plist s q) = tty then posted sg (plist s q) else plist s q)) \<and>
    (pl 0 = plist s 0 \<or> pl 0 = awk (plist s 0))"
  using assms
proof (induction ps arbitrary: s)
  case Nil
  then show ?case by (intro exI [of _ "plist s"] exI [of _ "resched s"]) simp
next
  case (Cons p ps)
  show ?case
  proof (cases "p_tty (plist s p) = tty")
    case False
    from Cons.IH [of s] Cons.prems obtain pl r where "killall_from ps tty sg s = Ret () (s\<lparr>plist := pl, resched := r\<rparr>)"
      "\<forall>q. q \<noteq> 0 \<longrightarrow> pl q = (if q \<in> set ps \<and> p_tty (plist s q) = tty then posted sg (plist s q) else plist s q)" "pl 0 = plist s 0 \<or> pl 0 = awk (plist s 0)" by auto
    with False show ?thesis by (intro exI [of _ pl] exI [of _ r]) auto
  next
    case True
    have "p \<noteq> 0" using Cons.prems(2) by auto
    obtain pl r where s: "send p sg s = Ret () (s\<lparr>plist := pl, resched := r\<rparr>)" "pl p = posted sg (plist s p)"
      "\<And>q. q \<noteq> 0 \<Longrightarrow> q \<noteq> p \<Longrightarrow> pl q = plist s q" "pl 0 = plist s 0 \<or> pl 0 = awk (plist s 0)" "swapok (s\<lparr>plist := pl, resched := r\<rparr>)"
      by (rule send_spec [OF Cons.prems(1) \<open>p \<noteq> 0\<close>, of sg]) blast
    from Cons.IH [OF s(5)] Cons.prems obtain pl' r' where k: "killall_from ps tty sg (s\<lparr>plist := pl, resched := r\<rparr>) = Ret () (s\<lparr>plist := pl', resched := r'\<rparr>)"
      "\<forall>q. q \<noteq> 0 \<longrightarrow> pl' q = (if q \<in> set ps \<and> p_tty (pl q) = tty then posted sg (pl q) else pl q)" "pl' 0 = pl 0 \<or> pl' 0 = awk (pl 0)" by auto
    have "pl' q = (if q \<in> set (p # ps) \<and> p_tty (plist s q) = tty then posted sg (plist s q) else plist s q)" if "q \<noteq> 0" for q
      using that k(2) s(2,3) True Cons.prems(3) by (cases "q = p") auto
    with s(1,4) k(1,3) True show ?thesis by (intro exI [of _ pl'] exI [of _ r']) auto
  qed
qed

text \<open>
  C38. A signal to a terminal reaches exactly its processes: \<^verbatim>\<open>killall\<close> returns, and every process but the swap process and \<^verbatim>\<open>init\<close> that has the terminal and is alive, does not ignore the
  signal and has no \<^verbatim>\<open>SIGKILL\<close> pending has it pending, and is awake if it slept below \<^verbatim>\<open>SIGPRI\<close> (unless the signal is \<^verbatim>\<open>SIGTINT\<close>); all other processes are unchanged, except that the swap process
  may be awake.
\<close>

theorem killall_posts:
  assumes "swapok s"
  shows "\<exists>pl r. killall tty sg s = Ret () (s\<lparr>plist := pl, resched := r\<rparr>) \<and>
    (\<forall>q. q \<noteq> 0 \<longrightarrow> pl q = (if 2 \<le> q \<and> q < NPROC \<and> p_tty (plist s q) = tty then posted sg (plist s q) else plist s q)) \<and>
    (pl 0 = plist s 0 \<or> pl 0 = awk (plist s 0))"
  using killall_from_spec [OF assms, of "[2..<NPROC]" tty sg] unfolding killall_def by (auto simp del: upt_rec_numeral)

definition tty_kernel :: kst where
  "tty_kernel = busy_kernel\<lparr>plist := (plist busy_kernel)(5 := (plist busy_kernel 5)\<lparr>p_tty := Some 3\<rparr>)\<rparr>"

theorem killall_posts_witness:
  "\<exists>pl r. killall (Some 3) SIGINT tty_kernel = Ret () (tty_kernel\<lparr>plist := pl, resched := r\<rparr>) \<and> p_slist (pl 5) 0 = SIGINT \<and> pl 6 = plist tty_kernel 6"
proof -
  have ok: "swapok tty_kernel" using busy_swapok by (simp add: swapok_def tty_kernel_def)
  obtain pl r where k: "killall (Some 3) SIGINT tty_kernel = Ret () (tty_kernel\<lparr>plist := pl, resched := r\<rparr>)"
    "\<forall>q. q \<noteq> 0 \<longrightarrow> pl q = (if 2 \<le> q \<and> q < NPROC \<and> p_tty (plist tty_kernel q) = Some 3 then posted SIGINT (plist tty_kernel q) else plist tty_kernel q)"
    using killall_posts [OF ok, of "Some 3" SIGINT] by blast
  have "p_slist (pl 5) 0 = SIGINT" using k(2) by (simp add: tty_kernel_def posted_def busy_kernel_def zero_defs tst_def)
  moreover have "pl 6 = plist tty_kernel 6" using k(2) by (simp add: tty_kernel_def busy_kernel_def zero_defs)
  ultimately show ?thesis using k(1) by blast
qed

end
