(* ===== verification/Content.thy ===== *)
theory Content
  imports Fio Storage
begin

text \<open>
  The content of a file. \<open>fbyte\<close> reads a byte of a file from the abstract disk, through the block numbers of the inode and its
  indirect blocks. \<^verbatim>\<open>iread\<close> moves exactly these bytes to the place \<^verbatim>\<open>u.base\<close> points at, as one single move would.
\<close>

section \<open>Signed values\<close>

lemma sint_nonneg:
  fixes x :: "'a :: len word"
  assumes "unat x < 2 ^ (LENGTH('a) - 1)"
  shows "sint x = int (unat x)"
proof -
  have "int (unat x) < 2 ^ (LENGTH('a) - 1)" using assms by (metis of_nat_less_iff of_nat_numeral of_nat_power)
  moreover have "- (2 ^ (LENGTH('a) - 1)) \<le> int (unat x)" by (rule order_trans [of _ 0]) simp_all
  ultimately have "signed_take_bit (LENGTH('a) - 1) (int (unat x)) = int (unat x)" by (intro signed_take_bit_int_eq_self)
  then show ?thesis by (simp add: sint_uint)
qed

lemmas sint_nonneg16 = sint_nonneg [where 'a = 16, simplified]
lemmas sint_nonneg32 = sint_nonneg [where 'a = 32, simplified]

lemma of_nat_unat16 [simp]: "of_nat (unat (w :: u16)) = w"
  by simp

section \<open>Moves of bytes\<close>

text \<open>\<^verbatim>\<open>copyout\<close> as a function of the memory map and the primary memory.\<close>

fun cpo :: "(nat \<Rightarrow> mem) \<Rightarrow> bytes \<Rightarrow> nat \<Rightarrow> u16 \<Rightarrow> nat \<Rightarrow> (u8 \<Rightarrow> nat \<Rightarrow> u8) \<Rightarrow> u8 \<Rightarrow> nat \<Rightarrow> u8" where
  "cpo im src i a 0 ph = ph"
| "cpo im src i a (Suc n) ph =
     (let g = m_seg (im (unat a div 4096)) in cpo im src (Suc i) (a + 1) n (ph(g := (ph g)(unat a mod 4096 := src i))))"

lemma copyout_cpo: "copyout src i a n s = s\<lparr>phys := cpo (image1 s) src i a n (phys s)\<rparr>"
  by (induction n arbitrary: i a s) (simp_all add: uputc_def useg_def Let_def)

lemma cpo_add: "cpo im src i a (n + m) ph = cpo im src (i + n) (a + of_nat n) m (cpo im src i a n ph)"
  by (induction n arbitrary: i a ph) (simp_all add: Let_def add.assoc)

lemma cpo_cong: "(\<And>j. j < n \<Longrightarrow> f (i + j) = g (k + j)) \<Longrightarrow> cpo im f i a n ph = cpo im g k a n ph"
proof (induction n arbitrary: i k a ph)
  case (Suc n)
  have "f (Suc i + j) = g (Suc k + j)" if "j < n" for j using Suc.prems [of "Suc j"] that by simp
  from Suc.IH [OF this] Suc.prems [of 0] show ?case by (simp add: Let_def)
qed simp

lemma copyb_add: "copyb f i (copyb f' i' d j n) (j + n) m = copyb g k d j (n + m)"
  if "\<And>x. x < n \<Longrightarrow> f' (i' + x) = g (k + x)" "\<And>x. x < m \<Longrightarrow> f (i + x) = g (k + n + x)"
proof
  fix x
  show "copyb f i (copyb f' i' d j n) (j + n) m x = copyb g k d j (n + m) x"
    using that(1) [of "x - j"] that(2) [of "x - (j + n)"] by (auto simp: copyb_def)
qed

lemma copyb_cong: "(\<And>x. x < n \<Longrightarrow> f (i + x) = g (k + x)) \<Longrightarrow> copyb f i d j n = copyb g k d j n"
proof
  fix x
  assume a: "\<And>x. x < n \<Longrightarrow> f (i + x) = g (k + x)"
  show "copyb f i d j n x = copyb g k d j n x" using a [of "x - j"] by (auto simp: copyb_def)
qed

lemma copyb_0 [simp]: "copyb f i d j 0 = d"
  by (auto simp: copyb_def fun_eq_iff)

text \<open>The parts of the state a move to \<^verbatim>\<open>u.base\<close> changes.\<close>

definition mvu :: "bytes \<Rightarrow> nat \<Rightarrow> u16 \<Rightarrow> user \<Rightarrow> user" where
  "mvu f i n x = x\<lparr>u_count := u_count x - n, u_offset := u_offset x + ucast n, u_base := kp_add (u_base x) n,
     u_dir := (if u_segflg x = KSEG then (case u_base x of Kdir j \<Rightarrow> copyb f i (u_dir x) j (unat n) | _ \<Rightarrow> u_dir x) else u_dir x)\<rparr>"

definition mvp :: "(nat \<Rightarrow> mem) \<Rightarrow> bytes \<Rightarrow> nat \<Rightarrow> u16 \<Rightarrow> user \<Rightarrow> (u8 \<Rightarrow> nat \<Rightarrow> u8) \<Rightarrow> u8 \<Rightarrow> nat \<Rightarrow> u8" where
  "mvp im f i n x ph = (if u_segflg x = KSEG then ph else cpo im f i (uaddr (u_base x)) (unat n) ph)"

definition mvh :: "bytes \<Rightarrow> nat \<Rightarrow> u16 \<Rightarrow> user \<Rightarrow> bytes \<Rightarrow> bytes" where
  "mvh f i n x h = (if u_segflg x = KSEG then (case u_base x of Khdr j \<Rightarrow> copyb f i h j (unat n) | _ \<Rightarrow> h) else h)"

lemma iomove_read_parts:
  "iomove_read f i n s = s\<lparr>u := mvu f i n (u s), phys := mvp (image1 s) f i n (u s) (phys s), hdr := mvh f i n (u s) (hdr s)\<rparr>"
  by (cases "u_base (u s)")
    (simp_all add: iomove_read_def iomove_step_def upd_u_def mvu_def mvp_def mvh_def kput_def Let_def copyout_cpo)

definition base_ok :: "user \<Rightarrow> bool" where
  "base_ok x \<longleftrightarrow> u_segflg x = KSEG \<or> (\<exists>a. u_base x = Uaddr a)"

text \<open>\<open>moved f i n s s'\<close>: \<open>n\<close> bytes of \<open>f\<close> from offset \<open>i\<close> were moved to \<^verbatim>\<open>u.base\<close>.\<close>

definition moved :: "bytes \<Rightarrow> nat \<Rightarrow> u16 \<Rightarrow> kst \<Rightarrow> kst \<Rightarrow> bool" where
  "moved f i n s s' \<longleftrightarrow> u s' = mvu f i n (u s) \<and> phys s' = mvp (image1 s) f i n (u s) (phys s) \<and>
     hdr s' = mvh f i n (u s) (hdr s) \<and> image1 s' = image1 s"

lemma moved_0: "u s' = u s \<Longrightarrow> phys s' = phys s \<Longrightarrow> hdr s' = hdr s \<Longrightarrow> image1 s' = image1 s \<Longrightarrow> moved f i 0 s s'"
  by (cases "u_base (u s)") (simp_all add: moved_def mvu_def mvp_def mvh_def)

lemma moved_cong:
  assumes "\<And>j. j < unat n \<Longrightarrow> f (i + j) = g (k + j)"
  shows "moved f i n s s' = moved g k n s s'"
proof -
  have "copyb f i d j (unat n) = copyb g k d j (unat n)" for d j by (rule copyb_cong) (rule assms)
  moreover have "cpo im f i a (unat n) ph = cpo im g k a (unat n) ph" for im a ph by (rule cpo_cong) (rule assms)
  ultimately show ?thesis by (cases "u_base (u s)") (simp_all add: moved_def mvu_def mvp_def mvh_def)
qed

lemma mvu_add:
  assumes n: "unat n + unat m < 65536"
  shows "mvu f (i + unat n) m (mvu f i n x) = mvu f i (n + m) x"
    "mvh f (i + unat n) m (mvu f i n x) (mvh f i n x h) = mvh f i (n + m) x h"
    "base_ok x \<Longrightarrow> mvp im f (i + unat n) m (mvu f i n x) (mvp im f i n x ph) = mvp im f i (n + m) x ph"
proof -
  have nm: "unat (n + m) = unat n + unat m" using n by (simp add: unat_plus_if_size word_size)
  have uc: "(ucast (n + m) :: u32) = ucast n + ucast m"
    using n by (simp add: word_unat_eq_iff nm unsigned_ucast_eq unat_word_ariths take_bit_eq_mod)
  have cb: "copyb f (i + unat n) (copyb f i d j (unat n)) (j + unat n) (unat m) = copyb f i d j (unat n + unat m)" for d j
    by (rule copyb_add) (simp_all add: add.assoc)
  show "mvu f (i + unat n) m (mvu f i n x) = mvu f i (n + m) x"
    by (cases "u_base x"; cases "u_segflg x = KSEG") (simp_all add: mvu_def nm uc cb diff_diff_eq add.assoc)
  show "mvh f (i + unat n) m (mvu f i n x) (mvh f i n x h) = mvh f i (n + m) x h"
    by (cases "u_base x"; cases "u_segflg x = KSEG") (simp_all add: mvu_def mvh_def nm cb)
  show "mvp im f (i + unat n) m (mvu f i n x) (mvp im f i n x ph) = mvp im f i (n + m) x ph" if "base_ok x"
    using that by (auto simp: mvu_def mvp_def base_ok_def nm cpo_add uaddr_def)
qed

lemma moved_trans:
  assumes b: "base_ok (u s)" and n: "unat n + unat m < 65536"
    and 1: "moved f i n s s1" and 2: "moved f (i + unat n) m s1 s2"
  shows "moved f i (n + m) s s2"
  using 1 2 unfolding moved_def by (simp add: mvu_add [OF n] b)

lemma moved_base: "moved f i n s s' \<Longrightarrow> base_ok (u s) \<Longrightarrow> base_ok (u s')"
  by (auto simp: moved_def mvu_def base_ok_def)

section \<open>The blocks of a file\<close>

text \<open>
  The block numbers of a file on the abstract disk \<open>V\<close> of its device: in the inode of a small file, through one indirect
  block or, from the eighth on, through two in a large one. \<open>mapped\<close>: the block is there.
\<close>

definition indblk :: "(u16 \<Rightarrow> bytes) \<Rightarrow> inode \<Rightarrow> nat \<Rightarrow> u16" where
  "indblk V x index = (let i1 = d_addr (i_d x) (min index 7) in if index \<ge> 7 then getw (V i1) (2 * (index - 7)) else i1)"

definition fblk :: "(u16 \<Rightarrow> bytes) \<Rightarrow> inode \<Rightarrow> u16 \<Rightarrow> u16" where
  "fblk V x log = (if tst (i_mode x) ILARG then getw (V (indblk V x (unat (drop_bit 8 log)))) (2 * unat (log AND 0xFF))
     else d_addr (i_d x) (unat log))"

definition mapped :: "(u16 \<Rightarrow> bytes) \<Rightarrow> inode \<Rightarrow> u16 \<Rightarrow> bool" where
  "mapped V x log \<longleftrightarrow> unat log < 32768 \<and> fblk V x log \<noteq> 0 \<and>
     (if tst (i_mode x) ILARG then d_addr (i_d x) (min (unat (drop_bit 8 log)) 7) \<noteq> 0 \<and> indblk V x (unat (drop_bit 8 log)) \<noteq> 0
      else unat log < 8)"

definition fbyte :: "(u16 \<Rightarrow> bytes) \<Rightarrow> inode \<Rightarrow> nat \<Rightarrow> u8" where
  "fbyte V x p = V (fblk V x (of_nat (p div 512))) (p mod 512)"

text \<open>A file system in order: nobody holds a block of it, and there is a buffer to use.\<close>

definition fsready :: "u16 \<Rightarrow> kst \<Rightarrow> bool" where
  "fsready dev s \<longleftrightarrow> cok {} s \<and> vdev dev \<and> (\<forall>k. unheld dev k s) \<and> avail s \<noteq> {}"

text \<open>A step that only uses the cache.\<close>

definition quiet :: "kst \<Rightarrow> kst \<Rightarrow> bool" where
  "quiet s s' \<longleftrightarrow> holding {} {} s s' \<and> view s' = view s \<and> u s' = u s"

lemma quiet_refl: "fsready dev s \<Longrightarrow> quiet s s"
  by (simp add: quiet_def fsready_def holding_refl)

lemma quiet_trans: "quiet s s1 \<Longrightarrow> quiet s1 s2 \<Longrightarrow> quiet s s2"
  by (auto simp: quiet_def intro: holding_trans)

lemma quiet_ready: "quiet s s' \<Longrightarrow> fsready dev s \<Longrightarrow> fsready dev s'"
  by (auto simp: quiet_def fsready_def holdingD(2,9) intro: hold_unheld_done)

lemma quiet_same:
  assumes "quiet s s'"
  shows "ilist s' = ilist s" "u s' = u s" "view s' = view s" "phys s' = phys s" "hdr s' = hdr s" "image1 s' = image1 s"
  using assms bframe_same [of s s'] by (auto simp: quiet_def holding_def)

lemma quiet_aread:
  assumes "fsready dev s"
  obtains s' where "aread k dev s = Ret () s'" "quiet s s'"
proof -
  from aread_spec [of "{}" s dev k] assms obtain s' where "aread k dev s = Ret () s'" "bframe s s'" "cok {} s'"
    "view s' = view s" "u s' = u s" "held s' = held s" "lckd s' = lckd s" "\<forall>j\<in>held s. btm (blist s j) (blist s' j)"
    by (auto simp: fsready_def)
  then show thesis by (intro that) (auto simp: quiet_def holding_def)
qed

text \<open>A block read through the cache, while its buffer is held.\<close>

lemma ready_bread:
  assumes r: "fsready dev s" and e: "u_error (u s) = 0"
  obtains b s' where "bread k dev s = Ret (Some b) s'" "holding {} {b} s s'" "view s' = view s" "u s' = u s" "bdat b s' = view s dev k"
    "b \<in> held s'" "cok {} s'" "holds (blist s' b) dev k" "bdone (blist s' b)"
proof -
  have h: "holding {} {} s s" using r by (simp add: fsready_def holding_refl)
  obtain b s' where b: "bread k dev s = Ret (Some b) s'" "holding {} (insert b {}) s s'" "view s' = view s"
    "holds (blist s' b) dev k" "u s' = (u s)\<lparr>u_error := 0\<rparr>" "bdat b s' = view s dev k" "bdone (blist s' b)"
    by (rule hold_bread [OF h, of dev k]) (use r in \<open>auto simp: fsready_def unheld_def\<close>)
  show thesis by (rule that [OF b(1)]) (use b e holdingD(2,4) [OF b(2)] in auto)
qed

lemma brelse_bdat:
  assumes "cok M s" "b \<in> held s" "brelse b s = Ret () s'"
  shows "bdat b s' = bdat b s"
proof -
  have "swapok s" "bbusy (blist s b)" using assms by (auto simp: cok_def held_def)
  then obtain s2 where "brelse b s = Ret () s2"
    "btm ((blist s b)\<lparr>b_flags := b_flags (blist s b) AND NOT (BBUSY OR BWANT)\<rparr>) (blist s2 b)" by (rule brelse_ret) blast
  with assms(3) show ?thesis using btm_fields(4) by (fastforce simp: bdat_def)
qed

lemma imapb_spec:
  assumes r: "fsready dev s" and e: "u_error (u s) = 0" and n: "ind \<noteq> 0" "getw (view s dev ind) (2 * n) \<noteq> 0"
  shows "\<exists>ra s'. imapb ind n dev s = Ret (getw (view s dev ind) (2 * n), ra) s' \<and> quiet s s'"
proof -
  obtain b s1 where b: "bread ind dev s = Ret (Some b) s1" "holding {} {b} s s1" "view s1 = view s" "u s1 = u s"
    "bdat b s1 = view s dev ind" "b \<in> held s1" "cok {} s1" by (rule ready_bread [OF r e])
  obtain s2 where c: "brelse b s1 = Ret () s2" "holding {} ({b} - {b}) s s2" "view s2 = view s1" "u s2 = u s1"
    by (rule hold_brelse [OF b(2)]) auto
  have "bdat b s2 = view s dev ind" using brelse_bdat [OF b(7,6) c(1)] b(5) by simp
  with b c n show ?thesis by (auto simp: imapb_def quiet_def)
qed

lemma imapi_spec: "i_addr ip n s \<noteq> 0 \<Longrightarrow> \<exists>ra. imapi ip n s = Ret (i_addr ip n s, ra) s"
  by (simp add: imapi_def)

lemma imap_spec:
  assumes r: "fsready dev s" and e: "u_error (u s) = 0" and i: "i_dev (ilist s ip) = dev" "\<not> tst (i_mode (ilist s ip)) IIO"
    and m: "mapped (view s dev) (ilist s ip) log"
  shows "\<exists>ra s'. imap ip log s = Ret (fblk (view s dev) (ilist s ip) log, ra) s' \<and> quiet s s'"
proof -
  let ?x = "ilist s ip" and ?V = "view s dev" and ?index = "unat (drop_bit 8 log)"
  have ns: "\<not> log <s 0" using m by (simp add: mapped_def word_sless_alt sint_nonneg16)
  show ?thesis
  proof (cases "tst (i_mode ?x) ILARG")
    case False
    then have "log < 8" using m by (simp add: mapped_def word_less_nat_alt)
    moreover have "i_addr ip (unat log) s \<noteq> 0" using m False by (simp add: mapped_def fblk_def i_addr_def)
    from imapi_spec [OF this] obtain ra where "imapi ip (unat log) s = Ret (i_addr ip (unat log) s, ra) s" by blast
    ultimately show ?thesis using False ns i quiet_refl [OF r] by (auto simp: imap_def fblk_def i_addr_def Let_def)
  next
    case True
    let ?i1 = "i_addr ip (min ?index 7) s"
    have i1: "?i1 \<noteq> 0" and ind: "indblk ?V ?x ?index \<noteq> 0" and f: "getw (?V (indblk ?V ?x ?index)) (2 * unat (log AND 0xFF)) \<noteq> 0"
      using m True by (simp_all add: mapped_def fblk_def i_addr_def)
    obtain ra where a: "imapi ip (min ?index 7) s = Ret (?i1, ra) s" using imapi_spec [OF i1] by blast
    obtain rb s1 where b: "(if ?index \<ge> 7 then imapb ?i1 (?index - 7) dev s else Ret (?i1, 0) s) = Ret (indblk ?V ?x ?index, rb) s1" "quiet s s1"
    proof (cases "?index \<ge> 7")
      case t: True
      then have "indblk ?V ?x ?index = getw (?V ?i1) (2 * (?index - 7))" by (simp add: indblk_def i_addr_def Let_def)
      with imapb_spec [OF r e i1, of "?index - 7"] ind that t show thesis by auto
    next
      case t: False
      then have "indblk ?V ?x ?index = ?i1" by (simp add: indblk_def i_addr_def Let_def)
      with t that [of 0 s] quiet_refl [OF r] show thesis by simp
    qed
    note q = quiet_same [OF b(2)]
    obtain rc s2 where c: "imapb (indblk ?V ?x ?index) (unat (log AND 0xFF)) dev s1 = Ret (fblk ?V ?x log, rc) s2" "quiet s1 s2"
      using imapb_spec [OF quiet_ready [OF b(2) r] _ ind] f True e q by (fastforce simp: fblk_def)
    show ?thesis using a b c ns i True quiet_trans [OF b(2) c(2)] by (auto simp: imap_def Let_def)
  qed
qed

section \<open>Reading\<close>

text \<open>What reading a file may change besides the place it reads to: the cache, sleepers that are woken, the console.\<close>

definition ioframe :: "kst \<Rightarrow> kst \<Rightarrow> bool" where
  "ioframe s s' \<longleftrightarrow> s' = s\<lparr>blist := blist s', bclock := bclock s', disk := disk s', plist := plist s', resched := resched s',
     cons := cons s', u := u s', phys := phys s', hdr := hdr s'\<rparr>"

lemma ioframe_refl [simp]: "ioframe s s"
  by (simp add: ioframe_def)

lemma ioframe_trans:
  assumes "ioframe s s1" "ioframe s1 s2"
  shows "ioframe s s2"
proof -
  from assms obtain b1 c1 d1 p1 r1 o1 e1 f1 h1 where 1: "s1 = s\<lparr>blist := b1, bclock := c1, disk := d1, plist := p1,
      resched := r1, cons := o1, u := e1, phys := f1, hdr := h1\<rparr>" unfolding ioframe_def by blast
  from assms obtain b2 c2 d2 p2 r2 o2 e2 f2 h2 where 2: "s2 = s1\<lparr>blist := b2, bclock := c2, disk := d2, plist := p2,
      resched := r2, cons := o2, u := e2, phys := f2, hdr := h2\<rparr>" unfolding ioframe_def by blast
  show ?thesis unfolding 2 1 by (simp add: ioframe_def)
qed

lemma bframe_ioframe: "bframe s s' \<Longrightarrow> ioframe s s'"
proof -
  assume "bframe s s'"
  then obtain b1 c1 d1 p1 r1 o1 e1 where 1: "s' = s\<lparr>blist := b1, bclock := c1, disk := d1, plist := p1,
      resched := r1, cons := o1, u := (u s)\<lparr>u_error := e1\<rparr>\<rparr>" unfolding bframe_def by blast
  show ?thesis unfolding 1 by (simp add: ioframe_def)
qed

lemma ioframe_same:
  assumes "ioframe s s'"
  shows "ilist s' = ilist s" "image1 s' = image1 s" "seconds s' = seconds s" "nbuf s' = nbuf s" "drv s' = drv s"
    "mlist s' = mlist s" "flist s' = flist s"
proof -
  from assms obtain b1 c1 d1 p1 r1 o1 e1 f1 h1 where 1: "s' = s\<lparr>blist := b1, bclock := c1, disk := d1, plist := p1,
      resched := r1, cons := o1, u := e1, phys := f1, hdr := h1\<rparr>" unfolding ioframe_def by blast
  show "ilist s' = ilist s" "image1 s' = image1 s" "seconds s' = seconds s" "nbuf s' = nbuf s" "drv s' = drv s"
    "mlist s' = mlist s" "flist s' = flist s" unfolding 1 by simp_all
qed

lemma move_cache:
  assumes s'_def: "s' = s\<lparr>u := x, phys := p, hdr := h\<rparr>"
  shows "cok M s' = cok M s" "held s' = held s" "view s' = view s" "lckd s' = lckd s" "blist s' = blist s" "ioframe s s'"
proof -
  show "view s' = view s" by (rule view_cong) (simp_all add: s'_def)
  show "held s' = held s" "lckd s' = lckd s" "blist s' = blist s" "ioframe s s'"
    by (simp_all add: s'_def held_def lckd_def ioframe_def)
  show "cok M s' = cok M s" by (simp add: cok_def swapok_def drv_ok_def cinv_def s'_def)
qed

text \<open>One round of the loop: a block is read and part of it is moved.\<close>

definition read_block :: "u16 \<Rightarrow> u16 \<Rightarrow> u16 \<Rightarrow> u16 \<Rightarrow> kst \<Rightarrow> unit K" where
  "read_block ph dev into n s = bnd (bread ph dev s) (\<lambda>bp s. case bp of
     None \<Rightarrow> Ret () s | Some bp \<Rightarrow> brelse bp (iomove_read (bdat bp s) (unat into) n s))"

lemma read_block_spec:
  assumes r: "fsready dev s" and e: "u_error (u s) = 0"
  obtains b s1 s2 where "bread ph dev s = Ret (Some b) s1" "brelse b (iomove_read (bdat b s1) (unat into) n s1) = Ret () s2"
    "moved (view s dev ph) (unat into) n s s2" "fsready dev s2" "view s2 = view s" "ioframe s s2"
proof -
  obtain b s1 where b: "bread ph dev s = Ret (Some b) s1" "holding {} {b} s s1" "view s1 = view s" "u s1 = u s"
    "bdat b s1 = view s dev ph" "b \<in> held s1" "cok {} s1" by (rule ready_bread [OF r e])
  define s2 where "s2 = iomove_read (bdat b s1) (unat into) n s1"
  note mc = move_cache [OF s2_def [unfolded iomove_read_parts]]
  have "cok {} s2" "b \<in> held s2" using b mc by simp_all
  from brelse_spec [OF this] obtain s3 where c: "brelse b s2 = Ret () s3" "bframe s2 s3" "cok {} s3" "view s3 = view s2"
    "u s3 = u s2" "held s3 = held s2 - {b}" "lckd s3 = lckd s2" and oth: "\<forall>j. j \<noteq> b \<longrightarrow> btm (blist s2 j) (blist s3 j)" by auto
  note hd = holdingD [OF b(2)] and fr = bframe_same [OF holdingD(1) [OF b(2)]] and fr3 = bframe_same [OF c(2)]
  have io: "ioframe s s3" using ioframe_trans [OF ioframe_trans] bframe_ioframe hd(1) mc(6) c(2) by blast
  have h3: "held s3 = held s" using c(6) mc(2) hd(4,5) by auto
  have bl: "btm (blist s j) (blist s3 j)" if "j \<in> held s" for j
    using hd(5) hd(7) [OF that] oth that btm_trans unfolding mc(5) by blast
  have "unheld dev k s3" for k using r btm_fields(6) [OF bl] by (simp add: fsready_def unheld_def h3)
  moreover have "avail s3 = avail s" using c(7) mc(4) hd(6) ioframe_same(4) [OF io] by (simp add: avail_alt h3)
  ultimately have "fsready dev s3" using r c(3) by (simp add: fsready_def)
  moreover have "moved (view s dev ph) (unat into) n s s3"
    using c(5) fr fr3 b(4,5) unfolding moved_def s2_def by (simp add: iomove_read_parts)
  ultimately show thesis using that [OF b(1)] c(1,4) mc(3) b(3) io by (simp add: s2_def)
qed

lemma rlen_unat: "unat into < 512 \<Longrightarrow> unat (rlen c into) = min (unat c) (512 - unat into)"
  by (simp add: rlen_def word_less_nat_alt unat_sub word_le_nat_alt)

lemma iread_loop_0 [simp]: "u_count (u s) = 0 \<Longrightarrow> iread_loop k ip dev log into s = Ret () s"
  by (cases k) simp_all

text \<open>The file \<open>x\<close> has its blocks from the byte \<open>p\<close> on, for \<open>n\<close> bytes.\<close>

definition has_blocks :: "(u16 \<Rightarrow> bytes) \<Rightarrow> inode \<Rightarrow> nat \<Rightarrow> nat \<Rightarrow> bool" where
  "has_blocks V x p n \<longleftrightarrow> (\<forall>j<n. (p + j) div 512 < 32768 \<and> mapped V x (of_nat ((p + j) div 512)))"

lemma fbyte_block:
  assumes "unat into + j < 512"
  shows "fbyte V x (512 * unat log + unat into + j) = V (fblk V x log) (unat into + j)"
proof -
  have "(512 * unat log + unat into + j) div 512 = unat log" "(512 * unat log + unat into + j) mod 512 = unat into + j"
    using assms by (simp_all add: add.assoc)
  then show ?thesis by (simp add: fbyte_def)
qed

lemma has_blocks_tail: "has_blocks V x p (n + m) \<Longrightarrow> has_blocks V x (p + n) m"
  unfolding has_blocks_def by (metis add.assoc nat_add_left_cancel_less)

lemma has_blocks_head:
  assumes "has_blocks V x (512 * unat log + unat into) n" "0 < n" "unat into < 512"
  shows "mapped V x log" "unat log < 32768"
proof -
  have "(512 * unat log + unat into + 0) div 512 = unat log" using assms(3) by simp
  with assms(1,2) have "unat log < 32768 \<and> mapped V x (of_nat (unat log))" unfolding has_blocks_def by metis
  then show "mapped V x log" "unat log < 32768" by simp_all
qed

lemma iread_round:
  assumes r: "fsready dev s" "u_error (u s) = 0" and i: "i_dev (ilist s ip) = dev" "\<not> tst (i_mode (ilist s ip)) IIO"
    and into: "unat into < 512" and hb: "has_blocks (view s dev) (ilist s ip) (512 * unat log + unat into) (unat (u_count (u s)))"
    and c: "u_count (u s) \<noteq> 0"
  defines "n \<equiv> rlen (u_count (u s)) into"
  obtains s' where "\<And>k. iread_loop (Suc k) ip dev log into s = iread_loop k ip dev (log + 1) 0 s'"
    "moved (fbyte (view s dev) (ilist s ip)) (512 * unat log + unat into) n s s'" "fsready dev s'" "view s' = view s" "ioframe s s'"
proof -
  let ?V = "view s dev" and ?x = "ilist s ip"
  have un: "unat n = min (unat (u_count (u s))) (512 - unat into)" using rlen_unat [OF into] by (simp add: n_def)
  from imap_spec [OF r i has_blocks_head(1) [OF hb _ into]] c obtain ra s1
    where 1: "imap ip log s = Ret (fblk ?V ?x log, ra) s1" "quiet s s1" by (auto simp: unat_gt_0)
  note q1 = quiet_same [OF 1(2)] and r1 = quiet_ready [OF 1(2) r(1)]
  obtain s2 where 2: "(if ra \<noteq> 0 \<and> into + n = 512 then aread ra dev s1 else Ret () s1) = Ret () s2" "quiet s1 s2"
  proof (cases "ra \<noteq> 0 \<and> into + n = 512")
    case True
    obtain t where "aread ra dev s1 = Ret () t" "quiet s1 t" by (rule quiet_aread [OF r1])
    with True that show thesis by auto
  next
    case False
    show thesis by (rule that [of s1]) (use False quiet_refl [OF r1] in auto)
  qed
  note q2 = quiet_same [OF 2(2)] and r2 = quiet_ready [OF 2(2) r1]
  have e2: "u_error (u s2) = 0" using q1 q2 r(2) by simp
  obtain b s3 s4 where 3: "bread (fblk ?V ?x log) dev s2 = Ret (Some b) s3"
    "brelse b (iomove_read (bdat b s3) (unat into) n s3) = Ret () s4"
    and mv: "moved (view s2 dev (fblk ?V ?x log)) (unat into) n s2 s4"
    and 4: "fsready dev s4" "view s4 = view s2" "ioframe s2 s4"
    by (rule read_block_spec [OF r2 e2, of "fblk ?V ?x log" into n])
  have "bframe s s2" using 1(2) 2(2) bframe_trans unfolding quiet_def holding_def by blast
  then have io: "ioframe s s4" using ioframe_trans [OF bframe_ioframe 4(3)] by blast
  have "moved (?V (fblk ?V ?x log)) (unat into) n s s4" using mv q1 q2 unfolding moved_def by simp
  moreover have "fbyte ?V ?x (512 * unat log + unat into + j) = ?V (fblk ?V ?x log) (unat into + j)" if "j < unat n" for j
    using that un by (intro fbyte_block) linarith
  ultimately have mv: "moved (fbyte ?V ?x) (512 * unat log + unat into) n s s4"
    by (subst moved_cong [of n _ _ "?V (fblk ?V ?x log)" "unat into"]) simp_all
  have "iread_loop (Suc k) ip dev log into s = iread_loop k ip dev (log + 1) 0 s4" for k
    using c 1(1) 2(1) 3 q1 q2 r(2) by (simp add: Let_def n_def)
  with that mv 4 io q1 q2 show thesis by simp
qed

lemma iread_loop_spec:
  assumes "fsready dev s" "u_error (u s) = 0" "base_ok (u s)" "i_dev (ilist s ip) = dev" "\<not> tst (i_mode (ilist s ip)) IIO"
    "unat into < 512" "has_blocks (view s dev) (ilist s ip) (512 * unat log + unat into) (unat (u_count (u s)))"
    "unat (u_count (u s)) \<le> k"
  shows "\<exists>s'. iread_loop k ip dev log into s = Ret () s' \<and>
    moved (fbyte (view s dev) (ilist s ip)) (512 * unat log + unat into) (u_count (u s)) s s' \<and>
    fsready dev s' \<and> view s' = view s \<and> ioframe s s'"
  using assms
proof (induction k arbitrary: s log into)
  case 0
  then have "u_count (u s) = 0" by (simp add: unat_eq_zero)
  with 0 show ?case by (simp add: moved_0)
next
  case (Suc k)
  let ?c = "u_count (u s)" and ?V = "view s dev" and ?x = "ilist s ip" and ?p = "512 * unat log + unat into"
  let ?F = "fbyte ?V ?x"
  show ?case
  proof (cases "?c = 0")
    case True
    with Suc.prems show ?thesis by (simp add: moved_0)
  next
    case False
    then have c: "0 < unat ?c" by (simp add: unat_gt_0)
    define n where "n = rlen ?c into"
    have un: "unat n = min (unat ?c) (512 - unat into)" using rlen_unat [OF Suc.prems(6)] by (simp add: n_def)
    obtain s4 where 4: "\<And>k. iread_loop (Suc k) ip dev log into s = iread_loop k ip dev (log + 1) 0 s4"
      and mv: "moved ?F ?p n s s4" and r4: "fsready dev s4" "view s4 = view s" "ioframe s s4"
      by (rule iread_round [OF Suc.prems(1,2,4-7) False]) (simp add: n_def)
    have u4: "u_count (u s4) = ?c - n" "u_error (u s4) = 0" using mv Suc.prems(2) by (simp_all add: moved_def mvu_def)
    have le: "n \<le> ?c" using un by (simp add: word_le_nat_alt)
    have c4: "unat (?c - n) = unat ?c - unat n" using le by (simp add: unat_sub)
    have lg1: "unat (log + 1) = Suc (unat log)"
      using has_blocks_head(2) [OF Suc.prems(7) c Suc.prems(6)] by (simp add: unat_word_ariths)
    have nx: "?p + unat n = 512 * unat (log + 1)" if "unat n < unat ?c" using that un Suc.prems(6) lg1 by simp
    have "has_blocks ?V ?x (?p + unat n) (unat (?c - n))"
      using has_blocks_tail [of ?V ?x ?p "unat n"] Suc.prems(7) c4 un by simp
    with nx c4 have hb: "has_blocks ?V ?x (512 * unat (log + 1) + unat (0 :: u16)) (unat (?c - n))"
      by (cases "unat n < unat ?c") (simp_all add: has_blocks_def)
    have "unat (?c - n) \<le> k" using c4 un c Suc.prems(6,8) by linarith
    with Suc.IH [OF r4(1) u4(2) moved_base [OF mv Suc.prems(3)], of 0 "log + 1"] hb r4 ioframe_same(1) [OF r4(3)]
      u4 Suc.prems(4,5)
    obtain s5 where 5: "iread_loop k ip dev (log + 1) 0 s4 = Ret () s5"
      "moved ?F (512 * unat (log + 1)) (?c - n) s4 s5" "fsready dev s5" "view s5 = view s4" "ioframe s4 s5" by auto
    have "moved ?F (?p + unat n) (?c - n) s4 s5"
      using 5(2) nx c4 by (subst moved_cong [of _ _ _ ?F "512 * unat (log + 1)"]) auto
    moreover have "unat n + unat (?c - n) < 65536" using c4 un unsigned_less [of ?c] by simp
    ultimately have "moved ?F ?p (n + (?c - n)) s s5" using moved_trans [OF Suc.prems(3) _ mv] by blast
    with 4 5 r4 ioframe_trans [OF r4(3) 5(5)] show ?thesis by auto
  qed
qed

text \<open>
  \<^verbatim>\<open>iread\<close> of a file that is not a device: the number of bytes read is the request, cut at the end of the file, and the bytes moved
  are those of the file. The time of access is noted in the inode.
\<close>

definition rcount :: "nat \<Rightarrow> kst \<Rightarrow> nat" where
  "rcount ip s = min (unat (u_count (u s))) (unat (i_size (ilist s ip)) - unat (u_offset (u s)))"

definition readable :: "nat \<Rightarrow> kst \<Rightarrow> bool" where
  "readable ip s \<longleftrightarrow> fsready (i_dev (ilist s ip)) s \<and> u_error (u s) = 0 \<and> base_ok (u s) \<and> \<not> tst (i_mode (ilist s ip)) IIO \<and>
     unat (i_size (ilist s ip)) \<le> 16777216 \<and> unat (u_offset (u s)) \<le> 16777216 \<and> unat (u_count (u s)) < 32768 \<and>
     has_blocks (view s (i_dev (ilist s ip))) (ilist s ip) (unat (u_offset (u s))) (rcount ip s)"

lemma offset_split:
  assumes "unat (off :: u32) \<le> 16777216 "
  shows "512 * unat (ucast (drop_bit 9 off) :: u16) + unat (ucast (off AND 511) :: u16) = unat off"
    "unat (ucast (off AND 511) :: u16) < 512"
proof -
  have "unat (ucast (drop_bit 9 off) :: u16) = unat off div 512"
    using assms by (simp add: unsigned_ucast_eq drop_bit_eq_div take_bit_eq_mod unat_div)
  moreover have "off AND 511 = take_bit 9 off" by (simp add: take_bit_eq_mask mask_eq_exp_minus_1)
  then have "unat (ucast (off AND 511) :: u16) = unat off mod 512"
    using mod_less [of "unat off mod 512" 65536] mod_less_divisor [of 512 "unat off"]
    by (simp add: unsigned_ucast_eq take_bit_eq_mod unat_mod_distrib)
  ultimately show "512 * unat (ucast (drop_bit 9 off) :: u16) + unat (ucast (off AND 511) :: u16) = unat off"
    "unat (ucast (off AND 511) :: u16) < 512" by simp_all
qed

lemma regular_type:
  assumes "\<not> tst m IIO"
  shows "m AND IFMT \<noteq> IFCHR" "m AND IFMT \<noteq> IFBLK"
proof -
  have "(m AND IFMT) AND IIO = m AND IIO" by (simp add: and.assoc)
  then show "m AND IFMT \<noteq> IFCHR" "m AND IFMT \<noteq> IFBLK" using assms by (auto simp: tst_def)
qed

lemma iread_cut:
  assumes "readable ip s" "u_count (u s) \<noteq> 0"
  defines "gap \<equiv> i_size (ilist s ip) - u_offset (u s)"
  shows "gap \<le>s 0 \<longleftrightarrow> rcount ip s = 0"
    "\<not> gap \<le>s 0 \<Longrightarrow> unat (if gap <s (scast (u_count (u s)) :: u32) then ucast gap else u_count (u s)) = rcount ip s"
proof -
  let ?z = "i_size (ilist s ip)" and ?o = "u_offset (u s)" and ?c = "u_count (u s)"
  from assms(1) have b: "unat ?z \<le> 16777216" "unat ?o \<le> 16777216" "unat ?c < 32768" by (simp_all add: readable_def)
  have c0: "0 < unat ?c" using assms(2) by (simp add: unat_gt_0)
  have sz: "sint ?z = int (unat ?z)" "sint ?o = int (unat ?o)" "sint ?c = int (unat ?c)"
    using b by (simp_all add: sint_nonneg32 sint_nonneg16)
  have "- (2 ^ 31) \<le> int a - int b" "int a - int b < 2 ^ 31" if "a \<le> 16777216" "b \<le> 16777216" for a b using that by simp_all
  from this [OF b(1,2)] have "- (2 ^ 31) \<le> sint ?z - sint ?o" "sint ?z - sint ?o < 2 ^ 31" unfolding sz .
  from signed_take_bit_int_eq_self [OF this] have g: "sint gap = int (unat ?z) - int (unat ?o)"
    unfolding gap_def sint_word_ariths by (simp add: sz)
  have "- (2 ^ 31) \<le> int a" "int a < 2 ^ 31" if "a < 32768" for a using that by simp_all
  from signed_take_bit_int_eq_self [OF this [OF b(3)]] have sc: "sint (scast ?c :: u32) = int (unat ?c)"
    by (simp add: sz signed_scast_eq)
  show "gap \<le>s 0 \<longleftrightarrow> rcount ip s = 0" using c0 by (auto simp: word_sle_eq g rcount_def min_def simp del: of_nat_unat)
  assume "\<not> gap \<le>s 0"
  then have lt: "unat ?o < unat ?z" by (simp add: word_sle_eq g del: of_nat_unat)
  then have ug: "unat gap = unat ?z - unat ?o" by (simp add: gap_def unat_sub word_le_nat_alt)
  have "gap <s (scast ?c :: u32) \<longleftrightarrow> unat ?z - unat ?o < unat ?c" using lt by (simp add: word_sless_alt g sc del: of_nat_unat) linarith
  then show "unat (if gap <s (scast ?c :: u32) then ucast gap else ?c) = rcount ip s"
    using b(3) ug by (auto simp: rcount_def unsigned_ucast_eq take_bit_eq_mod)
qed

lemma iread_spec:
  assumes r: "readable ip s"
  defines "V \<equiv> view s (i_dev (ilist s ip))" and "x \<equiv> ilist s ip" and "n \<equiv> rcount ip s"
  shows "n = 0 \<Longrightarrow> iread ip s = Ret 0 s"
    "0 < n \<Longrightarrow> \<exists>t. iread ip s = Ret (of_nat n) (itouch_read ip t) \<and>
      moved (fbyte V x) (unat (u_offset (u s))) (of_nat n) (upd_u (\<lambda>x. x\<lparr>u_count := of_nat n\<rparr>) s) t \<and>
      fsready (i_dev x) t \<and> view t = view s \<and> ioframe s t"
proof -
  let ?c = "u_count (u s)" and ?o = "u_offset (u s)" and ?gap = "i_size (ilist s ip) - u_offset (u s)"
  from r have i: "\<not> tst (i_mode (ilist s ip)) IIO" and o: "unat ?o \<le> 16777216" and c: "unat ?c < 32768" by (simp_all add: readable_def)
  note ty = regular_type [OF i]
  have dv: "idev ip s = i_dev x" using i by (simp add: idev_def x_def)
  show "iread ip s = Ret 0 s" if "n = 0"
    using that iread_cut(1) [OF r] ty by (cases "?c = 0") (auto simp: iread_def Let_def n_def)
  assume n: "0 < n"
  then have c0: "?c \<noteq> 0" by (auto simp: n_def rcount_def)
  define req where "req = (if ?gap <s (scast ?c :: u32) then ucast ?gap else ?c)"
  have ng: "\<not> ?gap \<le>s 0" using iread_cut(1) [OF r c0] n by (simp add: n_def)
  have req: "unat req = n" using iread_cut(2) [OF r c0 ng] by (simp add: req_def n_def)
  then have rq: "req = of_nat n" by (metis of_nat_unat16)
  define s1 where "s1 = upd_u (\<lambda>x. x\<lparr>u_count := req\<rparr>) s"
  show "\<exists>t. iread ip s = Ret (of_nat n) (itouch_read ip t) \<and>
      moved (fbyte V x) (unat (u_offset (u s))) (of_nat n) (upd_u (\<lambda>x. x\<lparr>u_count := of_nat n\<rparr>) s) t \<and>
      fsready (i_dev x) t \<and> view t = view s \<and> ioframe s t"
  proof -
    have rd: "fsready (i_dev x) s1" "u_error (u s1) = 0" "base_ok (u s1)" "view s1 = view s" "ilist s1 = ilist s"
      using r move_cache [where s = s and s' = s1 and x = "(u s)\<lparr>u_count := req\<rparr>" and p = "phys s" and h = "hdr s"] ioframe_same(4) [of s s1]
      by (simp_all add: s1_def upd_u_def readable_def fsready_def unheld_def base_ok_def x_def avail_alt)
    note os = offset_split [OF o]
    have "has_blocks (view s1 (i_dev x)) (ilist s1 ip)
        (512 * unat (ucast (drop_bit 9 ?o) :: u16) + unat (ucast (?o AND 511) :: u16)) (unat (u_count (u s1)))"
      unfolding os(1) using r req rd by (simp add: readable_def x_def n_def s1_def upd_u_def)
    from iread_loop_spec [OF rd(1-3) _ _ os(2) this order_refl] i rd os(1) obtain t
      where t: "iread_loop (unat req) ip (i_dev x) (ucast (drop_bit 9 ?o)) (ucast (?o AND 511)) s1 = Ret () t"
        "moved (fbyte V x) (unat ?o) req s1 t" "fsready (i_dev x) t" "view t = view s" "ioframe s1 t"
      by (auto simp: s1_def upd_u_def V_def x_def)
    have "u_count (u t) = 0" using t(2) by (simp add: moved_def mvu_def s1_def upd_u_def)
    then have "iread ip s = Ret req (itouch_read ip t)"
      using c0 ty ng t(1) unfolding iread_def by (simp add: Let_def dv s1_def req_def itouch_read_def upd_inode_def)
    moreover have "ioframe s t" using ioframe_trans [OF _ t(5), of s] by (simp add: s1_def upd_u_def ioframe_def)
    ultimately show ?thesis using t(2-4) unfolding s1_def rq by blast
  qed
qed

section \<open>The memory of the process\<close>

text \<open>Where an address of the process lies in primary memory.\<close>

definition place :: "(nat \<Rightarrow> mem) \<Rightarrow> u16 \<Rightarrow> u8 \<times> nat" where
  "place im a = (m_seg (im (unat a div 4096)), unat a mod 4096)"

definition at :: "(u8 \<Rightarrow> nat \<Rightarrow> u8) \<Rightarrow> u8 \<times> nat \<Rightarrow> u8" where
  "at ph p = ph (fst p) (snd p)"

lemma ugetc_at: "ugetc s a = at (phys s) (place (image1 s) a)"
  by (simp add: ugetc_def useg_def at_def place_def)

lemma cpo_out: "(\<And>j. j < n \<Longrightarrow> p \<noteq> place im (a + of_nat j)) \<Longrightarrow> at (cpo im f i a n ph) p = at ph p"
proof (induction n arbitrary: i a ph)
  case (Suc n)
  have "p \<noteq> place im (a + 1 + of_nat j)" if "j < n" for j using Suc.prems [of "Suc j"] that by (simp add: add.assoc)
  note IH = Suc.IH [OF this]
  have "p \<noteq> place im a" using Suc.prems [of 0] by simp
  then have "at (ph(m_seg (im (unat a div 4096)) := (ph (m_seg (im (unat a div 4096))))(unat a mod 4096 := f i))) p = at ph p"
    by (auto simp: at_def place_def prod_eq_iff)
  then show ?case by (simp add: Let_def IH del: fun_upd_apply)
qed simp

lemma cpo_in:
  assumes "inj_on (\<lambda>j. place im (a + of_nat j)) {..<n}" "j < n"
  shows "at (cpo im f i a n ph) (place im (a + of_nat j)) = f (i + j)"
  using assms
proof (induction n arbitrary: i a j ph)
  case (Suc n)
  have inj: "j = k" if "j < Suc n" "k < Suc n" "place im (a + of_nat j) = place im (a + of_nat k)" for j k
    using Suc.prems(1) that by (auto dest: inj_onD)
  show ?case
  proof (cases j)
    case 0
    have "place im (a + of_nat 0) \<noteq> place im (a + 1 + of_nat k)" if "k < n" for k
      using inj [of 0 "Suc k"] that by (auto simp: add.assoc)
    from cpo_out [OF this] 0 show ?thesis by (simp add: Let_def at_def place_def)
  next
    case (Suc k)
    have "inj_on (\<lambda>j. place im (a + 1 + of_nat j)) {..<n}"
      using inj [of "Suc _" "Suc _"] by (intro inj_onI) (auto simp: add.assoc)
    from Suc.IH [OF this, of k] Suc.prems(2) Suc show ?thesis by (simp add: Let_def add.assoc)
  qed
qed simp

text \<open>The addresses from \<open>a\<close> on lie in different places of primary memory: true of \<open>n\<close> bytes within the memory a process was given.\<close>

definition separate :: "kst \<Rightarrow> u16 \<Rightarrow> nat \<Rightarrow> bool" where
  "separate s a n \<longleftrightarrow> inj_on (\<lambda>j. place (image1 s) (a + of_nat j)) {..<n}"

lemma itouch_read_same [simp]: "u (itouch_read ip t) = u t" "phys (itouch_read ip t) = phys t" "image1 (itouch_read ip t) = image1 t"
  "blist (itouch_read ip t) = blist t" "disk (itouch_read ip t) = disk t" "nbuf (itouch_read ip t) = nbuf t"
  by (simp_all add: itouch_read_def upd_inode_def)

lemma iread_user:
  assumes r: "readable ip s" and b: "u_segflg (u s) = USEG" "u_base (u s) = Uaddr a" and sep: "separate s a (rcount ip s)"
  defines "n \<equiv> rcount ip s"
  shows "\<exists>s'. iread ip s = Ret (of_nat n) s' \<and> view s' = view s \<and>
    (\<forall>j<n. ugetc s' (a + of_nat j) = fbyte (view s (i_dev (ilist s ip))) (ilist s ip) (unat (u_offset (u s)) + j)) \<and>
    (\<forall>b. (\<forall>j<n. place (image1 s) b \<noteq> place (image1 s) (a + of_nat j)) \<longrightarrow> ugetc s' b = ugetc s b) \<and>
    unat (u_offset (u s')) = unat (u_offset (u s)) + n"
proof (cases "n = 0")
  case True
  with iread_spec(1) [OF r] show ?thesis by (auto simp: n_def)
next
  case False
  have n: "n < 32768" "unat (u_offset (u s)) \<le> 16777216" using r by (auto simp: n_def readable_def rcount_def)
  then have un: "unat (of_nat n :: u16) = n" by (simp add: unat_of_nat)
  let ?F = "fbyte (view s (i_dev (ilist s ip))) (ilist s ip)" and ?o = "unat (u_offset (u s))"
  from iread_spec(2) [OF r] False obtain t where t: "iread ip s = Ret (of_nat n) (itouch_read ip t)"
    "moved ?F ?o (of_nat n) (upd_u (\<lambda>x. x\<lparr>u_count := of_nat n\<rparr>) s) t" "view t = view s" by (auto simp: n_def)
  have ph: "phys t = cpo (image1 s) ?F ?o a n (phys s)" and im: "image1 t = image1 s"
    and off: "u_offset (u t) = u_offset (u s) + ucast (of_nat n :: u16)"
    using t(2) b un by (simp_all add: moved_def mvp_def mvu_def upd_u_def uaddr_def)
  have "view (itouch_read ip t) = view s" unfolding t(3) [symmetric] by (rule view_cong) simp_all
  moreover have "unat (u_offset (u t)) = ?o + n"
    using n un by (simp add: off unat_word_ariths unsigned_ucast_eq take_bit_eq_mod)
  ultimately show ?thesis
    using t(1) cpo_in [OF sep [unfolded separate_def], folded n_def] cpo_out [of n _ "image1 s" a] by (auto simp: ugetc_at ph im)
qed

end
