(* ===== verification/Update.thy ===== *)
theory Update
  imports Content
begin

text \<open>
  Writing a file in place: \<^verbatim>\<open>iwrite\<close> replaces the bytes of the file it is asked to, changes no other block, and \<^verbatim>\<open>iread\<close> reads
  them back.
\<close>

section \<open>Moves from the process\<close>

definition wru :: "u16 \<Rightarrow> user \<Rightarrow> user" where
  "wru n x = x\<lparr>u_count := u_count x - n, u_offset := u_offset x + ucast n, u_base := kp_add (u_base x) n\<rparr>"

text \<open>The bytes at \<^verbatim>\<open>u.base\<close>.\<close>

definition src :: "kst \<Rightarrow> nat \<Rightarrow> u8" where
  "src s j = (if u_segflg (u s) = KSEG then (let (f, i) = kget (u_base (u s)) s in f (i + j))
     else ugetc s (uaddr (u_base (u s)) + of_nat j))"

lemma copyin_copyb: "copyin s a d i n = copyb (\<lambda>j. ugetc s (a + of_nat j)) 0 d i n"
proof (induction n arbitrary: a d i)
  case (Suc n)
  show ?case unfolding copyin.simps Suc.IH
  proof
    fix k
    have "a + 1 + of_nat (k - Suc i) = a + (of_nat (k - i) :: u16)" if "Suc i \<le> k"
      using that by (metis (no_types, lifting) Suc_diff_le add.assoc diff_Suc_Suc of_nat_Suc)
    then show "copyb (\<lambda>j. ugetc s (a + 1 + of_nat j)) 0 (d(i := ugetc s a)) (Suc i) n k =
        copyb (\<lambda>j. ugetc s (a + of_nat j)) 0 d i (Suc n) k" by (auto simp: copyb_def)
  qed
qed simp

lemma iomove_write_parts: "iomove_write b i n s = (copyb (src s) 0 b i (unat n), s\<lparr>u := wru n (u s)\<rparr>)"
proof -
  let ?s1 = "iomove_step n s" and ?p = "u_base (u s)"
  obtain f j where k: "kget ?p s = (f, j)" by fastforce
  have k1: "kget ?p ?s1 = (f, j)" using k by (simp add: kget_def iomove_step_def upd_u_def split: kptr.splits)
  have "ugetc ?s1 = ugetc s" by (simp add: fun_eq_iff ugetc_def useg_def iomove_step_def upd_u_def)
  then have "(if u_segflg (u s) = KSEG then copyb f j b i (unat n) else copyin ?s1 (uaddr ?p) b i (unat n)) =
      copyb (src s) 0 b i (unat n)"
    using k by (auto simp: copyin_copyb src_def intro: copyb_cong)
  then show ?thesis
    using k1 by (auto simp: iomove_write_def Let_def wru_def iomove_step_def upd_u_def split: if_splits)
qed

lemma src_step:
  assumes "u s' = wru n (u s)" "phys s' = phys s" "image1 s' = image1 s" "hdr s' = hdr s" "base_ok (u s)"
  shows "src s' j = src s (unat n + j)"
proof -
  have "ugetc s' = ugetc s" using assms by (simp add: fun_eq_iff ugetc_def useg_def)
  with assms show ?thesis
    by (cases "u_base (u s)") (auto simp: src_def wru_def kget_def base_ok_def uaddr_def add.assoc)
qed

lemma wru_add: "unat n + unat m < 65536 \<Longrightarrow> wru m (wru n x) = wru (n + m) x"
proof -
  assume n: "unat n + unat m < 65536"
  have nm: "unat (n + m) = unat n + unat m" using n by (simp add: unat_plus_if_size word_size)
  have uc: "(ucast (n + m) :: u32) = ucast n + ucast m"
    using n by (simp add: word_unat_eq_iff nm unsigned_ucast_eq unat_word_ariths take_bit_eq_mod)
  show ?thesis by (cases "u_base x") (simp_all add: wru_def uc nm diff_diff_eq add.assoc)
qed

section \<open>A whole file\<close>

text \<open>
  The first \<open>N\<close> blocks of the file are there, they are different, and none of them is one of its indirect blocks.
\<close>

definition whole :: "(u16 \<Rightarrow> bytes) \<Rightarrow> inode \<Rightarrow> nat \<Rightarrow> bool" where
  "whole V x N \<longleftrightarrow> N \<le> 32768 \<and> (\<forall>l. unat l < N \<longrightarrow> mapped V x l) \<and>
     (\<forall>l m. unat l < N \<longrightarrow> unat m < N \<longrightarrow> fblk V x l = fblk V x m \<longrightarrow> l = m) \<and>
     (\<forall>l (m :: u16). unat l < N \<longrightarrow> unat m < N \<longrightarrow> tst (i_mode x) ILARG \<longrightarrow>
        fblk V x l \<noteq> d_addr (i_d x) (min (unat (drop_bit 8 m)) 7) \<and> fblk V x l \<noteq> indblk V x (unat (drop_bit 8 m)))"

lemma wholeD:
  assumes "whole V x N" "unat l < N"
  shows "mapped V x l" "unat m < N \<Longrightarrow> fblk V x l = fblk V x m \<Longrightarrow> l = m"
    "unat m < N \<Longrightarrow> tst (i_mode x) ILARG \<Longrightarrow> fblk V x l \<noteq> d_addr (i_d x) (min (unat (drop_bit 8 m)) 7)"
    "unat m < N \<Longrightarrow> tst (i_mode x) ILARG \<Longrightarrow> fblk V x l \<noteq> indblk V x (unat (drop_bit 8 m))"
  using assms unfolding whole_def by blast+

lemma whole_blocks:
  assumes "whole V x N" "p + n \<le> 512 * N"
  shows "has_blocks V x p n"
  unfolding has_blocks_def
proof (intro allI impI)
  fix j assume "j < n"
  with assms(2) have l: "(p + j) div 512 < N" by (simp add: div_less_iff_less_mult)
  moreover have "N \<le> 32768" using assms(1) by (simp add: whole_def)
  ultimately have "unat (of_nat ((p + j) div 512) :: u16) = (p + j) div 512" by (simp add: unat_of_nat)
  with l \<open>N \<le> 32768\<close> wholeD(1) [OF assms(1)] show "(p + j) div 512 < 32768 \<and> mapped V x (of_nat ((p + j) div 512))" by simp
qed

lemma fblk_upd:
  assumes w: "whole V x N" and l: "unat l < N" "unat m < N"
    and V'_def: "V' = V(fblk V x l := y)"
  shows "fblk V' x m = fblk V x m" "tst (i_mode x) ILARG \<Longrightarrow> indblk V' x (unat (drop_bit 8 m)) = indblk V x (unat (drop_bit 8 m))"
proof -
  show i: "indblk V' x (unat (drop_bit 8 m)) = indblk V x (unat (drop_bit 8 m))" if "tst (i_mode x) ILARG"
    using wholeD(3) [OF w l that] by (auto simp: indblk_def V'_def Let_def min_def split: if_splits)
  have "V' (indblk V x (unat (drop_bit 8 m))) = V (indblk V x (unat (drop_bit 8 m)))" if "tst (i_mode x) ILARG"
    using wholeD(4) [OF w l that] by (simp add: V'_def)
  with i show "fblk V' x m = fblk V x m" by (simp add: fblk_def)
qed

lemma whole_upd:
  assumes w: "whole V x N" and l: "unat l < N"
    and V'_def: "V' = V(fblk V x l := y)"
  shows "whole V' x N"
proof -
  note f = fblk_upd [OF w l _ V'_def]
  have "mapped V' x m" if "unat m < N" for m using wholeD(1) [OF w that] f [OF that] by (auto simp: mapped_def)
  with wholeD [OF w] f w show ?thesis unfolding whole_def by metis
qed

lemma fbyte_upd:
  assumes w: "whole V x N" and l: "unat l < N" and q: "q < 512 * N"
    and V'_def: "V' = V(fblk V x l := y)"
  shows "fbyte V' x q = (if q div 512 = unat l then y (q mod 512) else fbyte V x q)"
proof -
  have N: "N \<le> 32768" using w by (simp add: whole_def)
  have qd: "q div 512 < N" using q by (simp add: div_less_iff_less_mult)
  then have u: "unat (of_nat (q div 512) :: u16) = q div 512" using N by (simp add: unat_of_nat)
  with qd have m: "unat (of_nat (q div 512) :: u16) < N" by simp
  note f = fblk_upd(1) [OF w l m V'_def]
  have "fblk V x (of_nat (q div 512)) = fblk V x l \<longleftrightarrow> q div 512 = unat l"
    using wholeD(2) [OF w m l] u by auto
  then show ?thesis by (simp add: fbyte_def f) (simp add: V'_def)
qed

section \<open>Writing a block\<close>

text \<open>A buffer for a block that is written: its content is read unless all of it will be replaced.\<close>

lemma ready_buffer:
  assumes r: "fsready dev s" and e: "u_error (u s) = 0"
  obtains b s1 where "(if n = (512 :: u16) then bnd (bget k dev s) (\<lambda>b s. Ret (Some b) s) else bread k dev s) = Ret (Some b) s1"
    "holding {} {b} s s1" "view s1 = view s" "u s1 = u s" "b \<in> held s1" "cok {} s1" "holds (blist s1 b) dev k"
    "n \<noteq> 512 \<Longrightarrow> bdat b s1 = view s dev k"
proof (cases "n = 512")
  case False
  obtain b s1 where "bread k dev s = Ret (Some b) s1" "holding {} {b} s s1" "view s1 = view s" "u s1 = u s"
    "bdat b s1 = view s dev k" "b \<in> held s1" "cok {} s1" "holds (blist s1 b) dev k"
    by (rule ready_bread [OF r e, of k])
  with False that show thesis by simp
next
  case True
  have h: "holding {} {} s s" using r by (simp add: fsready_def holding_refl)
  obtain b s1 where b: "bget k dev s = Ret b s1" "holding {} (insert b {}) s s1" "view s1 = view s" "holds (blist s1 b) dev k" "u s1 = u s"
    by (rule hold_bget [OF h, of dev k]) (use r in \<open>auto simp: fsready_def unheld_def\<close>)
  with True that [of b s1] holdingD(2,4) [OF b(2)] show thesis by auto
qed

text \<open>Both ways to give a changed buffer back store its data in the abstract disk.\<close>

lemma give_back:
  assumes ok: "cok {} s" and b: "b \<in> held s" "holds (blist s b) dev k" "vdev dev"
  shows "\<exists>s'. (if w then bawrite b (set_bdat b y s) else bdwrite b (set_bdat b y s)) = Ret () s' \<and> bframe s s' \<and> cok {} s' \<and> u s' = u s \<and>
    view s' = (view s)(dev := (view s dev)(k := y)) \<and> held s' = held s - {b} \<and> lckd s' = lckd s \<and>
    (\<forall>j. j \<noteq> b \<longrightarrow> btm (blist s j) (blist s' j))"
proof -
  define s1 where "s1 = set_bdat b y s"
  note ud = upd_data_spec [OF ok b(1), where y = y, folded set_bdat_def, folded s1_def]
  have x: "b_dev (blist s1 b) = dev" "b_blk (blist s1 b) = k" "b_dev (blist s b) = dev" "b_blk (blist s b) = k"
    using b(2) ud by (simp_all add: holds_def)
  have b1: "b \<in> held s1" "vdev (b_dev (blist s1 b))" using ud b x by simp_all
  have "\<exists>s'. (if w then bawrite b s1 else bdwrite b s1) = Ret () s' \<and> bframe s1 s' \<and> cok (insert b {} - {b}) s' \<and> u s' = u s1 \<and>
    view s' = (view s1)(dev := (view s1 dev)(k := y)) \<and> held s' = held s1 - {b} \<and> lckd s' = lckd s1 \<and>
    (\<forall>j. j \<noteq> b \<longrightarrow> btm (blist s1 j) (blist s' j))"
    using bawrite_spec [OF ud(2) b1] bdwrite_spec [OF ud(2) b1] unfolding x ud(8) by (cases w) (auto simp del: insert_Diff_single)
  then obtain s' where r: "(if w then bawrite b s1 else bdwrite b s1) = Ret () s'" "bframe s1 s'" "cok (insert b {} - {b}) s'" "u s' = u s1"
    "view s' = (view s1)(dev := (view s1 dev)(k := y))" "held s' = held s1 - {b}" "lckd s' = lckd s1"
    "\<forall>j. j \<noteq> b \<longrightarrow> btm (blist s1 j) (blist s' j)" by blast
  have "view s' = (view s)(dev := (view s dev)(k := y))"
    unfolding r(5) using ud(13) by (auto simp: fun_eq_iff holds_def x)
  with r ud bframe_trans [OF ud(1) r(2)] show ?thesis unfolding s1_def [symmetric] by simp
qed

lemma write_block_spec:
  assumes r: "fsready dev s" and e: "u_error (u s) = 0" and n: "unat into + unat n \<le> 512"
  obtains b s1 s2 y where
    "(if n = (512 :: u16) then bnd (bget k dev s) (\<lambda>b s. Ret (Some b) s) else bread k dev s) = Ret (Some b) s1"
    "iwrite_block into n dev pip b s1 = Ret () s2" "u s2 = wru n (u s)" "phys s2 = phys s" "hdr s2 = hdr s"
    "view s2 = (view s)(dev := (view s dev)(k := y))" "fsready dev s2" "ioframe s s2"
    "\<And>j. j < 512 \<Longrightarrow> y j = copyb (src s) 0 (view s dev k) (unat into) (unat n) j"
proof -
  obtain b s1 where b: "(if n = (512 :: u16) then bnd (bget k dev s) (\<lambda>b s. Ret (Some b) s) else bread k dev s) = Ret (Some b) s1"
    and h: "holding {} {b} s s1" "view s1 = view s" "u s1 = u s" "b \<in> held s1" "cok {} s1" "holds (blist s1 b) dev k"
    and d: "n \<noteq> 512 \<Longrightarrow> bdat b s1 = view s dev k"
    by (rule ready_buffer [OF r e, of n k]) blast
  note fr = bframe_same [OF holdingD(1) [OF h(1)]] and hd = holdingD [OF h(1)]
  define y where "y = copyb (src s) 0 (bdat b s1) (unat into) (unat n)"
  have src: "src s1 = src s" by (simp add: fun_eq_iff src_def kget_def ugetc_def useg_def fr(13,14,19) h(3) split: kptr.split)
  have y: "y j = copyb (src s) 0 (view s dev k) (unat into) (unat n) j" if "j < 512" for j
    using that n d by (cases "n = 512") (auto simp: y_def copyb_def)
  define s2 where "s2 = s1\<lparr>u := wru n (u s1), phys := phys s1, hdr := hdr s1\<rparr>"
  have s2': "s2 = s1\<lparr>u := wru n (u s1)\<rparr>" by (simp add: s2_def)
  note mc = move_cache [OF s2_def]
  have "cok {} s2" "b \<in> held s2" "holds (blist s2 b) dev k" "vdev dev" using h mc r by (simp_all add: fsready_def)
  from give_back [OF this, of "into + n = 512 \<and> \<not> pip" y] obtain s3 where g:
    "(if into + n = 512 \<and> \<not> pip then bawrite b (set_bdat b y s2) else bdwrite b (set_bdat b y s2)) = Ret () s3"
    "bframe s2 s3" "cok {} s3" "u s3 = u s2" "view s3 = (view s2)(dev := (view s2 dev)(k := y))" "held s3 = held s2 - {b}"
    "lckd s3 = lckd s2" "\<forall>j. j \<noteq> b \<longrightarrow> btm (blist s2 j) (blist s3 j)" by blast
  note fr3 = bframe_same [OF g(2)]
  have io: "ioframe s s3" using ioframe_trans [OF ioframe_trans] bframe_ioframe hd(1) mc(6) g(2) by blast
  have h3: "held s3 = held s" using g(6) mc(2) hd(4,5) by auto
  have bl: "btm (blist s j) (blist s3 j)" if "j \<in> held s" for j
    using hd(5) hd(7) [OF that] g(8) that btm_trans unfolding mc(5) by blast
  have "unheld dev k s3" for k using r btm_fields(6) [OF bl] by (simp add: fsready_def unheld_def h3)
  moreover have "avail s3 = avail s" using g(7) mc(4) hd(6) ioframe_same(4) [OF io] by (simp add: avail_alt h3)
  ultimately have "fsready dev s3" using r g(3) by (simp add: fsready_def)
  moreover have "iwrite_block into n dev pip b s1 = Ret () s3"
    using g(1) unfolding iwrite_block_def iomove_write_parts src s2' [symmetric] y_def [symmetric] by (simp add: Let_def)
  moreover have "u s3 = wru n (u s)" "phys s3 = phys s" "hdr s3 = hdr s" using g(4) fr fr3 h(3) by (simp_all add: s2_def)
  ultimately show thesis using that [OF b _ _ _ _ _ _ io y] g(5) mc(3) h(2) by simp
qed

section \<open>Writing a file\<close>

text \<open>
  The bytes of the file \<open>x\<close> from \<open>p\<close> on were replaced by \<open>n\<close> bytes of \<open>f\<close>: the file keeps its blocks, and blocks that are not its own stay.
\<close>

definition replaced :: "inode \<Rightarrow> nat \<Rightarrow> nat \<Rightarrow> nat \<Rightarrow> (nat \<Rightarrow> u8) \<Rightarrow> (u16 \<Rightarrow> bytes) \<Rightarrow> (u16 \<Rightarrow> bytes) \<Rightarrow> bool" where
  "replaced x N p n f V V' \<longleftrightarrow> whole V' x N \<and> (\<forall>l. unat l < N \<longrightarrow> fblk V' x l = fblk V x l) \<and>
     (\<forall>q<512 * N. fbyte V' x q = (if p \<le> q \<and> q < p + n then f (q - p) else fbyte V x q)) \<and>
     (\<forall>k. (\<forall>l. unat l < N \<longrightarrow> k \<noteq> fblk V x l) \<longrightarrow> V' k = V k)"

lemma replaced_0: "whole V x N \<Longrightarrow> replaced x N p 0 f V V"
  by (auto simp: replaced_def)

lemma replaced_trans:
  assumes "replaced x N p n f V V1" "replaced x N (p + n) m g V1 V2" "\<And>j. g j = f (n + j)"
  shows "replaced x N p (n + m) f V V2"
  unfolding replaced_def
proof (intro conjI allI impI)
  show "whole V2 x N" using assms(2) by (simp add: replaced_def)
  show "fblk V2 x l = fblk V x l" if "unat l < N" for l using assms(1,2) that by (simp add: replaced_def)
  show "fbyte V2 x q = (if p \<le> q \<and> q < p + (n + m) then f (q - p) else fbyte V x q)" if "q < 512 * N" for q
    using assms that by (auto simp: replaced_def)
  show "V2 k = V k" if "\<forall>l. unat l < N \<longrightarrow> k \<noteq> fblk V x l" for k using assms(1,2) that unfolding replaced_def by metis
qed

lemma replaced_block:
  assumes w: "whole V x N" and l: "unat log < N" and n: "unat into + n \<le> 512"
    and y: "\<And>j. j < 512 \<Longrightarrow> y j = copyb f 0 (V (fblk V x log)) (unat into) n j"
  shows "replaced x N (512 * unat log + unat into) n f V (V(fblk V x log := y))"
  unfolding replaced_def
proof (intro conjI allI impI)
  let ?V' = "V(fblk V x log := y)"
  show "whole ?V' x N" by (rule whole_upd [OF w l refl])
  show "fblk ?V' x m = fblk V x m" if "unat m < N" for m by (rule fblk_upd [OF w l that refl])
  show "?V' k = V k" if "\<forall>l. unat l < N \<longrightarrow> k \<noteq> fblk V x l" for k using that l by auto
  fix q assume q: "q < 512 * N"
  let ?p = "512 * unat log + unat into"
  have qd: "q = 512 * (q div 512) + q mod 512" by simp
  show "fbyte ?V' x q = (if ?p \<le> q \<and> q < ?p + n then f (q - ?p) else fbyte V x q)"
  proof (cases "q div 512 = unat log")
    case True
    then have "fbyte V x q = V (fblk V x log) (q mod 512)" by (simp add: fbyte_def)
    moreover have "fbyte ?V' x q = y (q mod 512)" using fbyte_upd [OF w l q refl] True by simp
    moreover have "q - ?p = q mod 512 - unat into" "?p \<le> q \<longleftrightarrow> unat into \<le> q mod 512" "q < ?p + n \<longleftrightarrow> q mod 512 < unat into + n"
      using qd True by linarith+
    ultimately show ?thesis using y [of "q mod 512"] by (simp add: copyb_def)
  next
    case False
    have "\<not> (?p \<le> q \<and> q < ?p + n)"
    proof
      assume "?p \<le> q \<and> q < ?p + n"
      then have "512 * unat log \<le> q" "q < 512 * Suc (unat log)" using n by auto
      then have "q div 512 = unat log" by (simp add: div_nat_eqI)
      with False show False ..
    qed
    with fbyte_upd [OF w l q refl, of y] False show ?thesis by auto
  qed
qed

lemma iwrite_loop_0 [simp]: "u_count (u s) = 0 \<Longrightarrow> iwrite_loop k ip dev pip log into s = Ret () s"
  by (cases k) simp_all

lemma iwrite_loop_spec:
  assumes "fsready dev s" "u_error (u s) = 0" "base_ok (u s)" "i_dev (ilist s ip) = dev" "\<not> tst (i_mode (ilist s ip)) IIO"
    "unat into < 512" "whole (view s dev) (ilist s ip) N" "512 * unat log + unat into + unat (u_count (u s)) \<le> 512 * N"
    "unat (u_count (u s)) \<le> k"
  shows "\<exists>s'. iwrite_loop k ip dev pip log into s = Ret () s' \<and> u s' = wru (u_count (u s)) (u s) \<and> phys s' = phys s \<and> hdr s' = hdr s \<and>
    (\<forall>d. d \<noteq> dev \<longrightarrow> view s' d = view s d) \<and>
    replaced (ilist s ip) N (512 * unat log + unat into) (unat (u_count (u s))) (src s) (view s dev) (view s' dev) \<and>
    fsready dev s' \<and> ioframe s s'"
  using assms
proof (induction k arbitrary: s log into)
  case 0
  then have "u_count (u s) = 0" by (simp add: unat_eq_zero)
  with 0 show ?case by (cases "u_base (u s)") (simp_all add: wru_def replaced_0)
next
  case (Suc k)
  let ?c = "u_count (u s)" and ?V = "view s dev" and ?x = "ilist s ip" and ?p = "512 * unat log + unat into"
  show ?case
  proof (cases "?c = 0")
    case True
    with Suc.prems show ?thesis by (cases "u_base (u s)") (simp_all add: wru_def replaced_0)
  next
    case False
    then have c: "0 < unat ?c" by (simp add: unat_gt_0)
    define n where "n = rlen ?c into"
    have un: "unat n = min (unat ?c) (512 - unat into)" using rlen_unat [OF Suc.prems(6)] by (simp add: n_def)
    have l: "unat log < N" using Suc.prems(6,8) c by linarith
    from imap_spec [OF Suc.prems(1,2,4,5) wholeD(1) [OF Suc.prems(7) l]] obtain ra s1
      where 1: "imap ip log s = Ret (fblk ?V ?x log, ra) s1" "quiet s s1" by blast
    note q1 = quiet_same [OF 1(2)] and r1 = quiet_ready [OF 1(2) Suc.prems(1)]
    have e1: "u_error (u s1) = 0" using q1 Suc.prems(2) by simp
    have ni: "unat into + unat n \<le> 512" using un Suc.prems(6) by linarith
    obtain b s2 s3 y where 2: "(if n = (512 :: u16) then bnd (bget (fblk ?V ?x log) dev s1) (\<lambda>b s. Ret (Some b) s)
        else bread (fblk ?V ?x log) dev s1) = Ret (Some b) s2"
      "iwrite_block into n dev pip b s2 = Ret () s3"
      and 3: "u s3 = wru n (u s1)" "phys s3 = phys s1" "hdr s3 = hdr s1"
        "view s3 = (view s1)(dev := (view s1 dev)(fblk ?V ?x log := y))" "fsready dev s3" "ioframe s1 s3"
      and y: "\<And>j. j < 512 \<Longrightarrow> y j = copyb (src s1) 0 (view s1 dev (fblk ?V ?x log)) (unat into) (unat n) j"
      by (rule write_block_spec [OF r1 e1 ni, of "fblk ?V ?x log" pip]) blast
    have src1: "src s1 = src s" using q1 by (simp add: fun_eq_iff src_def kget_def ugetc_def useg_def split: kptr.split)
    have rp: "replaced ?x N ?p (unat n) (src s) ?V (view s3 dev)"
      using replaced_block [OF Suc.prems(7) l ni, of y "src s"] y unfolding src1 by (simp add: 3(4) q1(3))
    have io: "ioframe s s3" using ioframe_trans [OF bframe_ioframe 3(6)] 1(2) by (auto simp: quiet_def holding_def)
    have st: "iwrite_loop (Suc k) ip dev pip log into s = iwrite_loop k ip dev pip (log + 1) 0 s3"
      using False 1(1) 2 q1 Suc.prems(2) by (simp add: Let_def n_def)
    have u3: "u s3 = wru n (u s)" "u_count (u s3) = ?c - n" "u_error (u s3) = 0" "base_ok (u s3)"
      using 3(1) q1 Suc.prems(2,3) by (auto simp: wru_def base_ok_def)
    have c3: "unat (?c - n) = unat ?c - unat n" using un by (simp add: unat_sub word_le_nat_alt)
    have N: "N \<le> 32768" using Suc.prems(7) by (simp add: whole_def)
    have lg1: "unat (log + 1) = Suc (unat log)" using l N by (simp add: unat_word_ariths)
    have nx: "?p + unat n = 512 * unat (log + 1)" if "unat n < unat ?c" using that un Suc.prems(6) lg1 by simp
    have bound: "512 * unat (log + 1) + unat (?c - n) \<le> 512 * N" using nx c3 lg1 l Suc.prems(8) un by linarith
    have "unat (?c - n) \<le> k" using c3 un c Suc.prems(6,9) by linarith
    with Suc.IH [OF 3(5) u3(3,4), of 0 "log + 1"] bound rp ioframe_same(1) [OF io] u3(2) Suc.prems(4,5)
    obtain s4 where 4: "iwrite_loop k ip dev pip (log + 1) 0 s3 = Ret () s4" "u s4 = wru (?c - n) (u s3)" "phys s4 = phys s3" "hdr s4 = hdr s3"
      "\<forall>d. d \<noteq> dev \<longrightarrow> view s4 d = view s3 d" "replaced ?x N (512 * unat (log + 1)) (unat (?c - n)) (src s3) (view s3 dev) (view s4 dev)"
      "fsready dev s4" "ioframe s3 s4"
      by (auto simp: replaced_def)
    have "src s3 j = src s (unat n + j)" for j
      using src_step [OF u3(1)] 3(2,3) q1 ioframe_same(2) [OF io] Suc.prems(3) by simp
    moreover have "replaced ?x N (?p + unat n) (unat (?c - n)) (src s3) (view s3 dev) (view s4 dev)"
      using 4(6) nx c3 by (cases "unat n < unat ?c") (auto simp: replaced_def)
    ultimately have "replaced ?x N ?p (unat n + unat (?c - n)) (src s) ?V (view s4 dev)" using replaced_trans [OF rp] by blast
    moreover have "unat n + unat (?c - n) = unat ?c" using c3 un by simp
    moreover have "wru (?c - n) (wru n (u s)) = wru ?c (u s)"
      using wru_add [of n "?c - n" "u s"] calculation(2) unsigned_less [of ?c] by simp
    ultimately show ?thesis
      using st 4 3 q1 u3(1) ioframe_trans [OF io 4(8)] by (intro exI [of _ s4]) (simp add: Suc.prems)
  qed
qed

text \<open>\<^verbatim>\<open>iwrite\<close> into blocks the file has. The size grows with the offset, the time of change is noted.\<close>

definition writable :: "nat \<Rightarrow> nat \<Rightarrow> kst \<Rightarrow> bool" where
  "writable ip N s \<longleftrightarrow> fsready (i_dev (ilist s ip)) s \<and> u_error (u s) = 0 \<and> base_ok (u s) \<and> \<not> tst (i_mode (ilist s ip)) IIO \<and>
     whole (view s (i_dev (ilist s ip))) (ilist s ip) N \<and> unat (u_offset (u s)) + unat (u_count (u s)) \<le> 512 * N"

lemma iwrite_spec:
  assumes w: "writable ip N s"
  defines "dev \<equiv> i_dev (ilist s ip)" and "x \<equiv> ilist s ip" and "c \<equiv> u_count (u s)"
  shows "\<exists>t. iwrite ip s = (if c = 0 then Ret 0 s else Ret c (itouch_write ip t)) \<and> u t = wru c (u s) \<and> phys t = phys s \<and> hdr t = hdr s \<and>
    (\<forall>d. d \<noteq> dev \<longrightarrow> view t d = view s d) \<and> replaced x N (unat (u_offset (u s))) (unat c) (src s) (view s dev) (view t dev) \<and>
    fsready dev t \<and> ioframe s t"
proof -
  let ?o = "u_offset (u s)"
  have i: "\<not> tst (i_mode (ilist s ip)) IIO" and wh: "whole (view s dev) x N" and b: "unat ?o + unat c \<le> 512 * N"
    and r: "fsready dev s" "u_error (u s) = 0" "base_ok (u s)" using w by (simp_all add: writable_def dev_def x_def c_def)
  have o: "unat ?o \<le> 16777216" using b wh by (simp add: whole_def)
  note os = offset_split [OF o] and ty = regular_type [OF i]
  from iwrite_loop_spec [OF r _ i os(2) wh [unfolded x_def] _ order_refl, where pip = "tst (i_flags x) IPIPE" and log = "ucast (drop_bit 9 ?o)"] b os(1)
  obtain t where t: "iwrite_loop (unat c) ip dev (tst (i_flags x) IPIPE) (ucast (drop_bit 9 ?o)) (ucast (?o AND 511)) s = Ret () t"
    "u t = wru c (u s)" "phys t = phys s" "hdr t = hdr s" "\<forall>d. d \<noteq> dev \<longrightarrow> view t d = view s d"
    "replaced x N (unat ?o) (unat c) (src s) (view s dev) (view t dev)" "fsready dev t" "ioframe s t"
    by (auto simp: dev_def x_def c_def)
  have dv: "idev ip s = dev" using i by (simp add: idev_def dev_def)
  have "u_count (u (itouch_write ip t)) = 0"
    using t(2) by (simp add: itouch_write_def Let_def upd_inode_def wru_def c_def)
  then have "iwrite ip s = (if c = 0 then Ret 0 s else Ret c (itouch_write ip t))"
    using ty t(1) by (simp add: iwrite_def Let_def dv x_def c_def)
  with t show ?thesis by blast
qed

section \<open>Reading back\<close>

lemma file_inode:
  assumes "i_mode y = i_mode x" "d_addr (i_d y) = d_addr (i_d x)"
  shows "fblk V y = fblk V x" "fbyte V y = fbyte V x" "whole V y N = whole V x N"
proof -
  have ind: "indblk V y = indblk V x" by (simp add: fun_eq_iff indblk_def assms)
  then show f: "fblk V y = fblk V x" by (simp add: fun_eq_iff fblk_def assms)
  then show "fbyte V y = fbyte V x" by (simp add: fun_eq_iff fbyte_def)
  show "whole V y N = whole V x N" by (simp add: whole_def mapped_def f ind assms)
qed

text \<open>The state after \<^verbatim>\<open>itouch_write\<close> and a new setting of \<^verbatim>\<open>u.base\<close>, \<^verbatim>\<open>u.count\<close> and \<^verbatim>\<open>u.offset\<close>.\<close>

lemma touched:
  fixes t :: kst
  assumes "ilist t ip = x" and s': "s' = upd_u f (itouch_write ip t)" and o: "unat (u_offset (u t)) \<le> 16777216"
  shows "view s' = view t" "fsready dev s' = fsready dev t" "image1 s' = image1 t" "u s' = f (u t)" "phys s' = phys t" "hdr s' = hdr t"
    "i_dev (ilist s' ip) = i_dev x" "i_mode (ilist s' ip) = i_mode x" "d_addr (i_d (ilist s' ip)) = d_addr (i_d x)"
    "unat (i_size (ilist s' ip)) = max (unat (i_size x)) (unat (u_offset (u t)))"
proof -
  define il where "il = ilist (itouch_write ip t)"
  have s: "s' = t\<lparr>u := f (u t), ilist := il\<rparr>"
    using s' by (simp add: il_def itouch_write_def upd_inode_def upd_u_def Let_def)
  show "view s' = view t" by (rule view_cong) (simp_all add: s)
  then show "fsready dev s' = fsready dev t" "image1 s' = image1 t" "u s' = f (u t)" "phys s' = phys t" "hdr s' = hdr t"
    by (simp_all add: s fsready_def cok_def swapok_def drv_ok_def cinv_def unheld_def held_def avail_def)
  have "ilist s' = il" by (simp add: s)
  then show "i_dev (ilist s' ip) = i_dev x" "i_mode (ilist s' ip) = i_mode x" "d_addr (i_d (ilist s' ip)) = d_addr (i_d x)"
    "unat (i_size (ilist s' ip)) = max (unat (i_size x)) (unat (u_offset (u t)))"
    using assms(1) by (auto simp: il_def itouch_write_def upd_inode_def Let_def i_mode_def word_less_nat_alt)
qed

section \<open>Properties\<close>

text \<open>
  C3. Reading a file: \<^verbatim>\<open>iread\<close> of a regular file or directory returns the number of bytes asked for, cut at the end of the file; the memory of the
  process from \<^verbatim>\<open>u.base\<close> on holds these bytes of the file, found through the block numbers of the inode and its single and double
  indirect blocks; no other memory of the process and no block of a disk changes, and the offset advances. (The request is below 32768 bytes, the blocks of the range exist, nobody
  else holds a block of the device, the drives work.)
\<close>

theorem iread_reads_file:
  assumes "readable ip s" "u_segflg (u s) = USEG" "u_base (u s) = Uaddr a" "separate s a (rcount ip s)"
  shows "\<exists>s'. iread ip s = Ret (of_nat (rcount ip s)) s' \<and> view s' = view s \<and>
    (\<forall>j<rcount ip s. ugetc s' (a + of_nat j) = fbyte (view s (i_dev (ilist s ip))) (ilist s ip) (unat (u_offset (u s)) + j)) \<and>
    (\<forall>b. (\<forall>j<rcount ip s. place (image1 s) b \<noteq> place (image1 s) (a + of_nat j)) \<longrightarrow> ugetc s' b = ugetc s b) \<and>
    unat (u_offset (u s')) = unat (u_offset (u s)) + rcount ip s"
  by (rule iread_user [OF assms])

text \<open>
  A file of two blocks, 7 and 8, and 600 bytes, on the device of the sample kernel; the process wants 100 bytes from offset 480 at its address 0x1000.
\<close>

definition two_blocks :: inode where
  "two_blocks = inode0\<lparr>i_dev := 0x0208, i_inum := 1, i_size := 600, i_d := dsk0\<lparr>d_mode := IALLOC, d_addr := (\<lambda>_. 0)(0 := 7, 1 := 8)\<rparr>\<rparr>"

definition file_kernel :: kst where
  "file_kernel = sample_kernel\<lparr>ilist := (\<lambda>_. inode0)(0 := two_blocks), image1 := (\<lambda>i. \<lparr>m_seg = of_nat i, m_per = FULL\<rparr>),
     u := user0\<lparr>u_base := Uaddr 0x1000, u_count := 100, u_offset := 480\<rparr>\<rparr>"

lemma two_blocks_sel [simp]:
  "i_dev two_blocks = 0x0208" "i_size two_blocks = 600" "\<not> tst (i_mode two_blocks) IIO" "\<not> tst (i_mode two_blocks) ILARG"
  "d_addr (i_d two_blocks) = (\<lambda>_. 0)(0 := 7, 1 := 8)"
  by (simp_all add: two_blocks_def i_mode_def tst_def)

lemma two_blocks_whole: "whole V two_blocks 2"
proof -
  have l: "l = 0 \<or> l = 1" if "unat l < 2" for l :: u16
    using that word_unat_eq_iff [of l 0] word_unat_eq_iff [of l 1] by (auto simp: less_2_cases_iff)
  have f: "fblk V two_blocks 0 = 7" "fblk V two_blocks 1 = 8" by (simp_all add: fblk_def)
  have "mapped V two_blocks l" if "unat l < 2" for l using l [OF that] f by (auto simp: mapped_def)
  moreover have "l = m" if "unat l < 2" "unat m < 2" "fblk V two_blocks l = fblk V two_blocks m" for l m
    using l [OF that(1)] l [OF that(2)] that(3) f by auto
  ultimately show ?thesis by (simp add: whole_def)
qed

lemma file_kernel_sel [simp]:
  "ilist file_kernel 0 = two_blocks" "u_error (u file_kernel) = 0" "u_segflg (u file_kernel) = USEG" "u_base (u file_kernel) = Uaddr 0x1000"
  "u_count (u file_kernel) = 100" "u_offset (u file_kernel) = 480" "rcount 0 file_kernel = 100"
  by (simp_all add: file_kernel_def user0_def rcount_def)

lemma file_kernel_ready: "fsready 0x0208 file_kernel"
proof -
  have "cok {} file_kernel" using sample_cok by (simp add: file_kernel_def cok_def swapok_def drv_ok_def cinv_def)
  moreover have "held file_kernel = {}" "avail file_kernel = {0..<3}"
    using sample_held(1,2) unfolding held_def avail_def by (simp_all add: file_kernel_def)
  ultimately show ?thesis by (simp add: fsready_def unheld_def)
qed

lemma file_kernel_separate: "separate file_kernel 0x1000 100"
proof -
  have "snd (place (image1 file_kernel) (0x1000 + of_nat j)) = j" if j: "j < 100" for j
  proof -
    have "unat (of_nat j :: u16) = j" using j by (simp add: unat_of_nat)
    then have "unat (0x1000 + of_nat j :: u16) = 4096 + j" using j by (simp add: unat_word_ariths)
    then show ?thesis using j by (simp add: place_def)
  qed
  then show ?thesis unfolding separate_def inj_on_def by (metis lessThan_iff)
qed

lemma file_kernel_readable: "readable 0 file_kernel"
  using file_kernel_ready whole_blocks [OF two_blocks_whole, of 480 100] by (simp add: readable_def base_ok_def)

lemma file_kernel_writable: "writable 0 2 file_kernel"
  using file_kernel_ready two_blocks_whole by (simp add: writable_def base_ok_def)

theorem iread_reads_file_witness:
  "\<exists>s'. iread 0 file_kernel = Ret (of_nat (rcount 0 file_kernel)) s' \<and> view s' = view file_kernel \<and>
    (\<forall>j<rcount 0 file_kernel. ugetc s' (0x1000 + of_nat j) =
      fbyte (view file_kernel (i_dev (ilist file_kernel 0))) (ilist file_kernel 0) (unat (u_offset (u file_kernel)) + j)) \<and>
    (\<forall>b. (\<forall>j<rcount 0 file_kernel. place (image1 file_kernel) b \<noteq> place (image1 file_kernel) (0x1000 + of_nat j)) \<longrightarrow>
      ugetc s' b = ugetc file_kernel b) \<and>
    unat (u_offset (u s')) = unat (u_offset (u file_kernel)) + rcount 0 file_kernel"
  by (rule iread_reads_file [OF file_kernel_readable]) (simp_all add: file_kernel_separate)

text \<open>
  C1. Writing a file and reading it back: \<^verbatim>\<open>iwrite\<close> into a file whose blocks exist writes all bytes it is asked to; \<^verbatim>\<open>iread\<close> of the same
  range into any other place of the process then returns exactly these bytes; all other bytes of the file read as before, and no block
  that is not of the file changes on any device. The range may begin and end within blocks and extend the size of the file.
\<close>

theorem file_write_read:
  fixes s :: kst
  assumes w: "writable ip N s" and c: "u_count (u s) \<noteq> 0" "unat (u_count (u s)) < 32768" and z: "unat (i_size (ilist s ip)) \<le> 16777216"
    and sep: "separate s a (unat (u_count (u s)))"
  defines "dev \<equiv> i_dev (ilist s ip)" and "off \<equiv> u_offset (u s)" and "n \<equiv> u_count (u s)"
  shows "\<exists>s' s''. iwrite ip s = Ret n s' \<and>
    iread ip (upd_u (\<lambda>x. x\<lparr>u_segflg := USEG, u_base := Uaddr a, u_count := n, u_offset := off\<rparr>) s') = Ret n s'' \<and>
    (\<forall>j<unat n. ugetc s'' (a + of_nat j) = src s j) \<and>
    (\<forall>q<512 * N. \<not> (unat off \<le> q \<and> q < unat off + unat n) \<longrightarrow>
      fbyte (view s'' dev) (ilist s' ip) q = fbyte (view s dev) (ilist s ip) q) \<and>
    (\<forall>k. (\<forall>l. unat l < N \<longrightarrow> k \<noteq> fblk (view s dev) (ilist s ip) l) \<longrightarrow> view s'' dev k = view s dev k) \<and>
    (\<forall>d. d \<noteq> dev \<longrightarrow> view s'' d = view s d)"
proof -
  let ?x = "ilist s ip" and ?V = "view s dev"
  from iwrite_spec [OF w] c obtain t where t: "iwrite ip s = Ret n (itouch_write ip t)" "u t = wru n (u s)" "\<forall>d. d \<noteq> dev \<longrightarrow> view t d = view s d"
    and rp: "replaced ?x N (unat off) (unat n) (src s) ?V (view t dev)" and rd: "fsready dev t" and io: "ioframe s t"
    by (auto simp: dev_def n_def off_def)
  have b: "unat off + unat n \<le> 512 * N" "N \<le> 32768" "\<not> tst (i_mode ?x) IIO" "u_error (u s) = 0"
    using w by (simp_all add: writable_def whole_def off_def n_def)
  have ot: "unat (u_offset (u t)) = unat off + unat n"
    using b by (simp add: t(2) wru_def off_def [symmetric] unat_word_ariths unsigned_ucast_eq take_bit_eq_mod)
  define s1 where "s1 = upd_u (\<lambda>x. x\<lparr>u_segflg := USEG, u_base := Uaddr a, u_count := n, u_offset := off\<rparr>) (itouch_write ip t)"
  have le: "unat (u_offset (u t)) \<le> 16777216" using ot b by linarith
  note tc = touched [OF _ s1_def le, of ?x] and im = ioframe_same(1,2) [OF io]
  note tc = tc [OF im(1) [THEN fun_cong]]
  note fi = file_inode [OF tc(8,9)]
  have u1: "u_count (u s1) = n" "u_offset (u s1) = off" "u_segflg (u s1) = USEG" "u_base (u s1) = Uaddr a" "u_error (u s1) = 0"
    using b(4) by (simp_all add: tc(4) t(2) wru_def)
  have rc: "rcount ip s1 = unat n" using tc(10) ot by (simp add: rcount_def u1)
  have hb: "has_blocks (view s1 dev) (ilist s1 ip) (unat off) (unat n)"
    using rp b(1) by (intro whole_blocks [of _ _ N]) (simp_all add: fi tc(1) replaced_def)
  have "readable ip s1"
    using rd b z c(2) ot hb tc(10) unfolding readable_def rc u1 tc(7) dev_def [symmetric]
    by (simp add: tc(2,8) n_def [symmetric] u1 base_ok_def)
  moreover have "separate s1 a (rcount ip s1)" using sep im tc(3) by (simp add: separate_def rc n_def)
  ultimately obtain s2 where r: "iread ip s1 = Ret n s2" "view s2 = view s1"
    "\<forall>j<unat n. ugetc s2 (a + of_nat j) = fbyte (view s1 dev) (ilist s1 ip) (unat off + j)"
    using iread_user [of ip s1 a] u1 by (auto simp: rc tc(7) dev_def)
  have "\<forall>j<unat n. ugetc s2 (a + of_nat j) = src s j" using r(3) rp b(1) by (simp add: tc(1) fi replaced_def)
  moreover have "ilist s1 = ilist (itouch_write ip t)" by (simp add: s1_def upd_u_def)
  ultimately show ?thesis
    using r t rp fi(2) by (intro exI [of _ "itouch_write ip t"] exI [of _ s2]) (auto simp: s1_def [symmetric] tc(1) replaced_def)
qed


theorem file_write_read_witness:
  "\<exists>s' s''. iwrite 0 file_kernel = Ret (u_count (u file_kernel)) s' \<and>
    iread 0 (upd_u (\<lambda>x. x\<lparr>u_segflg := USEG, u_base := Uaddr 0x1000, u_count := u_count (u file_kernel), u_offset := u_offset (u file_kernel)\<rparr>) s') =
      Ret (u_count (u file_kernel)) s'' \<and>
    (\<forall>j<unat (u_count (u file_kernel)). ugetc s'' (0x1000 + of_nat j) = src file_kernel j)"
proof -
  have "separate file_kernel 0x1000 (unat (u_count (u file_kernel)))" using file_kernel_separate by simp
  from file_write_read [OF file_kernel_writable _ _ _ this] show ?thesis by auto
qed

end
