(* ===== verification/Boot.thy ===== *)
theory Boot
  imports Inodes Space Process Queue
begin

text \<open>
  Start-up (\<^verbatim>\<open>sys/main.c\<close>, \<^verbatim>\<open>cinit\<close> of \<^verbatim>\<open>sys/cus.c\<close>). The text of \<^verbatim>\<open>build.h\<close>, the room between \<^verbatim>\<open>blist\<close> and \<^verbatim>\<open>usrtop\<close> and what the
  test of a memory segment finds are arguments; \<^verbatim>\<open>enable\<close>, \<^verbatim>\<open>coninit\<close> and the other initialisations of the hardware have no effect on the tables. After \<^verbatim>\<open>main\<close> the first
  process goes on with \<^verbatim>\<open>swap\<close> and the second one, made by \<^verbatim>\<open>fork\<close>, becomes \<^verbatim>\<open>init\<close>.
\<close>

section \<open>The steps of main\<close>

abbreviation (input) SYS :: u8 where "SYS \<equiv> 64"

definition plogo :: "string \<Rightarrow> kst \<Rightarrow> kst" where
  "plogo date s = pr ''Copyright 1983 Gary Fitts\<newline>\<newline>'' [] (pr date [] (pr ''\<newline>Micronix 1.61\<newline>'' [] s))"

definition swap_args :: bytes where
  "swap_args = (\<lambda>_. 0)(0 := 115, 1 := 119, 2 := 97, 3 := 112, 4 := 0)"

definition pinit :: "kst \<Rightarrow> kst" where
  "pinit s =
     upd_proc 0 (\<lambda>q. q\<lparr>p_mode := ALLOC OR ALIVE OR AWAKE OR LOADED OR LOCKED OR SYS, p_pri := PRISWAP, p_nice := 128, p_pid := 0,
       p_slist := (p_slist q)(unat SIGTINT := 1, unat SIGBACK := 1),
       p_args := (\<lambda>i. if i < 5 then swap_args i else p_args q i),
       p_mem := (\<lambda>i. if i = 16 then \<lparr>m_seg = of_nat USERSEG, m_per = FULL\<rparr> else if i < 17 then \<lparr>m_seg = of_nat i, m_per = FULL\<rparr> else p_mem q i),
       p_nsegs := 17\<rparr>) (s\<lparr>u := (u s)\<lparr>u_p := 0\<rparr>\<rparr>)"

text \<open>A buffer has a header of 19 bytes and 512 bytes of data; \<^verbatim>\<open>nbuf\<close> is one byte.\<close>

definition binit :: "u16 \<Rightarrow> kst \<Rightarrow> kst" where
  "binit space s = (let n = unat (ucast (space div (512 + 19)) :: u8) in fold bzero [0..<n] (s\<lparr>nbuf := n\<rparr>))"

fun meminit_from :: "(nat \<Rightarrow> bool) \<Rightarrow> nat list \<Rightarrow> kst \<Rightarrow> kst" where
  "meminit_from probe [] s = s"
| "meminit_from probe (n # ns) s =
     meminit_from probe ns (if probe n then s else s\<lparr>segmap := (segmap s)(n := 1), nsegs := nsegs s - 1\<rparr>)"

definition meminit :: "(nat \<Rightarrow> bool) \<Rightarrow> kst \<Rightarrow> kst" where
  "meminit probe s = meminit_from probe [16..<MAXSEG] (s\<lparr>nsegs := of_nat (MAXSEG - 16)\<rparr>)"

text \<open>The index \<open>i\<close> is a signed character: after 127 it is negative, and as an unsigned number not below \<^verbatim>\<open>nsegs\<close>.\<close>

definition pcon_bad :: "kst \<Rightarrow> kst" where
  "pcon_bad s =
     pr ''(These segments will not be used by the system)\<newline>\<newline>'' []
       (fold (\<lambda>i s. if segmap s i \<noteq> 0 then pr ''%h '' [PInt (of_nat i)] s else s) [16..<min 128 (unat (nsegs s))]
         (pr ''\<newline>Bad memory in the following 4K segments (in hex):\<newline>'' [] s))"

definition pcon_text :: "u16 \<Rightarrow> kst \<Rightarrow> kst" where
  "pcon_text kmem s =
     (let s1 = pr ''%dK memory\<newline>'' [PInt kmem] s;
          s2 = pr ''%d cache blocks\<newline>'' [PInt (of_nat (nbuf s1))] s1;
          s3 = pr ''%d processes\<newline>'' [PInt (of_nat NPROC)] s2;
          s4 = pr ''disks: '' [] s3;
          s5 = fold (\<lambda>i. pr ''%s '' [PStr (devname i)]) [2..<4] s4;
          s6 = pr ''\<newline>root dev: %s/%d\<newline>'' [PStr (devname (major (rootdev s5))), PInt (minor (rootdev s5))] s5;
          s7 = pr ''swap dev: %s/%d\<newline>'' [PStr (devname (major (swapdev s6))), PInt (minor (swapdev s6))] s6
      in if kmem mod 64 \<noteq> 0 then pcon_bad s7 else s7)"

definition pcon :: "kst \<Rightarrow> unit K" where
  "pcon s =
     (let kmem = push_bit 2 (nsegs s) + 64; t = pcon_text kmem s
      in if kmem < 128 \<or> (kmem < 256 \<and> swapdev t = 0) then Panic ''Not enough memory to run'' t else Ret () t)"

definition root_open :: "kst \<Rightarrow> u16 K" where
  "root_open s =
     (let s1 = bopen (rootdev s) 1 s in
      if u_error (u s1) \<noteq> 0 then
        let s2 = bopen (rootdev s1) 0 (set_error 0 s1) in
        if u_error (u s2) \<noteq> 0 then Panic ''Can't read root device'' s2
        else Ret 1 (pr ''\<newline>Root device is read-only\<newline>\<newline>'' [] s2)
      else Ret 0 s1)"

definition root_get :: "kst \<Rightarrow> unit K" where
  "root_get s = bnd (iget 1 (rootdev s) s) (\<lambda>ip s. case ip of
     None \<Rightarrow> Panic ''Can't get root dir'' (s\<lparr>rootdir := 0\<rparr>)
   | Some ip \<Rightarrow>
       let s1 = upd_inode ip (\<lambda>x. x\<lparr>i_count := 2\<rparr>) (s\<lparr>rootdir := ip, u := (u s)\<lparr>u_cdir := ip\<rparr>\<rparr>) in
       bnd (irelse ip s1) (\<lambda>_ s. Ret () (upd_proc (u_p (u s)) (\<lambda>q. q\<lparr>p_tty := None\<rparr>) s)))"

definition boot :: "string \<Rightarrow> u16 \<Rightarrow> (nat \<Rightarrow> bool) \<Rightarrow> kst \<Rightarrow> unit K" where
  "boot date space probe s =
     bnd (pcon (meminit probe (binit space (pinit (plogo date s))))) (\<lambda>_ s.
     bnd (root_open s) (\<lambda>ronly s.
     bnd (tmount (rootdev s) None ronly s) (\<lambda>_ s.
     root_get s)))"

definition kmain :: "string \<Rightarrow> u16 \<Rightarrow> (nat \<Rightarrow> bool) \<Rightarrow> swapio \<Rightarrow> kst \<Rightarrow> u16 K" where
  "kmain date space probe sio s = bnd (boot date space probe s) (\<lambda>_ s. fork sio s)"

text \<open>The blocks of the character queues: \<open>a\<close> is the address of \<^verbatim>\<open>clist\<close>, whose size is 900 bytes.\<close>

fun cinit_from :: "nat list \<Rightarrow> cst \<Rightarrow> cst" where
  "cinit_from [] c = c"
| "cinit_from (p # ps) c = cinit_from ps (c\<lparr>cnext := (cnext c)(p := cfree c), cfree := p\<rparr>)"

definition cinit_blocks :: "nat \<Rightarrow> nat list" where
  "cinit_blocks a = (let p = (if a div 16 * 16 < a then a div 16 * 16 + 16 else a div 16 * 16) in
     map (\<lambda>i. p + 16 * i) [0..<(if p \<le> a + 900 - 16 then (a + 900 - 16 - p) div 16 + 1 else 0)])"

definition cinit :: "nat \<Rightarrow> cst \<Rightarrow> cst" where
  "cinit a c = cinit_from (cinit_blocks a) c"

section \<open>The tables\<close>

definition zeroed :: "buf \<Rightarrow> buf" where
  "zeroed x = x\<lparr>b_flags := 0, b_dev := 0, b_blk := 0, b_count := 0, b_error := 0, b_time := 0\<rparr>"

lemma zeroed_twice [simp]: "zeroed (zeroed x) = zeroed x"
  by (simp add: zeroed_def)

lemma fold_bzero: "fold bzero bs s = s\<lparr>blist := (\<lambda>j. if j \<in> set bs then zeroed (blist s j) else blist s j)\<rparr>"
  by (induction bs arbitrary: s) (auto simp: bzero_def upd_buf_def zeroed_def fun_eq_iff intro!: arg_cong2 [where f = "\<lambda>b s. s\<lparr>blist := b\<rparr>"])

lemma meminit_from_spec:
  "meminit_from probe ns s = s\<lparr>segmap := (\<lambda>n. if n \<in> set ns \<and> \<not> probe n then 1 else segmap s n),
     nsegs := nsegs s - of_nat (length (filter (\<lambda>n. \<not> probe n) ns))\<rparr>"
  by (induction ns arbitrary: s) (auto simp: fun_eq_iff intro!: arg_cong2 [where f = "\<lambda>m k. s\<lparr>segmap := m, nsegs := k\<rparr>" for s])

text \<open>Only the console text changes.\<close>

definition conly :: "kst \<Rightarrow> kst \<Rightarrow> bool" where
  "conly s s' \<longleftrightarrow> s' = s\<lparr>cons := cons s'\<rparr>"

lemma conly_pr: "conly s s' \<Longrightarrow> conly s (pr f a s')"
  unfolding conly_def by (subst pr_cons, erule ssubst) simp

lemma conly_refl: "conly s s"
  by (simp add: conly_def)

lemma conly_fold: "(\<And>i t. i \<in> set is \<Longrightarrow> conly s t \<Longrightarrow> conly s (f i t)) \<Longrightarrow> conly s t \<Longrightarrow> conly s (fold f is t)"
  by (induction "is" arbitrary: t) simp_all

lemma conly_bad: "conly s t \<Longrightarrow> conly s (pcon_bad t)"
  unfolding pcon_bad_def by (auto intro!: conly_pr conly_fold)

lemma conly_text: "conly s (pcon_text kmem s)"
  unfolding pcon_text_def Let_def by (auto intro!: conly_bad conly_pr conly_fold conly_refl)

lemma pcon_ret:
  assumes k: "nsegs s = of_nat k" "k \<le> 240" and en: "48 \<le> k \<or> 16 \<le> k \<and> swapdev s \<noteq> 0"
  obtains c where "pcon s = Ret () (s\<lparr>cons := c\<rparr>)"
proof -
  define kmem where "kmem = push_bit 2 (nsegs s) + 64"
  have "unat (push_bit 2 (nsegs s)) = 4 * k" using k by (simp add: push_bit_eq_mult unat_word_ariths unat_of_nat)
  then have u: "unat kmem = 4 * k + 64" using k(2) by (simp add: kmem_def unat_word_ariths)
  have enough: "\<not> (kmem < 128 \<or> (kmem < 256 \<and> swapdev s = 0))" using en u by (auto simp: word_less_nat_alt)
  have "\<exists>z. pcon_text kmem s = s\<lparr>cons := z\<rparr>" using conly_text [of s kmem] unfolding conly_def by (rule exI)
  then obtain z where c: "pcon_text kmem s = s\<lparr>cons := z\<rparr>" ..
  have "pcon s = Ret () (s\<lparr>cons := z\<rparr>)" using enough unfolding pcon_def Let_def kmem_def [symmetric] c by simp
  then show thesis by (rule that)
qed

text \<open>The state before the devices are used.\<close>

definition present :: "(nat \<Rightarrow> bool) \<Rightarrow> nat set" where
  "present probe = {n. 16 \<le> n \<and> n < MAXSEG \<and> probe n}"

lemma filter_count: "length (filter (\<lambda>n. \<not> P n) [a..<b]) + card {n. a \<le> n \<and> n < b \<and> P n} = b - a"
proof -
  have "{n. a \<le> n \<and> n < b \<and> P n} = set (filter P [a..<b])" by auto
  then have "card {n. a \<le> n \<and> n < b \<and> P n} = length (filter P [a..<b])" by (simp only: distinct_card distinct_filter distinct_upt)
  then show ?thesis using sum_length_filter_compl [of P "[a..<b]"] by simp
qed

lemma present_count: "length (filter (\<lambda>n. \<not> probe n) [16..<MAXSEG]) + card (present probe) = 240" "card (present probe) \<le> 240"
  using filter_count [of probe 16 MAXSEG] by (simp_all add: present_def del: upt_rec_numeral)

definition room :: "u16 \<Rightarrow> nat" where
  "room space = unat (ucast (space div (512 + 19)) :: u8)"

definition seg_table :: "(nat \<Rightarrow> bool) \<Rightarrow> kst \<Rightarrow> kst" where
  "seg_table probe s = s\<lparr>segmap := (\<lambda>n. if 16 \<le> n \<and> n < MAXSEG \<and> \<not> probe n then 1 else segmap s n), nsegs := of_nat (card (present probe))\<rparr>"

lemma meminit_spec: "meminit probe s = seg_table probe s"
proof -
  define l where "l = [16..<MAXSEG]"
  have "length (filter (\<lambda>n. \<not> probe n) l) + card (present probe) = 240" using present_count(1) [of probe] unfolding l_def .
  then have "(of_nat 240 :: u16) - of_nat (length (filter (\<lambda>n. \<not> probe n) l)) = of_nat (card (present probe))"
    by (metis add_diff_cancel_left' of_nat_add)
  moreover have "n \<in> set l \<and> \<not> probe n \<longleftrightarrow> 16 \<le> n \<and> n < MAXSEG \<and> \<not> probe n" for n
    unfolding l_def set_upt atLeastLessThan_iff by blast
  ultimately show ?thesis unfolding meminit_def meminit_from_spec seg_table_def l_def [symmetric] by (simp cong: if_cong)
qed

lemma seg_table_is:
  assumes "segmap s = (\<lambda>_. 0)" "lastseg s = 16"
  shows "seg_is (seg_table probe s) (present probe)"
  using assms by (auto simp: seg_is_def seg_table_def present_def)

lemma binit_spec: "binit space s = s\<lparr>nbuf := room space, blist := (\<lambda>j. if j < room space then zeroed (blist s j) else blist s j)\<rparr>"
  unfolding binit_def Let_def fold_bzero room_def by (simp add: fun_eq_iff)

lemma bframe_mem:
  assumes "bframe s s'"
  shows "segmap s' = segmap s" "nsegs s' = nsegs s" "lastseg s' = lastseg s" "swapdev s' = swapdev s"
proof -
  from assms obtain b1 c1 d1 p1 r1 o1 e1 where 1: "s' = s\<lparr>blist := b1, bclock := c1, disk := d1, plist := p1,
      resched := r1, cons := o1, u := (u s)\<lparr>u_error := e1\<rparr>\<rparr>" unfolding bframe_def by blast
  show "segmap s' = segmap s" "nsegs s' = nsegs s" "lastseg s' = lastseg s" "swapdev s' = swapdev s" unfolding 1 by simp_all
qed

section \<open>The root device\<close>

lemma tmount_root:
  assumes c: "cok {} s" "held s = {}" "lckd s = {}" "2 \<le> nbuf s" "vdev dev" and m: "mlist s = (\<lambda>_. mount0)"
    and f: "view s dev 1 S_FLOCK = 0"
  obtains s' where "tmount dev None 0 s = Ret (Some 0) s'" "cok {} s'" "held s' = {}" "avail s' \<noteq> {}" "view s' = view s"
    "mlist s' = (mlist s)(0 := \<lparr>m_dev = dev, m_inode = None, m_ronly = 0, m_fsize = getw (view s dev 1) S_FSIZE, m_isize = getw (view s dev 1) S_ISIZE\<rparr>)"
    "ilist s' = ilist s" "segmap s' = segmap s" "nsegs s' = nsegs s" "lastseg s' = lastseg s" "rootdev s' = rootdev s"
    "u s' = (u s)\<lparr>u_error := 0\<rparr>" "\<And>q. plist s' q = plist s q \<or> plist s' q = awk (plist s q)"
proof -
  have av: "avail s \<noteq> {}" using c(2-4) by (simp add: avail_alt lessThan_empty_iff)
  have z: "mlook 0 s = Some 0" using m by (simp add: mlook_def scan_def mount0_def upt_conv_Cons)
  obtain b s1 where 1: "bread 1 dev s = Ret (Some b) s1" "holding {} {b} s s1" "view s1 = view s" "holds (blist s1 b) dev 1"
    "u s1 = (u s)\<lparr>u_error := 0\<rparr>" "bdat b s1 = view s dev 1" "bdone (blist s1 b)"
    by (rule hold_bread [OF holding_refl [OF c(1)] c(5)]) (use c av in auto)
  note h = holdingD [OF 1(2)]
  define x where "x = (blist s1 b)\<lparr>b_flags := b_flags (blist s1 b) OR BLOCK\<rparr>"
  define s2 where "s2 = tmount_fill dev None 0 0 b s1"
  have same: "(b_data (blist s1 b))(S_FLOCK := 0) = b_data (blist s1 b)" using f 1(6) by (auto simp: bdat_def fun_upd_idem)
  have s2: "blist s2 = (blist s1)(b := x)" "nbuf s2 = nbuf s1" "drv s2 = drv s1" "plist s2 = plist s1" "disk s2 = disk s1"
    "ilist s2 = ilist s1" "segmap s2 = segmap s1" "nsegs s2 = nsegs s1" "lastseg s2 = lastseg s1" "rootdev s2 = rootdev s1" "u s2 = u s1"
    "mlist s2 = (mlist s1)(0 := \<lparr>m_dev = dev, m_inode = None, m_ronly = 0, m_fsize = getw (bdat b s1) S_FSIZE, m_isize = getw (bdat b s1) S_ISIZE\<rparr>)"
    using same by (simp_all add: s2_def tmount_fill_def Let_def upd_buf_def x_def bdat_def)
  have fl: "bdone x = bdone (blist s1 b)" "bdel x = bdel (blist s1 b)" "bbusy x = bbusy (blist s1 b)" "berr x = berr (blist s1 b)" "blocked x"
    "holds x = holds (blist s1 b)" "b_data x = b_data (blist s1 b)" "b_dev x = b_dev (blist s1 b)" "b_blk x = b_blk (blist s1 b)"
    by (simp_all add: x_def bflag_defs holds_def fun_eq_iff)
  have bl: "P (blist s2 i) = P (blist s1 i)" if "P x = P (blist s1 b)" for P :: "buf \<Rightarrow> 'a" and i using that by (simp add: s2(1))
  have "held s2 = held s1" unfolding held_def s2(2) bl [of bbusy, OF fl(3)] ..
  moreover have "view s2 = view s1"
    unfolding view_def [abs_def] s2(2,5) bl [of bdone, OF fl(1)] bl [of holds, OF fl(6)] bl [of b_data, OF fl(7)] ..
  moreover have "cinv {} s2"
    using h(2) unfolding cok_def cinv_def s2(2,5) bl [of bdone, OF fl(1)] bl [of holds, OF fl(6)] bl [of b_data, OF fl(7)] bl [of bdel, OF fl(2)]
      bl [of berr, OF fl(4)] bl [of b_dev, OF fl(8)] bl [of b_blk, OF fl(9)] by blast
  ultimately have k2: "cok {} s2" "held s2 = {b}" "view s2 = view s" "lckd s2 \<subseteq> {b}"
    using h(2,4,6) c(2,3) 1(3) s2 by (auto simp: cok_def swapok_def drv_ok_def lckd_def)
  obtain s3 where 3: "brelse b s2 = Ret () s3" "bframe s2 s3" "cok {} s3" "view s3 = view s2" "u s3 = u s2" "held s3 = {}" "lckd s3 = lckd s2"
    using brelse_spec [OF k2(1)] k2(2) by auto
  have "tmount dev None 0 s = Ret (Some 0) s3" using z 1(1,5) 3(1) by (simp add: tmount_def s2_def)
  moreover have "avail s3 \<noteq> {}"
  proof -
    have "{0, 1} \<subseteq> {..<nbuf s3}" using bframe_same(1) [OF 3(2)] s2(2) h(8) c(4) by auto
    then show ?thesis using 3(6,7) k2(4) unfolding avail_alt by (cases "b = 0") auto
  qed
  moreover have "plist s3 q = plist s q \<or> plist s3 q = awk (plist s q)" for q
    using h(1) 3(2) s2(4) unfolding bframe_def by (metis awk_simps(2))
  ultimately show thesis
    using 3 k2 s2 bframe_same(3,5,6) [OF 3(2)] bframe_mem [OF 3(2)] bframe_same(3,5,6) [OF h(1)] bframe_mem [OF h(1)] 1(5,6)
    by (intro that [of s3]) simp_all
qed

lemma irelse_full:
  assumes "swapok s"
  obtains pl r c il where "irelse ip s = Ret () (s\<lparr>plist := pl, resched := r, iclock := c, ilist := il\<rparr>)" "swapok (s\<lparr>plist := pl, resched := r, iclock := c, ilist := il\<rparr>)"
    "\<And>q. pl q = plist s q \<or> pl q = awk (plist s q)"
    "\<And>j. il j = (ilist s j)\<lparr>i_flags := (if j = ip then i_flags (ilist s j) AND NOT (IBUSY OR IWANT) else i_flags (ilist s j)), i_time := i_time (il j)\<rparr>"
proof -
  obtain pl r where w: "(if tst (i_flags (ilist s ip)) IWANT then wakeup (ChInode ip) s else Ret () s) = Ret () (s\<lparr>plist := pl, resched := r\<rparr>)"
    "\<And>q. pl q = plist s q \<or> pl q = awk (plist s q)" "swapok (s\<lparr>plist := pl, resched := r\<rparr>)"
  proof (cases "tst (i_flags (ilist s ip)) IWANT")
    case True
    obtain pl r where "wakeup (ChInode ip) s = Ret () (s\<lparr>plist := pl, resched := r\<rparr>)"
      "\<And>q. pl q = plist s q \<or> pl q = awk (plist s q)" "swapok (s\<lparr>plist := pl, resched := r\<rparr>)"
      by (rule wakeup_spec [OF assms, of "ChInode ip"]) blast
    with True show thesis by (intro that [of r pl]) auto
  next
    case False
    with assms show thesis by (intro that [of "resched s" "plist s"]) auto
  qed
  define c where "c = iclock s + 1"
  define l1 where "l1 = (ilist s)(ip := (ilist s ip)\<lparr>i_flags := i_flags (ilist s ip) AND NOT (IBUSY OR IWANT)\<rparr>)"
  define l2 where "l2 = (if c = 0 then (\<lambda>i. if i < NINODE then (l1 i)\<lparr>i_time := 0\<rparr> else l1 i) else l1)"
  have "irelse ip s = Ret () (s\<lparr>plist := pl, resched := r, iclock := c, ilist := l2(ip := (l2 ip)\<lparr>i_time := c\<rparr>)\<rparr>)"
    using w(1) by (simp add: irelse_def clr_iflag_def upd_inode_def itime_def Let_def c_def l1_def l2_def cong: if_cong)
  moreover have "swapok (s\<lparr>plist := pl, resched := r, iclock := c, ilist := l2(ip := (l2 ip)\<lparr>i_time := c\<rparr>)\<rparr>)" using w(3) by (simp add: swapok_def)
  ultimately show thesis using w(2) by (rule that) (simp add: l2_def l1_def)
qed

lemma iscan_empty:
  assumes "num \<noteq> 0" "\<And>i. i \<in> set l \<Longrightarrow> il i = inode0" "\<And>g. f = Some g \<Longrightarrow> il g = inode0"
  shows "iscan il num dev l f = Inr (case f of Some g \<Rightarrow> Some g | None \<Rightarrow> if l = [] then None else Some (hd l))"
  using assms
proof (induction l arbitrary: f)
  case (Cons i l)
  have "il i = inode0" using Cons.prems(2) by simp
  then have "iscan il num dev (i # l) f = iscan il num dev l (case f of None \<Rightarrow> Some i | Some g \<Rightarrow> Some g)"
    using Cons.prems(1,3) by (auto simp: inode0_def tst_def split: option.split)
  then show ?case using Cons.IH [of "case f of None \<Rightarrow> Some i | Some g \<Rightarrow> Some g"] Cons.prems by (auto split: option.split)
qed (simp split: option.split)

lemma root_get_spec:
  assumes c: "cok {} s" "held s = {}" "avail s \<noteq> {}" "vdev (rootdev s)" and il: "ilist s = (\<lambda>_. inode0)"
    and m: "m_dev (mlist s 0) = rootdev s" "0 < push_bit 4 (m_isize (mlist s 0))"
    and p: "\<And>q. p_event (plist s q) = NoEvent"
  obtains s' where "root_get s = Ret () s'" "cok {} s'" "held s' = {}" "view s' = view s" "mlist s' = mlist s" "rootdir s' = 0" "u_cdir (u s') = 0"
    "segmap s' = segmap s" "nsegs s' = nsegs s" "lastseg s' = lastseg s" "unlocked s'"
    "i_dev (ilist s' 0) = rootdev s" "i_inum (ilist s' 0) = 1" "i_count (ilist s' 0) = 2"
    "i_d (ilist s' 0) = dsk_get (view s (rootdev s) (iblk 1)) (ioff 1)"
proof -
  let ?d = "dsk_get (view s (rootdev s) (iblk 1)) (ioff 1)"
  have sw: "swapok s" using c(1) by (simp add: cok_def)
  define s1 where "s1 = put_il ((ilist s)(0 := inode0\<lparr>i_flags := IBUSY, i_inum := 1, i_dev := rootdev s, i_count := 0, i_mount := None\<rparr>)) s"
  have ml: "mlook (rootdev s) s1 = Some 0" using m(1) by (simp add: mlook_def scan_def upt_conv_Cons s1_def)
  have one: "1 \<le> push_bit 4 (m_isize (mlist s 0))" using m(2) by (metis inc_le word_not_simps(1) add_0 linorder_not_less less_eq_word_def)
  have "on_disk 0 s1" using c m ml one by (simp add: on_disk_def s1_def)
  from iio_read [OF this] obtain s2 f where 2: "iio True 0 s1 = Ret True s2" "view s2 = view s1" "cok {} s2" "held s2 = {}" "mlist s2 = mlist s1"
    "ilist s2 = (ilist s1)(0 := (ilist s1 0)\<lparr>i_d := ?d, i_size := x3to4 (d_size0 ?d) (d_size1 ?d), i_flags := f\<rparr>)" "bframe (put_il (ilist s2) s1) s2"
    by (auto simp: s1_def)
  have "iload 0 1 (rootdev s) s = Ret (Some 0) s2"
  proof -
    have "ilock 0 s = Ret () (put_il ((ilist s)(0 := inode0\<lparr>i_flags := IBUSY\<rparr>)) s)"
      by (simp add: ilock_def il upd_inode_def put_il_def inode0_def tst_def)
    moreover have "upd_inode 0 (\<lambda>x. x\<lparr>i_inum := 1, i_dev := rootdev s, i_count := 0, i_mount := None\<rparr>) (put_il ((ilist s)(0 := inode0\<lparr>i_flags := IBUSY\<rparr>)) s) = s1"
      by (simp add: upd_inode_def put_il_def s1_def inode0_def)
    moreover have "\<not> tst (i_flags (ilist (put_il ((ilist s)(0 := inode0\<lparr>i_flags := IBUSY\<rparr>)) s) 0)) IMOD" by (simp add: inode0_def tst_def)
    ultimately show ?thesis using 2(1) by (simp add: iload_def Let_def)
  qed
  moreover have "iscan (ilist s) 1 (rootdev s) [0..<NINODE] None = Inr (Some 0)" using iscan_empty [of 1 "[0..<NINODE]" "ilist s" None] il by simp
  ultimately have ig: "iget 1 (rootdev s) s = Ret (Some 0) s2" unfolding iget_def iget_loop.simps(2) by simp
  define s3 where "s3 = upd_inode 0 (\<lambda>x. x\<lparr>i_count := 2\<rparr>) (s2\<lparr>rootdir := 0, u := (u s2)\<lparr>u_cdir := 0\<rparr>\<rparr>)"
  have "swapok s3" using 2(3) by (simp add: s3_def cok_def swapok_def upd_inode_def)
  then obtain pl r k jl where 4: "irelse 0 s3 = Ret () (s3\<lparr>plist := pl, resched := r, iclock := k, ilist := jl\<rparr>)"
    "swapok (s3\<lparr>plist := pl, resched := r, iclock := k, ilist := jl\<rparr>)" "\<And>q. pl q = plist s3 q \<or> pl q = awk (plist s3 q)"
    "\<And>j. jl j = (ilist s3 j)\<lparr>i_flags := (if j = 0 then i_flags (ilist s3 j) AND NOT (IBUSY OR IWANT) else i_flags (ilist s3 j)), i_time := i_time (jl j)\<rparr>"
    by (rule irelse_full [where ip = 0]) blast
  define s5 where "s5 = upd_proc (u_p (u s3)) (\<lambda>q. q\<lparr>p_tty := None\<rparr>) (s3\<lparr>plist := pl, resched := r, iclock := k, ilist := jl\<rparr>)"
  have s5: "ilist s5 = jl" "blist s5 = blist s2" "nbuf s5 = nbuf s2" "disk s5 = disk s2" "drv s5 = drv s2" "mlist s5 = mlist s2" "segmap s5 = segmap s2"
    "nsegs s5 = nsegs s2" "lastseg s5 = lastseg s2" "rootdir s5 = 0" "u_cdir (u s5) = 0"
    by (simp_all add: s5_def s3_def upd_proc_def upd_inode_def)
  have sw5: "swapok s5" using 4(2) by (auto simp: s5_def upd_proc_def swapok_def)
  have ev: "p_event (plist s5 q) = NoEvent" for q
  proof -
    have "plist s2 q = plist s q \<or> plist s2 q = awk (plist s q)" using 2(7) by (auto simp: bframe_def put_il_def s1_def)
    then have "p_event (plist s3 q) = NoEvent" using p [of q] by (auto simp: s3_def upd_inode_def)
    then have "p_event (pl q) = NoEvent" using 4(3) [of q] by auto
    then show ?thesis by (auto simp: s5_def upd_proc_def)
  qed
  have root: "ilist s3 0 = (ilist s2 0)\<lparr>i_count := 2\<rparr>" "\<And>j. j \<noteq> 0 \<Longrightarrow> ilist s3 j = inode0"
    using 2(6) il by (simp_all add: s3_def upd_inode_def s1_def)
  have jl0: "i_dev (jl 0) = rootdev s" "i_inum (jl 0) = 1" "i_count (jl 0) = 2" "i_d (jl 0) = ?d"
    by (subst 4(4), simp add: root(1) 2(6) s1_def)+
  have "\<not> tst (i_flags (jl j)) IBUSY" for j
    by (subst 4(4)) (cases "j = 0", simp_all add: root(2), simp_all add: tst_def inode0_def bit_simps)
  then have "unlocked s5" using sw5 ev s5(1) by (simp add: unlocked_def)
  moreover have "root_get s = Ret () s5" using ig 4(1) by (simp add: root_get_def Let_def s3_def [symmetric] s5_def)
  moreover have "cok {} s5" using 2(3) sw5 s5(2-5) by (simp add: cok_def drv_ok_def cinv_def)
  moreover have "view s5 = view s2" by (rule view_cong) (simp_all add: s5)
  moreover have "held s5 = {}" "view s2 = view s" using 2(2,4) s5(2,3) by (simp_all add: held_def s1_def)
  moreover have "segmap s2 = segmap s" "nsegs s2 = nsegs s" "lastseg s2 = lastseg s" "mlist s2 = mlist s"
    using bframe_mem [OF 2(7)] 2(5) by (simp_all add: s1_def put_il_def)
  ultimately show thesis using s5 jl0 by (intro that [of s5]) simp_all
qed

section \<open>The kernel after start-up\<close>

text \<open>The kernel as it is loaded: its tables are zero, \<^verbatim>\<open>lastseg\<close> is 16.\<close>

definition loaded :: "kst \<Rightarrow> bool" where
  "loaded s \<longleftrightarrow> ilist s = (\<lambda>_. inode0) \<and> mlist s = (\<lambda>_. mount0) \<and> plist s = (\<lambda>_. proc0) \<and> segmap s = (\<lambda>_. 0) \<and> lastseg s = 16 \<and> u_error (u s) = 0"

text \<open>The root device: its drive works and can be opened, its super block is not marked read-only and has room for inodes.\<close>

definition root_ok :: "kst \<Rightarrow> bool" where
  "root_ok s \<longleftrightarrow> drv_ok s \<and> vdev (rootdev s) \<and> drv_open s (bmajor (rootdev s)) (rootdev s) 1 = 0 \<and>
     disk s (rootdev s) 1 S_FLOCK = 0 \<and> 0 < push_bit 4 (getw (disk s (rootdev s) 1) S_ISIZE)"

definition start :: "string \<Rightarrow> u16 \<Rightarrow> (nat \<Rightarrow> bool) \<Rightarrow> kst \<Rightarrow> kst" where
  "start date space probe s = meminit probe (binit space (pinit (plogo date s)))"

lemma plogo_cons: "\<exists>z. plogo date s = s\<lparr>cons := z\<rparr>"
proof -
  have "conly s (plogo date s)" unfolding plogo_def by (intro conly_pr conly_refl)
  then show ?thesis unfolding conly_def by (rule exI)
qed

lemma start_tables:
  assumes l: "loaded s" and r: "root_ok s" and t_def: "t = start date space probe s"
  shows "cok {} t" "held t = {}" "lckd t = {}" "nbuf t = room space" "view t = disk s" "seg_is t (present probe)" "nsegs t = of_nat (card (present probe))"
    "ilist t = ilist s" "mlist t = mlist s" "rootdev t = rootdev s" "swapdev t = swapdev s" "drv_open t = drv_open s" "u_error (u t) = 0"
    "\<And>q. p_event (plist t q) = NoEvent"
proof -
  obtain z where z: "plogo date s = s\<lparr>cons := z\<rparr>" using plogo_cons by blast
  have t: "t = seg_table probe (binit space (pinit (s\<lparr>cons := z\<rparr>)))" by (simp add: t_def start_def meminit_spec z)
  have b: "nbuf t = room space" "disk t = disk s" "drv t = drv s" "\<And>j. j < room space \<Longrightarrow> blist t j = zeroed (blist s j)"
    by (simp_all add: t binit_spec seg_table_def pinit_def upd_proc_def)
  then show "nbuf t = room space" by blast
  have fl: "\<not> bdone (blist t j)" "\<not> bdel (blist t j)" "\<not> bbusy (blist t j)" "\<not> blocked (blist t j)" "\<not> berr (blist t j)" "b_dev (blist t j) = 0"
    if "j < room space" for j using b(4) [OF that] by (simp_all add: zeroed_def bflag_defs tst_def)
  have nv: "\<not> vdev 0" by (simp add: vdev_def bmajor_def major_def)
  show "held t = {}" "lckd t = {}" using fl b(1) by (auto simp: held_def lckd_def)
  have "scan (\<lambda>i. vdev d \<and> holds (blist t i) d k \<and> bdone (blist t i)) (nbuf t) = None" for d k
    unfolding scan_def using fl(1) b(1) by (auto simp: find_None_iff)
  then show "view t = disk s" using b(2) by (simp add: view_def fun_eq_iff)
  have "swapok t" by (simp add: t seg_table_def binit_spec pinit_def upd_proc_def swapok_def tst_def)
  moreover have "cinv {} t" using fl b(1) nv by (auto simp: cinv_def holds_def)
  ultimately show "cok {} t" using r b(3) by (simp add: cok_def drv_ok_def root_ok_def)
  show "seg_is t (present probe)" unfolding t by (rule seg_table_is) (use l in \<open>simp_all add: binit_spec pinit_def upd_proc_def loaded_def\<close>)
  show "nsegs t = of_nat (card (present probe))" "ilist t = ilist s" "mlist t = mlist s" "rootdev t = rootdev s" "swapdev t = swapdev s"
    "drv_open t = drv_open s" "u_error (u t) = 0" "\<And>q. p_event (plist t q) = NoEvent"
    using l by (simp_all add: t seg_table_def binit_spec pinit_def upd_proc_def loaded_def proc0_def)
qed

text \<open>
  C21. \<^verbatim>\<open>main\<close> brings the kernel into a good state. Let the kernel be as loaded, with room for two buffers at least, enough memory and a root device that works. Then everything before the
  first \<^verbatim>\<open>fork\<close> returns, and afterwards the invariants of the components hold: the cache is consistent, no buffer is held, the abstract disk is what the drives hold;
  the free segments are exactly those where memory was found; no inode is locked and nobody waits for one; the root device is mounted, and the root directory, with the contents of the disk
  inode 1 and two references, is the current directory.
\<close>

theorem boot_ready:
  assumes l: "loaded s" and r: "root_ok s" and b: "2 \<le> room space"
    and mem: "48 \<le> card (present probe) \<or> 16 \<le> card (present probe) \<and> swapdev s \<noteq> 0"
  shows "\<exists>s'. boot date space probe s = Ret () s' \<and> cok {} s' \<and> held s' = {} \<and> view s' = disk s \<and> seg_is s' (present probe) \<and>
    unlocked s' \<and> mlook (rootdev s) s' = Some 0 \<and> u_cdir (u s') = rootdir s' \<and>
    i_dev (ilist s' (rootdir s')) = rootdev s \<and> i_inum (ilist s' (rootdir s')) = 1 \<and> i_count (ilist s' (rootdir s')) = 2 \<and>
    i_d (ilist s' (rootdir s')) = dsk_get (disk s (rootdev s) (iblk 1)) (ioff 1)"
proof -
  let ?d = "rootdev s"
  define t where "t = start date space probe s"
  note t = start_tables [OF l r t_def]
  obtain z where z: "pcon t = Ret () (t\<lparr>cons := z\<rparr>)" by (rule pcon_ret [OF t(7)]) (use mem t(11) present_count(2) [of probe] in auto)
  define t1 where "t1 = t\<lparr>cons := z\<rparr>"
  have "view t1 = view t" by (rule view_cong) (simp_all add: t1_def)
  then have t1: "cok {} t1" "held t1 = {}" "lckd t1 = {}" "2 \<le> nbuf t1" "mlist t1 = (\<lambda>_. mount0)" "view t1 = disk s" "seg_is t1 (present probe)"
    using t l b by (simp_all add: t1_def cok_def swapok_def drv_ok_def cinv_def held_def lckd_def seg_is_def loaded_def)
  have vd: "vdev ?d" "view t1 ?d 1 S_FLOCK = 0" using r t1(6) by (simp_all add: root_ok_def)
  then have maj: "\<not> bmajor ?d \<le> 1" by (auto simp: vdev_def)
  have op: "root_open t1 = Ret 0 t1" using maj r t(10,12,13) by (simp add: root_open_def bopen_def Let_def root_ok_def t1_def)
  obtain t2 where 2: "tmount ?d None 0 t1 = Ret (Some 0) t2" "cok {} t2" "held t2 = {}" "avail t2 \<noteq> {}" "view t2 = view t1"
    "mlist t2 = (mlist t1)(0 := \<lparr>m_dev = ?d, m_inode = None, m_ronly = 0, m_fsize = getw (view t1 ?d 1) S_FSIZE, m_isize = getw (view t1 ?d 1) S_ISIZE\<rparr>)"
    "ilist t2 = ilist t1" "segmap t2 = segmap t1" "nsegs t2 = nsegs t1" "lastseg t2 = lastseg t1" "rootdev t2 = rootdev t1"
    "\<And>q. plist t2 q = plist t1 q \<or> plist t2 q = awk (plist t1 q)" by (rule tmount_root [OF t1(1-4) vd(1) t1(5) vd(2)]) blast
  have rd: "rootdev t2 = ?d" using 2(11) t(10) by (simp add: t1_def)
  have ev: "p_event (plist t2 q) = NoEvent" for q using 2(12) [of q] t(14) [of q] by (auto simp: t1_def)
  have m2: "m_dev (mlist t2 0) = rootdev t2" "0 < push_bit 4 (m_isize (mlist t2 0))" using 2(6) rd r t1(6) by (simp_all add: root_ok_def)
  have il: "ilist t2 = (\<lambda>_. inode0)" using 2(7) t(8) l by (simp add: t1_def loaded_def)
  obtain s' where 3: "root_get t2 = Ret () s'" "cok {} s'" "held s' = {}" "view s' = view t2" "mlist s' = mlist t2" "rootdir s' = 0" "u_cdir (u s') = 0"
    "segmap s' = segmap t2" "nsegs s' = nsegs t2" "lastseg s' = lastseg t2" "unlocked s'" "i_dev (ilist s' 0) = rootdev t2" "i_inum (ilist s' 0) = 1"
    "i_count (ilist s' 0) = 2" "i_d (ilist s' 0) = dsk_get (view t2 (rootdev t2) (iblk 1)) (ioff 1)"
    by (rule root_get_spec [OF 2(2-4) _ il m2 ev]) (use vd(1) rd in simp)
  have "boot date space probe s = Ret () s'" using z op 2(1) 3(1) t(10) by (simp add: boot_def start_def [symmetric] t_def [symmetric] t1_def)
  moreover have "seg_is s' (present probe)" using t1(7) 2(8-10) 3(8-10) by (simp add: seg_is_def)
  moreover have "mlook ?d s' = Some 0" using m2(1) 3(5) rd by (simp add: mlook_def scan_def upt_conv_Cons)
  ultimately show ?thesis using 3 2(5) t1(6) rd by (intro exI [of _ s']) simp
qed

definition boot_kernel :: kst where
  "boot_kernel = kst0\<lparr>rootdev := 0x0208, lastseg := 16, disk := (\<lambda>_ _ _. 0)(0x0208 := (\<lambda>_ _. 0)(1 := (\<lambda>_. 0)(S_ISIZE := 2)))\<rparr>"

theorem boot_ready_witness:
  "\<exists>s'. boot ''1/2/1984'' 2000 (\<lambda>n. n < 64) boot_kernel = Ret () s' \<and> cok {} s' \<and> held s' = {} \<and> view s' = disk boot_kernel \<and>
    seg_is s' (present (\<lambda>n. n < 64)) \<and> unlocked s' \<and> mlook (rootdev boot_kernel) s' = Some 0 \<and> u_cdir (u s') = rootdir s' \<and>
    i_dev (ilist s' (rootdir s')) = rootdev boot_kernel \<and> i_inum (ilist s' (rootdir s')) = 1 \<and> i_count (ilist s' (rootdir s')) = 2 \<and>
    i_d (ilist s' (rootdir s')) = dsk_get (disk boot_kernel (rootdev boot_kernel) (iblk 1)) (ioff 1)"
proof (rule boot_ready)
  show "loaded boot_kernel" by (simp add: loaded_def boot_kernel_def kst0_def user0_def)
  have "vdev 0x0208" by (simp add: vdev_def bmajor_def major_def drop_bit_eq_div)
  then show "root_ok boot_kernel" by (simp add: root_ok_def boot_kernel_def kst0_def drv_ok_def ramdrv_def getw_def push_bit_eq_mult)
  show "2 \<le> room 2000" by (simp add: room_def)
  have "present (\<lambda>n. n < 64) = {16..<64}" by (auto simp: present_def)
  then show "48 \<le> card (present (\<lambda>n. n < 64)) \<or> 16 \<le> card (present (\<lambda>n. n < 64)) \<and> swapdev boot_kernel \<noteq> 0" by simp
qed

section \<open>The blocks of the character queues\<close>

lemma cinit_from_path:
  assumes "cpath (cnext c) (cfree c) fs" "distinct (ps @ fs)" "\<And>p. p \<in> set ps \<Longrightarrow> p \<noteq> 0 \<and> p mod 16 = 0"
  shows "cpath (cnext (cinit_from ps c)) (cfree (cinit_from ps c)) (rev ps @ fs)"
  using assms
proof (induction ps arbitrary: c fs)
  case (Cons p ps)
  have "cpath (cnext (cinit_from ps (c\<lparr>cnext := (cnext c)(p := cfree c), cfree := p\<rparr>)))
      (cfree (cinit_from ps (c\<lparr>cnext := (cnext c)(p := cfree c), cfree := p\<rparr>))) (rev ps @ p # fs)"
  proof (rule Cons.IH)
    have "cpath ((cnext c)(p := cfree c)) (cfree c) fs" using Cons.prems(1,2) by (subst cpath_upd) simp_all
    then show "cpath (cnext (c\<lparr>cnext := (cnext c)(p := cfree c), cfree := p\<rparr>)) (cfree (c\<lparr>cnext := (cnext c)(p := cfree c), cfree := p\<rparr>)) (p # fs)"
      using Cons.prems(3) [of p] by simp
  qed (use Cons.prems in auto)
  then show ?case by simp
qed simp

lemma cinit_blocks_in:
  assumes "p \<in> set (cinit_blocks a)"
  shows "p mod 16 = 0" "a \<le> p" "p + 16 \<le> a + 900"
proof -
  define q where "q = (if a div 16 * 16 < a then a div 16 * 16 + 16 else a div 16 * 16)"
  have q: "q mod 16 = 0" "a \<le> q" by (auto simp: q_def)
  from assms obtain i where i: "p = q + 16 * i" "i < (if q \<le> a + 900 - 16 then (a + 900 - 16 - q) div 16 + 1 else 0)"
    unfolding cinit_blocks_def q_def [symmetric] Let_def by auto
  then have "q \<le> a + 884" "16 * i \<le> a + 884 - q" by (auto split: if_splits)
  then show "p mod 16 = 0" "a \<le> p" "p + 16 \<le> a + 900" using q i(1) by (simp_all add: mod_add_eq [symmetric])
qed

text \<open>
  \<^verbatim>\<open>cinit\<close> makes the pool of the character queues: wherever the 900 bytes of \<^verbatim>\<open>clist\<close> lie, the free list then holds 55 blocks or more, all different,
  aligned to 16 and inside \<^verbatim>\<open>clist\<close>, and an empty queue stands on it as the queue routines require.
\<close>

theorem cinit_pool:
  assumes "0 < a" "cfree c = 0"
  shows "qheap (cinit a c) qinit [] (rev (cinit_blocks a)) \<and> 55 \<le> length (cinit_blocks a) \<and> distinct (cinit_blocks a) \<and>
    set (cinit_blocks a) \<subseteq> {p. p mod 16 = 0 \<and> {p..<p + 16} \<subseteq> {a..<a + 900}}"
proof -
  have d: "distinct (cinit_blocks a)" unfolding cinit_blocks_def Let_def by (simp add: distinct_map inj_on_def)
  have "cpath (cnext (cinit a c)) (cfree (cinit a c)) (rev (cinit_blocks a) @ [])" unfolding cinit_def
    by (rule cinit_from_path) (use assms d cinit_blocks_in [of _ a] in force)+
  moreover have "a div 16 * 16 + 16 \<le> a + 16" "a < a div 16 * 16 + 16" by simp_all
  then have "55 \<le> length (cinit_blocks a)" by (auto simp: cinit_blocks_def Let_def)
  moreover have "p mod 16 = 0 \<and> {p..<p + 16} \<subseteq> {a..<a + 900}" if "p \<in> set (cinit_blocks a)" for p
    using cinit_blocks_in [OF that] by auto
  ultimately show ?thesis using d by (auto simp: qheap_def qrep_def qinit_def)
qed

theorem cinit_pool_witness:
  "qheap (cinit 5001 \<lparr>cnext = (\<lambda>_. 0), cdat = (\<lambda>_. 0), cfree = 0\<rparr>) qinit [] (rev (cinit_blocks 5001)) \<and> 55 \<le> length (cinit_blocks 5001) \<and>
    distinct (cinit_blocks 5001) \<and> set (cinit_blocks 5001) \<subseteq> {p. p mod 16 = 0 \<and> {p..<p + 16} \<subseteq> {5001..<5001 + 900}}"
  by (rule cinit_pool) simp_all

end
