(* ===== verification/Multio.thy ===== *)
theory Multio
  imports Tty Scheduling
begin

text \<open>
  The driver of the serial lines and the parallel printer (\<^verbatim>\<open>sys/multio.c\<close>) above the assembler routines of \<^verbatim>\<open>mio.s\<close>, whose calls \<^verbatim>\<open>Tty\<close> records. The
  input and output ports are parameters: \<open>pin\<close> answers what a port reads, \<open>pout\<close> takes what is written, and \<open>ports\<close> is the state of the hardware.
\<close>

section \<open>State and ports\<close>

abbreviation (input) NMIO :: nat where "NMIO \<equiv> 4"
abbreviation (input) MBASE :: u8 where "MBASE \<equiv> 0x48"
abbreviation (input) PREADY :: u8 where "PREADY \<equiv> 0x20"
abbreviation (input) PSTROBE :: u8 where "PSTROBE \<equiv> 0x40"
abbreviation (input) INTENABLE :: u8 where "INTENABLE \<equiv> 1"
abbreviation (input) MCONTROL :: u8 where "MCONTROL \<equiv> 4"
abbreviation (input) MSTATUS :: u8 where "MSTATUS \<equiv> 6"
abbreviation (input) MUSELECT :: u8 where "MUSELECT \<equiv> 7"
abbreviation (input) PIC1 :: u8 where "PIC1 \<equiv> 0x4D"
abbreviation (input) INT_MODEM :: u8 where "INT_MODEM \<equiv> 8"
abbreviation (input) MU_DTR :: u8 where "MU_DTR \<equiv> 1"
abbreviation (input) MU_DCTS :: u8 where "MU_DCTS \<equiv> 1"
abbreviation (input) MU_DCD :: u8 where "MU_DCD \<equiv> 8"
abbreviation (input) MU_CTS :: u8 where "MU_CTS \<equiv> 0x10"
abbreviation (input) MU_CD :: u8 where "MU_CD \<equiv> 0x80"
abbreviation (input) PENABLE :: u8 where "PENABLE \<equiv> 0x28"
abbreviation (input) DTR :: u8 where "DTR \<equiv> 4"
abbreviation (input) DIAL :: u16 where "DIAL \<equiv> 0x20"
abbreviation (input) PRITTI :: u8 where "PRITTI \<equiv> 60"

record 'p must =
  mty :: tyst
  ty_dev :: "nat \<Rightarrow> u16"
  nmio :: u8
  pbase :: u8
  hiport :: u8
  loport :: u8
  mother :: bool
  ports :: 'p
  pin :: "u8 \<Rightarrow> 'p \<Rightarrow> u8 \<times> 'p"
  pout :: "u8 \<Rightarrow> u8 \<Rightarrow> 'p \<Rightarrow> 'p"

type_synonym ('p, 'a) M = "('p must, chan, 'a) outcome"

definition inport :: "u8 \<Rightarrow> 'p must \<Rightarrow> u8 \<times> 'p must" where
  "inport p m = (let (v, h) = pin m p (ports m) in (v, m\<lparr>ports := h\<rparr>))"

definition outport :: "u8 \<Rightarrow> u8 \<Rightarrow> 'p must \<Rightarrow> 'p must" where
  "outport p v m = m\<lparr>ports := pout m p v (ports m)\<rparr>"

text \<open>A change of the terminals, and a routine of the terminal handler.\<close>

definition onty :: "(tyst \<Rightarrow> tyst) \<Rightarrow> 'p must \<Rightarrow> 'p must" where
  "onty f m = m\<lparr>mty := f (mty m)\<rparr>"

definition tcallr :: "(tyst \<Rightarrow> 'a T) \<Rightarrow> 'p must \<Rightarrow> ('p, 'a) M" where
  "tcallr f m = (case f (mty m) of Ret x t \<Rightarrow> Ret x (m\<lparr>mty := t\<rparr>) | Slept c p t \<Rightarrow> Slept c p (m\<lparr>mty := t\<rparr>)
     | Panic e t \<Rightarrow> Panic e (m\<lparr>mty := t\<rparr>) | Spin t \<Rightarrow> Spin (m\<lparr>mty := t\<rparr>))"

definition mstate :: "nat \<Rightarrow> 'p must \<Rightarrow> u8" where
  "mstate n m = ty_mstate (ttys (mty m) n)"

definition set_mstate :: "nat \<Rightarrow> u8 \<Rightarrow> 'p must \<Rightarrow> 'p must" where
  "set_mstate n v m = onty (upd_tty n (\<lambda>y. y\<lparr>ty_mstate := v\<rparr>)) m"

definition muerror :: "u8 \<Rightarrow> 'p must \<Rightarrow> 'p must" where
  "muerror e m = onty (\<lambda>t. t\<lparr>kern := set_error e (kern t)\<rparr>) m"

section \<open>The modem lines\<close>

definition ttdev :: "u16 \<Rightarrow> nat" where
  "ttdev dev = unat (dev AND 15)"

definition muselect :: "nat \<Rightarrow> 'p must \<Rightarrow> 'p must" where
  "muselect n m = outport (MBASE + MUSELECT) (ucast (ty_dev m n AND 3) OR PENABLE) m"

definition mumcontrol :: "u16 \<Rightarrow> 'p must \<Rightarrow> 'p must" where
  "mumcontrol dev m =
     (let n = ttdev dev; (a, m1) = inport (MBASE + MCONTROL) (muselect n m);
          a1 = (if tst (mstate n m1) DTR then a OR MU_DTR else a AND NOT MU_DTR)
      in outport (MBASE + MCONTROL) a1 m1)"

definition mumstatus :: "u16 \<Rightarrow> 'p must \<Rightarrow> 'p must" where
  "mumstatus dev m =
     (let n = ttdev dev; (s, m1) = (if dev \<noteq> 0 then inport (MBASE + MSTATUS) (muselect n m) else (MU_CD, m))
      in set_mstate n (if tst s MU_CD then mstate n m1 OR CD else mstate n m1 AND NOT CD) m1)"

definition muenable :: "u16 \<Rightarrow> u8 \<Rightarrow> 'p must \<Rightarrow> 'p must" where
  "muenable dev mode m = outport (MBASE + INTENABLE) mode (outport (MBASE + MUSELECT) (ucast (dev AND 3) OR PENABLE) m)"

definition mumint :: "nat \<Rightarrow> 'p must \<Rightarrow> ('p, unit) M" where
  "mumint n m =
     (let (s, m1) = inport (MBASE + MSTATUS) (muselect n m);
          m2 = (if tst s MU_DCTS \<and> tst s MU_CTS then onty (cstart n) m1 else m1)
      in if tst s MU_DCD then (if tst s MU_CD then tcallr (ttyconnect n) m2 else tcallr (ttyhangup n) m2)
         else Ret () m2)"

section \<open>Open, close, read, write\<close>

definition ttinit :: "nat \<Rightarrow> u16 \<Rightarrow> 'p must \<Rightarrow> 'p must" where
  "ttinit n dev m =
     onty (upd_tty n (\<lambda>y. y\<lparr>ty_ispeed := 13, ty_ospeed := 13, ty_erase := 8, ty_kill := 24, ty_mode := ECHO OR MAPCR OR XTABS, ty_col := 0\<rparr>))
       (m\<lparr>ty_dev := (ty_dev m)(n := dev)\<rparr>)"

text \<open>\<^verbatim>\<open>muopen\<close> in three parts: up to the wait for the carrier, one round of that wait (repeated after every sleep), and the rest.\<close>

definition muopen_begin :: "u16 \<Rightarrow> 'p must \<Rightarrow> bool \<times> 'p must" where
  "muopen_begin dev m =
     (let n = ttdev dev; board = drop_bit 2 (dev AND 15) in
      if n \<ge> NMIO \<or> int (unat board) \<ge> sint (nmio m) + 1 then (False, muerror ENXIO m)
      else
        let m1 = (if ty_ispeed (ttys (mty m) n) = 0 then onty (log_call (CSet n)) (ttinit n dev m) else m) in
        if tst dev DIAL \<and> tst (ty_state (ttys (mty m1) n)) TOPEN then (False, muerror EBUSY m1)
        else (True, mumstatus dev (mumcontrol dev (set_mstate n (mstate n m1 OR DTR) m1))))"

definition muopen_wait :: "u16 \<Rightarrow> 'p must \<Rightarrow> ('p, unit) M" where
  "muopen_wait dev m =
     (let n = ttdev dev in
      if tst dev DIAL then Ret () (set_mstate n (mstate n m OR DIALER) m)
      else if \<not> tst (mstate n m) CD
      then tcallr (kcall (sleep (ChMstate n) PRITTI)) (muenable dev INT_MODEM (set_mstate n (mstate n m OR WOPEN) m))
      else Ret () (set_mstate n (mstate n m AND NOT WOPEN) m))"

definition muopen_end :: "u16 \<Rightarrow> 'p must \<Rightarrow> 'p must" where
  "muopen_end dev m =
     (let n = ttdev dev; m1 = onty (ttyopen n) m; y = ttys (mty m1) n in
      if \<not> tst (ty_state y) TOPEN \<and> q_count (ty_outque y) = 0 \<and> ty_nextc y = 0
      then onty (log_call (CStop n False)) (onty (log_call (CSet n)) m1) else m1)"

definition muopen :: "u16 \<Rightarrow> 'p must \<Rightarrow> ('p, unit) M" where
  "muopen dev m =
     (let (go, m1) = muopen_begin dev m in
      if go then bnd (muopen_wait dev m1) (\<lambda>_ m. Ret () (muopen_end dev m)) else Ret () m1)"

definition muclose :: "u16 \<Rightarrow> 'p must \<Rightarrow> ('p, unit) M" where
  "muclose dev m =
     (let n = ttdev dev in
      bnd (if tst dev DIAL then
             (let m1 = set_mstate n (mstate n m AND NOT DIALER) m in
              if mstate n m1 AND (WOPEN OR CD) = WOPEN OR CD then tcallr (kcall (wakeup (ChMstate n))) m1 else Ret () m1)
           else Ret () m) (\<lambda>_ m. Ret () (onty (ttyclose n) m)))"

definition muread :: "u16 \<Rightarrow> 'p must \<Rightarrow> ('p, unit) M" where
  "muread dev m = tcallr (ttyread (ttdev dev)) m"

definition muwrite :: "u16 \<Rightarrow> 'p must \<Rightarrow> ('p, unit) M" where
  "muwrite dev m = tcallr (ttywrite (ttdev dev)) m"

definition mustty :: "u16 \<Rightarrow> bool \<Rightarrow> 'p must \<Rightarrow> 'p must" where
  "mustty dev rd m = onty (ttymode (ttdev dev) rd) m"

section \<open>The printer and the interrupt controller\<close>

text \<open>\<^verbatim>\<open>ppint\<close> passes \<^verbatim>\<open>mstop\<close> one argument; the flag it takes for the second is whatever lies there.\<close>

definition ppint_send :: "nat \<Rightarrow> 'p must \<Rightarrow> 'p must" where
  "ppint_send n m =
     (let (v, m1) = inport (pbase m + 1) m; mom = (v \<noteq> 0xFF);
          m2 = m1\<lparr>mother := mom, hiport := (if mom then pbase m1 else pbase m1 + 1), loport := (if mom then pbase m1 + 1 else pbase m1)\<rparr>;
          (c, t) = cookout n (mty m2);
          m3 = outport (loport m2) (ucast c) (m2\<lparr>mty := t\<rparr>)
      in outport (hiport m3) 0xFF (outport (hiport m3) (0xFF XOR PSTROBE) (outport (hiport m3) 0xFF m3)))"

definition ppint :: "nat \<Rightarrow> 'p must \<Rightarrow> ('p, unit) M" where
  "ppint n m =
     (let m1 = m\<lparr>pbase := MBASE + ucast (push_bit 2 (ty_dev m n AND 12))\<rparr>;
          (v, m2) = inport (pbase m1) (outport (pbase m1 + MUSELECT) PENABLE m1); y = ttys (mty m2) n in
      if \<not> tst v PREADY then Ret () m2
      else
        bnd (if tst (ty_state y) HOSLEEP \<and> q_count (ty_outque y) \<le> LOWATER
             then tcallr (kcall (wakeup (ChOut n))) (onty (upd_tty n (\<lambda>y. y\<lparr>ty_state := ty_state y AND NOT HOSLEEP\<rparr>)) m2)
             else Ret () m2) (\<lambda>_ m.
        if q_count (ty_outque (ttys (mty m) n)) = 0
        then Ret () (onty (\<lambda>t. log_call (CStop n (junk (kern t) \<noteq> 0)) t) m)
        else Ret () (ppint_send n m)))"

definition inton :: "u16 \<Rightarrow> 'p must \<Rightarrow> 'p must" where
  "inton a m = (let (v, m1) = inport PIC1 (outport (MBASE + MUSELECT) PENABLE m)
     in outport PIC1 (v AND NOT (push_bit (unat a) 1)) m1)"

definition intoff :: "u16 \<Rightarrow> 'p must \<Rightarrow> 'p must" where
  "intoff a m = (let (v, m1) = inport PIC1 (outport (MBASE + MUSELECT) PENABLE m)
     in outport PIC1 (v OR push_bit (unat a) 1) m1)"

section \<open>Properties\<close>

lemma tst_clear: "\<not> tst (f AND NOT m) m"
  by (simp add: tst_def bit_eq_iff bit_simps)
lemma wopen_bits:
  fixes x :: u8
  assumes "\<not> tst x 0x20"
  shows "(((x OR 4) AND NOT 2) OR 1 OR 2) AND (1 OR 0x20) = 1"
proof -
  define y where "y = (x OR 4) AND NOT 2"
  have "y AND 0x20 = (x OR 4) AND (NOT 2 AND 0x20)" by (simp only: y_def and.assoc)
  also have "\<dots> = (x AND 0x20) OR (4 AND 0x20)" by (simp add: bit.conj_disj_distrib2)
  finally have z: "y AND 0x20 = 0" using assms by (simp add: tst_def)
  have "(y OR 1 OR 2) AND (1 OR 0x20) = (y AND 1) OR (y AND 0x20) OR ((1 OR 2) AND (1 OR 0x20))"
    by (simp only: bit.conj_disj_distrib2 bit.conj_disj_distrib or.assoc or.commute or.left_commute)
  then show ?thesis unfolding y_def [symmetric] by (simp add: z bit_eq_iff bit_simps)
qed
lemma onty_sel [simp]:
  "mty (onty f m) = f (mty m)" "ty_dev (onty f m) = ty_dev m" "pin (onty f m) = pin m" "pout (onty f m) = pout m" "nmio (onty f m) = nmio m" "ports (onty f m) = ports m"
  by (simp_all add: onty_def)

lemma outport_sel [simp]: "mty (outport p v m) = mty m" "pin (outport p v m) = pin m" "nmio (outport p v m) = nmio m" "ty_dev (outport p v m) = ty_dev m"
  by (simp_all add: outport_def)

lemma muselect_sel [simp]: "mty (muselect n m) = mty m" "pin (muselect n m) = pin m" "nmio (muselect n m) = nmio m"
  by (simp_all add: muselect_def)

lemma set_mstate_sel [simp]:
  "kern (mty (set_mstate n v m)) = kern (mty m)" "pin (set_mstate n v m) = pin m" "mstate n (set_mstate n v m) = v" "nmio (set_mstate n v m) = nmio m"
  "ty_state (ttys (mty (set_mstate n v m)) k) = ty_state (ttys (mty m) k)"
  by (simp_all add: set_mstate_def mstate_def upd_tty_def)

lemma inport_sel:
  assumes "inport p m = (v, m1)"
  shows "mty m1 = mty m" "pin m1 = pin m" "v = fst (pin m p (ports m))" "nmio m1 = nmio m" "ty_dev m1 = ty_dev m"
  using assms by (auto simp: inport_def split: prod.splits)

lemma mumcontrol_sel [simp]: "mty (mumcontrol dev m) = mty m" "pin (mumcontrol dev m) = pin m"
  by (auto simp: mumcontrol_def Let_def split: prod.splits dest: inport_sel)

lemma mumstatus_no_carrier:
  assumes "dev \<noteq> 0" "\<And>h. \<not> tst (fst (pin m (MBASE + MSTATUS) h)) MU_CD"
  shows "mstate (ttdev dev) (mumstatus dev m) = mstate (ttdev dev) m AND NOT CD" "kern (mty (mumstatus dev m)) = kern (mty m)" "pin (mumstatus dev m) = pin m"
proof -
  obtain v m1 where i: "inport (MBASE + MSTATUS) (muselect (ttdev dev) m) = (v, m1)" by fastforce
  note f = inport_sel [OF i]
  have "\<not> tst v MU_CD" using assms(2) f(3) by simp
  then have "mumstatus dev m = set_mstate (ttdev dev) (mstate (ttdev dev) m1 AND NOT CD) m1" using assms(1) i by (simp add: mumstatus_def Let_def)
  then show "mstate (ttdev dev) (mumstatus dev m) = mstate (ttdev dev) m AND NOT CD" "kern (mty (mumstatus dev m)) = kern (mty m)" "pin (mumstatus dev m) = pin m"
    using f by (simp_all add: mstate_def [of _ m1] mstate_def [of _ m])
qed

lemma ttyopen_sel: "tst (ty_state (ttys (ttyopen n t) n)) TOPEN" "tcalls (ttyopen n t) = tcalls t"
  by (simp_all add: ttyopen_def Let_def upd_tty_def)

lemma muopen_opens: "muopen_end dev m = onty (ttyopen (ttdev dev)) m" "tst (ty_state (ttys (mty (muopen_end dev m)) (ttdev dev))) TOPEN"
  by (simp_all add: muopen_end_def Let_def ttyopen_sel)

text \<open>
  The initialisation at the end of \<^verbatim>\<open>muopen\<close> is never done: \<^verbatim>\<open>ttyopen\<close> has set \<^verbatim>\<open>OPEN\<close> just before it is tested, so the second and later opens of a line neither
  set the baud rate nor enable input.
\<close>

theorem muopen_end_dead: "muopen_end dev m = onty (ttyopen (ttdev dev)) m \<and> tcalls (mty (muopen_end dev m)) = tcalls (mty m)"
  by (simp add: muopen_opens(1) ttyopen_sel(2))

lemma cstart_sel [simp]: "kern (cstart n t) = kern t" "ttys (cstart n t) = ttys t"
  by (simp_all add: cstart_def log_call_def)

lemma muopen_begin_ok:
  assumes n: "ttdev dev < NMIO" "0 \<le> sint (nmio m)" and d: "dev \<noteq> 0" "\<not> tst dev DIAL"
    and c: "\<And>h. \<not> tst (fst (pin m (MBASE + MSTATUS) h)) MU_CD"
  obtains m1 where "muopen_begin dev m = (True, m1)" "mstate (ttdev dev) m1 = (mstate (ttdev dev) m OR DTR) AND NOT CD" "kern (mty m1) = kern (mty m)"
proof -
  let ?n = "ttdev dev"
  define m0 where "m0 = (if ty_ispeed (ttys (mty m) ?n) = 0 then onty (log_call (CSet ?n)) (ttinit ?n dev m) else m)"
  define m1 where "m1 = mumcontrol dev (set_mstate ?n (mstate ?n m0 OR DTR) m0)"
  have m0: "mstate ?n m0 = mstate ?n m" "kern (mty m0) = kern (mty m)" "pin m0 = pin m"
    by (simp_all add: m0_def mstate_def ttinit_def upd_tty_def log_call_def)
  have m1: "mstate ?n m1 = mstate ?n m OR DTR" "kern (mty m1) = kern (mty m)" "pin m1 = pin m"
    using m0 by (simp_all add: m1_def mstate_def) (simp add: set_mstate_def upd_tty_def)
  note st = mumstatus_no_carrier [OF d(1), of m1, unfolded m1(3), OF c]
  have "drop_bit 2 (dev AND 15) = 0" using n(1) by (simp add: ttdev_def word_unat_eq_iff unat_drop_bit_eq drop_bit_eq_div unat_div_distrib)
  then have "muopen_begin dev m = (True, mumstatus dev m1)"
    using n d(2) by (simp add: muopen_begin_def Let_def m0_def [symmetric] m1_def)
  then show thesis using st m1 by (intro that [of "mumstatus dev m1"]) simp_all
qed

text \<open>
  C17. Opening a line waits for the carrier and no longer: while the modem reports no carrier, \<^verbatim>\<open>muopen\<close> puts the process to sleep, marked as waiting for the open; the
  interrupt that reports the carrier makes it runnable, and then the open goes through: the terminal is open and nobody is marked as waiting.
\<close>

theorem muopen_carrier:
  assumes n: "ttdev dev < NMIO" "0 \<le> sint (nmio m)" and d: "dev \<noteq> 0" "\<not> tst dev DIAL" "\<not> tst (mstate (ttdev dev) m) DIALER"
    and off: "\<And>h. \<not> tst (fst (pin m (MBASE + MSTATUS) h)) MU_CD"
    and on: "\<And>h. tst (fst (carrier (MBASE + MSTATUS) h)) MU_DCD \<and> tst (fst (carrier (MBASE + MSTATUS) h)) MU_CD"
    and p: "swapok (kern (mty m))" "u_p (u (kern (mty m))) < NPROC" "u_p (u (kern (mty m))) \<noteq> 0" "alls (p_mode (cur (kern (mty m)))) (ALIVE OR LOADED)"
  shows "\<exists>m1 m2 m3. muopen dev m = Slept (ChMstate (ttdev dev)) PRITTI m1 \<and> \<not> runnable (plist (kern (mty m1)) (u_p (u (kern (mty m))))) \<and>
    mumint (ttdev dev) (m1\<lparr>pin := carrier\<rparr>) = Ret () m2 \<and> runnable (plist (kern (mty m2)) (u_p (u (kern (mty m))))) \<and>
    muopen_wait dev m2 = Ret () m3 \<and> \<not> tst (mstate (ttdev dev) m3) WOPEN \<and>
    tst (ty_state (ttys (mty (muopen_end dev m3)) (ttdev dev))) TOPEN"
proof -
  let ?n = "ttdev dev" and ?p = "u_p (u (kern (mty m)))"
  obtain m0 where 0: "muopen_begin dev m = (True, m0)" "mstate ?n m0 = (mstate ?n m OR DTR) AND NOT CD" "kern (mty m0) = kern (mty m)"
    by (rule muopen_begin_ok [OF n d(1,2) off])
  define w where "w = muenable dev INT_MODEM (set_mstate ?n (mstate ?n m0 OR WOPEN) m0)"
  have w: "mstate ?n w = mstate ?n m0 OR WOPEN" "kern (mty w) = kern (mty m)"
    using 0(3) by (simp_all add: w_def muenable_def mstate_def) (simp add: set_mstate_def upd_tty_def)
  obtain s' pl r where s: "(sleep (ChMstate ?n) PRITTI (kern (mty m)) :: unit K) = Slept (ChMstate ?n) PRITTI s'" "\<not> runnable (plist s' ?p)"
    "wakeup (ChMstate ?n) s' = Ret () (s'\<lparr>plist := pl, resched := r\<rparr>)" "runnable (pl ?p)"
    using sleep_wakeup [OF p(1,2,4), of "ChMstate ?n" PRITTI] p(3) by blast
  define m1 where "m1 = w\<lparr>mty := (mty w)\<lparr>kern := s'\<rparr>\<rparr>"
  have ncd: "\<not> tst (mstate ?n m0) CD" unfolding 0(2) by (rule tst_clear)
  have o: "muopen dev m = Slept (ChMstate ?n) PRITTI m1"
    using 0(1) ncd d(2) s(1) w(2) by (simp add: muopen_def muopen_wait_def Let_def w_def [symmetric] tcallr_def kcall_def m1_def)
  obtain v h where i: "inport (MBASE + MSTATUS) (muselect ?n (m1\<lparr>pin := carrier\<rparr>)) = (v, h)" by fastforce
  note f = inport_sel [OF i]
  have v: "tst v MU_DCD" "tst v MU_CD" using on f(3) by auto
  define h1 where "h1 = (if tst v MU_DCTS \<and> tst v MU_CTS then onty (cstart ?n) h else h)"
  have h1: "kern (mty h1) = s'" "mstate ?n h1 = mstate ?n m0 OR WOPEN"
    using f(1) w(1) by (simp_all add: h1_def m1_def mstate_def)
  define h2 where "h2 = set_mstate ?n (mstate ?n h1 OR CD) h1"
  define m2 where "m2 = h2\<lparr>mty := (mty h2)\<lparr>kern := s'\<lparr>plist := pl, resched := r\<rparr>\<rparr>\<rparr>"
  have m2: "mstate ?n m2 = mstate ?n m0 OR WOPEN OR CD" "kern (mty m2) = s'\<lparr>plist := pl, resched := r\<rparr>"
    using h1(2) by (simp_all add: m2_def h2_def mstate_def) (simp add: set_mstate_def upd_tty_def or.assoc)
  note bits = wopen_bits [OF d(3)]
  have "ttyconnect ?n (mty h1) = Ret () (mty m2)"
    using bits h1 s(3) 0(2) by (simp add: ttyconnect_def Let_def m2_def h2_def kcall_def set_mstate_def mstate_def upd_tty_def or.assoc)
  then have mi: "mumint ?n (m1\<lparr>pin := carrier\<rparr>) = Ret () m2"
    using i v by (simp add: mumint_def Let_def h1_def [symmetric] tcallr_def m2_def h2_def set_mstate_def onty_def)
  define m3 where "m3 = set_mstate ?n (mstate ?n m2 AND NOT WOPEN) m2"
  have mw: "muopen_wait dev m2 = Ret () m3" using m2(1) d(2) by (simp add: muopen_wait_def Let_def m3_def)
  have "\<not> tst (mstate ?n m3) WOPEN" unfolding m3_def set_mstate_sel by (rule tst_clear)
  moreover have "tst (ty_state (ttys (mty (muopen_end dev m3)) ?n)) TOPEN"
    using muopen_opens by blast
  ultimately show ?thesis using o mi mw s(2,4) m2(2) by (intro exI [of _ m1] exI [of _ m2] exI [of _ m3]) (simp add: m1_def)
qed

definition quiet_line :: "unit must" where
  "quiet_line = \<lparr>mty = \<lparr>kern = kst0\<lparr>plist := (\<lambda>_. proc0\<lparr>p_mode := ALLOC OR ALIVE OR AWAKE OR LOADED\<rparr>), u := user0\<lparr>u_p := 3\<rparr>\<rparr>,
       ttys = (\<lambda>_. \<lparr>ty_ispeed = 0, ty_ospeed = 0, ty_erase = 0, ty_kill = 0, ty_mode = 0, ty_state = 0, ty_col = 0, ty_line = 0, ty_nextc = 0, ty_nbreak = 0,
         ty_rawque = qinit, ty_cokque = qinit, ty_outque = qinit, ty_count = 0, ty_mstate = 0\<rparr>),
       clst = \<lparr>cnext = (\<lambda>_. 0), cdat = (\<lambda>_. 0), cfree = 0\<rparr>, tcalls = []\<rparr>,
     ty_dev = (\<lambda>_. 0), nmio = 1, pbase = MBASE, hiport = MBASE, loport = MBASE, mother = True, ports = (), pin = (\<lambda>_ _. (0, ())), pout = (\<lambda>_ _ _. ())\<rparr>"

theorem muopen_carrier_witness:
  "\<exists>m1 m2 m3. muopen 0x0101 quiet_line = Slept (ChMstate 1) PRITTI m1 \<and> \<not> runnable (plist (kern (mty m1)) 3) \<and>
    mumint 1 (m1\<lparr>pin := (\<lambda>_ _. (0x98, ()))\<rparr>) = Ret () m2 \<and> runnable (plist (kern (mty m2)) 3) \<and>
    muopen_wait 0x0101 m2 = Ret () m3 \<and> \<not> tst (mstate 1 m3) WOPEN \<and> tst (ty_state (ttys (mty (muopen_end 0x0101 m3)) 1)) TOPEN"
proof -
  have n: "ttdev 0x0101 = 1" by (simp add: ttdev_def)
  have p: "u_p (u (kern (mty quiet_line))) = 3" by (simp add: quiet_line_def)
  show ?thesis using muopen_carrier [of "0x0101" quiet_line "\<lambda>_ _. (0x98, ())"] unfolding n p
    by (simp add: quiet_line_def tst_def alls_def mstate_def swapok_def cur_def proc0_def)
qed

end
