(* ===== verification/Mw.thy ===== *)
theory Mw
  imports Process
begin

text \<open>
  The driver of the HD-DMA hard disk controller (\<^verbatim>\<open>sys/mw.c\<close>), with the sharing of the bus between the two disk controllers. The
  controller is a parameter \<open>ctl\<close>: given the command in memory and its own state it answers with its new state and a completion
  status. \<open>hwlog\<close> records what the driver gave to the controller, in order: \<open>Attn c\<close> is an attention with the command \<open>c\<close> in memory. The requests \<^verbatim>\<open>mwbuf\<close>
  and the chain of \<^verbatim>\<open>forw\<close> links behind it are the list \<open>mwque\<close> of buffer numbers, head first. \<^verbatim>\<open>di\<close> and \<^verbatim>\<open>ei\<close> make each routine atomic.
\<close>

section \<open>Data\<close>

abbreviation (input) NDRIVES :: nat where "NDRIVES \<equiv> 4"
abbreviation (input) SECSIZE :: u8 where "SECSIZE \<equiv> 3"
abbreviation (input) CHKTIME :: u16 where "CHKTIME \<equiv> 8"
abbreviation (input) RETRIES :: u8 where "RETRIES \<equiv> 10"

abbreviation (input) CALIB :: u8 where "CALIB \<equiv> 1"
abbreviation (input) MWOPEN :: u8 where "MWOPEN \<equiv> 2"
abbreviation (input) RECAL :: u8 where "RECAL \<equiv> 4"

abbreviation (input) READS :: u8 where "READS \<equiv> 0"
abbreviation (input) WRITES :: u8 where "WRITES \<equiv> 1"
abbreviation (input) LOADC :: u8 where "LOADC \<equiv> 4"
abbreviation (input) STATC :: u8 where "STATC \<equiv> 5"
abbreviation (input) HOME :: u8 where "HOME \<equiv> 6"

abbreviation (input) HOMDEL :: u8 where "HOMDEL \<equiv> 30"
abbreviation (input) SETTLE :: u8 where "SETTLE \<equiv> 0"
abbreviation (input) INTEN :: u8 where "INTEN \<equiv> 0x80"
abbreviation (input) PRECOMP :: u8 where "PRECOMP \<equiv> 0x80"
abbreviation (input) HIGHCUR :: u8 where "HIGHCUR \<equiv> 0x40"
abbreviation (input) STEPOUT :: u8 where "STEPOUT \<equiv> 0x10"
abbreviation (input) LCONST :: u8 where "LCONST \<equiv> 0x30"
abbreviation (input) NOTRDY :: u8 where "NOTRDY \<equiv> 4"
abbreviation (input) BUSY :: u8 where "BUSY \<equiv> 0"
abbreviation (input) OK :: u8 where "OK \<equiv> 0xFF"
abbreviation (input) INTOFF :: u8 where "INTOFF \<equiv> 0"

abbreviation (input) VIRGIN :: u8 where "VIRGIN \<equiv> 0"
abbreviation (input) STOPPED :: u8 where "STOPPED \<equiv> 1"
abbreviation (input) ACTIVE :: u8 where "ACTIVE \<equiv> 2"
abbreviation (input) INTRPT :: u8 where "INTRPT \<equiv> 3"
abbreviation (input) LATE :: u8 where "LATE \<equiv> 4"
abbreviation (input) TOOLATE :: u8 where "TOOLATE \<equiv> 5"

record spec =
  n_tracks :: u16
  n_heads :: u8
  n_sectors :: u8
  n_stpdel :: u8
  n_precomp :: u16
  n_lowcur :: u16

record info = spec +
  n_maxblk :: u16
  n_spc :: u16
  n_curtrk :: u16
  n_flags :: u8
  n_type :: u8

definition specs :: "spec list" where
  "specs =
     [\<lparr>n_tracks = 153, n_heads = 4, n_sectors = 17, n_stpdel = 30, n_precomp = 128, n_lowcur = 128\<rparr>,
      \<lparr>n_tracks = 306, n_heads = 4, n_sectors = 17, n_stpdel = 2, n_precomp = 128, n_lowcur = 128\<rparr>,
      \<lparr>n_tracks = 306, n_heads = 6, n_sectors = 17, n_stpdel = 2, n_precomp = 128, n_lowcur = 128\<rparr>,
      \<lparr>n_tracks = 640, n_heads = 6, n_sectors = 17, n_stpdel = 0, n_precomp = 256, n_lowcur = 256\<rparr>,
      \<lparr>n_tracks = 733, n_heads = 5, n_sectors = 17, n_stpdel = 30, n_precomp = 300, n_lowcur = 733\<rparr>]"

text \<open>The command block; the word \<open>c_arg0\<close> is also used by its high byte.\<close>

record mwcmd =
  c_seksel :: u8
  c_steps :: u16
  c_hedsel :: u8
  c_dma :: u16
  c_xdma :: u8
  c_arg0 :: u16
  c_arg2 :: u8
  c_arg3 :: u8
  c_op :: u8
  c_stat :: u8
  c_linked :: bool
  c_count :: u16
  c_blk :: u16

definition set_high :: "u8 \<Rightarrow> u16 \<Rightarrow> u16" where
  "set_high v w = word_cat v (ucast w :: u8)"

text \<open>The bus masters: the start routine of this driver, or a routine of another.\<close>

datatype master = MwStart | OtherStart nat

datatype hwcall = HReset | Attn mwcmd

text \<open>
  \<open>bcyl\<close>, \<open>baddr\<close> and \<open>bxmem\<close> are the members \<^verbatim>\<open>cyl\<close>, \<^verbatim>\<open>data\<close> and \<^verbatim>\<open>xmem\<close> of the buffers. \<open>called\<close> records the routines of the other driver that were
  invoked as new bus masters, \<open>beyond\<close> what lies in memory behind the table of drive types.
\<close>

record 'h mw =
  mws :: "nat \<Rightarrow> info"
  cmd :: mwcmd
  mwinfo :: nat
  mwque :: "nat list"
  bcyl :: "nat \<Rightarrow> u16"
  baddr :: "nat \<Rightarrow> u16"
  bxmem :: "nat \<Rightarrow> u8"
  retry :: u8
  curdrv :: u8
  mwstate :: u8
  bus :: "master option"
  busnext :: "master option"
  called :: "nat list"
  tlist :: "tmout list"
  beyond :: "nat \<Rightarrow> spec"
  hwlog :: "hwcall list"
  hw :: 'h
  ctl :: "mwcmd \<Rightarrow> 'h \<Rightarrow> 'h \<times> u8"
  ks :: kst

type_synonym ('h, 'a) D = "('h mw, chan, 'a) outcome"

definition upd_cmd :: "(mwcmd \<Rightarrow> mwcmd) \<Rightarrow> 'h mw \<Rightarrow> 'h mw" where
  "upd_cmd f m = m\<lparr>cmd := f (cmd m)\<rparr>"

definition upd_info :: "nat \<Rightarrow> (info \<Rightarrow> info) \<Rightarrow> 'h mw \<Rightarrow> 'h mw" where
  "upd_info d f m = m\<lparr>mws := (mws m)(d := f (mws m d))\<rparr>"

text \<open>A kernel routine called by the driver.\<close>

definition onk :: "(kst \<Rightarrow> 'a K) \<Rightarrow> 'h mw \<Rightarrow> ('h, 'a) D" where
  "onk f m = (case f (ks m) of Ret x s \<Rightarrow> Ret x (m\<lparr>ks := s\<rparr>) | Slept c p s \<Rightarrow> Slept c p (m\<lparr>ks := s\<rparr>)
     | Panic t s \<Rightarrow> Panic t (m\<lparr>ks := s\<rparr>) | Spin s \<Rightarrow> Spin (m\<lparr>ks := s\<rparr>))"

definition drive :: "nat \<Rightarrow> 'h mw \<Rightarrow> u16" where
  "drive b m = b_dev (blist (ks m) b) AND 3"

section \<open>Commands\<close>

definition attn :: "'h mw \<Rightarrow> 'h mw" where
  "attn m = (let m1 = upd_cmd (\<lambda>c. c\<lparr>c_stat := BUSY\<rparr>) m in m1\<lparr>hwlog := hwlog m1 @ [Attn (cmd m1)]\<rparr>)"

definition issue :: "'h mw \<Rightarrow> 'h mw" where
  "issue m = attn (m\<lparr>mwstate := ACTIVE\<rparr>)"

text \<open>The controller carries out the command and stores the status.\<close>

definition finish :: "'h mw \<Rightarrow> 'h mw" where
  "finish m = (let (h, st) = ctl m (cmd m) (hw m) in upd_cmd (\<lambda>c. c\<lparr>c_stat := st\<rparr>) (m\<lparr>hw := h\<rparr>))"

definition mwwait :: "'h mw \<Rightarrow> ('h, unit) D" where
  "mwwait m = (let m1 = finish (attn m) in if c_stat (cmd m1) = BUSY then Spin m1 else Ret () m1)"

definition reset :: "'h mw \<Rightarrow> 'h mw" where
  "reset m = upd_cmd (\<lambda>c. c\<lparr>c_linked := True\<rparr>) (m\<lparr>hwlog := hwlog m @ [HReset]\<rparr>)"

section \<open>The bus\<close>

definition busget :: "master \<Rightarrow> 'h mw \<Rightarrow> bool \<times> 'h mw" where
  "busget f m =
     (if bus m \<noteq> None \<and> bus m \<noteq> Some f
      then (False, if busnext m = None then m\<lparr>busnext := Some f\<rparr> else m)
      else (True, m\<lparr>bus := Some f\<rparr>))"

text \<open>
  \<^verbatim>\<open>mwcheck\<close> in two parts, before and after the time-out is requested again. \<^verbatim>\<open>mwstart\<close> calls it in the state \<^verbatim>\<open>VIRGIN\<close>, where the
  switch does nothing and \<^verbatim>\<open>mwint\<close> is not called. The time-out slots hold the function number 1 for \<^verbatim>\<open>mwcheck\<close>.
\<close>

definition mwcheck_switch :: "'h mw \<Rightarrow> ('h, unit) D" where
  "mwcheck_switch m =
     (if mwstate m = ACTIVE then Ret () (m\<lparr>mwstate := LATE\<rparr>)
      else if mwstate m = LATE
      then Ret () (upd_cmd (\<lambda>c. c\<lparr>c_stat := NOTRDY\<rparr>) ((reset (m\<lparr>mwstate := TOOLATE\<rparr>))\<lparr>curdrv := 0xFF\<rparr>))
      else if mwstate m = TOOLATE then Panic ''hddma hung'' m
      else Ret () m)"

definition mwcheck_again :: "'h mw \<Rightarrow> ('h, unit) D" where
  "mwcheck_again m = (case timeout 1 0 CHKTIME (tlist m) of
     None \<Rightarrow> Panic ''Timeout slots are full'' m | Some ts \<Rightarrow> Ret () (m\<lparr>tlist := ts\<rparr>))"

definition mwstart :: "'h mw \<Rightarrow> ('h, unit) D" where
  "mwstart m =
     (let (got, m1) = busget MwStart m in
      if \<not> got then Ret () m1
      else bnd (if mwstate m1 = VIRGIN then bnd (mwcheck_switch (reset m1)) (\<lambda>_ m. mwcheck_again m) else Ret () m1) (\<lambda>_ m.
        Ret () (issue (upd_cmd (\<lambda>c. c\<lparr>c_steps := 0, c_arg0 := set_high INTEN (c_arg0 c), c_hedsel := c_hedsel c OR LCONST, c_op := LOADC\<rparr>) m))))"

definition busgive :: "master option \<Rightarrow> 'h mw \<Rightarrow> ('h, bool) D" where
  "busgive f m = (case busnext m of
     Some n \<Rightarrow>
       let m1 = m\<lparr>bus := Some n, busnext := f\<rparr> in
       (case n of MwStart \<Rightarrow> bnd (mwstart m1) (\<lambda>_ m. Ret True m)
        | OtherStart i \<Rightarrow> Ret True (m1\<lparr>called := called m1 @ [i]\<rparr>))
   | None \<Rightarrow> Ret False (m\<lparr>bus := None\<rparr>))"

definition mwstop :: "'h mw \<Rightarrow> ('h, unit) D" where
  "mwstop m =
     bnd (mwwait (upd_cmd (\<lambda>c. c\<lparr>c_steps := 0, c_arg0 := set_high INTOFF (c_arg0 c), c_hedsel := c_hedsel c OR (LCONST OR 3), c_op := LOADC\<rparr>)
            (m\<lparr>mwstate := STOPPED\<rparr>))) (\<lambda>_ m.
     bnd (busgive None m) (\<lambda>_ m. Ret () m))"

section \<open>Reading and writing\<close>

definition mwcyl :: "u16 \<Rightarrow> info \<Rightarrow> u16" where
  "mwcyl blk x =
     (let roll = n_tracks x; cyl = blk div n_spc x + drop_bit 1 roll
      in if cyl \<ge> roll then cyl - roll else cyl)"

definition rwcmd :: "'h mw \<Rightarrow> 'h mw" where
  "rwcmd m =
     (let x = mws m (mwinfo m); blk = c_blk (cmd m);
          csec = blk mod n_spc x; nsecs = ucast (n_sectors x) :: u16; curtrk = n_curtrk x;
          track = mwcyl blk x; head = csec div nsecs; sector = csec mod nsecs;
          steps = (if track > curtrk then track - curtrk else curtrk - track);
          seksel = (if track > curtrk then curdrv m else curdrv m OR STEPOUT);
          hed0 = curdrv m OR ucast (push_bit 2 (NOT head AND 7)) OR HIGHCUR;
          hed1 = (if track \<ge> n_precomp x then hed0 OR PRECOMP else hed0);
          hed2 = (if track \<ge> n_lowcur x then hed1 AND NOT HIGHCUR else hed1)
      in issue (upd_cmd (\<lambda>c. c\<lparr>c_seksel := seksel, c_steps := steps, c_hedsel := hed2, c_arg0 := track,
                  c_arg2 := ucast head, c_arg3 := ucast sector\<rparr>)
           (upd_info (mwinfo m) (\<lambda>x. x\<lparr>n_curtrk := track\<rparr>) m)))"

text \<open>The routines below use \<^verbatim>\<open>mwbuf\<close>; the empty list stands for the null pointer, through which they would read and write address 0.\<close>

definition nullref :: "'h mw \<Rightarrow> ('h, 'a) D" where
  "nullref m = Panic ''null mwbuf'' m"

definition newrw :: "'h mw \<Rightarrow> ('h, unit) D" where
  "newrw m = (case mwque m of
     [] \<Rightarrow> nullref m
   | b # _ \<Rightarrow>
       let x = blist (ks m) b;
           m1 = upd_cmd (\<lambda>c. c\<lparr>c_blk := b_blk x, c_dma := baddr m b, c_xdma := bxmem m b, c_count := b_count x,
                  c_op := (if tst (b_flags x) BREAD then READS else WRITES)\<rparr>) m;
           m2 = (if tst (n_flags (mws m1 (mwinfo m1))) RECAL
                 then upd_info (mwinfo m1) (\<lambda>i. i\<lparr>n_flags := n_flags i AND NOT RECAL\<rparr>) m1
                 else m1\<lparr>retry := RETRIES\<rparr>)
       in Ret () (rwcmd m2))"

definition mwerror :: "'h mw \<Rightarrow> ('h, unit) D" where
  "mwerror m = (case mwque m of
     [] \<Rightarrow> nullref m
   | b # _ \<Rightarrow> Ret () (m\<lparr>ks := upd_buf b (\<lambda>x. x\<lparr>b_flags := b_flags x OR BERROR\<rparr>) (ks m)\<rparr>))"

definition load_consts :: "u8 \<Rightarrow> 'h mw \<Rightarrow> ('h, unit) D" where
  "load_consts del m =
     mwwait (upd_cmd (\<lambda>c. c\<lparr>c_arg0 := set_high (del OR INTEN) (c_arg0 c), c_hedsel := c_hedsel c OR LCONST, c_op := LOADC\<rparr>) m)"

text \<open>
  \<^verbatim>\<open>newdrv\<close> and \<^verbatim>\<open>advque\<close> call each other when a drive is not ready, each time for a shorter queue: as many rounds as
  there are requests are enough.
\<close>

fun newdrv :: "nat \<Rightarrow> 'h mw \<Rightarrow> ('h, unit) D" and advque :: "nat \<Rightarrow> 'h mw \<Rightarrow> ('h, unit) D" where
  "newdrv 0 m = Spin m"
| "newdrv (Suc k) m = (case mwque m of
     [] \<Rightarrow> nullref m
   | b # _ \<Rightarrow>
       let d = drive b m;
           m1 = upd_cmd (\<lambda>c. c\<lparr>c_steps := 0, c_seksel := ucast d, c_hedsel := ucast d, c_arg2 := SETTLE, c_arg3 := SECSIZE\<rparr>)
                  (m\<lparr>curdrv := ucast d, mwinfo := unat d\<rparr>)
       in if tst (n_flags (mws m1 (mwinfo m1))) CALIB
          then bnd (load_consts (n_stpdel (mws m1 (mwinfo m1))) m1) (\<lambda>_ m. newrw m)
          else bnd (mwwait (upd_cmd (\<lambda>c. c\<lparr>c_op := STATC\<rparr>) m1)) (\<lambda>_ m.
               if tst (c_stat (cmd m)) NOTRDY then bnd (mwerror m) (\<lambda>_ m. advque k m)
               else bnd (load_consts HOMDEL m) (\<lambda>_ m.
                 Ret () (issue (upd_info (mwinfo m) (\<lambda>i. i\<lparr>n_curtrk := 0, n_flags := n_flags i OR CALIB\<rparr>)
                   (upd_cmd (\<lambda>c. c\<lparr>c_steps := 0xFFFF, c_seksel := c_seksel c OR STEPOUT, c_op := HOME\<rparr>) m))))))"
| "advque k m = (case mwque m of
     [] \<Rightarrow> nullref m
   | b # f \<Rightarrow>
       bnd (onk (iodone b) m) (\<lambda>_ m.
       let m1 = m\<lparr>mwque := f\<rparr> in
       (case f of
          [] \<Rightarrow> mwstop m1
        | n # _ \<Rightarrow> if ucast (curdrv m1) \<noteq> drive n m1 then newdrv k m1 else newrw m1)))"

definition rwint :: "nat \<Rightarrow> 'h mw \<Rightarrow> ('h, unit) D" where
  "rwint k m =
     (let c = cmd m in
      if c_stat c = OK
      then (if c_count c \<le> 512 then advque k m
            else Ret () (rwcmd (upd_cmd (\<lambda>c. c\<lparr>c_count := c_count c - 512, c_dma := c_dma c + 512, c_blk := c_blk c + 1\<rparr>) m)))
      else if c_stat c \<noteq> NOTRDY
      then (let m1 = m\<lparr>retry := retry m - 1\<rparr> in
            if retry m = RETRIES div 2
            then newdrv k (upd_info (mwinfo m1) (\<lambda>i. i\<lparr>n_flags := (n_flags i AND NOT CALIB) OR RECAL\<rparr>) m1)
            else if retry m1 \<noteq> 0 then Ret () (issue (upd_cmd (\<lambda>c. c\<lparr>c_steps := 0\<rparr>) m1))
            else bnd (mwerror m1) (\<lambda>_ m. advque k m))
      else bnd (mwerror m) (\<lambda>_ m. advque k m))"

definition mwint :: "'h mw \<Rightarrow> ('h, unit) D" where
  "mwint m =
     (if mwstate m = STOPPED \<or> mwstate m = INTRPT \<or> c_stat (cmd m) = BUSY then Ret () m
      else
        let m1 = m\<lparr>mwstate := INTRPT\<rparr>; k = Suc (length (mwque m)) in
        if c_op (cmd m1) \<le> WRITES then rwint k m1 else newdrv k m1)"

definition mwcheck :: "'h mw \<Rightarrow> ('h, unit) D" where
  "mwcheck m = bnd (mwcheck_switch m) (\<lambda>_ m. bnd (mwcheck_again m) (\<lambda>_ m.
     if mwstate m = TOOLATE then mwint m else Ret () m))"

section \<open>The entries of the block switch\<close>

text \<open>\<^verbatim>\<open>bsort\<close> of \<^verbatim>\<open>uio.c\<close> on the queue of this driver.\<close>

fun binsert :: "(nat \<Rightarrow> u16) \<Rightarrow> nat \<Rightarrow> nat \<Rightarrow> nat list \<Rightarrow> nat list" where
  "binsert cyl p b [] = [b]"
| "binsert cyl p b (f # fs) =
     (if (cyl p \<le> cyl b \<and> cyl b \<le> cyl f) \<or> (cyl p \<ge> cyl b \<and> cyl b \<ge> cyl f) then b # f # fs
      else f # binsert cyl f b fs)"

definition mwstrat :: "nat \<Rightarrow> 'h mw \<Rightarrow> ('h, unit) D" where
  "mwstrat b m =
     (let x = mws m (unat (drive b m)); blk = b_blk (blist (ks m) b) in
      if blk > n_maxblk x
      then onk (\<lambda>s. iodone b (upd_buf b (\<lambda>y. y\<lparr>b_flags := b_flags y OR BERROR, b_error := ENXIO\<rparr>) s)) m
      else
        let m1 = m\<lparr>bcyl := (bcyl m)(b := mwcyl blk x)\<rparr>;
            m2 = m1\<lparr>mwque := (case mwque m1 of [] \<Rightarrow> [b] | h # fs \<Rightarrow> h # binsert (bcyl m1) h b fs)\<rparr>
        in if mwstate m2 < ACTIVE then mwstart m2 else Ret () m2)"

definition spec_at :: "nat \<Rightarrow> 'h mw \<Rightarrow> spec" where
  "spec_at t m = (if t < length specs then specs ! t else beyond m t)"

definition set_spec :: "u8 \<Rightarrow> spec \<Rightarrow> info \<Rightarrow> info" where
  "set_spec type sp x =
     (let hs = ucast (n_heads sp) * ucast (n_sectors sp) in
      x\<lparr>n_type := type, n_tracks := n_tracks sp, n_heads := n_heads sp, n_sectors := n_sectors sp, n_stpdel := n_stpdel sp,
        n_precomp := n_precomp sp, n_lowcur := n_lowcur sp, n_maxblk := n_tracks sp * hs - 1, n_spc := hs\<rparr>)"

definition mwopen :: "u16 \<Rightarrow> u16 \<Rightarrow> 'h mw \<Rightarrow> ('h, unit) D" where
  "mwopen dev mode m =
     (let d = unat (dev AND 3); type = ucast (drop_bit 2 (minor dev)) :: u8; x = mws m d in
      if d \<ge> NDRIVES then Ret () (m\<lparr>ks := set_error ENXIO (ks m)\<rparr>)
      else if tst (n_flags x) CALIB \<and> n_type x \<noteq> type then Ret () (m\<lparr>ks := set_error ENXIO (ks m)\<rparr>)
      else if tst (n_flags x) MWOPEN then Ret () m
      else
        let m1 = upd_info d (set_spec type (spec_at (unat type) m)) m
        in bnd (onk (bread 1 dev) m1) (\<lambda>b m. case b of
             None \<Rightarrow> Ret () m
           | Some b \<Rightarrow> onk (brelse b) (upd_info d (\<lambda>x. x\<lparr>n_flags := n_flags x OR MWOPEN\<rparr>) m)))"

definition mwclose :: "u16 \<Rightarrow> 'h mw \<Rightarrow> ('h, unit) D" where
  "mwclose dev m =
     (let d = unat (dev AND 3); x = mws m d in
      bnd (onk (bread (n_spc x * drop_bit 1 (n_tracks x)) dev) m) (\<lambda>b m.
      bnd (case b of None \<Rightarrow> Ret () m | Some b \<Rightarrow> onk (\<lambda>s. bnd (brelse b s) (\<lambda>_ s. Ret () (bzero b s))) m) (\<lambda>_ m.
      Ret () (upd_info d (\<lambda>x. x\<lparr>n_flags := n_flags x AND NOT MWOPEN\<rparr>) m))))"

end
