(* ===== verification/Dj.thy ===== *)
theory Dj
  imports Mw
begin

text \<open>
  The driver of the floppy controller (\<^verbatim>\<open>sys/dj.c\<close>, \<^verbatim>\<open>sys/dj.h\<close>). The controller is a parameter \<open>djctl\<close>: started, it carries out the commands in
  \<^verbatim>\<open>djcomm\<close> on the memory and its drives and stores its answers in \<^verbatim>\<open>djcomm\<close>. The memory of the machine is \<open>cmem\<close>, by bank and address; \<open>kbufa\<close> and \<open>delaya\<close> are the
  addresses of \<^verbatim>\<open>kbuf\<close> and \<^verbatim>\<open>delay\<close>. The state contains that of the hard disk driver, with which the bus is shared, and with it the kernel's. The queue from \<^verbatim>\<open>qtail\<close> to \<^verbatim>\<open>qhead\<close> is a list. The function
  numbers of the bus masters are 0 for \<^verbatim>\<open>djint\<close> and 1 for \<^verbatim>\<open>busready\<close>.
\<close>

section \<open>Data\<close>

abbreviation (input) F_WP :: u8 where "F_WP \<equiv> 0x04"
abbreviation (input) ISOPEN :: u8 where "ISOPEN \<equiv> 0x01"
abbreviation (input) ORG1 :: u8 where "ORG1 \<equiv> 0x02"
abbreviation (input) ALT :: u16 where "ALT \<equiv> 0x08"
abbreviation (input) FIVE :: u16 where "FIVE \<equiv> 0x04"
abbreviation (input) KINDS :: u16 where "KINDS \<equiv> 0x78"
abbreviation (input) DOUBSIDE :: u8 where "DOUBSIDE \<equiv> 0x40"
abbreviation (input) GETSTAT :: u16 where "GETSTAT \<equiv> 0x80"
abbreviation (input) DISCARD :: u16 where "DISCARD \<equiv> 0xFF"
abbreviation (input) OKSTAT :: u8 where "OKSTAT \<equiv> 0x40"
abbreviation (input) NOSTAT :: u8 where "NOSTAT \<equiv> 0"
abbreviation (input) BADSTAT :: u8 where "BADSTAT \<equiv> 1"
abbreviation (input) SREAD :: u8 where "SREAD \<equiv> 0x20"
abbreviation (input) SWRITE :: u8 where "SWRITE \<equiv> 0x21"
abbreviation (input) DJSTATUS :: u8 where "DJSTATUS \<equiv> 0x22"
abbreviation (input) SETDMA :: u8 where "SETDMA \<equiv> 0x23"
abbreviation (input) SETINT :: u8 where "SETINT \<equiv> 0x24"
abbreviation (input) HALT :: u8 where "HALT \<equiv> 0x25"
abbreviation (input) MEMREAD :: u8 where "MEMREAD \<equiv> 0xA0"
abbreviation (input) MEMWRITE :: u8 where "MEMWRITE \<equiv> 0xA1"
abbreviation (input) DJEXEC :: u8 where "DJEXEC \<equiv> 0xA2"
abbreviation (input) VERSO :: u8 where "VERSO \<equiv> 0x80"
abbreviation (input) HARD :: u8 where "HARD \<equiv> 0x02"
abbreviation (input) SIDE2 :: u8 where "SIDE2 \<equiv> 0x04"
abbreviation (input) S_WP :: u8 where "S_WP \<equiv> 0x40"
abbreviation (input) TABADDR :: u16 where "TABADDR \<equiv> 0x1340"
abbreviation (input) DJINTERVAL :: u16 where "DJINTERVAL \<equiv> 80"
abbreviation (input) KBANK :: u8 where "KBANK \<equiv> 0"

record fspec =
  f_config :: u8
  f_ds :: u8
  f_spt :: u8
  f_cylinder :: u8
  f_spb :: u8
  f_ncyl :: u8
  f_toff :: u8
  f_bps :: u16
  f_volume :: u16

definition fs :: "u8 \<Rightarrow> u8 \<Rightarrow> u8 \<Rightarrow> u8 \<Rightarrow> u8 \<Rightarrow> u8 \<Rightarrow> u8 \<Rightarrow> u16 \<Rightarrow> u16 \<Rightarrow> fspec" where
  "fs c d s y b n t p v = \<lparr>f_config = c, f_ds = d, f_spt = s, f_cylinder = y, f_spb = b, f_ncyl = n, f_toff = t, f_bps = p, f_volume = v\<rparr>"

definition fspecs :: "fspec list" where
  "fspecs =
     [fs 0 0 26 26 4 77 2 128 1950, fs 0 0 26 26 2 77 2 256 1950, fs 0 0 15 15 1 77 2 512 1125, fs 0 0 8 8 1 77 2 1024 600,
      fs 0 1 26 52 4 77 2 128 3900, fs 0 1 26 52 2 77 2 256 3900, fs 0 1 15 30 1 77 2 512 2250, fs 0 1 8 16 1 77 2 1024 1200,
      fs 0x90 0 10 10 1 35 2 512 330, fs 0xF0 1 10 20 1 35 2 512 660, fs 0xB0 0 10 10 1 35 2 512 330, fs 0x10 0 10 10 2 35 3 256 320,
      fs 0xA0 0 10 10 1 40 2 512 380, fs 0xC0 0 10 10 1 80 2 512 780, fs 0xD0 1 10 20 1 40 2 512 760, fs 0xE0 1 10 20 1 80 2 512 1560,
      fs 0 0 18 18 4 40 0 128 720, fs 0 0 10 10 2 40 0 256 400, fs 0 0 8 8 1 40 0 512 320, fs 0 0 5 5 1 40 0 1024 200, fs 0 0 9 9 1 40 0 512 360,
      fs 0 1 18 36 4 40 0 128 1440, fs 0 1 10 20 2 40 0 256 800, fs 0 1 8 16 1 40 0 512 640, fs 0 1 5 10 1 40 0 1024 400, fs 0 1 9 18 1 40 0 512 720,
      fs 10 0 0 0 0 0 0 0 0]"

record dm =
  d_specs :: nat
  d_flags :: u8

text \<open>The variables of \<^verbatim>\<open>djint\<close>, which keep their values from one interrupt to the next, have names with \<open>j\<close>; \<open>sa\<close> is the static variable of \<^verbatim>\<open>djstty\<close> (an index of \<^verbatim>\<open>djcomm\<close>), \<open>ma\<close> and \<open>mb\<close> those of \<^verbatim>\<open>djmio\<close>.\<close>

record ('g, 'h) dj =
  mwst :: "'g mw"
  djcomm :: "nat \<Rightarrow> u8"
  kw :: bool
  haltstat :: "nat option"
  djtimer :: u8
  djtaken :: bool
  kdev :: u16
  ksec :: u16
  dms :: "nat \<Rightarrow> dm"
  curbuf :: "nat option"
  dque :: "nat list"
  inservice :: bool
  jop :: u8
  jspb :: u8
  jaddr :: u16
  jxaddr :: u16
  jsec :: u16
  joff :: u16
  jblk :: u16
  jbps :: u16
  jcount :: u16
  jtogo :: u16
  jdev :: u16
  jd :: nat
  jsp :: nat
  sa :: nat
  ma :: u16
  mb :: u16
  running :: bool
  cmem :: "u8 \<Rightarrow> u16 \<Rightarrow> u8"
  kbufa :: u16
  delaya :: u16
  djhw :: 'h
  djctl :: "(nat \<Rightarrow> u8) \<Rightarrow> (u8 \<Rightarrow> u16 \<Rightarrow> u8) \<Rightarrow> 'h \<Rightarrow> (nat \<Rightarrow> u8) \<times> (u8 \<Rightarrow> u16 \<Rightarrow> u8) \<times> 'h"

type_synonym ('g, 'h, 'a) J = "(('g, 'h) dj, chan, 'a) outcome"

definition dks :: "('g, 'h) dj \<Rightarrow> kst" where
  "dks s = ks (mwst s)"

definition upd_dks :: "(kst \<Rightarrow> kst) \<Rightarrow> ('g, 'h) dj \<Rightarrow> ('g, 'h) dj" where
  "upd_dks f s = s\<lparr>mwst := (mwst s)\<lparr>ks := f (dks s)\<rparr>\<rparr>"

definition onmw :: "('g mw \<Rightarrow> ('g, 'a) D) \<Rightarrow> ('g, 'h) dj \<Rightarrow> ('g, 'h, 'a) J" where
  "onmw f s = (case f (mwst s) of Ret x m \<Rightarrow> Ret x (s\<lparr>mwst := m\<rparr>) | Slept c p m \<Rightarrow> Slept c p (s\<lparr>mwst := m\<rparr>)
     | Panic t m \<Rightarrow> Panic t (s\<lparr>mwst := m\<rparr>) | Spin m \<Rightarrow> Spin (s\<lparr>mwst := m\<rparr>))"

definition onkd :: "(kst \<Rightarrow> 'a K) \<Rightarrow> ('g, 'h) dj \<Rightarrow> ('g, 'h, 'a) J" where
  "onkd f s = onmw (onk f) s"

definition setD :: "(nat \<times> u8) list \<Rightarrow> ('g, 'h) dj \<Rightarrow> ('g, 'h) dj" where
  "setD xs s = s\<lparr>djcomm := fold (\<lambda>(i, v) c. c(i := v)) xs (djcomm s)\<rparr>"

definition lo :: "u16 \<Rightarrow> u8" where "lo w = ucast w"
definition hi :: "u16 \<Rightarrow> u8" where "hi w = ucast (drop_bit 8 w)"

text \<open>\<^verbatim>\<open>copy\<close> within the bank of the kernel.\<close>

definition kcopy :: "u16 \<Rightarrow> u16 \<Rightarrow> u16 \<Rightarrow> ('g, 'h) dj \<Rightarrow> ('g, 'h) dj" where
  "kcopy src dst n s =
     s\<lparr>cmem := (cmem s)(KBANK := (\<lambda>a. if a - dst < n then cmem s KBANK (src + (a - dst)) else cmem s KBANK a))\<rparr>"

definition kbuf :: "('g, 'h) dj \<Rightarrow> nat \<Rightarrow> u8" where
  "kbuf s i = cmem s KBANK (kbufa s + of_nat i)"

section \<open>Starting the controller\<close>

definition djstart :: "('g, 'h) dj \<Rightarrow> ('g, 'h) dj" where
  "djstart s = (case haltstat s of None \<Rightarrow> s | Some i \<Rightarrow> s\<lparr>djcomm := (djcomm s)(i := NOSTAT)\<rparr>)\<lparr>running := True\<rparr>"

definition djrun :: "('g, 'h) dj \<Rightarrow> ('g, 'h) dj" where
  "djrun s = (if running s then let (c, m, h) = djctl s (djcomm s) (cmem s) (djhw s) in s\<lparr>djcomm := c, cmem := m, djhw := h, running := False\<rparr> else s)"

text \<open>The loop of \<^verbatim>\<open>djwait\<close> gives up after 65535 rounds: the driver goes on whether the status has changed or not.\<close>

definition djwait :: "('g, 'h) dj \<Rightarrow> ('g, 'h) dj" where
  "djwait s = djrun s"

definition djack :: "('g, 'h) dj \<Rightarrow> ('g, 'h) dj" where
  "djack s = (if haltstat s = None then s else (djwait (djstart s))\<lparr>haltstat := None\<rparr>)"

definition readone :: "('g, 'h) dj \<Rightarrow> ('g, 'h) dj" where
  "readone s = djwait (djstart (setD [(6, NOSTAT)] s))"

definition memio :: "bool \<Rightarrow> u16 \<Rightarrow> u16 \<Rightarrow> u16 \<Rightarrow> ('g, 'h) dj \<Rightarrow> ('g, 'h) dj" where
  "memio rd memaddr djaddr n s =
     djwait (djstart (setD [(0, if rd then MEMREAD else MEMWRITE), (1, lo memaddr), (2, hi memaddr), (3, KBANK), (4, lo n), (5, hi n),
       (6, lo djaddr), (7, hi djaddr), (8, HALT), (9, NOSTAT)] s))"

definition sio_track :: "fspec \<Rightarrow> u16 \<Rightarrow> u8" where
  "sio_track sp sec = ucast (sec div ucast (f_cylinder sp)) + f_toff sp"

definition sio_sector :: "fspec \<Rightarrow> bool \<Rightarrow> bool \<Rightarrow> u16 \<Rightarrow> u8" where
  "sio_sector sp alt org1 sec =
     (let spt = f_spt sp; b0 = ucast (sec mod ucast spt) :: u8;
          b1 = (if alt then let d = push_bit 1 b0; e = (if \<not> tst spt 1 \<and> d \<ge> spt then d + 1 else d) in e mod spt else b0);
          b2 = (if org1 then b1 + 1 else b1)
      in if f_ds sp \<noteq> 0 \<and> sec mod ucast (f_cylinder sp) \<ge> ucast spt then b2 OR VERSO else b2)"

definition sio :: "nat \<Rightarrow> u16 \<Rightarrow> u16 \<Rightarrow> u8 \<Rightarrow> u16 \<Rightarrow> u16 \<Rightarrow> ('g, 'h) dj \<Rightarrow> ('g, 'h) dj" where
  "sio d addr xaddr op sec dev s =
     (let sp = fspecs ! d_specs (dms s d) in
      (setD [(0, SETDMA), (1, lo addr), (2, hi addr), (3, ucast xaddr), (4, op), (5, sio_track sp sec),
         (6, sio_sector sp (tst dev ALT) (tst (d_flags (dms s d)) ORG1) sec), (7, ucast (dev AND 7)), (8, NOSTAT), (9, SETINT), (10, NOSTAT), (11, HALT)] s)
       \<lparr>haltstat := Some 12\<rparr>)"

section \<open>Drive status\<close>

definition delays :: "(u16 \<times> u16) list" where
  "delays = [(272, 272), (102, 511), (272, 272), (272, 272), (170, 511), (682, 682), (1364, 341), (170, 511)]"

definition djtype :: "u16 \<Rightarrow> u16" where
  "djtype a = (drop_bit 4 a AND 3) + (if tst a FIVE then 4 else 0)"

definition set_delays :: "u16 \<Rightarrow> ('g, 'h) dj \<Rightarrow> ('g, 'h) dj" where
  "set_delays a s =
     (let d = delaya s + 4 * djtype a; tab = TABADDR + push_bit 4 (a AND 7)
      in memio False (d + 2) (tab + 10) 2 (memio False d (tab + 4) 2 s))"

definition getstat_ask :: "u16 \<Rightarrow> ('g, 'h) dj \<Rightarrow> ('g, 'h) dj" where
  "getstat_ask a s =
     djwait (djstart (setD [(0, SETDMA), (1, lo (kbufa s)), (2, hi (kbufa s)), (3, KBANK), (4, SREAD), (5, 3), (6, 1), (7, ucast a), (8, NOSTAT),
       (9, DJSTATUS), (10, ucast a), (14, NOSTAT), (15, HALT), (16, NOSTAT)] s))"

text \<open>The status overlays \<^verbatim>\<open>djcomm\<close>: sectors per track at 8, configuration at 9, characteristics at 11, sector length at 12, drive status at 13.\<close>

definition kxor :: "('g, 'h) dj \<Rightarrow> u8" where
  "kxor s = fold (\<lambda>i v. v XOR kbuf s i) [80..<105] 0"

definition getstat_hard :: "('g, 'h) dj \<Rightarrow> bool \<times> ('g, 'h) dj" where
  "getstat_hard s = (let s1 = readone s in if djcomm s1 4 \<noteq> OKSTAT then (False, s1) else (True, setD [(9, kbuf s1 0x5C)] s1))"

definition getstat_ibm :: "('g, 'h) dj \<Rightarrow> bool \<times> ('g, 'h) dj" where
  "getstat_ibm s =
     (let s1 = readone (setD [(2, 2)] s); k = kbuf s1 0 in
      if djcomm s1 4 = OKSTAT \<and> kbuf s1 1 = 0xFF \<and> kbuf s1 2 = 0xFF \<and> k AND 0xFC = 0xFC
      then (True, setD ((if tst k 1 then [(9, DOUBSIDE)] else []) @ (if \<not> tst k 2 then [(8, 9)] else [])) s1)
      else
        let s2 = readone (setD [(2, 9)] s1)
        in (True, if djcomm s2 4 = OKSTAT then setD [(8, 9)] s2 else s2))"

definition getstat_morrow :: "('g, 'h) dj \<Rightarrow> bool \<times> ('g, 'h) dj" where
  "getstat_morrow s =
     (let s1 = readone (setD [(2, 1)] s)
      in (True, if tst (kbuf s1 0x81) 4 \<and> kxor s1 = 0 then setD [(9, DOUBSIDE)] s1 else s1))"

definition getstat :: "u16 \<Rightarrow> ('g, 'h) dj \<Rightarrow> bool \<times> ('g, 'h) dj" where
  "getstat dev s =
     (let a = dev AND 7; s1 = getstat_ask a (set_delays dev (s\<lparr>kdev := 0xFFFF\<rparr>)) in
      if djcomm s1 14 \<noteq> OKSTAT then (False, s1)
      else
        let s2 = setD [(8, 8), (0, SREAD), (1, 0), (2, 0), (3, ucast a), (5, HALT)] s1 in
        if tst (djcomm s2 11) HARD then getstat_hard s2
        else if djcomm s2 12 = 2 \<and> tst a FIVE then getstat_ibm s2
        else if djcomm s2 12 = 3 \<and> tst a FIVE then getstat_morrow s2
        else (True, s2))"

section \<open>Interrupts\<close>

text \<open>The bus, given away: \<^verbatim>\<open>busready\<close> wakes the process that asked for it.\<close>

definition djget :: "nat \<Rightarrow> ('g, 'h) dj \<Rightarrow> bool \<times> ('g, 'h) dj" where
  "djget i s = (let (r, m) = busget (OtherStart i) (mwst s) in (r, s\<lparr>mwst := m\<rparr>))"

definition djgive :: "nat option \<Rightarrow> ('g, 'h) dj \<Rightarrow> ('g, 'h, bool) J" where
  "djgive f s =
     (let heir = busnext (mwst s) in
      bnd (onmw (busgive (map_option OtherStart f)) s) (\<lambda>r s.
      if heir = Some (OtherStart 1) then bnd (onkd (wakeup (ChDj 1)) s) (\<lambda>_ s. Ret r s) else Ret r s))"

text \<open>\<^verbatim>\<open>djint\<close> jumps between labels; a label stands for the code from there to the next jump, and \<open>LDone\<close> for the return.\<close>

datatype lab = LFail | LBerr | LFinished | LKread | LSecdone | LKwrite | LRequest | LRange | LNextsec | LGo | LDone

definition upd_cur :: "(buf \<Rightarrow> buf) \<Rightarrow> ('g, 'h) dj \<Rightarrow> ('g, 'h) dj" where
  "upd_cur f s = (case curbuf s of None \<Rightarrow> s | Some b \<Rightarrow> upd_dks (upd_buf b f) s)"

definition lfinished :: "('g, 'h) dj \<Rightarrow> ('g, 'h, lab) J" where
  "lfinished s = (case curbuf s of
     None \<Rightarrow> Panic ''null curbuf'' s
   | Some b \<Rightarrow>
       bnd (onkd (iodone b) s) (\<lambda>_ s.
       let s1 = djack (s\<lparr>curbuf := None\<rparr>) in
       if dque s1 = [] then Ret LRequest s1
       else bnd (djgive (Some 0) s1) (\<lambda>given s.
         let (got, s2) = (if given then (False, s) else djget 0 s) in
         if given \<or> \<not> got then Ret LDone (s2\<lparr>inservice := False\<rparr>) else Ret LRequest s2)))"

definition lrequest_rw :: "nat \<Rightarrow> ('g, 'h) dj \<Rightarrow> lab \<times> ('g, 'h) dj" where
  "lrequest_rw b s =
     (let d = unat (jdev s AND 7); x = blist (dks s) b; s1 = s\<lparr>jd := d\<rparr> in
      if \<not> tst (d_flags (dms s1 d)) ISOPEN then (LFail, s1)
      else
        let sp = fspecs ! d_specs (dms s1 d);
            s2 = s1\<lparr>jsp := d_specs (dms s1 d), jcount := b_count x, jblk := b_blk x\<rparr> in
        if jblk s2 > 3000 then (LRange, s2)
        else
          let bps = f_bps sp; togo0 = (if b_count x < bps then b_count x else bps);
              (sec, off, togo) =
                (if bps = 1024
                 then (drop_bit 1 (b_blk x), if tst (b_blk x) 1 then 512 else 0, if tst (b_blk x) 1 \<and> togo0 > 512 then 512 else togo0)
                 else (b_blk x * ucast (f_spb sp), 0, togo0));
              op = (if tst (b_flags x) BREAD then SREAD else SWRITE);
              s3 = s2\<lparr>jbps := bps, jspb := f_spb sp, jsec := sec, joff := off, jtogo := togo, jop := op\<rparr> in
          if op = SWRITE \<and> tst (d_flags (dms s3 d)) F_WP then (LFail, s3)
          else (LNextsec, s3\<lparr>jaddr := baddr (mwst s3) b, jxaddr := ucast (bxmem (mwst s3) b)\<rparr>))"

definition lrequest :: "('g, 'h) dj \<Rightarrow> ('g, 'h, lab) J" where
  "lrequest s = (case dque s of
     [] \<Rightarrow> bnd (djgive None (s\<lparr>inservice := False\<rparr>)) (\<lambda>_ s. Ret LDone s)
   | b # q \<Rightarrow>
       let s1 = s\<lparr>curbuf := Some b, dque := q, jdev := b_dev (blist (dks s) b)\<rparr> in
       if tst (jdev s1) GETSTAT then
         (let (ok, s2) = getstat (jdev s1) s1 in
          if ok then Ret LFinished (s2\<lparr>cmem := (cmem s2)(KBANK := (\<lambda>a. let i = a - baddr (mwst s2) b in
              if i < 15 then djcomm s2 (unat i) else cmem s2 KBANK a))\<rparr>)
          else Ret LFail s2)
       else (let (l, s2) = lrequest_rw b s1 in Ret l s2))"

definition lnextsec :: "('g, 'h) dj \<Rightarrow> lab \<times> ('g, 'h) dj" where
  "lnextsec s =
     (if jsec s \<ge> f_volume (fspecs ! jsp s) then (LRange, s)
      else if joff s = 0 \<and> jbps s \<le> jcount s then (LGo, sio (jd s) (jaddr s) (jxaddr s) (jop s) (jsec s) (jdev s) s)
      else if ksec s \<noteq> jsec s \<or> kdev s \<noteq> jdev s
      then (LGo, (sio (jd s) (kbufa s) (ucast KBANK) SREAD (jsec s) (jdev s) (s\<lparr>kdev := 0xFFFF\<rparr>))\<lparr>kw := False\<rparr>)
      else if jop s = SREAD then (LKread, s) else (LKwrite, s))"

definition lsecdone :: "('g, 'h) dj \<Rightarrow> lab \<times> ('g, 'h) dj" where
  "lsecdone s =
     (let s1 = s\<lparr>jcount := jcount s - jtogo s\<rparr> in
      if jcount s1 \<noteq> 0 then (LNextsec, djack (s1\<lparr>jaddr := jaddr s1 + jtogo s1, jsec := jsec s1 + 1, joff := 0\<rparr>))
      else (LFinished, s1))"

definition lkwrite :: "('g, 'h) dj \<Rightarrow> ('g, 'h, lab) J" where
  "lkwrite s = (case curbuf s of
     None \<Rightarrow> Panic ''null curbuf'' s
   | Some b \<Rightarrow>
       let s1 = djack (kcopy (baddr (mwst s) b) (kbufa s + joff s) (jtogo s) s)
       in Ret LGo ((sio (jd s1) (kbufa s1) (ucast KBANK) SWRITE (ksec s1) (jdev s1) s1)\<lparr>kw := True\<rparr>))"

definition lret :: "lab \<times> ('g, 'h) dj \<Rightarrow> ('g, 'h, lab) J" where
  "lret x = Ret (fst x) (snd x)"

primrec djlab :: "lab \<Rightarrow> ('g, 'h) dj \<Rightarrow> ('g, 'h, lab) J" where
  "djlab LFail s = Ret LBerr (upd_cur (\<lambda>x. x\<lparr>b_error := EIO\<rparr>) s)"
| "djlab LBerr s = Ret LFinished (upd_cur (\<lambda>x. x\<lparr>b_flags := b_flags x OR BERROR\<rparr>) s)"
| "djlab LFinished s = lfinished s"
| "djlab LKread s = Ret LSecdone (kcopy (kbufa s + joff s) (jaddr s) (jtogo s) s)"
| "djlab LSecdone s = lret (lsecdone s)"
| "djlab LKwrite s = lkwrite s"
| "djlab LRequest s = lrequest s"
| "djlab LRange s = Ret LBerr (upd_cur (\<lambda>x. x\<lparr>b_error := ENXIO\<rparr>) s)"
| "djlab LNextsec s = lret (lnextsec s)"
| "djlab LGo s = Ret LDone ((djstart s)\<lparr>inservice := False\<rparr>)"
| "djlab LDone s = Ret LDone s"

partial_function (option) djloop :: "lab \<Rightarrow> ('g, 'h) dj \<Rightarrow> ('g, 'h, unit) J option" where
  "djloop l s = (if l = LDone then Some (Ret () s) else obnd (djlab l s) djloop)"

text \<open>Where \<^verbatim>\<open>djint\<close> goes when an operation is under way.\<close>

definition djresume :: "('g, 'h) dj \<Rightarrow> lab \<times> ('g, 'h) dj" where
  "djresume s = (case curbuf s of
     None \<Rightarrow> (LRequest, s)
   | Some b \<Rightarrow>
       if djcomm s 8 \<noteq> OKSTAT then (LFail, s)
       else if joff s = 0 \<and> jbps s \<le> jcount s then (LSecdone, s)
       else
         let s1 = (if \<not> kw s then s\<lparr>kdev := jdev s, ksec := jsec s\<rparr> else s) in
         if tst (b_flags (blist (dks s1) b)) BREAD then (LKread, s1)
         else if kw s1 then (LFinished, s1) else (LKwrite, s1))"

definition djint :: "('g, 'h) dj \<Rightarrow> ('g, 'h, unit) J" where
  "djint s =
     (if djtaken s then onkd (wakeup (ChDj 0)) (djack s)
      else if inservice s \<or> (curbuf s \<noteq> None \<and> djcomm s 10 = NOSTAT) \<or> (curbuf s = None \<and> dque s = []) then Ret () s
      else
        let (got, s1) = djget 0 s in
        if \<not> got then Ret () s1
        else (let (l, s2) = djresume (s1\<lparr>inservice := True, djtimer := 0\<rparr>) in spin (djloop l s2) s2))"

definition djstrat :: "nat \<Rightarrow> ('g, 'h) dj \<Rightarrow> ('g, 'h, unit) J" where
  "djstrat b s = djint (s\<lparr>dque := dque s @ [b]\<rparr>)"

text \<open>The watchdog. The time-out slots hold the function number 2 for \<^verbatim>\<open>djgoose\<close>.\<close>

definition djgoose :: "('g, 'h) dj \<Rightarrow> ('g, 'h, unit) J" where
  "djgoose s =
     (let s1 = (if haltstat s \<noteq> None then s\<lparr>djtimer := djtimer s + 1\<rparr> else s) in
      bnd (if haltstat s \<noteq> None \<and> djtimer s1 \<ge> 2 then djint (setD [(8, BADSTAT), (10, OKSTAT)] s1) else Ret () s1) (\<lambda>_ s.
      case timeout 2 0 DJINTERVAL (tlist (mwst s)) of
        None \<Rightarrow> Panic ''Timeout slots are full'' s | Some ts \<Rightarrow> Ret () (s\<lparr>mwst := (mwst s)\<lparr>tlist := ts\<rparr>\<rparr>)))"

definition busready :: "('g, 'h) dj \<Rightarrow> ('g, 'h, unit) J" where
  "busready s = onkd (wakeup (ChDj 1)) s"

text \<open>A routine of \<^verbatim>\<open>mw.c\<close>, with the routine of this driver that it invokes when it hands over the bus.\<close>

definition mwcall :: "('g mw \<Rightarrow> ('g, 'a) D) \<Rightarrow> ('g, 'h) dj \<Rightarrow> ('g, 'h, 'a) J" where
  "mwcall f s =
     bnd (onmw f s) (\<lambda>r s1. case drop (length (called (mwst s))) (called (mwst s1)) of
       [] \<Rightarrow> Ret r s1 | i # _ \<Rightarrow> bnd (if i = 0 then djint s1 else busready s1) (\<lambda>_ s. Ret r s))"

section \<open>Opening and closing\<close>

definition djerror :: "u8 \<Rightarrow> ('g, 'h) dj \<Rightarrow> ('g, 'h) dj" where
  "djerror e s = upd_dks (set_error e) s"

definition upd_dm :: "nat \<Rightarrow> (dm \<Rightarrow> dm) \<Rightarrow> ('g, 'h) dj \<Rightarrow> ('g, 'h) dj" where
  "upd_dm d f s = s\<lparr>dms := (dms s)(d := f (dms s d))\<rparr>"

definition djbusy :: "('g, 'h) dj \<Rightarrow> ('g, 'h) dj" where
  "djbusy s = djerror EBUSY s"

definition djclose :: "u16 \<Rightarrow> ('g, 'h) dj \<Rightarrow> ('g, 'h) dj" where
  "djclose dev s =
     (let s1 = upd_dm (unat (dev AND 7)) (\<lambda>d. d\<lparr>d_flags := 0\<rparr>) s in if dev = kdev s1 then s1\<lparr>kdev := 0xFFFF\<rparr> else s1)"

text \<open>
  The part of \<^verbatim>\<open>djopen\<close> that finds the entry of the table for the status \<open>st\<close>: for a hard sectored diskette the last entry with its configuration byte, before
  the end of the table; otherwise by the length of its sectors.
\<close>

fun djfind :: "u8 \<Rightarrow> fspec list \<Rightarrow> nat \<Rightarrow> nat \<Rightarrow> nat" where
  "djfind c [] i r = r"
| "djfind c (sp # sps) i r = (if f_config sp = 10 then r else djfind c sps (Suc i) (if f_config sp = c then i else r))"

definition djspec :: "u16 \<Rightarrow> bytes \<Rightarrow> nat" where
  "djspec dev st =
     (if tst (st 11) HARD then (if st 9 \<noteq> 0 then djfind (st 9) fspecs 0 8 else 8)
      else unat (st 12 AND 3) +
        (if tst dev FIVE then 16 + (if tst dev (ucast DOUBSIDE) \<or> st 9 = DOUBSIDE then 5 else 0) else if tst (st 13) SIDE2 then 4 else 0) +
        (if st 8 = 9 \<and> st 12 = 2 then 2 else 0))"

definition djopen_end :: "u16 \<Rightarrow> u16 \<Rightarrow> nat \<Rightarrow> ('g, 'h) dj \<Rightarrow> ('g, 'h, unit) J" where
  "djopen_end dev mode b s =
     (let d = unat (dev AND 7);
          s1 = upd_dks (upd_buf b (\<lambda>x. x\<lparr>b_dev := b_dev x OR DISCARD\<rparr>)) s;
          st = bdat b (dks s1);
          s2 = upd_dm d (\<lambda>x. x\<lparr>d_flags := (if tst (st 13) S_WP then d_flags x OR F_WP else d_flags x AND NOT F_WP)\<rparr>) s1 in
      if tst (st 13) S_WP \<and> mode \<noteq> 0 then Ret () (djerror EIO s2)
      else
        let s3 = (if tst (st 11) HARD then s2 else upd_dm d (\<lambda>x. x\<lparr>d_flags := d_flags x OR ORG1\<rparr>) s2); sp = djspec dev st in
        bnd (onkd (brelse b) s3) (\<lambda>_ s.
        if tst (d_flags (dms s d)) ISOPEN \<and> sp \<noteq> d_specs (dms s d) then Ret () (djerror EIO (djclose dev s))
        else Ret () (upd_dm d (\<lambda>x. x\<lparr>d_specs := sp, d_flags := d_flags x OR (ISOPEN OR ucast (dev AND KINDS))\<rparr>) s)))"

definition djopen :: "u16 \<Rightarrow> u16 \<Rightarrow> ('g, 'h) dj \<Rightarrow> ('g, 'h, unit) J" where
  "djopen dev mode s =
     (let x = dms s (unat (dev AND 7)) in
      if djtaken s \<or> tst (d_flags x) ISOPEN \<and> dev AND KINDS \<noteq> ucast (d_flags x) AND KINDS then Ret () (djbusy s)
      else bnd (onkd (bread 0 (dev OR GETSTAT)) s) (\<lambda>b s. case b of
        None \<Rightarrow> Ret () (djerror EIO s) | Some b \<Rightarrow> djopen_end dev mode b s))"

section \<open>The memory of the controller\<close>

definition djmclose :: "('g, 'h) dj \<Rightarrow> ('g, 'h) dj" where
  "djmclose s = s\<lparr>djtaken := False\<rparr>"

definition djmopen :: "('g, 'h) dj \<Rightarrow> ('g, 'h) dj" where
  "djmopen s =
     (if curbuf s \<noteq> None \<or> (\<exists>i \<in> set [0..<8]. tst (d_flags (dms s i)) ISOPEN) then djbusy s else s\<lparr>djtaken := True\<rparr>)"

definition busplease :: "('g, 'h) dj \<Rightarrow> ('g, 'h, unit) J" where
  "busplease s = (let (got, s1) = djget 1 s in if got then Ret () s1 else onkd (sleep (ChDj 1) PRIBIO) s1)"

definition busthanks :: "('g, 'h) dj \<Rightarrow> ('g, 'h, unit) J" where
  "busthanks s = bnd (mwcall (busgive None) s) (\<lambda>_ s. Ret () s)"

text \<open>\<^verbatim>\<open>djstty\<close> asks for the bus, gives its command with \<open>djstty_go\<close> and sleeps, and ends with \<open>djstty_end\<close> after the interrupt.\<close>

definition djstty_go :: "bool \<Rightarrow> ('g, 'h) dj \<Rightarrow> ('g, 'h, unit) J" where
  "djstty_go rd s =
     (let (b, k) = iomove_write (\<lambda>_. 0) 0 2 (dks s); s1 = upd_dks (\<lambda>_. k) s;
          s2 = (if rd then (setD [(0, DJSTATUS), (1, b 0), (6, SETINT), (8, HALT)] s1)\<lparr>sa := 2, haltstat := Some 9\<rparr>
                else (setD [(0, DJEXEC), (1, b 0), (2, b 1), (4, SETINT), (6, HALT)] s1)\<lparr>sa := 3, haltstat := Some 7\<rparr>)
      in onkd (sleep (ChDj 0) PRIBIO) (djstart (s2\<lparr>djtimer := 0\<rparr>)))"

definition djstty_end :: "('g, 'h) dj \<Rightarrow> ('g, 'h, unit) J" where
  "djstty_end s = bnd (busthanks s) (\<lambda>_ s. Ret () (upd_dks (iomove_read (djcomm s) (sa s) 4) s))"

definition djstty :: "bool \<Rightarrow> ('g, 'h) dj \<Rightarrow> ('g, 'h, unit) J" where
  "djstty rd s = bnd (busplease s) (\<lambda>_ s. bnd (djstty_go rd s) (\<lambda>_ s. djstty_end s))"

definition kfill :: "bytes \<Rightarrow> u16 \<Rightarrow> ('g, 'h) dj \<Rightarrow> ('g, 'h) dj" where
  "kfill b n s = s\<lparr>cmem := (cmem s)(KBANK := (\<lambda>a. let i = a - kbufa s in if i < n then b (unat i) else cmem s KBANK a))\<rparr>"

definition djmio_end :: "bool \<Rightarrow> ('g, 'h) dj \<Rightarrow> ('g, 'h, unit) J" where
  "djmio_end rd s =
     bnd (busthanks (memio rd (kbufa s) (ma s) (mb s) s)) (\<lambda>_ s.
     Ret () (if rd then upd_dks (iomove_read (kbuf s) 0 (mb s)) s else s))"

definition djmio :: "bool \<Rightarrow> ('g, 'h) dj \<Rightarrow> ('g, 'h, unit) J" where
  "djmio rd s =
     (let s1 = s\<lparr>ma := ucast (u_offset (u (dks s))), mb := u_count (u (dks s))\<rparr> in
      if mb s1 > 1024 then Ret () (djerror EINVAL s1)
      else
        let s2 = (if rd then s1 else let (b, k) = iomove_write (\<lambda>_. 0) 0 (mb s1) (dks s1) in kfill b (mb s1) (upd_dks (\<lambda>_. k) s1))
        in bnd (busplease s2) (\<lambda>_ s. djmio_end rd s))"

end
