(* ===== verification/Disk.thy ===== *)
theory Disk
  imports Mw
begin

text \<open>
  Theorems about the hard disk driver: block numbers and sectors correspond one to one; as long as no drive asked for its status is not ready,
  in whatever order requests, interrupts and time-outs come and however the commands end, a transfer is only ordered with the arm on the right cylinder.
\<close>

section \<open>Geometry\<close>

lemma unat_ucast_8_16: "unat (ucast (w :: u8) :: u16) = unat w"
  using unsigned_less [of w, where 'a = nat] by (simp add: unsigned_ucast_eq take_bit_eq_mod)

text \<open>The configuration \<^verbatim>\<open>mwopen\<close> makes of a drive type.\<close>

definition geom_ok :: "info \<Rightarrow> bool" where
  "geom_ok x \<longleftrightarrow> 0 < n_heads x \<and> 0 < n_sectors x \<and> 0 < n_tracks x \<and> unat (n_tracks x) < 32768 \<and>
     unat (n_spc x) = unat (n_heads x) * unat (n_sectors x) \<and>
     Suc (unat (n_maxblk x)) = unat (n_tracks x) * unat (n_spc x)"

definition head_of :: "u16 \<Rightarrow> info \<Rightarrow> u16" where
  "head_of blk x = blk mod n_spc x div ucast (n_sectors x)"

definition sector_of :: "u16 \<Rightarrow> info \<Rightarrow> u16" where
  "sector_of blk x = blk mod n_spc x mod ucast (n_sectors x)"

definition place_of :: "u16 \<Rightarrow> info \<Rightarrow> nat \<times> nat \<times> nat" where
  "place_of blk x = (unat (mwcyl blk x), unat (head_of blk x), unat (sector_of blk x))"

lemma rot_inj:
  fixes a b t h :: nat
  assumes "a < t" "b < t" "h < t" "(a + h) mod t = (b + h) mod t"
  shows "a = b"
proof -
  have m: "(c + h) mod t = (if c + h < t then c + h else c + h - t)" if "c < t" for c using that assms(3) by (simp add: mod_if)
  show ?thesis using assms(1,2,4) unfolding m [OF assms(1)] m [OF assms(2)] by (simp split: if_splits)
qed

lemma mwcyl_unat:
  assumes g: "geom_ok x" and b: "blk \<le> n_maxblk x"
  shows "unat (mwcyl blk x) = (unat blk div unat (n_spc x) + unat (n_tracks x) div 2) mod unat (n_tracks x)"
    "unat blk div unat (n_spc x) < unat (n_tracks x)"
proof -
  let ?t = "unat (n_tracks x)" and ?q = "unat blk div unat (n_spc x)"
  from g b have t: "?t < 32768" "unat blk < ?t * unat (n_spc x)" "0 < unat (n_spc x)" "0 < ?t"
    by (auto simp: geom_ok_def word_le_nat_alt word_gt_0 unat_gt_0)
  show q: "?q < ?t" using t by (simp add: div_less_iff_less_mult)
  have c: "unat (blk div n_spc x + drop_bit 1 (n_tracks x)) = ?q + ?t div 2"
    using q t(1) by (simp add: unat_word_ariths unat_div_distrib unat_drop_bit_eq drop_bit_eq_div)
  show "unat (mwcyl blk x) = (?q + ?t div 2) mod ?t"
    using q t(4) c by (auto simp: mwcyl_def Let_def word_le_nat_alt unat_sub mod_if)
qed

lemma place_of_bounds:
  assumes g: "geom_ok x" and b: "blk \<le> n_maxblk x"
  shows "place_of blk x \<in> {..<unat (n_tracks x)} \<times> {..<unat (n_heads x)} \<times> {..<unat (n_sectors x)}"
proof -
  have h: "0 < unat (n_sectors x)" "0 < unat (n_tracks x)" "unat (n_spc x) = unat (n_heads x) * unat (n_sectors x)" "0 < unat (n_spc x)"
    using g by (auto simp: geom_ok_def word_gt_0 unat_gt_0)
  have "unat blk mod unat (n_spc x) < unat (n_heads x) * unat (n_sectors x)" using h by (metis mod_less_divisor)
  then have "unat blk mod unat (n_spc x) div unat (n_sectors x) < unat (n_heads x)" using h(1) by (simp add: div_less_iff_less_mult)
  then show ?thesis
    using h(1,2) mwcyl_unat(1) [OF g b]
    by (simp add: place_of_def head_of_def sector_of_def unat_div_distrib unat_mod_distrib unat_ucast_8_16)
qed

lemma place_of_inj:
  assumes g: "geom_ok x" and b: "blk \<le> n_maxblk x" "blk' \<le> n_maxblk x" and e: "place_of blk x = place_of blk' x"
  shows "blk = blk'"
proof -
  let ?t = "unat (n_tracks x)" and ?s = "unat (n_spc x)" and ?n = "unat (n_sectors x)"
  note c = mwcyl_unat [OF g b(1)] and c' = mwcyl_unat [OF g b(2)]
  have e1: "(unat blk div ?s + ?t div 2) mod ?t = (unat blk' div ?s + ?t div 2) mod ?t" using e c(1) c'(1) by (simp add: place_of_def)
  have "?t div 2 < ?t" using c(2) by linarith
  from rot_inj [OF c(2) c'(2) this e1] have q: "unat blk div ?s = unat blk' div ?s" .
  have "unat blk mod ?s div ?n = unat blk' mod ?s div ?n" "unat blk mod ?s mod ?n = unat blk' mod ?s mod ?n"
    using e by (simp_all add: place_of_def head_of_def sector_of_def unat_div_distrib unat_mod_distrib unat_ucast_8_16)
  then have "unat blk mod ?s = unat blk' mod ?s" by (metis div_mult_mod_eq)
  with q have "unat blk = unat blk'" by (metis div_mult_mod_eq)
  then show ?thesis by (simp add: word_unat_eq_iff)
qed

lemma place_of_bij:
  assumes g: "geom_ok x"
  shows "bij_betw (\<lambda>blk. place_of blk x) {..n_maxblk x} ({..<unat (n_tracks x)} \<times> {..<unat (n_heads x)} \<times> {..<unat (n_sectors x)})"
proof -
  let ?T = "{..<unat (n_tracks x)} \<times> {..<unat (n_heads x)} \<times> {..<unat (n_sectors x)}" and ?f = "\<lambda>blk. place_of blk x"
  have inj: "inj_on ?f {..n_maxblk x}" using place_of_inj [OF g] by (auto intro: inj_onI)
  have "bij_betw unat {..n_maxblk x} {..unat (n_maxblk x)}"
  proof (rule bij_betw_imageI)
    show "inj_on unat {..n_maxblk x}" by (simp add: inj_on_def word_unat_eq_iff)
    show "unat ` {..n_maxblk x} = {..unat (n_maxblk x)}"
    proof (intro set_eqI iffI)
      fix n assume n: "n \<in> {..unat (n_maxblk x)}"
      then have "unat (of_nat n :: u16) = n" using unsigned_less [of "n_maxblk x", where 'a = nat] by (simp add: unat_of_nat)
      with n show "n \<in> unat ` {..n_maxblk x}" by (intro image_eqI [of _ _ "of_nat n"]) (simp_all add: word_le_nat_alt)
    qed (auto simp: word_le_nat_alt)
  qed
  then have "card {..n_maxblk x} = Suc (unat (n_maxblk x))" using bij_betw_same_card by fastforce
  then have "card (?f ` {..n_maxblk x}) = card ?T" using g card_image [OF inj] by (simp add: geom_ok_def card_cartesian_product)
  moreover have "?f ` {..n_maxblk x} \<subseteq> ?T" using place_of_bounds [OF g] by blast
  ultimately have "?f ` {..n_maxblk x} = ?T" by (intro card_subset_eq) simp_all
  with inj show ?thesis by (simp add: bij_betw_def)
qed

lemma specs_geom:
  assumes "sp \<in> set specs"
  shows "geom_ok (set_spec t sp x)"
  using assms by (auto simp: specs_def set_spec_def Let_def geom_ok_def)

text \<open>
  C25. For every drive type of the table the sixteen-bit arithmetic of \<^verbatim>\<open>mwopen\<close>, \<^verbatim>\<open>mwcyl\<close> and \<^verbatim>\<open>rwcmd\<close> is exact: the block numbers up to
  \<^verbatim>\<open>maxblk\<close> correspond one to one to the sectors of the drive, each given by its cylinder, head and sector number, and no sector is left without a block.
\<close>

theorem mw_geometry:
  assumes "sp \<in> set specs"
  shows "bij_betw (\<lambda>blk. place_of blk (set_spec t sp x)) {..n_maxblk (set_spec t sp x)}
    ({..<unat (n_tracks sp)} \<times> {..<unat (n_heads sp)} \<times> {..<unat (n_sectors sp)})"
proof -
  have "n_tracks (set_spec t sp x) = n_tracks sp" "n_heads (set_spec t sp x) = n_heads sp" "n_sectors (set_spec t sp x) = n_sectors sp"
    by (simp_all add: set_spec_def Let_def)
  then show ?thesis using place_of_bij [OF specs_geom [OF assms, of t x]] by simp
qed

definition info0 :: info where
  "info0 = \<lparr>n_tracks = 0, n_heads = 0, n_sectors = 0, n_stpdel = 0, n_precomp = 0, n_lowcur = 0, n_maxblk = 0, n_spc = 0, n_curtrk = 0, n_flags = 0, n_type = 0\<rparr>"

theorem mw_geometry_witness:
  "bij_betw (\<lambda>blk. place_of blk (set_spec 4 (specs ! 4) info0)) {..n_maxblk (set_spec 4 (specs ! 4) info0)}
    ({..<unat (n_tracks (specs ! 4))} \<times> {..<unat (n_heads (specs ! 4))} \<times> {..<unat (n_sectors (specs ! 4))})"
  by (rule mw_geometry) (simp add: specs_def)

section \<open>The arm\<close>

text \<open>
  Where the arm of each drive stands: a command first moves it by the number of steps, out when \<^verbatim>\<open>STEPOUT\<close> is set; \<^verbatim>\<open>HOME\<close>
  moves it to track 0.
\<close>

definition sel :: "mwcmd \<Rightarrow> nat" where
  "sel c = unat (c_seksel c AND 3)"

fun arm_move :: "hwcall \<Rightarrow> (nat \<Rightarrow> int) \<Rightarrow> nat \<Rightarrow> int" where
  "arm_move HReset p = p"
| "arm_move (Attn c) p = p(sel c := (if c_op c = HOME then 0
     else if tst (c_seksel c) STEPOUT then p (sel c) - int (unat (c_steps c)) else p (sel c) + int (unat (c_steps c))))"

definition arms :: "(nat \<Rightarrow> int) \<Rightarrow> hwcall list \<Rightarrow> nat \<Rightarrow> int" where
  "arms p log = fold arm_move log p"

text \<open>A transfer names the sector of its block on the selected drive, and the arm is there.\<close>

fun on_track :: "(nat \<Rightarrow> info) \<Rightarrow> hwcall \<Rightarrow> (nat \<Rightarrow> int) \<Rightarrow> bool" where
  "on_track G HReset p = True"
| "on_track G (Attn c) p = (c_op c \<le> WRITES \<longrightarrow> p (sel c) = int (unat (c_arg0 c)) \<and> c_arg0 c = mwcyl (c_blk c) (G (sel c)) \<and>
     c_arg2 c = ucast (head_of (c_blk c) (G (sel c))) \<and> c_arg3 c = ucast (sector_of (c_blk c) (G (sel c))))"

fun log_ok :: "(nat \<Rightarrow> info) \<Rightarrow> (nat \<Rightarrow> int) \<Rightarrow> hwcall list \<Rightarrow> bool" where
  "log_ok G p [] = True"
| "log_ok G p (h # hs) = (on_track G h (arm_move h p) \<and> log_ok G (arm_move h p) hs)"

lemma arms_snoc [simp]: "arms p (log @ [h]) = arm_move h (arms p log)"
  by (simp add: arms_def)

lemma log_ok_snoc [simp]: "log_ok G p (log @ [h]) \<longleftrightarrow> log_ok G p log \<and> on_track G h (arm_move h (arms p log))"
  by (induction log arbitrary: p) (auto simp: arms_def)

lemma arm_still: "c_steps c = 0 \<Longrightarrow> c_op c \<noteq> HOME \<Longrightarrow> arm_move (Attn c) p = p"
  by (simp add: fun_eq_iff)

text \<open>
  The geometry of the drives is \<open>G\<close>, their arms stood at \<open>p\<close>, and a drive asked for its status is ready. \<open>binv\<close> holds throughout; \<open>pend\<close> describes the command while a transfer is under way.
\<close>

definition geom :: "info \<Rightarrow> u16 \<times> u8 \<times> u8 \<times> u16" where
  "geom x = (n_tracks x, n_heads x, n_sectors x, n_spc x)"

lemma geom_cong:
  assumes "geom x = geom y"
  shows "mwcyl b x = mwcyl b y" "head_of b x = head_of b y" "sector_of b x = sector_of b y"
  using assms by (simp_all add: geom_def mwcyl_def head_of_def sector_of_def)

definition drives_ready :: "(mwcmd \<Rightarrow> 'h \<Rightarrow> 'h \<times> u8) \<Rightarrow> bool" where
  "drives_ready f \<longleftrightarrow> (\<forall>c h. c_op c = STATC \<longrightarrow> \<not> tst (snd (f c h)) NOTRDY)"

definition binv :: "(nat \<Rightarrow> info) \<Rightarrow> (nat \<Rightarrow> int) \<Rightarrow> 'h mw \<Rightarrow> bool" where
  "binv G p m \<longleftrightarrow> drives_ready (ctl m) \<and> log_ok G p (hwlog m) \<and> (\<forall>d. geom (mws m d) = geom (G d)) \<and>
     (\<forall>d<4. tst (n_flags (mws m d)) CALIB \<longrightarrow> arms p (hwlog m) d = int (unat (n_curtrk (mws m d))))"

definition ready_drv :: "'h mw \<Rightarrow> bool" where
  "ready_drv m \<longleftrightarrow> unat (curdrv m) < 4 \<and> mwinfo m = unat (curdrv m) \<and> tst (n_flags (mws m (mwinfo m))) CALIB"

definition pend :: "(nat \<Rightarrow> info) \<Rightarrow> 'h mw \<Rightarrow> bool" where
  "pend G m \<longleftrightarrow> sel (cmd m) < 4 \<and> mwinfo m = sel (cmd m) \<and> tst (n_flags (mws m (mwinfo m))) CALIB \<and>
     n_curtrk (mws m (mwinfo m)) = c_arg0 (cmd m) \<and> c_arg0 (cmd m) = mwcyl (c_blk (cmd m)) (G (mwinfo m)) \<and>
     c_arg2 (cmd m) = ucast (head_of (c_blk (cmd m)) (G (mwinfo m))) \<and> c_arg3 (cmd m) = ucast (sector_of (c_blk (cmd m)) (G (mwinfo m)))"

definition minv :: "(nat \<Rightarrow> info) \<Rightarrow> (nat \<Rightarrow> int) \<Rightarrow> 'h mw \<Rightarrow> bool" where
  "minv G p m \<longleftrightarrow> binv G p m \<and> (mwstate m \<ge> ACTIVE \<longrightarrow> c_op (cmd m) \<le> WRITES \<longrightarrow> pend G m \<and> curdrv m = c_seksel (cmd m) AND 3)"

lemma minv_cong:
  assumes "hwlog m' = hwlog m" "mws m' = mws m" "cmd m' = cmd m" "mwinfo m' = mwinfo m" "curdrv m' = curdrv m" "ctl m' = ctl m"
  shows "binv G p m' = binv G p m" "pend G m' = pend G m" "mwstate m' = mwstate m \<Longrightarrow> minv G p m' = minv G p m"
  unfolding binv_def pend_def minv_def assms by simp_all

lemma minv_stat:
  shows "binv G p (upd_cmd (\<lambda>c. c\<lparr>c_stat := st\<rparr>) m) = binv G p m" "pend G (upd_cmd (\<lambda>c. c\<lparr>c_stat := st\<rparr>) m) = pend G m"
    "minv G p (upd_cmd (\<lambda>c. c\<lparr>c_stat := st\<rparr>) m) = minv G p m"
  by (simp_all add: minv_def binv_def pend_def upd_cmd_def sel_def)

text \<open>What holds of the state a routine returns with.\<close>

definition ends :: "('s \<Rightarrow> bool) \<Rightarrow> ('s, 'c, 'a) outcome \<Rightarrow> bool" where
  "ends I r \<longleftrightarrow> (\<forall>x s. r = Ret x s \<longrightarrow> I s)"

lemma ends_Ret [simp]: "ends I (Ret x s) = I s"
  by (simp add: ends_def)

lemma ends_other [simp]: "ends I (Spin s)" "ends I (Panic t s)" "ends I (Slept c q s)"
  by (simp_all add: ends_def)

lemma ends_mono: "ends J r \<Longrightarrow> (\<And>s. J s \<Longrightarrow> I s) \<Longrightarrow> ends I r"
  by (simp add: ends_def)

lemma ends_bnd:
  assumes "ends J r" "\<And>x s. J s \<Longrightarrow> ends I (f x s)"
  shows "ends I (bnd r f)"
  using assms by (cases r) (auto simp: ends_def)

section \<open>The arm is on track\<close>

lemma binv_attn:
  assumes "binv G p m" "c_steps (cmd m) = 0" "c_op (cmd m) \<noteq> HOME" "\<not> c_op (cmd m) \<le> WRITES"
  shows "binv G p (attn m)" "binv G p (finish m)"
  using assms by (simp_all add: binv_def attn_def finish_def upd_cmd_def Let_def split: prod.split del: arm_move.simps)
   (simp_all add: arm_still)

lemma mwwait_ends:
  assumes "binv G p m" "c_steps (cmd m) = 0" "c_op (cmd m) \<noteq> HOME" "\<not> c_op (cmd m) \<le> WRITES"
  shows "ends (\<lambda>m'. binv G p m' \<and> mws m' = mws m \<and> mwinfo m' = mwinfo m \<and> curdrv m' = curdrv m \<and> mwstate m' = mwstate m \<and>
    c_op (cmd m') = c_op (cmd m) \<and> c_steps (cmd m') = 0 \<and> c_seksel (cmd m') = c_seksel (cmd m) \<and>
    (c_op (cmd m) = STATC \<longrightarrow> \<not> tst (c_stat (cmd m')) NOTRDY)) (mwwait m)"
proof -
  have "binv G p (attn m)" "cmd (attn m) = (cmd m)\<lparr>c_stat := BUSY\<rparr>" using binv_attn(1) [OF assms] by (simp_all add: attn_def upd_cmd_def Let_def)
  moreover have "\<not> tst (c_stat (cmd (finish (attn m)))) NOTRDY" if "c_op (cmd m) = STATC"
  proof -
    have "\<not> tst (snd (ctl m ((cmd m)\<lparr>c_stat := BUSY\<rparr>) (hw m))) NOTRDY"
      using assms(1) that unfolding binv_def drives_ready_def by (metis mwcmd.select_convs(9) mwcmd.surjective mwcmd.update_convs(10))
    then show ?thesis by (auto simp: finish_def attn_def upd_cmd_def Let_def split: prod.split)
  qed
  ultimately show ?thesis using binv_attn(2) [of G p "attn m"] assms
    by (simp add: mwwait_def Let_def) (simp add: finish_def attn_def upd_cmd_def Let_def split: prod.split)
qed

lemma low_drives: "unat (w :: u8) < 4 \<Longrightarrow> w AND 3 = w" "unat (w :: u8) < 4 \<Longrightarrow> (w OR STEPOUT) AND 3 = w"
  "unat (w :: u8) < 4 \<Longrightarrow> \<not> tst w STEPOUT"
proof -
  have "w = 0 \<or> w = 1 \<or> w = 2 \<or> w = 3" if "unat w < 4"
  proof -
    from that have "unat w = 0 \<or> unat w = 1 \<or> unat w = 2 \<or> unat w = 3" by linarith
    then show ?thesis by (simp add: word_unat_eq_iff)
  qed
  then show "unat w < 4 \<Longrightarrow> w AND 3 = w" "unat w < 4 \<Longrightarrow> (w OR STEPOUT) AND 3 = w" "unat w < 4 \<Longrightarrow> \<not> tst w STEPOUT"
    by (auto simp: tst_def)
qed

lemma rwcmd_inv:
  assumes b: "binv G p m" and r: "ready_drv m" and op: "c_op (cmd m) \<le> WRITES"
  shows "minv G p (rwcmd m)"
proof -
  let ?d = "mwinfo m" and ?x = "mws m (mwinfo m)" and ?blk = "c_blk (cmd m)"
  have d: "unat (curdrv m) < 4" "?d = unat (curdrv m)" "tst (n_flags ?x) CALIB" using r by (auto simp: ready_drv_def)
  have g: "geom ?x = geom (G ?d)" and pos: "arms p (hwlog m) ?d = int (unat (n_curtrk ?x))" using b d by (auto simp: binv_def)
  note gc = geom_cong [OF g] and lw = low_drives [OF d(1)]
  define t where "t = mwcyl ?blk ?x"
  define up where "up \<longleftrightarrow> t > n_curtrk ?x"
  define c where "c = cmd (rwcmd m)"
  have c: "c_seksel c = (if up then curdrv m else curdrv m OR STEPOUT)" "c_steps c = (if up then t - n_curtrk ?x else n_curtrk ?x - t)"
    "c_arg0 c = t" "c_arg2 c = ucast (head_of ?blk ?x)" "c_arg3 c = ucast (sector_of ?blk ?x)" "c_blk c = ?blk" "c_op c = c_op (cmd m)"
    by (simp_all add: c_def t_def up_def rwcmd_def Let_def issue_def attn_def upd_cmd_def upd_info_def head_of_def sector_of_def)
  have m': "hwlog (rwcmd m) = hwlog m @ [Attn c]" "mws (rwcmd m) = (mws m)(?d := ?x\<lparr>n_curtrk := t\<rparr>)" "mwinfo (rwcmd m) = ?d" "curdrv (rwcmd m) = curdrv m"
    "ctl (rwcmd m) = ctl m" by (simp_all add: c_def t_def rwcmd_def Let_def issue_def attn_def upd_cmd_def upd_info_def)
  have sel: "c_seksel c AND 3 = curdrv m" "sel c = ?d" using lw d(2) by (simp_all add: c(1) sel_def)
  have so: "tst (c_seksel c) STEPOUT \<longleftrightarrow> \<not> up" using lw(3) by (simp add: c(1))
  have st: "int (unat (c_steps c)) = (if up then int (unat t) - int (unat (n_curtrk ?x)) else int (unat (n_curtrk ?x)) - int (unat t))"
    by (auto simp: c(2) up_def unat_sub word_le_nat_alt word_less_nat_alt of_nat_diff simp del: of_nat_unat)
  have nh: "c_op c \<noteq> HOME" using op by (auto simp: c(7) word_le_nat_alt)
  have arm: "arm_move (Attn c) (arms p (hwlog m)) = (arms p (hwlog m))(?d := int (unat t))"
    using nh so st pos sel by (simp add: fun_eq_iff del: of_nat_unat)
  have "binv G p (rwcmd m)"
    using b sel gc arm g d(3) unfolding binv_def m' log_ok_snoc arms_snoc arm
    by (simp add: c t_def geom_def del: arm_move.simps of_nat_unat)
  moreover have "pend G (rwcmd m)" using sel d gc by (simp add: pend_def c_def [symmetric] m' c t_def)
  ultimately show ?thesis using sel by (simp add: minv_def c_def [symmetric] m')
qed

lemma newrw_ends:
  assumes b: "binv G p m" and r: "ready_drv m"
  shows "ends (minv G p) (newrw m)"
proof (cases "mwque m")
  case Nil
  then show ?thesis by (simp add: newrw_def nullref_def)
next
  case (Cons q qs)
  define m2 where "m2 = (let x = blist (ks m) q;
      m1 = upd_cmd (\<lambda>c. c\<lparr>c_blk := b_blk x, c_dma := baddr m q, c_xdma := bxmem m q, c_count := b_count x,
             c_op := (if tst (b_flags x) BREAD then READS else WRITES)\<rparr>) m
    in if tst (n_flags (mws m1 (mwinfo m1))) RECAL
       then upd_info (mwinfo m1) (\<lambda>i. i\<lparr>n_flags := n_flags i AND NOT RECAL\<rparr>) m1 else m1\<lparr>retry := RETRIES\<rparr>)"
  have "binv G p m2" "ready_drv m2" using b r
    by (auto simp: m2_def binv_def ready_drv_def upd_cmd_def upd_info_def Let_def geom_def)
  moreover have "c_op (cmd m2) \<le> WRITES" by (simp add: m2_def upd_cmd_def upd_info_def Let_def)
  ultimately have "minv G p (rwcmd m2)" by (rule rwcmd_inv)
  then show ?thesis using Cons by (simp add: newrw_def m2_def Let_def)
qed

text \<open>Starting and stopping leave a command that moves no arm.\<close>

lemma minv_idle: "binv G p m \<Longrightarrow> \<not> c_op (cmd m) \<le> WRITES \<Longrightarrow> minv G p m"
  by (simp add: minv_def)

lemma binv_issue:
  assumes "binv G p m" "c_steps (cmd m) = 0" "c_op (cmd m) = LOADC"
  shows "minv G p (issue m)"
proof -
  have "binv G p (m\<lparr>mwstate := ACTIVE\<rparr>)" using assms(1) by (simp add: binv_def)
  from binv_attn(1) [OF this] assms show ?thesis
    by (intro minv_idle) (simp_all add: issue_def, simp_all add: attn_def upd_cmd_def Let_def word_le_nat_alt)
qed

lemma binv_reset: "binv G p (reset m) = binv G p m"
  by (simp add: binv_def reset_def upd_cmd_def)

lemma check_parts:
  "ends (\<lambda>m'. ctl m' = ctl m \<and> hwlog m' = hwlog m \<and> mws m' = mws m \<and> mwstate m' = mwstate m \<and> cmd m' = cmd m \<and> mwinfo m' = mwinfo m \<and> curdrv m' = curdrv m)
     (mwcheck_again m)"
  "mwstate m = VIRGIN \<Longrightarrow> mwcheck_switch m = Ret () m"
  by (simp_all add: mwcheck_again_def mwcheck_switch_def split: option.split)

lemma mwstart_ends:
  assumes "binv G p m" "minv G p m"
  shows "ends (minv G p) (mwstart m)"
proof -
  obtain got m1 where g: "busget MwStart m = (got, m1)" by fastforce
  have m1: "hwlog m1 = hwlog m" "mws m1 = mws m" "cmd m1 = cmd m" "mwstate m1 = mwstate m" "mwinfo m1 = mwinfo m" "curdrv m1 = curdrv m" "ctl m1 = ctl m"
    using g by (auto simp: busget_def split: if_splits)
  have b1: "binv G p m1" "minv G p m1" using assms minv_cong(1,3) [OF m1(1-3,5-7)] m1(4) by simp_all
  have "ends (binv G p) (if mwstate m1 = VIRGIN then bnd (mwcheck_switch (reset m1)) (\<lambda>_ m. mwcheck_again m) else Ret () m1)"
  proof (cases "mwstate m1 = VIRGIN")
    case True
    then have "mwcheck_switch (reset m1) = Ret () (reset m1)" by (intro check_parts(2)) (simp add: reset_def upd_cmd_def)
    moreover have "binv G p (reset m1)" using b1 by (simp add: binv_reset)
    ultimately show ?thesis using True ends_mono [OF check_parts(1), of "reset m1" "binv G p"] minv_cong(1) by simp blast
  qed (simp add: b1)
  then have "ends (minv G p) (bnd (if mwstate m1 = VIRGIN then bnd (mwcheck_switch (reset m1)) (\<lambda>_ m. mwcheck_again m) else Ret () m1) (\<lambda>_ m.
        Ret () (issue (upd_cmd (\<lambda>c. c\<lparr>c_steps := 0, c_arg0 := set_high INTEN (c_arg0 c), c_hedsel := c_hedsel c OR LCONST, c_op := LOADC\<rparr>) m))))"
    by (rule ends_bnd) (simp add: binv_issue upd_cmd_def binv_def)
  then show ?thesis using g b1 by (simp add: mwstart_def)
qed

lemma busgive_ends:
  assumes "binv G p m" "minv G p m"
  shows "ends (minv G p) (busgive f m)"
proof -
  have any: "binv G p (m\<lparr>bus := x, busnext := y, called := z\<rparr>)" "minv G p (m\<lparr>bus := x, busnext := y, called := z\<rparr>)" for x y z
    using assms minv_cong(1,3) [of "m\<lparr>bus := x, busnext := y, called := z\<rparr>" m] by simp_all
  define m1 where "m1 = m\<lparr>bus := Some MwStart, busnext := f\<rparr>"
  have "binv G p m1" "minv G p m1" using any [where x = "Some MwStart" and y = f and z = "called m"] by (simp_all add: m1_def)
  then have "ends (minv G p) (bnd (mwstart m1) (\<lambda>_ m. Ret True m))" by (intro ends_bnd [OF mwstart_ends]) simp_all
  moreover have "minv G p (m\<lparr>bus := None\<rparr>)" using any(2) [where x = None and y = "busnext m" and z = "called m"] by simp
  ultimately show ?thesis using any(2) by (auto simp: busgive_def m1_def Let_def split: option.split master.split)
qed

lemma mwstop_ends:
  assumes b: "binv G p m"
  shows "ends (minv G p) (mwstop m)"
proof -
  define m1 where "m1 = upd_cmd (\<lambda>c. c\<lparr>c_steps := 0, c_arg0 := set_high INTOFF (c_arg0 c), c_hedsel := c_hedsel c OR (LCONST OR 3), c_op := LOADC\<rparr>)
      (m\<lparr>mwstate := STOPPED\<rparr>)"
  have m1: "binv G p m1" "c_steps (cmd m1) = 0" "c_op (cmd m1) = LOADC" using b by (simp_all add: m1_def upd_cmd_def binv_def)
  have "ends (\<lambda>m'. binv G p m' \<and> c_op (cmd m') = LOADC) (mwwait m1)"
    by (rule ends_mono [OF mwwait_ends [OF m1(1,2)]]) (simp_all add: m1 word_le_nat_alt)
  then show ?thesis unfolding mwstop_def m1_def [symmetric]
    by (rule ends_bnd) (auto intro!: ends_bnd [OF busgive_ends] minv_idle simp: word_le_nat_alt)
qed

lemma onk_ends: "ends (\<lambda>m'. \<exists>s. m' = m\<lparr>ks := s\<rparr>) (onk f m)"
  by (auto simp: onk_def split: outcome.split)

lemma mwerror_ends: "ends (\<lambda>m'. \<exists>s. m' = m\<lparr>ks := s\<rparr>) (mwerror m)"
  by (auto simp: mwerror_def nullref_def split: list.split)

lemma ready_cong: "mws m' = mws m \<Longrightarrow> mwinfo m' = mwinfo m \<Longrightarrow> curdrv m' = curdrv m \<Longrightarrow> ready_drv m' = ready_drv m"
  by (simp add: ready_drv_def)

lemma drive_less: "unat (drive b m) < 4"
proof -
  have "x AND 3 = take_bit 2 x" for x :: u16 by (simp add: take_bit_eq_mask mask_eq_exp_minus_1)
  then show ?thesis using take_bit_nat_less_exp [of 2 "unat (b_dev (blist (ks m) b))"] by (simp add: drive_def unsigned_take_bit_eq)
qed

lemma advque_ends:
  assumes nd: "\<And>m :: 'h mw. binv G p m \<Longrightarrow> ends (minv G p) (newdrv k m)"
    and b: "binv G p (m :: 'h mw)" and r: "ready_drv m \<or> 4 \<le> unat (curdrv m)"
  shows "ends (minv G p) (advque k m)"
proof (cases "mwque m")
  case Nil
  then show ?thesis by (simp add: nullref_def)
next
  case (Cons q f)
  have "ends (minv G p) (bnd (onk (iodone q) m) (\<lambda>_ m.
       let m1 = m\<lparr>mwque := f\<rparr> in
       (case f of [] \<Rightarrow> mwstop m1 | n # _ \<Rightarrow> if ucast (curdrv m1) \<noteq> drive n m1 then newdrv k m1 else newrw m1)))"
  proof (rule ends_bnd [OF onk_ends])
    fix m' :: "'h mw" assume "\<exists>s. m' = m\<lparr>ks := s\<rparr>"
    then obtain t where m': "m' = m\<lparr>ks := t\<rparr>" by blast
    define m1 where "m1 = m'\<lparr>mwque := f\<rparr>"
    have same: "hwlog m1 = hwlog m" "mws m1 = mws m" "cmd m1 = cmd m" "mwinfo m1 = mwinfo m" "curdrv m1 = curdrv m" "ctl m1 = ctl m"
      by (simp_all add: m1_def m')
    have b1: "binv G p m1" using minv_cong(1) [OF same] b by simp
    have "ready_drv m1" if "ucast (curdrv m1) = drive n m1" for n
    proof -
      have "unat (ucast (curdrv m1) :: u16) < 4" unfolding that by (rule drive_less)
      then have "unat (curdrv m1) < 4" by (simp add: unat_ucast_8_16)
      with r same show ?thesis by (auto simp: ready_drv_def)
    qed
    then show "ends (minv G p) (let m1 = m'\<lparr>mwque := f\<rparr> in
       (case f of [] \<Rightarrow> mwstop m1 | n # _ \<Rightarrow> if ucast (curdrv m1) \<noteq> drive n m1 then newdrv k m1 else newrw m1))"
      unfolding Let_def m1_def [symmetric] using nd [OF b1] mwstop_ends [OF b1] newrw_ends [OF b1] by (auto split: list.split)
  qed
  then show ?thesis using Cons by simp
qed

lemma load_ends:
  assumes "binv G p m" "c_steps (cmd m) = 0"
  shows "ends (\<lambda>m'. binv G p m' \<and> mws m' = mws m \<and> mwinfo m' = mwinfo m \<and> curdrv m' = curdrv m \<and> c_seksel (cmd m') = c_seksel (cmd m)) (load_consts d m)"
proof -
  define m1 where "m1 = upd_cmd (\<lambda>c. c\<lparr>c_arg0 := set_high (d OR INTEN) (c_arg0 c), c_hedsel := c_hedsel c OR LCONST, c_op := LOADC\<rparr>) m"
  have m1: "binv G p m1" "c_steps (cmd m1) = 0" "c_op (cmd m1) = LOADC" "mws m1 = mws m" "mwinfo m1 = mwinfo m" "curdrv m1 = curdrv m"
    "c_seksel (cmd m1) = c_seksel (cmd m)"
    using assms by (simp_all add: m1_def upd_cmd_def binv_def)
  show ?thesis unfolding load_consts_def m1_def [symmetric]
    by (rule ends_mono [OF mwwait_ends [OF m1(1,2)]]) (simp_all add: m1 word_le_nat_alt)
qed

lemma home_inv:
  assumes b: "binv G p m" and d: "mwinfo m = unat (c_seksel (cmd m))" "unat (c_seksel (cmd m)) < 4"
  shows "minv G p (issue (upd_info (mwinfo m) (\<lambda>i. i\<lparr>n_curtrk := 0, n_flags := n_flags i OR CALIB\<rparr>)
    (upd_cmd (\<lambda>c. c\<lparr>c_steps := 0xFFFF, c_seksel := c_seksel c OR STEPOUT, c_op := HOME\<rparr>) m)))" (is "minv G p ?m")
proof -
  note lw = low_drives [OF d(2)]
  have "sel ((cmd m)\<lparr>c_steps := 0xFFFF, c_seksel := c_seksel (cmd m) OR STEPOUT, c_op := HOME, c_stat := BUSY\<rparr>) = mwinfo m"
    using lw d by (simp add: sel_def)
  then have "binv G p ?m"
    using b unfolding binv_def by (auto simp: issue_def attn_def upd_cmd_def upd_info_def Let_def geom_def word_le_nat_alt)
  then show ?thesis by (rule minv_idle) (simp add: issue_def attn_def upd_cmd_def upd_info_def Let_def word_le_nat_alt)
qed

lemma newdrv_ends: "binv G p m \<Longrightarrow> ends (minv G p) (newdrv k m)"
proof (induction k arbitrary: m)
  case (Suc k)
  show ?case
  proof (cases "mwque m")
    case Nil
    then show ?thesis by (simp add: nullref_def)
  next
    case (Cons q f)
    define d where "d = (ucast (drive q m) :: u8)"
    define m1 where "m1 = upd_cmd (\<lambda>c. c\<lparr>c_steps := 0, c_seksel := d, c_hedsel := d, c_arg2 := SETTLE, c_arg3 := SECSIZE\<rparr>)
        (m\<lparr>curdrv := d, mwinfo := unat (drive q m)\<rparr>)"
    have ud: "unat d = unat (drive q m)" "unat d < 4" using drive_less [of q m] by (simp_all add: d_def unsigned_ucast_eq take_bit_eq_mod)
    have m1: "binv G p m1" "c_steps (cmd m1) = 0" "c_seksel (cmd m1) = d" "curdrv m1 = d" "mwinfo m1 = unat d"
      using Suc.prems ud by (simp_all add: m1_def upd_cmd_def binv_def)
    have calib: "ends (minv G p) (bnd (load_consts (n_stpdel (mws m1 (mwinfo m1))) m1) (\<lambda>_ m. newrw m))"
      if c: "tst (n_flags (mws m1 (mwinfo m1))) CALIB"
      by (rule ends_bnd [OF load_ends [OF m1(1,2)]], rule newrw_ends) (use c m1 ud in \<open>auto simp: ready_drv_def\<close>)
    define m2 where "m2 = upd_cmd (\<lambda>c. c\<lparr>c_op := STATC\<rparr>) m1"
    have m2: "binv G p m2" "c_steps (cmd m2) = 0" "c_op (cmd m2) = STATC" "c_seksel (cmd m2) = d" "curdrv m2 = d" "mwinfo m2 = unat d"
      using m1 by (simp_all add: m2_def upd_cmd_def binv_def)
    have fresh: "ends (minv G p) (bnd (mwwait m2) (\<lambda>_ m.
         if tst (c_stat (cmd m)) NOTRDY then bnd (mwerror m) (\<lambda>_ m. advque k m)
         else bnd (load_consts HOMDEL m) (\<lambda>_ m.
           Ret () (issue (upd_info (mwinfo m) (\<lambda>i. i\<lparr>n_curtrk := 0, n_flags := n_flags i OR CALIB\<rparr>)
             (upd_cmd (\<lambda>c. c\<lparr>c_steps := 0xFFFF, c_seksel := c_seksel c OR STEPOUT, c_op := HOME\<rparr>) m))))))"
      (is "ends _ (bnd _ ?f)")
    proof -
      have "ends (\<lambda>m'. (binv G p m' \<and> mws m' = mws m2 \<and> mwinfo m' = mwinfo m2 \<and> curdrv m' = curdrv m2 \<and> mwstate m' = mwstate m2 \<and>
        c_op (cmd m') = c_op (cmd m2) \<and> c_steps (cmd m') = 0 \<and> c_seksel (cmd m') = c_seksel (cmd m2) \<and>
        (c_op (cmd m2) = STATC \<longrightarrow> \<not> tst (c_stat (cmd m')) NOTRDY))) (mwwait m2)"
        by (rule mwwait_ends [OF m2(1,2)]) (simp_all add: m2 word_le_nat_alt)
      then show ?thesis
      proof (rule ends_bnd)
        fix x :: unit and t :: "'a mw"
        assume "binv G p t \<and> mws t = mws m2 \<and> mwinfo t = mwinfo m2 \<and> curdrv t = curdrv m2 \<and> mwstate t = mwstate m2 \<and>
          c_op (cmd t) = c_op (cmd m2) \<and> c_steps (cmd t) = 0 \<and> c_seksel (cmd t) = c_seksel (cmd m2) \<and>
          (c_op (cmd m2) = STATC \<longrightarrow> \<not> tst (c_stat (cmd t)) NOTRDY)"
        then have t: "binv G p t" "c_steps (cmd t) = 0" "c_seksel (cmd t) = d" "mwinfo t = unat d" "\<not> tst (c_stat (cmd t)) NOTRDY"
          using m2 by simp_all
        have "ends (minv G p) (bnd (load_consts HOMDEL t) (\<lambda>_ m.
           Ret () (issue (upd_info (mwinfo m) (\<lambda>i. i\<lparr>n_curtrk := 0, n_flags := n_flags i OR CALIB\<rparr>)
             (upd_cmd (\<lambda>c. c\<lparr>c_steps := 0xFFFF, c_seksel := c_seksel c OR STEPOUT, c_op := HOME\<rparr>) m)))))"
          by (rule ends_bnd [OF load_ends [OF t(1,2)]], unfold ends_Ret, rule home_inv) (use t ud(2) in auto)
        with t(5) show "ends (minv G p) (?f x t)" by simp
      qed
    qed
    show ?thesis using Cons calib fresh ud(1) by (simp add: Let_def m1_def m2_def d_def del: advque.simps)
  qed
qed simp

declare newdrv.simps [simp del] advque.simps [simp del]

lemma err_adv:
  assumes b: "binv G p m" and r: "ready_drv m \<or> 4 \<le> unat (curdrv m)"
  shows "ends (minv G p) (bnd (mwerror m) (\<lambda>_ m. advque k m))"
proof (rule ends_bnd [OF mwerror_ends])
  fix t :: "'a mw" assume "\<exists>s. t = m\<lparr>ks := s\<rparr>"
  then obtain s where t: "t = m\<lparr>ks := s\<rparr>" by blast
  have "binv G p t" using minv_cong(1) [of t m G p] b by (simp add: t)
  moreover have "ready_drv t \<or> 4 \<le> unat (curdrv t)" using r ready_cong [of t m] by (auto simp: t)
  ultimately show "ends (minv G p) (advque k t)" using advque_ends [OF newdrv_ends] by blast
qed

text \<open>
  \<^verbatim>\<open>rwint\<close>: while a transfer is pending, or with no drive selected after the controller was reset, when the status is \<^verbatim>\<open>NOTRDY\<close>.
\<close>

lemma reissue_inv:
  assumes b: "binv G p m" and d: "pend G m" "curdrv m = c_seksel (cmd m) AND 3" and op: "c_op (cmd m) \<le> WRITES"
  shows "minv G p (issue (upd_cmd (\<lambda>c. c\<lparr>c_steps := 0\<rparr>) m))"
proof -
  define c where "c = (cmd m)\<lparr>c_steps := 0, c_stat := BUSY\<rparr>"
  define m' where "m' = issue (upd_cmd (\<lambda>c. c\<lparr>c_steps := 0\<rparr>) m)"
  have m': "hwlog m' = hwlog m @ [Attn c]" "cmd m' = c" "mws m' = mws m" "mwinfo m' = mwinfo m" "curdrv m' = curdrv m" "ctl m' = ctl m"
    by (simp_all add: m'_def c_def issue_def attn_def upd_cmd_def Let_def)
  have nh: "c_op c \<noteq> HOME" using op by (auto simp: c_def word_le_nat_alt)
  have still: "arm_move (Attn c) q = q" for q by (rule arm_still) (simp add: c_def, rule nh)
  have sc: "sel c = sel (cmd m)" by (simp add: sel_def c_def)
  have "arms p (hwlog m) (sel c) = int (unat (c_arg0 c))" using b d(1) unfolding sc by (auto simp: binv_def pend_def c_def)
  then have "on_track G (Attn c) (arms p (hwlog m))" using d(1) by (auto simp: sc pend_def) (auto simp: c_def)
  then have "binv G p m'" using b unfolding binv_def m' log_ok_snoc arms_snoc still by simp
  moreover have "pend G m'" using d(1) by (auto simp: pend_def m' sc) (auto simp: c_def)
  ultimately show ?thesis using d(2) by (simp add: minv_def m'_def [symmetric] m') (simp add: c_def)
qed

lemma pend_ready:
  assumes "pend G m" "curdrv m = c_seksel (cmd m) AND 3"
  shows "ready_drv m"
  using assms by (auto simp: pend_def ready_drv_def sel_def)

lemma rwint_ends:
  assumes b: "binv G p m" and op: "c_op (cmd m) \<le> WRITES"
    and d: "pend G m \<and> curdrv m = c_seksel (cmd m) AND 3 \<or> 4 \<le> unat (curdrv m) \<and> c_stat (cmd m) = NOTRDY"
  shows "ends (minv G p) (rwint k m)"
proof -
  have r: "ready_drv m \<or> 4 \<le> unat (curdrv m)" using d pend_ready by blast
  show ?thesis
  proof (cases "c_stat (cmd m) = NOTRDY")
    case True
    then show ?thesis using err_adv [OF b r] by (simp add: rwint_def Let_def)
  next
    case False
    with d have p: "pend G m" "curdrv m = c_seksel (cmd m) AND 3" by blast+
    note rd = pend_ready [OF p]
    define m1 where "m1 = m\<lparr>retry := retry m - 1\<rparr>"
    have b1: "binv G p m1" "pend G m1" "curdrv m1 = c_seksel (cmd m1) AND 3" "ready_drv m1" "c_op (cmd m1) \<le> WRITES"
      using minv_cong(1,2) [of m1 m] ready_cong [of m1 m] b p rd op by (simp_all add: m1_def)
    define m2 where "m2 = upd_info (mwinfo m1) (\<lambda>i. i\<lparr>n_flags := (n_flags i AND NOT CALIB) OR RECAL\<rparr>) m1"
    have "binv G p m2" using b1(1) by (auto simp: m2_def upd_info_def binv_def geom_def)
    note nd = newdrv_ends [OF this, of k, unfolded m2_def]
    define m3 where "m3 = upd_cmd (\<lambda>c. c\<lparr>c_count := c_count c - 512, c_dma := c_dma c + 512, c_blk := c_blk c + 1\<rparr>) m"
    have "minv G p (rwcmd m3)"
      by (rule rwcmd_inv) (use b rd op in \<open>auto simp: m3_def upd_cmd_def binv_def ready_drv_def\<close>)
    then show ?thesis
      using False advque_ends [OF newdrv_ends b, of k] rd reissue_inv [OF b1(1,2,3,5)] nd err_adv [OF b1(1), of k] b1(4)
      by (simp add: rwint_def Let_def m1_def [symmetric] m3_def [symmetric])
  qed
qed

lemma mwint_ends:
  assumes b: "binv G p m"
    and d: "mwstate m \<ge> ACTIVE \<Longrightarrow> c_op (cmd m) \<le> WRITES \<Longrightarrow> c_stat (cmd m) \<noteq> BUSY \<Longrightarrow>
      pend G m \<and> curdrv m = c_seksel (cmd m) AND 3 \<or> 4 \<le> unat (curdrv m) \<and> c_stat (cmd m) = NOTRDY"
    and v: "mwstate m \<noteq> VIRGIN"
    and s: "mwstate m = STOPPED \<or> mwstate m = INTRPT \<or> c_stat (cmd m) = BUSY \<Longrightarrow> minv G p m"
  shows "ends (minv G p) (mwint m)"
proof (cases "mwstate m = STOPPED \<or> mwstate m = INTRPT \<or> c_stat (cmd m) = BUSY")
  case True
  with s show ?thesis by (simp add: mwint_def)
next
  case False
  define m1 where "m1 = m\<lparr>mwstate := INTRPT\<rparr>"
  have b1: "binv G p m1" "pend G m1 = pend G m" using minv_cong(1,2) [of m1 m] b by (simp_all add: m1_def)
  have "mwstate m \<ge> ACTIVE"
  proof (rule ccontr)
    assume "\<not> mwstate m \<ge> ACTIVE"
    then have "unat (mwstate m) = 0 \<or> unat (mwstate m) = 1" by (auto simp: word_le_nat_alt)
    with v False show False by (auto simp: word_unat_eq_iff)
  qed
  with d False b1(2) have "ends (minv G p) (rwint k m1)" if "c_op (cmd m1) \<le> WRITES" for k
    using that rwint_ends [OF b1(1), of k] by (simp add: m1_def)
  then show ?thesis using False newdrv_ends [OF b1(1)] by (simp add: mwint_def Let_def m1_def [symmetric])
qed

lemma mwcheck_ends:
  assumes b: "binv G p m" and m: "minv G p m"
  shows "ends (minv G p) (mwcheck m)"
proof -
  have sw: "ends (\<lambda>t. binv G p t \<and> (mwstate t \<noteq> TOOLATE \<longrightarrow> minv G p t) \<and> (mwstate t = TOOLATE \<longrightarrow> 4 \<le> unat (curdrv t) \<and> c_stat (cmd t) = NOTRDY))
    (mwcheck_switch m)"
  proof -
    have "binv G p (m\<lparr>mwstate := x\<rparr>)" "pend G (m\<lparr>mwstate := x\<rparr>) = pend G m" for x
      using minv_cong(1,2) [of "m\<lparr>mwstate := x\<rparr>" m] b by simp_all
    then have "minv G p (m\<lparr>mwstate := LATE\<rparr>)" if "mwstate m = ACTIVE" using m that by (simp add: minv_def)
    moreover have "binv G p (upd_cmd (\<lambda>c. c\<lparr>c_stat := NOTRDY\<rparr>) ((reset (m\<lparr>mwstate := TOOLATE\<rparr>))\<lparr>curdrv := 0xFF\<rparr>))"
      using b by (simp add: binv_def reset_def upd_cmd_def)
    ultimately show ?thesis using b m \<open>\<And>x. binv G p (m\<lparr>mwstate := x\<rparr>)\<close> by (auto simp: mwcheck_switch_def reset_def upd_cmd_def)
  qed
  show ?thesis unfolding mwcheck_def
  proof (rule ends_bnd [OF sw], rule ends_bnd [OF check_parts(1)])
    fix t m' :: "'a mw"
    assume t: "binv G p t \<and> (mwstate t \<noteq> TOOLATE \<longrightarrow> minv G p t) \<and> (mwstate t = TOOLATE \<longrightarrow> 4 \<le> unat (curdrv t) \<and> c_stat (cmd t) = NOTRDY)"
    assume m': "ctl m' = ctl t \<and> hwlog m' = hwlog t \<and> mws m' = mws t \<and> mwstate m' = mwstate t \<and> cmd m' = cmd t \<and> mwinfo m' = mwinfo t \<and> curdrv m' = curdrv t"
    then have b': "binv G p m'" "minv G p m' = minv G p t" using t minv_cong(1,3) [of m' t] by simp_all
    show "ends (minv G p) (if mwstate m' = TOOLATE then mwint m' else Ret () m')"
    proof (cases "mwstate m' = TOOLATE")
      case True
      have "ends (minv G p) (mwint m')" by (rule mwint_ends [OF b'(1)]) (use t m' True in auto)
      with True show ?thesis by simp
    next
      case False
      with t m' b' show ?thesis by simp
    qed
  qed
qed

lemma mwstrat_ends:
  assumes b: "binv G p m" and m: "minv G p m"
  shows "ends (minv G p) (mwstrat q m)"
proof -
  have "minv G p (m\<lparr>ks := s\<rparr>)" for s using m minv_cong(3) [of "m\<lparr>ks := s\<rparr>" m] by simp
  then have "ends (minv G p) (onk f m)" for f :: "kst \<Rightarrow> unit K" by (intro ends_mono [OF onk_ends]) auto
  moreover have "ends (minv G p) (if mwstate t < ACTIVE then mwstart t else Ret () t)"
    if "t = m\<lparr>bcyl := c, mwque := qs\<rparr>" for t c qs
    using mwstart_ends [of G p t] minv_cong(1,3) [of t m] b m that by simp
  ultimately show ?thesis by (simp add: mwstrat_def Let_def)
qed

text \<open>
  The events: a request comes to the strategy routine; the controller ends the command under way with any status and interrupts; the time-out comes;
  the other driver asks for the bus or gives it away; the kernel does something else.
\<close>

inductive mwstep :: "'h mw \<Rightarrow> 'h mw \<Rightarrow> bool" where
  strat: "mwstrat b m = Ret () m' \<Longrightarrow> mwstep m m'"
| intr: "mwstate m \<ge> ACTIVE \<Longrightarrow> mwint (upd_cmd (\<lambda>c. c\<lparr>c_stat := st\<rparr>) (m\<lparr>hw := h\<rparr>)) = Ret () m' \<Longrightarrow> mwstep m m'"
| check: "mwcheck m = Ret () m' \<Longrightarrow> mwstep m m'"
| get: "busget (OtherStart i) m = (r, m') \<Longrightarrow> mwstep m m'"
| give: "busgive f m = Ret r m' \<Longrightarrow> mwstep m m'"
| kernel: "mwstep m (m\<lparr>ks := s\<rparr>)"

inductive_cases mwstepE: "mwstep m m'"

lemma mwstep_inv:
  assumes "mwstep m m'" "minv G p m"
  shows "minv G p m'"
  using assms
proof (induction rule: mwstep.induct)
  case (strat b m m')
  then show ?case using mwstrat_ends [of G p m b] by (simp add: minv_def ends_def)
next
  case (intr m st h m')
  define t where "t = upd_cmd (\<lambda>c. c\<lparr>c_stat := st\<rparr>) (m\<lparr>hw := h\<rparr>)"
  have mt: "minv G p t" using intr.prems minv_stat(3) [of G p st "m\<lparr>hw := h\<rparr>"] minv_cong(3) [of "m\<lparr>hw := h\<rparr>" m] by (simp add: t_def)
  have "mwstate t \<noteq> VIRGIN" using intr.hyps(1) by (auto simp: t_def upd_cmd_def word_le_nat_alt)
  then have "ends (minv G p) (mwint t)" using mt by (intro mwint_ends) (auto simp: minv_def)
  with intr.hyps(2) show ?case by (simp add: ends_def t_def)
next
  case (check m m')
  then show ?case using mwcheck_ends [of G p m] by (simp add: minv_def ends_def)
next
  case (get i m r m')
  have "hwlog m' = hwlog m" "mws m' = mws m" "cmd m' = cmd m" "mwinfo m' = mwinfo m" "curdrv m' = curdrv m" "ctl m' = ctl m" "mwstate m' = mwstate m"
    using get.hyps by (auto simp: busget_def split: if_splits)
  from minv_cong(3) [OF this] get.prems show ?case by blast
next
  case (give f m r m')
  then show ?case using busgive_ends [of G p m f] by (simp add: minv_def ends_def)
next
  case (kernel m s)
  then show ?case using minv_cong(3) [of "m\<lparr>ks := s\<rparr>" m] by simp
qed

lemma mwsteps_inv: "mwstep\<^sup>*\<^sup>* m m' \<Longrightarrow> minv G p m \<Longrightarrow> minv G p m'"
  by (induction rule: rtranclp_induct) (auto intro: mwstep_inv)


text \<open>
  C7. The heads are where they must be, if the drives are ready. Start with a controller never used (state \<^verbatim>\<open>VIRGIN\<close>), no drive calibrated and the arms of the drives anywhere; a drive
  whose status \<^verbatim>\<open>newdrv\<close> asks for never answers that it is not ready (\<open>drives_ready\<close>), while every other command may end with any status. After any sequence of requests, interrupts at any
  time, time-outs, changes of the bus master and other work of the kernel: whenever the
  driver ordered a read or write, the arm of the selected drive had been moved to the cylinder of the block (with the steps of that command counted), and the command named the
  head and sector of the block. The hypothesis is needed: after the answer \<^verbatim>\<open>NOTRDY\<close> \<^verbatim>\<open>newdrv\<close> gives up the request but leaves \<^verbatim>\<open>curdrv\<close> set, so that \<^verbatim>\<open>advque\<close> orders the next
  request of the same drive without the arm having been sent home.
\<close>

theorem mw_on_track:
  assumes "mwstep\<^sup>*\<^sup>* m m'" "mwstate m = VIRGIN" "hwlog m = []" "\<And>d. \<not> tst (n_flags (mws m d)) CALIB" "drives_ready (ctl m)"
  shows "log_ok (mws m) p (hwlog m')"
proof -
  have "minv (mws m) p m" using assms(2-5) by (simp add: minv_def binv_def)
  with assms(1) have "minv (mws m) p m'" by (rule mwsteps_inv)
  then show ?thesis by (simp add: minv_def binv_def)
qed

end
