(* ===== verification/Serve.thy ===== *)
theory Serve
  imports Disk Storage "HOL-Library.Multiset"
begin

text \<open>
  Completeness of the hard disk driver: with a controller that carries out what it is told, every interrupt brings the driver nearer to
  the end of its queue, and all requests are carried out in the order of the queue.
\<close>

definition ctl_good :: "(mwcmd \<Rightarrow> 'h \<Rightarrow> 'h \<times> u8) \<Rightarrow> bool" where
  "ctl_good f \<longleftrightarrow> (\<forall>c h. if c_op c = STATC then snd (f c h) \<noteq> BUSY \<and> \<not> tst (snd (f c h)) NOTRDY else snd (f c h) = OK)"

text \<open>The transfers that were ordered: direction, sector, and the memory they are from or for.\<close>

type_synonym transfer = "u8 \<times> u16 \<times> u8 \<times> u16"

fun xfer :: "hwcall \<Rightarrow> transfer list" where
  "xfer HReset = []"
| "xfer (Attn c) = (if c_op c \<le> WRITES then [(c_op c, c_blk c, c_xdma c, c_dma c)] else [])"

definition xfers :: "hwcall list \<Rightarrow> transfer list" where
  "xfers log = concat (map xfer log)"

lemma xfers_snoc [simp]: "xfers (log @ [h]) = xfers log @ xfer h"
  by (simp add: xfers_def)

text \<open>The number of sectors of a request for so many bytes, and their transfers one after the other.\<close>

definition nsec :: "u16 \<Rightarrow> nat" where
  "nsec n = (if n \<le> 512 then 1 else (unat n + 511) div 512)"

definition sweep :: "u8 \<Rightarrow> u16 \<Rightarrow> u8 \<Rightarrow> u16 \<Rightarrow> nat \<Rightarrow> transfer list" where
  "sweep op blk x a n = map (\<lambda>i. (op, blk + of_nat i, x, a + 512 * of_nat i)) [0..<n]"

lemma sweep_simps [simp]: "sweep op blk x a 0 = []" "sweep op blk x a (Suc n) = (op, blk, x, a) # sweep op (blk + 1) x (a + 512) n"
  by (simp_all add: sweep_def upt_conv_Cons algebra_simps del: upt_Suc flip: map_Suc_upt)

lemma nsec_simps: "n \<le> 512 \<Longrightarrow> nsec n = 1" "\<not> n \<le> 512 \<Longrightarrow> nsec n = Suc (nsec (n - 512))"
proof -
  show "nsec n = Suc (nsec (n - 512))" if "\<not> n \<le> 512"
  proof -
    have n: "unat (n - 512) = unat n - 512" "512 < unat n" using that by (simp_all add: word_le_nat_alt unat_sub)
    show ?thesis
    proof (cases "unat n \<le> 1024")
      case True
      then have "(unat n + 511) div 512 = 2" using n(2) by (intro div_nat_eqI) simp_all
      then show ?thesis using that n True by (simp add: nsec_def word_le_nat_alt)
    next
      case False
      then have "(unat n + 511) div 512 = Suc ((unat n - 512 + 511) div 512)" by (simp add: le_div_geq)
      then show ?thesis using that n False by (simp add: nsec_def word_le_nat_alt)
    qed
  qed
qed (simp add: nsec_def)

lemma nsec_pos [simp]: "0 < nsec n"
  by (simp add: nsec_def word_le_nat_alt div_greater_zero_iff)

text \<open>The transfers of the request of a buffer, and those that follow the one under way until its request is complete.\<close>

definition sectors :: "'h mw \<Rightarrow> nat \<Rightarrow> transfer list" where
  "sectors m b = (let x = blist (ks m) b in
     sweep (if tst (b_flags x) BREAD then READS else WRITES) (b_blk x) (bxmem m b) (baddr m b) (nsec (b_count x)))"

definition rest :: "'h mw \<Rightarrow> transfer list" where
  "rest m = (let c = cmd m in sweep (c_op c) (c_blk c + 1) (c_xdma c) (c_dma c + 512) (nsec (c_count c) - 1))"

definition serve :: "'h mw \<Rightarrow> ('h, unit) D" where
  "serve m = mwint (finish m)"

primrec mwrun :: "nat \<Rightarrow> 'h mw \<Rightarrow> ('h, unit) D" where
  "mwrun 0 m = Ret () m"
| "mwrun (Suc n) m = bnd (serve m) (\<lambda>_ m. mwrun n m)"

definition like :: "'h mw \<Rightarrow> 'h mw \<Rightarrow> bool" where
  "like m m' \<longleftrightarrow> ks m' = ks m \<and> mwque m' = mwque m \<and> ctl m' = ctl m \<and> busnext m' = busnext m \<and>
     baddr m' = baddr m \<and> bxmem m' = bxmem m"

lemma like_sectors: "like m m' \<Longrightarrow> sectors m' = sectors m"
  by (simp add: like_def sectors_def fun_eq_iff)

lemma like_refl [simp]: "like m m"
  by (simp add: like_def)

lemma like_trans: "like m m1 \<Longrightarrow> like m1 m2 \<Longrightarrow> like m m2"
  by (simp add: like_def)

lemma mwwait_good:
  assumes g: "ctl_good (ctl m)" and op: "\<not> c_op (cmd m) \<le> WRITES"
  obtains m' where "mwwait m = Ret () m'" "like m m'" "mws m' = mws m" "mwinfo m' = mwinfo m" "curdrv m' = curdrv m" "mwstate m' = mwstate m"
    "xfers (hwlog m') = xfers (hwlog m)" "c_op (cmd m) = STATC \<Longrightarrow> \<not> tst (c_stat (cmd m')) NOTRDY"
proof -
  define c where "c = (cmd m)\<lparr>c_stat := BUSY\<rparr>"
  obtain h st where hs: "ctl m c (hw m) = (h, st)" by fastforce
  have "c_op c = c_op (cmd m)" by (simp add: c_def)
  moreover have "if c_op c = STATC then snd (ctl m c (hw m)) \<noteq> BUSY \<and> \<not> tst (snd (ctl m c (hw m))) NOTRDY else snd (ctl m c (hw m)) = OK"
    using g unfolding ctl_good_def by blast
  ultimately have st: "st \<noteq> BUSY" "c_op (cmd m) = STATC \<Longrightarrow> \<not> tst st NOTRDY" using hs by (auto split: if_splits)
  define m' where "m' = finish (attn m)"
  have m': "m' = m\<lparr>cmd := (cmd m)\<lparr>c_stat := st\<rparr>, hw := h, hwlog := hwlog m @ [Attn c]\<rparr>"
    using hs by (simp add: m'_def finish_def attn_def upd_cmd_def Let_def c_def)
  show thesis
    by (rule that [of m']) (use st op in \<open>simp_all add: mwwait_def Let_def m'_def [symmetric]\<close>, simp_all add: m' like_def c_def)
qed

text \<open>The first transfer of the request of \<open>b\<close> has been ordered.\<close>

definition ordered :: "nat \<Rightarrow> 'h mw \<Rightarrow> 'h mw \<Rightarrow> bool" where
  "ordered b m m' \<longleftrightarrow> like m m' \<and> mwstate m' = ACTIVE \<and> c_op (cmd m') \<le> WRITES \<and> c_count (cmd m') = b_count (blist (ks m) b) \<and>
     xfers (hwlog m') @ rest m' = xfers (hwlog m) @ sectors m b"

lemma ordered_like: "like m m1 \<Longrightarrow> xfers (hwlog m1) = xfers (hwlog m) \<Longrightarrow> ordered b m1 m2 \<Longrightarrow> ordered b m m2"
  by (auto simp: ordered_def like_sectors intro: like_trans) (simp add: like_def)

lemma rwcmd_simps:
  "like m (rwcmd m)" "mwstate (rwcmd m) = ACTIVE" "c_op (cmd (rwcmd m)) = c_op (cmd m)" "c_count (cmd (rwcmd m)) = c_count (cmd m)"
  "c_blk (cmd (rwcmd m)) = c_blk (cmd m)" "c_dma (cmd (rwcmd m)) = c_dma (cmd m)" "c_xdma (cmd (rwcmd m)) = c_xdma (cmd m)"
  "c_op (cmd m) \<le> WRITES \<Longrightarrow> xfers (hwlog (rwcmd m)) = xfers (hwlog m) @ [(c_op (cmd m), c_blk (cmd m), c_xdma (cmd m), c_dma (cmd m))]"
  by (simp_all add: like_def rwcmd_def issue_def attn_def upd_cmd_def upd_info_def Let_def)

lemma newrw_good:
  assumes q: "mwque m = b # f"
  obtains m' where "newrw m = Ret () m'" "ordered b m m'"
proof -
  define m2 where "m2 = (let x = blist (ks m) b;
      m1 = upd_cmd (\<lambda>c. c\<lparr>c_blk := b_blk x, c_dma := baddr m b, c_xdma := bxmem m b, c_count := b_count x,
             c_op := (if tst (b_flags x) BREAD then READS else WRITES)\<rparr>) m
    in if tst (n_flags (mws m1 (mwinfo m1))) RECAL
       then upd_info (mwinfo m1) (\<lambda>i. i\<lparr>n_flags := n_flags i AND NOT RECAL\<rparr>) m1 else m1\<lparr>retry := RETRIES\<rparr>)"
  let ?x = "blist (ks m) b"
  have m2: "like m m2" "hwlog m2 = hwlog m" "c_blk (cmd m2) = b_blk ?x" "c_count (cmd m2) = b_count ?x" "c_dma (cmd m2) = baddr m b"
    "c_xdma (cmd m2) = bxmem m b" "c_op (cmd m2) = (if tst (b_flags ?x) BREAD then READS else WRITES)"
    by (simp_all add: m2_def upd_cmd_def upd_info_def like_def Let_def)
  obtain n where n: "nsec (b_count ?x) = Suc n" using nsec_pos [of "b_count ?x"] by (cases "nsec (b_count ?x)") simp_all
  have op: "c_op (cmd m2) \<le> WRITES" by (simp add: m2(7))
  show thesis
  proof (rule that)
    show "newrw m = Ret () (rwcmd m2)" using q by (simp add: newrw_def m2_def Let_def)
    have "like m (rwcmd m2)" by (rule like_trans [OF m2(1) rwcmd_simps(1)])
    then show "ordered b m (rwcmd m2)" unfolding ordered_def using op
      by (simp add: rwcmd_simps(2-7) rwcmd_simps(8) [OF op] m2(2-7) rest_def sectors_def Let_def n)
  qed
qed

lemma load_good:
  assumes g: "ctl_good (ctl m)"
  obtains m' where "load_consts d m = Ret () m'" "like m m'" "mws m' = mws m" "mwinfo m' = mwinfo m" "curdrv m' = curdrv m"
    "xfers (hwlog m') = xfers (hwlog m)"
proof -
  define m1 where "m1 = upd_cmd (\<lambda>c. c\<lparr>c_arg0 := set_high (d OR INTEN) (c_arg0 c), c_hedsel := c_hedsel c OR LCONST, c_op := LOADC\<rparr>) m"
  have m1: "like m m1" "mws m1 = mws m" "mwinfo m1 = mwinfo m" "curdrv m1 = curdrv m" "hwlog m1 = hwlog m" "c_op (cmd m1) = LOADC" "ctl m1 = ctl m"
    by (simp_all add: m1_def upd_cmd_def like_def)
  have "ctl_good (ctl m1)" "\<not> c_op (cmd m1) \<le> WRITES" using g m1 by (simp_all add: word_le_nat_alt)
  then obtain m' where "mwwait m1 = Ret () m'" "like m1 m'" "mws m' = mws m1" "mwinfo m' = mwinfo m1" "curdrv m' = curdrv m1"
    "xfers (hwlog m') = xfers (hwlog m1)" by (rule mwwait_good)
  moreover from this(2) have "like m m'" by (rule like_trans [OF m1(1)])
  ultimately show thesis using m1 by (intro that [of m']) (simp_all add: load_consts_def m1_def)
qed

lemma newdrv_good:
  assumes g: "ctl_good (ctl m)" and q: "mwque m = b # f"
  shows "tst (n_flags (mws m (unat (drive b m)))) CALIB \<Longrightarrow> \<exists>m'. newdrv (Suc k) m = Ret () m' \<and> ordered b m m'"
    "\<not> tst (n_flags (mws m (unat (drive b m)))) CALIB \<Longrightarrow> \<exists>m'. newdrv (Suc k) m = Ret () m' \<and> like m m' \<and> mwstate m' = ACTIVE \<and>
      c_op (cmd m') = HOME \<and> xfers (hwlog m') = xfers (hwlog m) \<and> tst (n_flags (mws m' (unat (drive b m)))) CALIB"
proof -
  define m1 where "m1 = upd_cmd (\<lambda>c. c\<lparr>c_steps := 0, c_seksel := ucast (drive b m), c_hedsel := ucast (drive b m), c_arg2 := SETTLE, c_arg3 := SECSIZE\<rparr>)
      (m\<lparr>curdrv := ucast (drive b m), mwinfo := unat (drive b m)\<rparr>)"
  have m1: "like m m1" "mws m1 = mws m" "mwinfo m1 = unat (drive b m)" "hwlog m1 = hwlog m" "ctl_good (ctl m1)" "ctl m1 = ctl m" "mwque m1 = b # f" "ks m1 = ks m"
    using g q by (simp_all add: m1_def upd_cmd_def like_def)
  show "\<exists>m'. newdrv (Suc k) m = Ret () m' \<and> ordered b m m'"
    if c: "tst (n_flags (mws m (unat (drive b m)))) CALIB"
  proof -
    obtain m2 where 2: "load_consts (n_stpdel (mws m1 (mwinfo m1))) m1 = Ret () m2" "like m1 m2" "xfers (hwlog m2) = xfers (hwlog m1)"
      by (rule load_good [OF m1(5)]) blast
    have q2: "mwque m2 = b # f" using 2(2) m1 by (simp add: like_def)
    obtain m3 where 3: "newrw m2 = Ret () m3" "ordered b m2 m3" by (rule newrw_good [OF q2])
    have "newdrv (Suc k) m = Ret () m3" using q c 2(1) 3(1) m1(2,3) by (simp add: newdrv.simps Let_def m1_def [symmetric])
    moreover have "ordered b m m3" by (rule ordered_like [OF like_trans [OF m1(1) 2(2)] _ 3(2)]) (simp add: 2(3) m1(4))
    ultimately show ?thesis by blast
  qed
  show "\<exists>m'. newdrv (Suc k) m = Ret () m' \<and> like m m' \<and> mwstate m' = ACTIVE \<and> c_op (cmd m') = HOME \<and>
    xfers (hwlog m') = xfers (hwlog m) \<and> tst (n_flags (mws m' (unat (drive b m)))) CALIB"
    if c: "\<not> tst (n_flags (mws m (unat (drive b m)))) CALIB"
  proof -
    define m2 where "m2 = upd_cmd (\<lambda>c. c\<lparr>c_op := STATC\<rparr>) m1"
    have m2: "like m m2" "mwinfo m2 = unat (drive b m)" "hwlog m2 = hwlog m" "ctl_good (ctl m2)" "c_op (cmd m2) = STATC" "ctl m2 = ctl m"
      using m1 by (simp_all add: m2_def upd_cmd_def like_def)
    have "\<not> c_op (cmd m2) \<le> WRITES" using m2 by (simp add: word_le_nat_alt)
    then obtain m3 where 3: "mwwait m2 = Ret () m3" "like m2 m3" "mwinfo m3 = mwinfo m2" "xfers (hwlog m3) = xfers (hwlog m2)"
      "\<not> tst (c_stat (cmd m3)) NOTRDY" using mwwait_good [OF m2(4)] m2(5) by metis
    have "ctl_good (ctl m3)" using 3(2) m2 by (simp add: like_def)
    then obtain m4 where 4: "load_consts HOMDEL m3 = Ret () m4" "like m3 m4" "mwinfo m4 = mwinfo m3" "xfers (hwlog m4) = xfers (hwlog m3)"
      by (rule load_good) blast
    define m5 where "m5 = issue (upd_info (mwinfo m4) (\<lambda>i. i\<lparr>n_curtrk := 0, n_flags := n_flags i OR CALIB\<rparr>)
        (upd_cmd (\<lambda>c. c\<lparr>c_steps := 0xFFFF, c_seksel := c_seksel c OR STEPOUT, c_op := HOME\<rparr>) m4))"
    have "newdrv (Suc k) m = Ret () m5"
      using q c 3(1,5) 4(1) m1(2,3) by (simp add: newdrv.simps Let_def m1_def [symmetric] m2_def [symmetric] m5_def)
    moreover have "like m4 m5" "mwstate m5 = ACTIVE" "c_op (cmd m5) = HOME" "xfers (hwlog m5) = xfers (hwlog m4)" "tst (n_flags (mws m5 (mwinfo m4))) CALIB"
      by (simp_all add: m5_def like_def issue_def attn_def upd_cmd_def upd_info_def Let_def word_le_nat_alt)
    moreover from \<open>like m4 m5\<close> have "like m m5" by (rule like_trans [OF like_trans [OF m2(1) like_trans [OF 3(2) 4(2)]]])
    ultimately show ?thesis using m2(2,3) 3(3,4) 4(3,4) by simp
  qed
qed

section \<open>Completion\<close>

lemma iodone_ret:
  assumes "swapok s" "bbusy (blist s b)" "\<not> berr (blist s b)"
  obtains s' where "iodone b s = Ret () s'" "swapok s'" "bdone (blist s' b)" "\<not> berr (blist s' b)" "\<And>j. j \<noteq> b \<Longrightarrow> btm (blist s j) (blist s' j)"
proof -
  define s1 where "s1 = upd_buf b (\<lambda>x. x\<lparr>b_flags := (b_flags x OR BDONE) AND NOT BDELWRI\<rparr>) s"
  have s1: "swapok s1" "bbusy (blist s1 b)" "\<not> berr (blist s1 b)" "bdone (blist s1 b)" "\<And>j. j \<noteq> b \<Longrightarrow> blist s1 j = blist s j"
    using assms by (simp_all add: s1_def bflag_defs)
  have io: "iodone b s = (if tst (b_flags (blist s1 b)) BSYNC then wakeup (ChBuf b) s1 else brelse b s1)"
    using s1(3) unfolding iodone_def s1_def [symmetric] by (simp add: Let_def berr_def)
  show thesis
  proof (cases "tst (b_flags (blist s1 b)) BSYNC")
    case True
    obtain pl r where "wakeup (ChBuf b) s1 = Ret () (s1\<lparr>plist := pl, resched := r\<rparr>)" "\<And>q. pl q = plist s1 q \<or> pl q = awk (plist s1 q)"
      using wakeup_ret [OF s1(1), of "ChBuf b"] by auto
    moreover from this(2) [of 0] have "swapok (s1\<lparr>plist := pl, resched := r\<rparr>)" using s1(1) by (auto simp: swapok_def)
    ultimately show thesis using that [of "s1\<lparr>plist := pl, resched := r\<rparr>"] io True s1 by simp
  next
    case False
    obtain s' where r: "brelse b s1 = Ret () s'" "bframe s1 s'" "\<And>j. j \<noteq> b \<Longrightarrow> btm (blist s1 j) (blist s' j)"
      "btm ((blist s1 b)\<lparr>b_flags := b_flags (blist s1 b) AND NOT (BBUSY OR BWANT)\<rparr>) (blist s' b)"
      by (rule brelse_ret [OF s1(1,2)]) blast
    have "bdone (blist s' b)" "\<not> berr (blist s' b)" using s1(3,4) unfolding btm_fields [OF r(4)] by (simp_all add: bflag_defs)
    with that [of s'] r s1(1,5) bframe_swapok [OF r(2)] io False show thesis by simp
  qed
qed


lemma mwstop_good:
  assumes g: "ctl_good (ctl m)" and n: "busnext m \<noteq> Some MwStart"
  obtains m' where "mwstop m = Ret () m'" "ks m' = ks m" "mwque m' = mwque m" "mwstate m' = STOPPED" "xfers (hwlog m') = xfers (hwlog m)"
proof -
  define m1 where "m1 = upd_cmd (\<lambda>c. c\<lparr>c_steps := 0, c_arg0 := set_high INTOFF (c_arg0 c), c_hedsel := c_hedsel c OR (LCONST OR 3), c_op := LOADC\<rparr>)
      (m\<lparr>mwstate := STOPPED\<rparr>)"
  have m1: "ctl_good (ctl m1)" "\<not> c_op (cmd m1) \<le> WRITES" "like m m1" "mwstate m1 = STOPPED" "hwlog m1 = hwlog m"
    using g by (simp_all add: m1_def upd_cmd_def like_def word_le_nat_alt)
  obtain m2 where 2: "mwwait m1 = Ret () m2" "like m1 m2" "mwstate m2 = mwstate m1" "xfers (hwlog m2) = xfers (hwlog m1)"
    by (rule mwwait_good [OF m1(1,2)]) blast
  have k: "like m m2" by (rule like_trans [OF m1(3) 2(2)])
  obtain m3 x where 3: "busgive None m2 = Ret x m3" "ks m3 = ks m2" "mwque m3 = mwque m2" "mwstate m3 = mwstate m2" "hwlog m3 = hwlog m2"
  proof (cases "busnext m2")
    case None
    then show thesis by (intro that [of False "m2\<lparr>bus := None\<rparr>"]) (simp_all add: busgive_def)
  next
    case (Some c)
    with n k obtain i where "c = OtherStart i" by (cases c) (auto simp: like_def)
    with Some show thesis
      by (intro that [of True "m2\<lparr>bus := Some c, busnext := None, called := called m2 @ [i]\<rparr>"]) (simp_all add: busgive_def)
  qed
  show thesis
  proof (rule that [of m3])
    show "mwstop m = Ret () m3" unfolding mwstop_def m1_def [symmetric] using 2(1) 3(1) by simp
  qed (use 2 3 m1 k in \<open>simp_all add: like_def\<close>)
qed

text \<open>What the driver relies on while it works: a controller that does what it is told, and requests held by the driver.\<close>

definition good :: "'h mw \<Rightarrow> bool" where
  "good m \<longleftrightarrow> ctl_good (ctl m) \<and> swapok (ks m) \<and> busnext m \<noteq> Some MwStart \<and> distinct (mwque m) \<and>
     (\<forall>b\<in>set (mwque m). bbusy (blist (ks m) b) \<and> \<not> berr (blist (ks m) b))"

text \<open>The transfers of the requests of a queue, and the interrupts they need: one for each sector, and one to bring a new drive home.\<close>

definition orders :: "'h mw \<Rightarrow> nat list \<Rightarrow> transfer list" where
  "orders m q = concat (map (sectors m) q)"

lemma orders_simps [simp]: "orders m [] = []" "orders m (b # q) = sectors m b @ orders m q"
  by (simp_all add: orders_def)

definition work :: "kst \<Rightarrow> nat list \<Rightarrow> nat" where
  "work s q = (\<Sum>b\<leftarrow>q. nsec (b_count (blist s b)) + 1)"

lemma work_simps [simp]: "work s [] = 0" "work s (b # q) = nsec (b_count (blist s b)) + 1 + work s q"
  by (simp_all add: work_def)

lemma like_orders_work: "like m m' \<Longrightarrow> orders m' = orders m \<and> ks m' = ks m"
  by (simp add: orders_def fun_eq_iff like_sectors) (simp add: like_def)

text \<open>
  \<open>served q n m\<close>: after at most \<open>n\<close> interrupts the requests \<open>q\<close> are done without error, the other buffers as they were, the queue empty and the
  controller stopped; the transfers ordered by then are those of the log and \<open>l\<close>.
\<close>

definition served :: "nat list \<Rightarrow> transfer list \<Rightarrow> nat \<Rightarrow> 'h mw \<Rightarrow> bool" where
  "served q l n m \<longleftrightarrow> (\<exists>k m'. k \<le> n \<and> mwrun k m = Ret () m' \<and> mwque m' = [] \<and> mwstate m' = STOPPED \<and>
     (\<forall>b\<in>set q. bdone (blist (ks m') b) \<and> \<not> berr (blist (ks m') b)) \<and> (\<forall>b. b \<notin> set q \<longrightarrow> btm (blist (ks m) b) (blist (ks m') b)) \<and>
     xfers (hwlog m') = xfers (hwlog m) @ l)"

lemma like_good: "like m m' \<Longrightarrow> good m' = good m"
  by (simp add: like_def good_def)

lemma served_step:
  assumes "serve m = Ret () m1" "served q l n m1" "xfers (hwlog m1) @ l = xfers (hwlog m) @ l'"
    and k: "\<And>j. j \<notin> set q0 \<Longrightarrow> btm (blist (ks m) j) (blist (ks m1) j)"
    and d: "\<And>j. j \<in> set q0 \<Longrightarrow> bdone (blist (ks m1) j) \<and> \<not> berr (blist (ks m1) j)"
  shows "served (q0 @ q) l' (Suc n) m"
proof -
  obtain i m' where i: "i \<le> n" "mwrun i m1 = Ret () m'" "mwque m' = []" "mwstate m' = STOPPED" "xfers (hwlog m') = xfers (hwlog m1) @ l"
    and q: "\<forall>b\<in>set q. bdone (blist (ks m') b) \<and> \<not> berr (blist (ks m') b)" "\<forall>b. b \<notin> set q \<longrightarrow> btm (blist (ks m1) b) (blist (ks m') b)"
    using assms(2) unfolding served_def by blast
  have "bdone (blist (ks m') j) \<and> \<not> berr (blist (ks m') j)" if "j \<in> set (q0 @ q)" for j
    using q d [of j] btm_fields(7,11) [of "blist (ks m1) j" "blist (ks m') j"] that by (cases "j \<in> set q") auto
  moreover have "btm (blist (ks m) j) (blist (ks m') j)" if "j \<notin> set (q0 @ q)" for j
    using that by (intro btm_trans [OF k q(2) [rule_format]]) simp_all
  ultimately show ?thesis unfolding served_def using assms(1,3) i by (intro exI [of _ "Suc i"] exI [of _ m']) simp
qed

lemma served_like:
  assumes "serve m = Ret () m1" "served q l n m1" "xfers (hwlog m1) @ l = xfers (hwlog m) @ l'" "like m m1"
  shows "served q l' (Suc n) m"
  using served_step [OF assms(1-3), of "[]"] assms(4) by (simp add: like_def)

lemma served_more: "served q l n m \<Longrightarrow> n \<le> n' \<Longrightarrow> served q l n' m"
  unfolding served_def by (elim exE conjE) (rule exI, rule exI, intro conjI; (erule (1) le_trans | assumption))

text \<open>A transfer for the head of the queue is under way.\<close>

definition busyrw :: "'h mw \<Rightarrow> bool" where
  "busyrw m \<longleftrightarrow> mwstate m = ACTIVE \<and> c_op (cmd m) \<le> WRITES"

lemma finish_good:
  assumes "ctl_good (ctl m)" "c_op (cmd m) \<noteq> STATC" "mwstate m = ACTIVE"
  obtains m1 where "serve m = (if c_op (cmd m) \<le> WRITES then rwint (Suc (length (mwque m))) m1 else newdrv (Suc (length (mwque m))) m1)"
    "like m m1" "cmd m1 = (cmd m)\<lparr>c_stat := OK\<rparr>" "hwlog m1 = hwlog m" "mws m1 = mws m"
proof -
  obtain h st where hs: "ctl m (cmd m) (hw m) = (h, st)" by fastforce
  have "if c_op (cmd m) = STATC then snd (ctl m (cmd m) (hw m)) \<noteq> BUSY \<and> \<not> tst (snd (ctl m (cmd m) (hw m))) NOTRDY
    else snd (ctl m (cmd m) (hw m)) = OK" using assms(1) unfolding ctl_good_def by blast
  then have st: "st = OK" using assms(2) hs by simp
  have f: "finish m = m\<lparr>hw := h, cmd := (cmd m)\<lparr>c_stat := OK\<rparr>\<rparr>" by (simp add: finish_def hs st upd_cmd_def)
  show thesis
    by (rule that [of "m\<lparr>hw := h, cmd := (cmd m)\<lparr>c_stat := OK\<rparr>, mwstate := INTRPT\<rparr>"])
      (use assms(3) in \<open>simp_all add: serve_def f mwint_def Let_def like_def\<close>)
qed

lemma adv_good:
  assumes g: "good m" and q: "mwque m = b # f"
  obtains m2 where "advque k m = (case f of [] \<Rightarrow> mwstop m2 | n # _ \<Rightarrow> if ucast (curdrv m2) \<noteq> drive n m2 then newdrv k m2 else newrw m2)"
    "good m2" "mwque m2 = f" "hwlog m2 = hwlog m" "bdone (blist (ks m2) b)" "\<not> berr (blist (ks m2) b)"
    "\<And>j. j \<noteq> b \<Longrightarrow> btm (blist (ks m) j) (blist (ks m2) j)" "orders m2 f = orders m f" "work (ks m2) f = work (ks m) f"
proof -
  have b: "swapok (ks m)" "bbusy (blist (ks m) b)" "\<not> berr (blist (ks m) b)" "b \<notin> set f" using g q by (simp_all add: good_def)
  obtain s where s: "iodone b (ks m) = Ret () s" "swapok s" "bdone (blist s b)" "\<not> berr (blist s b)"
    "\<And>j. j \<noteq> b \<Longrightarrow> btm (blist (ks m) j) (blist s j)" by (rule iodone_ret [OF b(1-3)]) blast
  have cnt: "b_count y = b_count x" if "btm x y" for x y using arg_cong [OF that [unfolded btm_def], of b_count] by simp
  have others: "btm (blist (ks m) j) (blist s j)" if "j \<in> set f" for j by (rule s(5)) (use b(4) that in auto)
  have "bbusy (blist s j) \<and> \<not> berr (blist s j)" if "j \<in> set f" for j
    using g q that btm_fields(9,11) [OF others [OF that]] by (simp add: good_def)
  note held = this
  define m2 where "m2 = m\<lparr>ks := s, mwque := f\<rparr>"
  show thesis
  proof (rule that [of m2])
    show "advque k m = (case f of [] \<Rightarrow> mwstop m2 | n # _ \<Rightarrow> if ucast (curdrv m2) \<noteq> drive n m2 then newdrv k m2 else newrw m2)"
      by (simp add: advque.simps q onk_def s(1) Let_def m2_def split: list.split)
    show "good m2" using g q s(2) held by (simp add: good_def m2_def)
    have "sectors m2 j = sectors m j" if "j \<in> set f" for j
      using btm_fields(1,3) [OF others [OF that]] cnt [OF others [OF that]] by (simp add: sectors_def m2_def Let_def)
    then show "orders m2 f = orders m f" by (simp add: orders_def cong: map_cong)
    show "work (ks m2) f = work (ks m) f" using cnt [OF others] by (simp add: work_def m2_def cong: map_cong)
  qed (use s(3-5) in \<open>simp_all add: m2_def\<close>)
qed

text \<open>A transfer that ends inside a request is followed by the next one of the request.\<close>

lemma serve_more:
  assumes g: "good m" "busyrw m" "\<not> c_count (cmd m) \<le> 512"
  obtains m2 where "serve m = Ret () m2" "like m m2" "busyrw m2" "c_count (cmd m2) = c_count (cmd m) - 512"
    "xfers (hwlog m2) @ rest m2 = xfers (hwlog m) @ rest m"
proof -
  have cg: "ctl_good (ctl m)" "c_op (cmd m) \<noteq> STATC" "mwstate m = ACTIVE" using g by (auto simp: good_def busyrw_def word_le_nat_alt)
  obtain m1 where 1: "serve m = rwint (Suc (length (mwque m))) m1" "like m m1" "hwlog m1 = hwlog m" "cmd m1 = (cmd m)\<lparr>c_stat := OK\<rparr>"
    by (rule finish_good [OF cg]) (use g(2) in \<open>auto simp: busyrw_def\<close>)
  define m2 where "m2 = upd_cmd (\<lambda>c. c\<lparr>c_count := c_count c - 512, c_dma := c_dma c + 512, c_blk := c_blk c + 1\<rparr>) m1"
  have m2: "like m1 m2" "hwlog m2 = hwlog m" "c_op (cmd m2) = c_op (cmd m)" "c_count (cmd m2) = c_count (cmd m) - 512"
    "c_dma (cmd m2) = c_dma (cmd m) + 512" "c_blk (cmd m2) = c_blk (cmd m) + 1" "c_xdma (cmd m2) = c_xdma (cmd m)"
    using 1(3,4) by (simp_all add: m2_def upd_cmd_def like_def)
  have op: "c_op (cmd m2) \<le> WRITES" using g(2) m2(3) by (simp add: busyrw_def)
  obtain n where n: "nsec (c_count (cmd m) - 512) = Suc n" using nsec_pos [of "c_count (cmd m) - 512"] by (cases "nsec (c_count (cmd m) - 512)") simp_all
  show thesis
  proof (rule that [of "rwcmd m2"])
    show "serve m = Ret () (rwcmd m2)" using 1(1,4) g(3) by (simp add: rwint_def Let_def m2_def)
    show "like m (rwcmd m2)" by (rule like_trans [OF 1(2) like_trans [OF m2(1) rwcmd_simps(1)]])
    show "busyrw (rwcmd m2)" using op by (simp add: busyrw_def rwcmd_simps(2,3))
    show "xfers (hwlog (rwcmd m2)) @ rest (rwcmd m2) = xfers (hwlog m) @ rest m"
      by (simp add: rwcmd_simps(2-7) rwcmd_simps(8) [OF op] m2(2-7) rest_def Let_def nsec_simps(2) [OF g(3)] n)
  qed (simp add: rwcmd_simps(4) m2(4))
qed

lemma sect_served:
  assumes H: "\<And>m :: 'h mw. good m \<Longrightarrow> mwque m = b # f \<Longrightarrow> busyrw m \<Longrightarrow> c_count (cmd m) \<le> 512 \<Longrightarrow> work (ks m) f = n \<Longrightarrow>
      served (b # f) (orders m f) (Suc n) m"
    and g: "good (m :: 'h mw)" "mwque m = b # f" "busyrw m" "work (ks m) f = n"
  shows "served (b # f) (rest m @ orders m f) (nsec (c_count (cmd m)) + n) m"
  using g
proof (induction "nsec (c_count (cmd m))" arbitrary: m rule: less_induct)
  case less
  show ?case
  proof (cases "c_count (cmd m) \<le> 512")
    case True
    then show ?thesis using H [OF less.prems(1-3) True less.prems(4)] by (simp add: rest_def Let_def nsec_simps(1))
  next
    case False
    obtain m2 where 2: "serve m = Ret () m2" "like m m2" "busyrw m2" "c_count (cmd m2) = c_count (cmd m) - 512"
      "xfers (hwlog m2) @ rest m2 = xfers (hwlog m) @ rest m" by (rule serve_more [OF less.prems(1,3) False]) blast
    have k: "good m2" "mwque m2 = b # f" "work (ks m2) f = n" "orders m2 f = orders m f"
      using like_good [OF 2(2)] like_orders_work [OF 2(2)] 2(2) less.prems by (simp_all add: like_def)
    have "nsec (c_count (cmd m2)) < nsec (c_count (cmd m))" using 2(4) nsec_simps(2) [OF False] by simp
    from less.hyps [OF this k(1,2) 2(3) k(3)] have "served (b # f) (rest m2 @ orders m2 f) (nsec (c_count (cmd m2)) + n) m2" .
    from served_like [OF 2(1) this _ 2(2), of "rest m @ orders m f"] show ?thesis
      using 2(4,5) k(4) nsec_simps(2) [OF False] by simp
  qed
qed

lemma calib_served:
  assumes H: "\<And>m :: 'h mw. good m \<Longrightarrow> mwque m = b # f \<Longrightarrow> busyrw m \<Longrightarrow> work (ks m) f = n \<Longrightarrow>
      served (b # f) (rest m @ orders m f) (nsec (c_count (cmd m)) + n) m"
    and g: "good (m :: 'h mw)" "mwque m = b # f" "mwstate m = ACTIVE" "c_op (cmd m) \<noteq> STATC" "\<not> c_op (cmd m) \<le> WRITES"
      "tst (n_flags (mws m (unat (drive b m)))) CALIB" "work (ks m) f = n"
  shows "served (b # f) (orders m (b # f)) (Suc (nsec (b_count (blist (ks m) b)) + n)) m"
proof -
  have cg: "ctl_good (ctl m)" using g(1) by (simp add: good_def)
  obtain m1 where 1: "serve m = newdrv (Suc (Suc (length f))) m1" "like m m1" "hwlog m1 = hwlog m" "mws m1 = mws m"
    by (rule finish_good [OF cg g(4,3)]) (use g(2,5) in auto)
  have d: "ctl_good (ctl m1)" "mwque m1 = b # f" "drive b m1 = drive b m" "ks m1 = ks m"
    using 1(2) cg g(2) by (simp_all add: like_def drive_def)
  have "tst (n_flags (mws m1 (unat (drive b m1)))) CALIB" using g(6) 1(4) d(3) by simp
  from newdrv_good(1) [OF d(1,2) this, of "Suc (length f)"]
  obtain m2 where 2: "newdrv (Suc (Suc (length f))) m1 = Ret () m2" "ordered b m1 m2" by blast
  have o: "ordered b m m2" by (rule ordered_like [OF 1(2) _ 2(2)]) (simp add: 1(3))
  then have k: "like m m2" by (simp add: ordered_def)
  then have m2: "good m2" "mwque m2 = b # f" "busyrw m2" "work (ks m2) f = n" "orders m2 f = orders m f"
    using like_good [OF k] like_orders_work [OF k] g(1,2,7) o by (simp_all add: like_def busyrw_def ordered_def)
  show ?thesis using served_like [OF _ H [OF m2(1-4)] _ k] 1(1) 2(1) m2(5) o by (simp add: ordered_def)
qed

lemma select_served:
  assumes H: "\<And>m :: 'h mw. good m \<Longrightarrow> mwque m = b # f \<Longrightarrow> busyrw m \<Longrightarrow> work (ks m) f = n \<Longrightarrow>
      served (b # f) (rest m @ orders m f) (nsec (c_count (cmd m)) + n) m"
    and g: "good (m :: 'h mw)" "mwque m = b # f" "mwstate m = ACTIVE" "c_op (cmd m) \<noteq> STATC" "\<not> c_op (cmd m) \<le> WRITES" "work (ks m) f = n"
  shows "served (b # f) (orders m (b # f)) (Suc (Suc (nsec (b_count (blist (ks m) b)) + n))) m"
proof (cases "tst (n_flags (mws m (unat (drive b m)))) CALIB")
  case True
  show ?thesis by (rule served_more [OF calib_served [OF H g(1-5) True g(6)]]) auto
next
  case False
  have cg: "ctl_good (ctl m)" using g(1) by (simp add: good_def)
  obtain m1 where 1: "serve m = newdrv (Suc (Suc (length f))) m1" "like m m1" "hwlog m1 = hwlog m" "mws m1 = mws m"
    by (rule finish_good [OF cg g(4,3)]) (use g(2,5) in auto)
  have d: "ctl_good (ctl m1)" "mwque m1 = b # f" "drive b m1 = drive b m" "ks m1 = ks m"
    using 1(2) cg g(2) by (simp_all add: like_def drive_def)
  have "\<not> tst (n_flags (mws m1 (unat (drive b m1)))) CALIB" using False 1(4) d(3) by simp
  from newdrv_good(2) [OF d(1,2) this, of "Suc (length f)"]
  obtain m2 where 2: "newdrv (Suc (Suc (length f))) m1 = Ret () m2" "like m1 m2" "mwstate m2 = ACTIVE" "c_op (cmd m2) = HOME"
    "xfers (hwlog m2) = xfers (hwlog m1)" "tst (n_flags (mws m2 (unat (drive b m1)))) CALIB" by blast
  have k: "like m m2" by (rule like_trans [OF 1(2) 2(2)])
  have 3: "good m2" "mwque m2 = b # f" "ks m2 = ks m" "drive b m2 = drive b m1" "orders m2 = orders m"
    using like_good [OF k] like_orders_work [OF k] g(1,2) k d(3) by (simp_all add: like_def drive_def)
  have "served (b # f) (orders m2 (b # f)) (Suc (nsec (b_count (blist (ks m2) b)) + n)) m2"
    by (rule calib_served [OF H 3(1,2) 2(3)]) (use 2(4,6) 3(3,4) g(6) in \<open>simp_all add: word_le_nat_alt\<close>)
  from served_like [OF _ this _ k] show ?thesis using 1(1,3) 2(1,5) 3(3,5) by simp
qed


text \<open>The interrupt of the last transfer of a request: the request is complete, the next one is taken up.\<close>

lemma serve_rw:
  assumes g: "good m" "mwque m = b # f" "busyrw m" "c_count (cmd m) \<le> 512"
  obtains m2 where "serve m = (case f of [] \<Rightarrow> mwstop m2
      | n # _ \<Rightarrow> if ucast (curdrv m2) \<noteq> drive n m2 then newdrv (Suc (Suc (length f))) m2 else newrw m2)"
    "good m2" "mwque m2 = f" "hwlog m2 = hwlog m" "bdone (blist (ks m2) b)" "\<not> berr (blist (ks m2) b)"
    "\<And>j. j \<noteq> b \<Longrightarrow> btm (blist (ks m) j) (blist (ks m2) j)" "orders m2 f = orders m f" "work (ks m2) f = work (ks m) f"
proof -
  have cg: "ctl_good (ctl m)" "c_op (cmd m) \<noteq> STATC" "mwstate m = ACTIVE" using g by (auto simp: good_def busyrw_def word_le_nat_alt)
  obtain m1 where 1: "serve m = rwint (Suc (Suc (length f))) m1" "like m m1" "hwlog m1 = hwlog m" "cmd m1 = (cmd m)\<lparr>c_stat := OK\<rparr>"
    by (rule finish_good [OF cg]) (use g(2,3) in \<open>auto simp: busyrw_def\<close>)
  have a: "serve m = advque (Suc (Suc (length f))) m1" using 1(1,4) g(4) by (simp add: rwint_def Let_def)
  have m1: "good m1" "mwque m1 = b # f" "ks m1 = ks m" "orders m1 = orders m"
    using like_good [OF 1(2)] like_orders_work [OF 1(2)] 1(2) g(1,2) by (simp_all add: like_def)
  show thesis using adv_good [OF m1(1,2), of "Suc (Suc (length f))" thesis] that a 1(3) m1(3,4) by simp
qed

text \<open>A transfer under way is completed, then the rest of its request and with it the rest of the queue.\<close>

lemma busyrw_served:
  assumes "good (m :: 'h mw)" "mwque m = b # f" "busyrw m" "work (ks m) f = n"
  shows "served (b # f) (rest m @ orders m f) (nsec (c_count (cmd m)) + n) m"
  using assms
proof (induction f arbitrary: b m n)
  case (Nil b m n)
  show ?case
  proof (rule sect_served [OF _ Nil])
    fix m :: "'h mw"
    assume a: "good m" "mwque m = [b]" "busyrw m" "c_count (cmd m) \<le> 512" "work (ks m) [] = n"
    obtain m2 where 2: "serve m = mwstop m2" "good m2" "mwque m2 = []" "hwlog m2 = hwlog m" "bdone (blist (ks m2) b)" "\<not> berr (blist (ks m2) b)"
      "\<And>j. j \<noteq> b \<Longrightarrow> btm (blist (ks m) j) (blist (ks m2) j)" by (rule serve_rw [OF a(1-4)]) auto
    have "ctl_good (ctl m2)" "busnext m2 \<noteq> Some MwStart" using 2(2) by (simp_all add: good_def)
    then obtain m3 where 3: "mwstop m2 = Ret () m3" "ks m3 = ks m2" "mwque m3 = mwque m2" "mwstate m3 = STOPPED" "xfers (hwlog m3) = xfers (hwlog m2)"
      by (rule mwstop_good) blast
    have "served [] [] n m3" unfolding served_def using 2(3) 3(3,4) by (intro exI [of _ 0]) simp
    from served_step [OF _ this, of m "[]" "[b]"] show "served [b] (orders m []) (Suc n) m" using 2 3 by simp
  qed
next
  case (Cons r f b m n)
  show ?case
  proof (rule sect_served [OF _ Cons.prems])
    fix m :: "'h mw"
    assume a: "good m" "mwque m = b # r # f" "busyrw m" "c_count (cmd m) \<le> 512" "work (ks m) (r # f) = n"
    obtain m2 where 2: "serve m = (if ucast (curdrv m2) \<noteq> drive r m2 then newdrv (Suc (Suc (Suc (length f)))) m2 else newrw m2)"
      "good m2" "mwque m2 = r # f" "hwlog m2 = hwlog m" "bdone (blist (ks m2) b)" "\<not> berr (blist (ks m2) b)"
      "\<And>j. j \<noteq> b \<Longrightarrow> btm (blist (ks m) j) (blist (ks m2) j)" "orders m2 (r # f) = orders m (r # f)" "work (ks m2) (r # f) = n"
      by (rule serve_rw [OF a(1-4), unfolded list.case length_Cons a(5)]) blast
    have cg: "ctl_good (ctl m2)" using 2(2) by (simp add: good_def)
    let ?goal = "served (b # r # f) (orders m (r # f)) (Suc n) m"
    have fin: ?goal if 3: "serve m = Ret () m3" "like m2 m3" "served (r # f) l n m3" "xfers (hwlog m3) @ l = xfers (hwlog m2) @ orders m2 (r # f)" for m3 l
    proof -
      have "served ([b] @ r # f) (orders m (r # f)) (Suc n) m"
        by (rule served_step [OF 3(1,3)]) (use 3(2,4) 2(4-8) in \<open>auto simp: like_def\<close>)
      then show ?thesis by simp
    qed
    have rw: ?goal if 3: "serve m = Ret () m3" "ordered r m2 m3" for m3
    proof -
      have k: "like m2 m3" using 3(2) by (simp add: ordered_def)
      have "good m3" "mwque m3 = r # f" "busyrw m3" "work (ks m3) f = work (ks m2) f" and t: "orders m3 = orders m2"
        using like_good [OF k] like_orders_work [OF k] k 2(2,3) 3(2) by (simp_all add: like_def busyrw_def ordered_def)
      from Cons.IH [OF this(1-4)] have "served (r # f) (rest m3 @ orders m3 f) n m3"
        by (rule served_more) (use 2(9) 3(2) in \<open>simp add: ordered_def\<close>)
      from fin [OF 3(1) k this] show ?thesis using 3(2) t by (simp add: ordered_def)
    qed
    have home: ?goal if 3: "serve m = Ret () m3" "like m2 m3" "mwstate m3 = ACTIVE" "c_op (cmd m3) = HOME"
      "xfers (hwlog m3) = xfers (hwlog m2)" "tst (n_flags (mws m3 (unat (drive r m2)))) CALIB" for m3
    proof -
      have 4: "good m3" "mwque m3 = r # f" "ks m3 = ks m2" "drive r m3 = drive r m2" "orders m3 = orders m2"
        using like_good [OF 3(2)] like_orders_work [OF 3(2)] 2(2,3) 3(2) by (simp_all add: like_def drive_def)
      have "served (r # f) (orders m3 (r # f)) (Suc (nsec (b_count (blist (ks m3) r)) + work (ks m3) f)) m3"
        by (rule calib_served [OF Cons.IH 4(1,2) 3(3)]) (use 3(4,6) 4(4) in \<open>simp_all add: word_le_nat_alt\<close>)
      then have "served (r # f) (orders m3 (r # f)) n m3" by (rule served_more) (use 2(9) 4(3) in simp)
      from fin [OF 3(1,2) this] show ?thesis using 3(5) 4(5) by simp
    qed
    show ?goal
    proof (cases "ucast (curdrv m2) = drive r m2")
      case True
      then show ?thesis using newrw_good [OF 2(3), of ?thesis] rw 2(1) by simp
    next
      case False
      then show ?thesis using newdrv_good [OF cg 2(3), of "Suc (Suc (length f))"] rw home 2(1)
        by (cases "tst (n_flags (mws m2 (unat (drive r m2)))) CALIB") auto
    qed
  qed
qed

lemma queue_served:
  assumes "good m" "mwque m \<noteq> []" "mwstate m = ACTIVE" "c_op (cmd m) = LOADC"
  shows "served (mwque m) (orders m (mwque m)) (work (ks m) (mwque m) + 1) m"
proof -
  obtain b f where q: "mwque m = b # f" using assms(2) by (cases "mwque m") auto
  have "served (b # f) (orders m (b # f)) (Suc (Suc (nsec (b_count (blist (ks m) b)) + work (ks m) f))) m"
    by (rule select_served [OF busyrw_served assms(1) q assms(3)]) (simp_all add: assms(4) word_le_nat_alt)
  with q show ?thesis by simp
qed


section \<open>From the strategy routine to the last interrupt\<close>

primrec mwstrats :: "nat list \<Rightarrow> 'h mw \<Rightarrow> ('h, unit) D" where
  "mwstrats [] m = Ret () m"
| "mwstrats (b # bs) m = bnd (mwstrat b m) (\<lambda>_ m. mwstrats bs m)"

definition fits :: "'h mw \<Rightarrow> nat \<Rightarrow> bool" where
  "fits m b \<longleftrightarrow> b_blk (blist (ks m) b) \<le> n_maxblk (mws m (unat (drive b m)))"

definition request :: "'h mw \<Rightarrow> nat \<Rightarrow> bool" where
  "request m b \<longleftrightarrow> fits m b \<and> bbusy (blist (ks m) b) \<and> \<not> berr (blist (ks m) b)"

text \<open>The driver has no work and can have the bus.\<close>

definition mwidle :: "'h mw \<Rightarrow> bool" where
  "mwidle m \<longleftrightarrow> mwstate m = STOPPED \<and> mwque m = [] \<and> bus m \<in> {None, Some MwStart} \<and> busnext m \<noteq> Some MwStart"

lemma mset_binsert [simp]: "mset (binsert c p b fs) = add_mset b (mset fs)"
  by (induction fs arbitrary: p) auto

lemma mwstrat_queues:
  assumes "fits m b" "mwstate m = ACTIVE"
  obtains m' where "mwstrat b m = Ret () m'" "mset (mwque m') = add_mset b (mset (mwque m))" "ks m' = ks m" "mws m' = mws m" "ctl m' = ctl m"
    "mwstate m' = ACTIVE" "cmd m' = cmd m" "hwlog m' = hwlog m" "busnext m' = busnext m" "baddr m' = baddr m" "bxmem m' = bxmem m"
proof -
  define m1 where "m1 = m\<lparr>bcyl := (bcyl m)(b := mwcyl (b_blk (blist (ks m) b)) (mws m (unat (drive b m))))\<rparr>"
  define m' where "m' = m1\<lparr>mwque := (case mwque m1 of [] \<Rightarrow> [b] | h # fs \<Rightarrow> h # binsert (bcyl m1) h b fs)\<rparr>"
  have m1: "mwque m1 = mwque m" "ks m1 = ks m" "mws m1 = mws m" "ctl m1 = ctl m" "mwstate m1 = mwstate m" "cmd m1 = cmd m" "hwlog m1 = hwlog m"
    "busnext m1 = busnext m" "baddr m1 = baddr m" "bxmem m1 = bxmem m" by (simp_all add: m1_def)
  have "mwstrat b m = Ret () m'" using assms m1
    unfolding mwstrat_def fits_def Let_def m1_def [symmetric] m'_def [symmetric] by (simp add: m'_def flip: not_le)
  then show thesis by (rule that) (use assms(2) m1 in \<open>simp_all add: m'_def split: list.split\<close>)
qed

lemma mwstrat_starts:
  assumes "fits m b" "mwidle m"
  obtains m' where "mwstrat b m = Ret () m'" "mwque m' = [b]" "ks m' = ks m" "mws m' = mws m" "ctl m' = ctl m" "mwstate m' = ACTIVE"
    "c_op (cmd m') = LOADC" "xfers (hwlog m') = xfers (hwlog m)" "busnext m' = busnext m" "baddr m' = baddr m" "bxmem m' = bxmem m"
proof -
  define m1 where "m1 = m\<lparr>bcyl := (bcyl m)(b := mwcyl (b_blk (blist (ks m) b)) (mws m (unat (drive b m)))), mwque := [b]\<rparr>"
  define m' where "m' = issue (upd_cmd (\<lambda>c. c\<lparr>c_steps := 0, c_arg0 := set_high INTEN (c_arg0 c), c_hedsel := c_hedsel c OR LCONST, c_op := LOADC\<rparr>)
      (m1\<lparr>bus := Some MwStart\<rparr>))"
  have "mwstart m1 = Ret () m'" using assms(2) by (auto simp: mwstart_def busget_def mwidle_def m1_def m'_def)
  then have "mwstrat b m = Ret () m'"
    using assms by (simp add: mwstrat_def fits_def mwidle_def Let_def m1_def [symmetric] not_le [symmetric]) (simp add: m1_def word_le_nat_alt)
  then show thesis
    by (rule that) (simp_all add: m'_def issue_def attn_def upd_cmd_def Let_def m1_def word_le_nat_alt)
qed

lemma mwstrats_queue:
  assumes "\<And>b. b \<in> set bs \<Longrightarrow> fits m b" "mwstate m = ACTIVE"
  obtains m' where "mwstrats bs m = Ret () m'" "mset (mwque m') = mset bs + mset (mwque m)" "ks m' = ks m" "mws m' = mws m" "ctl m' = ctl m"
    "mwstate m' = ACTIVE" "cmd m' = cmd m" "hwlog m' = hwlog m" "busnext m' = busnext m" "baddr m' = baddr m" "bxmem m' = bxmem m"
  using assms
proof (induction bs arbitrary: m thesis)
  case Nil
  then show ?case by simp
next
  case (Cons b bs)
  have "fits m b" "mwstate m = ACTIVE" using Cons.prems by simp_all
  then obtain m1 where 1: "mwstrat b m = Ret () m1" "mset (mwque m1) = add_mset b (mset (mwque m))" "ks m1 = ks m" "mws m1 = mws m" "ctl m1 = ctl m"
    "mwstate m1 = ACTIVE" "cmd m1 = cmd m" "hwlog m1 = hwlog m" "busnext m1 = busnext m" "baddr m1 = baddr m" "bxmem m1 = bxmem m" by (rule mwstrat_queues)
  have f: "fits m1 c" if "c \<in> set bs" for c using Cons.prems(2) [of c] that 1(3,4) by (simp add: fits_def drive_def)
  obtain m' where "mwstrats bs m1 = Ret () m'" "mset (mwque m') = mset bs + mset (mwque m1)" "ks m' = ks m1" "mws m' = mws m1" "ctl m' = ctl m1"
    "mwstate m' = ACTIVE" "cmd m' = cmd m1" "hwlog m' = hwlog m1" "busnext m' = busnext m1" "baddr m' = baddr m1" "bxmem m' = bxmem m1" by (rule Cons.IH [OF _ f 1(6)]) blast+
  with 1 show ?case by (intro Cons.prems(1) [of m']) simp_all
qed

text \<open>
  C8. An idle hard disk driver that is given requests, of any length, whose first blocks are within its drives (each with its buffer marked busy)
  carries all of them out, with a controller that carries out every command it is given (no error, no drive that is not ready: the retries of \<^verbatim>\<open>rwint\<close>
  are not the subject here). The interrupts needed are at most one for each sector of 512 bytes of a request, one more for each request and one more.
  Then the queue is empty, the controller is stopped, every buffer is marked done without error, and no other buffer is changed except in its time of use.
  The transfers ordered from the controller are those of the requests in some order, each request exactly once: one for each of its sectors, one after the other, in the direction of the request,
  with the block number advanced by one and the memory address by 512 each time.
\<close>

theorem mw_serves_all:
  assumes idle: "mwidle m" and ctl: "ctl_good (ctl m)" and sw: "swapok (ks m)"
    and bs: "bs \<noteq> []" "distinct bs" "\<And>b. b \<in> set bs \<Longrightarrow> request m b"
  shows "\<exists>m1 k m'. mwstrats bs m = Ret () m1 \<and> k \<le> (\<Sum>b\<leftarrow>bs. nsec (b_count (blist (ks m) b)) + 1) + 1 \<and> mwrun k m1 = Ret () m' \<and>
    mwque m' = [] \<and> mwstate m' = STOPPED \<and>
    (\<forall>b\<in>set bs. bdone (blist (ks m') b) \<and> \<not> berr (blist (ks m') b)) \<and> (\<forall>b. b \<notin> set bs \<longrightarrow> btm (blist (ks m) b) (blist (ks m') b)) \<and>
    (\<exists>q. mset q = mset bs \<and> xfers (hwlog m') = xfers (hwlog m) @ concat (map (sectors m) q))"
proof -
  obtain b cs where c: "bs = b # cs" using bs(1) by (cases bs) auto
  have "fits m b" using bs(3) [of b] c by (simp add: request_def)
  then obtain m0 where 0: "mwstrat b m = Ret () m0" "mwque m0 = [b]" "ks m0 = ks m" "mws m0 = mws m" "ctl m0 = ctl m" "mwstate m0 = ACTIVE"
    "c_op (cmd m0) = LOADC" "xfers (hwlog m0) = xfers (hwlog m)" "busnext m0 = busnext m" "baddr m0 = baddr m" "bxmem m0 = bxmem m"
    using idle by (rule mwstrat_starts)
  have f: "fits m0 d" if "d \<in> set cs" for d using bs(3) [of d] that 0(3,4) by (simp add: c fits_def request_def drive_def)
  obtain m1 where 1: "mwstrats cs m0 = Ret () m1" "mset (mwque m1) = mset cs + mset (mwque m0)" "ks m1 = ks m0" "ctl m1 = ctl m0"
    "mwstate m1 = ACTIVE" "cmd m1 = cmd m0" "hwlog m1 = hwlog m0" "busnext m1 = busnext m0" "baddr m1 = baddr m0" "bxmem m1 = bxmem m0"
    by (rule mwstrats_queue [OF f 0(6)]) blast+
  have ms: "mset (mwque m1) = mset bs" using 1(2) 0(2) c by simp
  then have q: "set (mwque m1) = set bs" "distinct (mwque m1)"
    using bs(2) mset_eq_setD mset_eq_imp_distinct_iff by metis+
  have w: "work (ks m1) (mwque m1) = work (ks m) bs"
  proof -
    have "mset (map (\<lambda>b. nsec (b_count (blist (ks m) b)) + 1) (mwque m1)) = mset (map (\<lambda>b. nsec (b_count (blist (ks m) b)) + 1) bs)"
      using ms by simp
    from arg_cong [OF this, of sum_mset] show ?thesis using 0(3) 1(3) by (simp only: work_def sum_mset_sum_list)
  qed
  have t: "orders m1 = orders m" using 0(3,10,11) 1(3,9,10) by (intro ext) (simp add: orders_def sectors_def [abs_def])
  have "good m1" using 0(3,5,9) 1(3,4,8) idle ctl sw bs(3) q by (auto simp: good_def request_def mwidle_def)
  moreover have "mwque m1 \<noteq> []" using q(1) bs(1) by auto
  ultimately have "served (mwque m1) (orders m1 (mwque m1)) (work (ks m1) (mwque m1) + 1) m1" by (rule queue_served) (use 0(7) 1(5,6) in simp_all)
  then obtain k m' where k: "k \<le> work (ks m) bs + 1" "mwrun k m1 = Ret () m'" "mwque m' = []" "mwstate m' = STOPPED"
    "\<forall>b\<in>set bs. bdone (blist (ks m') b) \<and> \<not> berr (blist (ks m') b)" "\<forall>b. b \<notin> set bs \<longrightarrow> btm (blist (ks m1) b) (blist (ks m') b)"
    "xfers (hwlog m') = xfers (hwlog m1) @ orders m (mwque m1)" unfolding served_def q w t by blast
  show ?thesis using k 0(1,3,8) 1(1,3,7) ms
    by (intro exI [of _ m1] exI [of _ k] exI [of _ m']) (auto simp: c orders_def work_def)
qed


text \<open>
  A drive of 10 megabytes, a controller that does everything at once, and two requests: a block of the cache to be read, and one of 4096 bytes
  in the memory of a process to be written.
\<close>

definition cmd0 :: mwcmd where
  "cmd0 = \<lparr>c_seksel = 0, c_steps = 0, c_hedsel = 0, c_dma = 0, c_xdma = 0, c_arg0 = 0, c_arg2 = 0, c_arg3 = 0, c_op = 0, c_stat = 0, c_linked = False,
     c_count = 0, c_blk = 0\<rparr>"

definition prompt :: "mwcmd \<Rightarrow> unit \<Rightarrow> unit \<times> u8" where
  "prompt c h = ((), if c_op c = STATC then 1 else OK)"

definition disk_ks :: kst where
  "disk_ks = sample_kernel\<lparr>blist := (\<lambda>_. buf0)(0 := buf0\<lparr>b_flags := BBUSY OR BREAD, b_dev := 0x0204, b_blk := 700, b_count := 512\<rparr>,
     2 := buf0\<lparr>b_flags := BBUSY OR BSYNC, b_dev := 0x0204, b_blk := 20800, b_count := 4096\<rparr>)\<rparr>"

definition disk_mw :: "u8 \<Rightarrow> unit mw" where
  "disk_mw st = \<lparr>mws = (\<lambda>_. set_spec 1 (specs ! 1) info0), cmd = cmd0, mwinfo = 0, mwque = [], bcyl = (\<lambda>_. 0), baddr = (\<lambda>b. 0x8000), bxmem = (\<lambda>b. if b = 2 then 1 else 0), retry = 0,
     curdrv = 0xFF, mwstate = st, bus = None, busnext = Some (OtherStart 0), called = [], tlist = replicate 5 \<lparr>t_func = None, t_arg = 0, t_ticks = 0\<rparr>, beyond = (\<lambda>_. specs ! 0), hwlog = [], hw = (),
     ctl = prompt, ks = disk_ks\<rparr>"

lemma disk_transfers:
  "sectors (disk_mw st) 2 = sweep WRITES 20800 1 0x8000 8" "sectors (disk_mw st) 0 = [(READS, 700, 0, 0x8000)]"
  "(\<Sum>b\<leftarrow>[2, 0]. nsec (b_count (blist (ks (disk_mw st)) b)) + 1) + 1 = 12"
  by (simp_all add: sectors_def disk_mw_def disk_ks_def bflag_defs tst_def nsec_def sweep_def Let_def)

theorem mw_serves_all_witness:
  "\<exists>m1 k m'. mwstrats [2, 0] (disk_mw STOPPED) = Ret () m1 \<and> k \<le> 12 \<and> mwrun k m1 = Ret () m' \<and> mwque m' = [] \<and> mwstate m' = STOPPED \<and>
    (\<forall>b\<in>set [2, 0]. bdone (blist (ks m') b) \<and> \<not> berr (blist (ks m') b)) \<and>
    (\<exists>q. mset q = mset [2, 0 :: nat] \<and> xfers (hwlog m') = concat (map (\<lambda>b. if b = 2 then sweep WRITES 20800 1 0x8000 8 else [(READS, 700, 0, 0x8000)]) q))"
proof -
  have i: "mwidle (disk_mw STOPPED)" by (simp add: mwidle_def disk_mw_def)
  have g: "ctl_good (ctl (disk_mw STOPPED))" by (simp add: ctl_good_def disk_mw_def prompt_def tst_def)
  have w: "swapok (ks (disk_mw STOPPED))" by (simp add: swapok_def disk_mw_def disk_ks_def tst_def)
  have r: "request (disk_mw STOPPED) b" if "b \<in> set [2, 0]" for b
    using that by (auto simp: request_def fits_def disk_mw_def disk_ks_def drive_def bflag_defs tst_def set_spec_def specs_def Let_def)
  have d: "[2, 0 :: nat] \<noteq> []" "distinct [2, 0 :: nat]" by simp_all
  obtain m1 k m' q where m: "mwstrats [2, 0] (disk_mw STOPPED) = Ret () m1" "k \<le> 12" "mwrun k m1 = Ret () m'" "mwque m' = []" "mwstate m' = STOPPED"
    "\<forall>b\<in>set [2, 0]. bdone (blist (ks m') b) \<and> \<not> berr (blist (ks m') b)"
    "mset q = mset [2, 0]" "xfers (hwlog m') = xfers (hwlog (disk_mw STOPPED)) @ concat (map (sectors (disk_mw STOPPED)) q)"
    using mw_serves_all [OF i g w d r] unfolding disk_transfers(3) by blast
  have "set q = {2, 0}" using mset_eq_setD [OF m(7)] by simp
  then have "sectors (disk_mw STOPPED) b = (if b = 2 then sweep WRITES 20800 1 0x8000 8 else [(READS, 700, 0, 0x8000)])" if "b \<in> set q" for b
    using that disk_transfers(1,2) [of STOPPED] by auto
  then have "concat (map (sectors (disk_mw STOPPED)) q) = concat (map (\<lambda>b. if b = 2 then sweep WRITES 20800 1 0x8000 8 else [(READS, 700, 0, 0x8000)]) q)"
    by (simp cong: map_cong)
  moreover have "xfers (hwlog (disk_mw STOPPED)) = []" by (simp add: disk_mw_def xfers_def)
  ultimately have "xfers (hwlog m') = concat (map (\<lambda>b. if b = 2 then sweep WRITES 20800 1 0x8000 8 else [(READS, 700, 0, 0x8000)]) q)"
    using m(8) by (simp only: append_Nil)
  with m(1-7) show ?thesis by blast
qed

text \<open>The first request of a new controller: two interrupts later the arm has been sent home and the transfer is ordered.\<close>

definition first_rw :: "unit mw \<Rightarrow> bool" where
  "first_rw m = (case mwstrat 2 m of
     Ret _ m1 \<Rightarrow> mwstate m1 \<ge> ACTIVE \<and> (case serve m1 of
       Ret _ m2 \<Rightarrow> mwstate m2 \<ge> ACTIVE \<and> (case serve m2 of Ret _ m3 \<Rightarrow> xfers (hwlog m3) = [(WRITES, 20800, 1, 0x8000)] | _ \<Rightarrow> False)
     | _ \<Rightarrow> False)
   | _ \<Rightarrow> False)"

lemma first_rw_disk: "first_rw (disk_mw VIRGIN)"
  by code_simp

lemma first_rwE:
  assumes "first_rw m"
  obtains m1 m2 m3 where "mwstrat 2 m = Ret () m1" "mwstate m1 \<ge> ACTIVE" "serve m1 = Ret () m2" "mwstate m2 \<ge> ACTIVE" "serve m2 = Ret () m3"
    "xfers (hwlog m3) = [(WRITES, 20800, 1, 0x8000)]"
proof -
  from assms obtain m1 where 1: "mwstrat 2 m = Ret () m1" "mwstate m1 \<ge> ACTIVE" "case serve m1 of
       Ret _ m2 \<Rightarrow> mwstate m2 \<ge> ACTIVE \<and> (case serve m2 of Ret _ m3 \<Rightarrow> xfers (hwlog m3) = [(WRITES, 20800, 1, 0x8000)] | _ \<Rightarrow> False)
     | _ \<Rightarrow> False" unfolding first_rw_def by (cases "mwstrat 2 m") simp_all
  from 1(3) obtain m2 where 2: "serve m1 = Ret () m2" "mwstate m2 \<ge> ACTIVE" "case serve m2 of Ret _ m3 \<Rightarrow> xfers (hwlog m3) = [(WRITES, 20800, 1, 0x8000)] | _ \<Rightarrow> False"
    by (cases "serve m1") simp_all
  from 2(3) obtain m3 where "serve m2 = Ret () m3" "xfers (hwlog m3) = [(WRITES, 20800, 1, 0x8000)]" by (cases "serve m2") simp_all
  with 1 2 that show thesis by blast
qed

lemma mwstep_serve: "mwstate m \<ge> ACTIVE \<Longrightarrow> serve m = Ret () m' \<Longrightarrow> mwstep m m'"
  by (cases "ctl m (cmd m) (hw m)") (auto simp: serve_def finish_def intro: mwstep.intr)

theorem mw_on_track_witness:
  "\<exists>m1 m2 m3. mwstrat 2 (disk_mw VIRGIN) = Ret () m1 \<and> serve m1 = Ret () m2 \<and> serve m2 = Ret () m3 \<and> xfers (hwlog m3) = [(WRITES, 20800, 1, 0x8000)] \<and>
    log_ok (mws (disk_mw VIRGIN)) (\<lambda>_. 77) (hwlog m3)"
proof -
  obtain m1 m2 m3 where m: "mwstrat 2 (disk_mw VIRGIN) = Ret () m1" "mwstate m1 \<ge> ACTIVE" "serve m1 = Ret () m2" "mwstate m2 \<ge> ACTIVE" "serve m2 = Ret () m3"
    "xfers (hwlog m3) = [(WRITES, 20800, 1, 0x8000)]" by (rule first_rwE [OF first_rw_disk])
  have "mwstep\<^sup>*\<^sup>* (disk_mw VIRGIN) m1" by (rule r_into_rtranclp) (rule mwstep.strat [OF m(1)])
  then have "mwstep\<^sup>*\<^sup>* (disk_mw VIRGIN) m2" by (rule rtranclp.rtrancl_into_rtrancl) (rule mwstep_serve [OF m(2,3)])
  then have "mwstep\<^sup>*\<^sup>* (disk_mw VIRGIN) m3" by (rule rtranclp.rtrancl_into_rtrancl) (rule mwstep_serve [OF m(4,5)])
  then have "log_ok (mws (disk_mw VIRGIN)) (\<lambda>_. 77) (hwlog m3)"
  proof (rule mw_on_track)
    show "\<not> tst (n_flags (mws (disk_mw VIRGIN) d)) CALIB" for d by (simp add: disk_mw_def set_spec_def Let_def info0_def tst_def)
    show "drives_ready (ctl (disk_mw VIRGIN))" by (simp add: drives_ready_def disk_mw_def prompt_def tst_def)
  qed (simp_all add: disk_mw_def)
  with m show ?thesis by blast
qed

end
