(* ===== verification/Floppy.thy ===== *)
theory Floppy
  imports Dj Serve
begin

text \<open>
  Theorems about the floppy driver: the sectors of every format correspond one to one to the tracks and sector numbers given to the controller, and with a controller that does what it is told
  the driver implements an array of 512-byte blocks.
\<close>

section \<open>Geometry\<close>

text \<open>Where a sector lies: its track, and the byte with its number on the track and its side.\<close>

definition place :: "fspec \<Rightarrow> bool \<Rightarrow> bool \<Rightarrow> u16 \<Rightarrow> u8 \<times> u8" where
  "place sp alt org1 sec = (sio_track sp sec, sio_sector sp alt org1 sec)"

definition sectors :: "fspec \<Rightarrow> bool \<Rightarrow> u8 set" where
  "sectors sp org1 = (\<lambda>(h, i). of_nat (i + (if org1 then 1 else 0) + 128 * h)) ` ({..<(if f_ds sp = 0 then 1 else 2)} \<times> {..<unat (f_spt sp)})"

definition fgeom_ok :: "fspec \<Rightarrow> bool" where
  "fgeom_ok sp \<longleftrightarrow> 0 < f_spt sp \<and> f_spt sp \<le> 26 \<and> f_ncyl sp \<le> 80 \<and> f_toff sp \<le> 3 \<and> unat (f_cylinder sp) = (if f_ds sp = 0 then 1 else 2) * unat (f_spt sp) \<and>
     unat (f_volume sp) + unat (f_toff sp) * unat (f_cylinder sp) = unat (f_ncyl sp) * unat (f_cylinder sp)"

definition skew :: "bool \<Rightarrow> nat \<Rightarrow> nat \<Rightarrow> nat" where
  "skew alt t b = (if alt then (if even t \<and> 2 * b \<ge> t then 2 * b + 1 else 2 * b) mod t else b)"

lemma skew_less: "b < t \<Longrightarrow> skew alt t b < t"
  by (simp add: skew_def)

lemma skew_inj:
  assumes "a < t" "b < t" "skew alt t a = skew alt t b"
  shows "a = b"
proof -
  have m: "(if even t \<and> 2 * c \<ge> t then 2 * c + 1 else 2 * c) mod t = (if 2 * c < t then 2 * c else if even t then 2 * c + 1 - t else 2 * c - t)" if "c < t" for c
    using that by (auto simp: mod_if elim!: evenE)
  show ?thesis
  proof (cases alt)
    case True
    have "(if 2 * a < t then 2 * a else if even t then 2 * a + 1 - t else 2 * a - t) = (if 2 * b < t then 2 * b else if even t then 2 * b + 1 - t else 2 * b - t)"
      using assms(3) True unfolding skew_def by (simp only: if_True m [OF assms(1)] m [OF assms(2)])
    then show ?thesis using assms(1,2) by (auto split: if_splits) presburger+
  qed (use assms(3) in \<open>simp add: skew_def\<close>)
qed

lemma unat_ucast_16_8: "unat (ucast (w :: u16) :: u8) = unat w mod 256"
  by (simp add: unsigned_ucast_eq take_bit_eq_mod)

lemma sio_track_unat:
  assumes g: "fgeom_ok sp" and v: "sec < f_volume sp"
  shows "unat (sio_track sp sec) = unat sec div unat (f_cylinder sp) + unat (f_toff sp)" "unat sec div unat (f_cylinder sp) + unat (f_toff sp) < unat (f_ncyl sp)"
proof -
  let ?c = "unat (f_cylinder sp)" and ?q = "unat sec div unat (f_cylinder sp)"
  have c: "0 < ?c" "unat sec + unat (f_toff sp) * ?c < unat (f_ncyl sp) * ?c" "unat (f_ncyl sp) \<le> 80"
    using g v by (auto simp: fgeom_ok_def word_gt_0 unat_gt_0 word_less_nat_alt word_le_nat_alt)
  then have "(unat sec + unat (f_toff sp) * ?c) div ?c < unat (f_ncyl sp)" by (simp only: div_less_iff_less_mult)
  then show n: "?q + unat (f_toff sp) < unat (f_ncyl sp)" using c(1) by simp
  have "unat (ucast (sec div ucast (f_cylinder sp)) :: u8) = ?q"
    using n c(3) unat_div_distrib [of sec "ucast (f_cylinder sp)"] by (simp add: unat_ucast_16_8 unat_ucast_8_16)
  then show "unat (sio_track sp sec) = ?q + unat (f_toff sp)" using n c(3) by (simp add: sio_track_def unat_word_ariths)
qed

lemma or_verso:
  assumes "unat (w :: u8) < 128"
  shows "unat (w OR VERSO) = unat w + 128"
proof -
  have "w AND VERSO = 0"
  proof (rule bit_word_eqI)
    fix n assume n: "n < LENGTH(8)"
    have "unat (w div 128) = 0" using assms by (simp add: unat_div_distrib)
    then have "w div 128 = 0" by (simp only: unat_eq_0)
    then have "\<not> bit w 7" by (simp add: bit_iff_odd)
    then show "bit (w AND VERSO) n = bit 0 n" using n by (auto simp: bit_simps less_Suc_eq numeral_eq_Suc)
  qed
  then have "w OR VERSO = w + VERSO" by (simp add: disjunctive_add_eq_or)
  then show ?thesis using assms by (simp add: unat_word_ariths)
qed

lemma tst_one: "tst (w :: 'a::len word) 1 \<longleftrightarrow> odd (unat w)"
  using bit_unsigned_iff [where 'b = 'a and 'a = nat, of w 0] by (simp add: tst_def and_one_eq bit_0 even_iff_mod_2_eq_zero [symmetric])

lemma sio_sector_unat:
  assumes g: "fgeom_ok sp"
  shows "unat (sio_sector sp alt org1 sec) =
    skew alt (unat (f_spt sp)) (unat sec mod unat (f_spt sp)) + (if org1 then 1 else 0) + 128 * (unat sec mod unat (f_cylinder sp) div unat (f_spt sp))"
proof -
  let ?t = "unat (f_spt sp)" and ?b = "unat sec mod unat (f_spt sp)"
  have t: "0 < ?t" "?t \<le> 26" "?b < ?t" using g by (auto simp: fgeom_ok_def word_gt_0 unat_gt_0 word_le_nat_alt)
  define b0 :: u8 where "b0 = ucast (sec mod ucast (f_spt sp))"
  have b0: "unat b0 = ?b" using t unat_mod_distrib [of sec "ucast (f_spt sp)"] by (simp add: b0_def unat_ucast_16_8 unat_ucast_8_16)
  define b1 where "b1 = (if alt then let d = push_bit 1 b0; e = (if \<not> tst (f_spt sp) 1 \<and> d \<ge> f_spt sp then d + 1 else d) in e mod f_spt sp else b0)"
  have p: "unat (push_bit 1 b0) = 2 * ?b" using t b0 by (simp add: push_bit_eq_mult unat_word_ariths)
  have "\<not> tst (f_spt sp) 1 \<longleftrightarrow> even ?t" by (simp add: tst_one)
  then have b1: "unat b1 = skew alt ?t ?b"
    using t p b0 by (simp add: b1_def skew_def Let_def unat_mod_distrib word_le_nat_alt unat_word_ariths mult.commute)
  define b2 where "b2 = (if org1 then b1 + 1 else b1)"
  have b2: "unat b2 = skew alt ?t ?b + (if org1 then 1 else 0)" "unat b2 < 128"
    using b1 t(2) skew_less [OF t(3), of alt] by (auto simp: b2_def unat_word_ariths)
  have side: "unat sec mod unat (f_cylinder sp) div ?t = (if f_ds sp \<noteq> 0 \<and> sec mod ucast (f_cylinder sp) \<ge> ucast (f_spt sp) then 1 else 0)"
  proof -
    have c: "unat (f_cylinder sp) = (if f_ds sp = 0 then 1 else 2) * ?t" using g by (simp add: fgeom_ok_def)
    define r where "r = unat sec mod unat (f_cylinder sp)"
    have "unat (sec mod ucast (f_cylinder sp)) = r" by (simp add: r_def unat_mod_distrib unat_ucast_8_16)
    moreover have "r < (if f_ds sp = 0 then 1 else 2) * ?t" using c t(1) by (auto simp: r_def)
    ultimately show ?thesis using t(1) unfolding r_def [symmetric] by (cases "f_ds sp = 0") (auto simp: word_le_nat_alt unat_ucast_8_16 div_if)
  qed
  have "sio_sector sp alt org1 sec = (if f_ds sp \<noteq> 0 \<and> sec mod ucast (f_cylinder sp) \<ge> ucast (f_spt sp) then b2 OR VERSO else b2)"
    unfolding sio_sector_def b2_def b1_def b0_def Let_def by (rule refl)
  then show ?thesis unfolding side using b2 or_verso [OF b2(2)] by simp
qed

lemma digits:
  fixes x y c p q :: nat
  assumes "x + c + 128 * p = y + c + 128 * q" "x < 128" "y < 128"
  shows "x = y \<and> p = q"
proof -
  have e: "x + 128 * p = y + 128 * q" using assms(1) by simp
  then have "(x + 128 * p) mod 128 = (y + 128 * q) mod 128" by (rule arg_cong)
  then have "x = y" using assms(2,3) by simp
  with e show ?thesis by simp
qed

lemma place_inj:
  assumes g: "fgeom_ok sp" and v: "a < f_volume sp" "b < f_volume sp" and e: "place sp alt org1 a = place sp alt org1 b"
  shows "a = b"
proof -
  let ?t = "unat (f_spt sp)" and ?c = "unat (f_cylinder sp)" and ?o = "if org1 then 1 else 0 :: nat"
  have t: "0 < ?t" "?t \<le> 26" "?t dvd ?c" using g by (auto simp: fgeom_ok_def word_gt_0 unat_gt_0 word_le_nat_alt)
  have q: "unat a div ?c = unat b div ?c" using e sio_track_unat(1) [OF g v(1)] sio_track_unat(1) [OF g v(2)] by (simp add: place_def)
  have s: "skew alt ?t (unat a mod ?t) + ?o + 128 * (unat a mod ?c div ?t) = skew alt ?t (unat b mod ?t) + ?o + 128 * (unat b mod ?c div ?t)"
    using e sio_sector_unat [OF g, of alt org1 a] sio_sector_unat [OF g, of alt org1 b] unfolding place_def by simp
  have l: "skew alt ?t (x mod ?t) < 128" for x using skew_less [of "x mod ?t" ?t alt] t by fastforce
  have "skew alt ?t (unat a mod ?t) = skew alt ?t (unat b mod ?t)" "unat a mod ?c div ?t = unat b mod ?c div ?t"
    using digits [OF s l l] by simp_all
  then have "unat a mod ?t = unat b mod ?t" "unat a mod ?c div ?t = unat b mod ?c div ?t" using skew_inj [of "unat a mod ?t" ?t "unat b mod ?t"] t(1) by simp_all
  then have "unat a mod ?c = unat b mod ?c" using t(3) by (metis div_mult_mod_eq mod_mod_cancel)
  with q have "unat a = unat b" by (metis div_mult_mod_eq)
  then show ?thesis by (simp add: word_unat_eq_iff)
qed

lemma place_sectors:
  assumes g: "fgeom_ok sp" and v: "sec < f_volume sp"
  shows "place sp alt org1 sec \<in> {f_toff sp..<f_ncyl sp} \<times> sectors sp org1"
proof -
  let ?t = "unat (f_spt sp)" and ?h = "unat sec mod unat (f_cylinder sp) div unat (f_spt sp)" and ?i = "skew alt (unat (f_spt sp)) (unat sec mod unat (f_spt sp))"
  have t: "0 < ?t" "unat (f_cylinder sp) = (if f_ds sp = 0 then 1 else 2) * ?t" using g by (auto simp: fgeom_ok_def word_gt_0 unat_gt_0)
  have "unat sec mod unat (f_cylinder sp) < (if f_ds sp = 0 then 1 else 2) * ?t" using t by (metis mod_less_divisor mult_pos_pos zero_less_numeral zero_less_one)
  then have h: "?h < (if f_ds sp = 0 then 1 else 2)" using t(1) by (simp only: div_less_iff_less_mult)
  have i: "?i < ?t" using skew_less [of "unat sec mod ?t" ?t alt] t(1) by simp
  have "sio_sector sp alt org1 sec = of_nat (?i + (if org1 then 1 else 0) + 128 * ?h)"
    unfolding sio_sector_unat [OF g, of alt org1 sec, symmetric] by simp
  with h i have "sio_sector sp alt org1 sec \<in> sectors sp org1" unfolding sectors_def by (intro image_eqI [of _ _ "(?h, ?i)"]) simp_all
  then show ?thesis using sio_track_unat [OF g v] by (simp add: place_def word_le_nat_alt word_less_nat_alt)
qed

lemma card_below: "card {a :: 'a::len word. a < n} = unat n"
proof -
  have "bij_betw unat {a. a < n} {..<unat n}"
  proof (rule bij_betw_imageI)
    show "unat ` {a. a < n} = {..<unat n}"
    proof (intro set_eqI iffI)
      fix k assume k: "k \<in> {..<unat n}"
      then have "unat (of_nat k :: 'a word) = k" using unsigned_less [of n, where 'a = nat] by (simp add: unat_of_nat del: unsigned_less)
      with k show "k \<in> unat ` {a. a < n}" by (intro image_eqI [of _ _ "of_nat k"]) (simp_all add: word_less_nat_alt)
    qed (auto simp: word_less_nat_alt)
  qed (simp add: inj_on_def word_unat_eq_iff)
  then show ?thesis using bij_betw_same_card by fastforce
qed

lemma card_between: "card {m :: 'a::len word..<n} = unat n - unat m"
proof (cases "m \<le> n")
  case True
  then have "{a. a < n} = {a. a < m} \<union> {m..<n}" by auto
  then have "card {a. a < n} = card {a. a < m} + card {m..<n}" using card_Un_disjoint [of "{a. a < m}" "{m..<n}"] by fastforce
  then show ?thesis by (simp add: card_below)
qed (simp add: word_le_nat_alt)

lemma place_bij:
  assumes g: "fgeom_ok sp"
  shows "bij_betw (place sp alt org1) {sec. sec < f_volume sp} ({f_toff sp..<f_ncyl sp} \<times> sectors sp org1)"
proof -
  let ?T = "{f_toff sp..<f_ncyl sp} \<times> sectors sp org1" and ?V = "{sec. sec < f_volume sp}"
  have inj: "inj_on (place sp alt org1) ?V" using place_inj [OF g] by (auto intro: inj_onI)
  have sub: "place sp alt org1 ` ?V \<subseteq> ?T" using place_sectors [OF g] by blast
  have c: "unat (f_cylinder sp) = (if f_ds sp = 0 then 1 else 2) * unat (f_spt sp)" "0 < unat (f_cylinder sp)" using g by (auto simp: fgeom_ok_def word_gt_0 unat_gt_0)
  have "card (sectors sp org1) \<le> card ({..<(if f_ds sp = 0 then 1 else 2 :: nat)} \<times> {..<unat (f_spt sp)})" unfolding sectors_def by (intro card_image_le) simp
  then have "card (sectors sp org1) \<le> unat (f_cylinder sp)" using c by (simp add: card_cartesian_product)
  moreover have v: "unat (f_volume sp) = (unat (f_ncyl sp) - unat (f_toff sp)) * unat (f_cylinder sp)" using g unfolding fgeom_ok_def diff_mult_distrib by linarith
  ultimately have "card ?T \<le> card ?V" by (simp add: card_cartesian_product card_below card_between)
  then have "place sp alt org1 ` ?V = ?T" using sub inj by (intro card_seteq) (auto simp: card_image)
  with inj show ?thesis by (simp add: bij_betw_def)
qed

lemma fspecs_geom: "sp \<in> set (butlast fspecs) \<Longrightarrow> fgeom_ok sp"
  by (auto simp: fspecs_def fs_def fgeom_ok_def)

text \<open>
  C26. For every diskette format of the table, with alternate sectoring or without and with sector numbers from 0 or 1, the sectors of the volume correspond one to one to what \<^verbatim>\<open>sio\<close> gives to the controller:
  the tracks from the offset to the last, and on each side every sector number once; nothing leaves the eight bits of a command byte.
\<close>

theorem dj_geometry:
  assumes "sp \<in> set (butlast fspecs)"
  shows "bij_betw (place sp alt org1) {sec. sec < f_volume sp} ({f_toff sp..<f_ncyl sp} \<times> sectors sp org1)"
  using fspecs_geom [OF assms] by (rule place_bij)

theorem dj_geometry_witness:
  "bij_betw (place (fspecs ! 4) True True) {sec. sec < f_volume (fspecs ! 4)} ({f_toff (fspecs ! 4)..<f_ncyl (fspecs ! 4)} \<times> sectors (fspecs ! 4) True)"
  by (rule dj_geometry) (simp add: fspecs_def)

end
