(* ===== verification/Diskette.thy ===== *)
theory Diskette
  imports Floppy
begin

text \<open>
  The floppy driver on a working controller implements an array of blocks: requests given to \<^verbatim>\<open>djstrat\<close> are carried out in order, for every format of the table, through the direct transfers as well
  as through the buffer \<^verbatim>\<open>kbuf\<close> for sectors of 1024 bytes.
\<close>

section \<open>The controller\<close>

text \<open>
  A diskette in a drive: its device number, the index of its format, whether its sector numbers start from 1, and two views of the state of the controller: whether it is halted (\<open>k_ready\<close>, otherwise it
  stands behind an interrupt command) and the bytes of the sectors, found by drive, track and sector number.
\<close>

record 'h diskette =
  k_dev :: u16
  k_spec :: nat
  k_org :: bool
  k_ready :: "'h \<Rightarrow> bool"
  k_surf :: "'h \<Rightarrow> u8 \<times> u8 \<times> u8 \<Rightarrow> u16 \<Rightarrow> u8"

definition iocmd :: "u8 \<Rightarrow> (nat \<Rightarrow> u8) \<Rightarrow> bool" where
  "iocmd dr c \<longleftrightarrow> c 0 = SETDMA \<and> c 4 \<in> {SREAD, SWRITE} \<and> c 7 = dr \<and> c 8 = NOSTAT \<and> c 9 = SETINT \<and> c 10 = NOSTAT \<and> c 11 = HALT"

definition caddr :: "(nat \<Rightarrow> u8) \<Rightarrow> u16" where
  "caddr c = word_cat (c 2) (c 1)"

definition rd_mem :: "u8 \<Rightarrow> u16 \<Rightarrow> u16 \<Rightarrow> (u16 \<Rightarrow> u8) \<Rightarrow> (u8 \<Rightarrow> u16 \<Rightarrow> u8) \<Rightarrow> u8 \<Rightarrow> u16 \<Rightarrow> u8" where
  "rd_mem bk a n f m = m(bk := (\<lambda>x. if x - a < n then f (x - a) else m bk x))"

definition wr_sec :: "u8 \<Rightarrow> u16 \<Rightarrow> u16 \<Rightarrow> (u8 \<Rightarrow> u16 \<Rightarrow> u8) \<Rightarrow> (u16 \<Rightarrow> u8) \<Rightarrow> u16 \<Rightarrow> u8" where
  "wr_sec bk a n m f i = (if i < n then m bk (a + i) else f i)"

text \<open>The controller carries out a transfer and stops behind the interrupt command; started again, it halts.\<close>

definition djctl_good :: "'h diskette \<Rightarrow> ((nat \<Rightarrow> u8) \<Rightarrow> (u8 \<Rightarrow> u16 \<Rightarrow> u8) \<Rightarrow> 'h \<Rightarrow> (nat \<Rightarrow> u8) \<times> (u8 \<Rightarrow> u16 \<Rightarrow> u8) \<times> 'h) \<Rightarrow> bool" where
  "djctl_good F f \<longleftrightarrow> (\<forall>c m h.
     let n = f_bps (fspecs ! k_spec F); p = (c 7, c 5, c 6); S = k_surf F h in
     (k_ready F h \<and> iocmd (ucast (k_dev F AND 7)) c \<longrightarrow> (\<exists>h'. \<not> k_ready F h' \<and>
        f c m h = (c(8 := OKSTAT, 10 := OKSTAT), if c 4 = SREAD then rd_mem (c 3) (caddr c) n (S p) m else m, h') \<and>
        k_surf F h' = (if c 4 = SREAD then S else S(p := wr_sec (c 3) (caddr c) n m (S p))))) \<and>
     (\<not> k_ready F h \<longrightarrow> (\<exists>h'. k_ready F h' \<and> f c m h = (c(12 := OKSTAT), m, h') \<and> k_surf F h' = S)))"

text \<open>An interrupt of the controller, when it has done what it was started for.\<close>

definition djserve :: "('g, 'h) dj \<Rightarrow> ('g, 'h, unit) J" where
  "djserve s = djint (djrun s)"

primrec djserves :: "nat \<Rightarrow> ('g, 'h) dj \<Rightarrow> ('g, 'h, unit) J" where
  "djserves 0 s = Ret () s"
| "djserves (Suc n) s = bnd (djserve s) (\<lambda>_ s. djserves n s)"

text \<open>The course of the driver through its labels, with the number of interrupts on the way.\<close>

inductive runs :: "nat \<Rightarrow> lab \<times> ('g, 'h) dj \<Rightarrow> lab \<times> ('g, 'h) dj \<Rightarrow> bool" where
  runs_refl: "runs 0 X X"
| runs_lab: "l \<noteq> LDone \<Longrightarrow> djlab l s = Ret l1 s1 \<Longrightarrow> runs k (l1, s1) X \<Longrightarrow> runs k (l, s) X"
| runs_int: "\<not> djtaken s \<Longrightarrow> s1 = djrun s \<Longrightarrow> \<not> inservice s1 \<Longrightarrow> curbuf s1 \<noteq> None \<Longrightarrow> djcomm s1 10 \<noteq> NOSTAT \<Longrightarrow> djget 0 s1 = (True, s2) \<Longrightarrow>
    runs k (djresume (s2\<lparr>inservice := True, djtimer := 0\<rparr>)) X \<Longrightarrow> runs (Suc k) (LDone, s) X"

lemma runs_trans: "runs j X Y \<Longrightarrow> runs k Y Z \<Longrightarrow> runs (j + k) X Z"
  by (induction rule: runs.induct) (auto intro: runs.intros)

lemma runs_step: "djlab l s = Ret l1 s1 \<Longrightarrow> l \<noteq> LDone \<Longrightarrow> runs 0 (l, s) (l1, s1)"
  by (rule runs_lab [OF _ _ runs_refl])

lemma djrun_taken [simp]: "djtaken (djrun s) = djtaken s"
  by (simp add: djrun_def split: prod.split)

lemma runs_djloop:
  assumes "runs k X Y"
  shows "fst Y = LDone \<Longrightarrow> \<exists>s1. djloop (fst X) (snd X) = Some (Ret () s1) \<and> djserves k s1 = Ret () (snd Y)"
  using assms
proof (induction rule: runs.induct)
  case (runs_refl X)
  then show ?case by (simp add: djloop.simps)
next
  case (runs_lab l s l1 s1 k X)
  then show ?case by (subst djloop.simps) (simp add: obnd_def)
next
  case (runs_int s s1 s2 k X)
  let ?r = "djresume (s2\<lparr>inservice := True, djtimer := 0\<rparr>)"
  from runs_int obtain t where t: "djloop (fst ?r) (snd ?r) = Some (Ret () t)" "djserves k t = Ret () (snd X)" by blast
  have "djserve s = spin (djloop (fst ?r) (snd ?r)) (snd ?r)" using runs_int(1-6) by (auto simp: djserve_def djint_def Let_def split_beta)
  then have "djserve s = Ret () t" using t(1) by (simp add: spin_def)
  then show ?case using t(2) by (subst djloop.simps) simp
qed

section \<open>One command\<close>

lemma djctl_io:
  assumes g: "djctl_good F f" and r: "k_ready F h" "iocmd (ucast (k_dev F AND 7)) c"
  obtains h' where "f c m h = (c(8 := OKSTAT, 10 := OKSTAT), if c 4 = SREAD then rd_mem (c 3) (caddr c) (f_bps (fspecs ! k_spec F)) (k_surf F h (c 7, c 5, c 6)) m else m, h')"
    "\<not> k_ready F h'" "k_surf F h' = (if c 4 = SREAD then k_surf F h
       else (k_surf F h)((c 7, c 5, c 6) := wr_sec (c 3) (caddr c) (f_bps (fspecs ! k_spec F)) m (k_surf F h (c 7, c 5, c 6))))"
  using g [unfolded djctl_good_def Let_def, rule_format, of h c m] r that by blast

lemma djctl_halt:
  assumes g: "djctl_good F f" and r: "\<not> k_ready F h"
  obtains h' where "f c m h = (c(12 := OKSTAT), m, h')" "k_ready F h'" "k_surf F h' = k_surf F h"
  using g [unfolded djctl_good_def Let_def, rule_format, of h c m] r that by blast

text \<open>The driver has the bus, or can have it, and nobody waits for it.\<close>

definition mybus :: "'g mw \<Rightarrow> bool" where
  "mybus m \<longleftrightarrow> bus m \<in> {None, Some (OtherStart 0)} \<and> busnext m = None"

lemma djget_mine: "mybus (mwst s) \<Longrightarrow> djget 0 s = (True, s\<lparr>mwst := (mwst s)\<lparr>bus := Some (OtherStart 0)\<rparr>\<rparr>)"
  by (auto simp: djget_def busget_def mybus_def)

definition told :: "'h diskette \<Rightarrow> ('g, 'h) dj \<Rightarrow> bool" where
  "told F t \<longleftrightarrow> djctl_good F (djctl t) \<and> k_ready F (djhw t) \<and> iocmd (ucast (k_dev F AND 7)) (djcomm t) \<and> haltstat t = Some 12 \<and> mybus (mwst t) \<and> \<not> djtaken t \<and> curbuf t \<noteq> None"

lemma go_runs:
  assumes t: "told F t"
  obtains c h where "runs 1 (LGo, t) (djresume (t\<lparr>djcomm := c, djhw := h, running := False, inservice := True, djtimer := 0, mwst := (mwst t)\<lparr>bus := Some (OtherStart 0)\<rparr>,
       cmem := (if djcomm t 4 = SREAD then rd_mem (djcomm t 3) (caddr (djcomm t)) (f_bps (fspecs ! k_spec F)) (k_surf F (djhw t) (djcomm t 7, djcomm t 5, djcomm t 6)) (cmem t)
         else cmem t)\<rparr>))"
    "c 8 = OKSTAT" "\<not> k_ready F h"
    "k_surf F h = (if djcomm t 4 = SREAD then k_surf F (djhw t) else (k_surf F (djhw t))((djcomm t 7, djcomm t 5, djcomm t 6) :=
       wr_sec (djcomm t 3) (caddr (djcomm t)) (f_bps (fspecs ! k_spec F)) (cmem t) (k_surf F (djhw t) (djcomm t 7, djcomm t 5, djcomm t 6))))"
proof -
  define t1 where "t1 = (djstart t)\<lparr>inservice := False\<rparr>"
  have t1: "t1 = t\<lparr>djcomm := (djcomm t)(12 := NOSTAT), running := True, inservice := False\<rparr>" using t by (simp add: t1_def djstart_def told_def)
  let ?c = "djcomm t1"
  have c: "?c 3 = djcomm t 3" "?c 4 = djcomm t 4" "?c 5 = djcomm t 5" "?c 6 = djcomm t 6" "?c 7 = djcomm t 7" "caddr ?c = caddr (djcomm t)" by (simp_all add: t1 caddr_def)
  have g: "djctl_good F (djctl t1)" "k_ready F (djhw t1)" "iocmd (ucast (k_dev F AND 7)) ?c" using t by (simp_all add: told_def t1 iocmd_def)
  obtain h where h: "djctl t1 ?c (cmem t1) (djhw t1) = (?c(8 := OKSTAT, 10 := OKSTAT), if ?c 4 = SREAD then rd_mem (?c 3) (caddr ?c) (f_bps (fspecs ! k_spec F))
      (k_surf F (djhw t1) (?c 7, ?c 5, ?c 6)) (cmem t1) else cmem t1, h)" "\<not> k_ready F h"
    "k_surf F h = (if ?c 4 = SREAD then k_surf F (djhw t1) else (k_surf F (djhw t1))((?c 7, ?c 5, ?c 6) :=
       wr_sec (?c 3) (caddr ?c) (f_bps (fspecs ! k_spec F)) (cmem t1) (k_surf F (djhw t1) (?c 7, ?c 5, ?c 6))))" by (rule djctl_io [OF g])
  define m where "m = (if djcomm t 4 = SREAD then rd_mem (djcomm t 3) (caddr (djcomm t)) (f_bps (fspecs ! k_spec F)) (k_surf F (djhw t) (djcomm t 7, djcomm t 5, djcomm t 6)) (cmem t) else cmem t)"
  define t2 where "t2 = t1\<lparr>djcomm := ?c(8 := OKSTAT, 10 := OKSTAT), cmem := m, djhw := h, running := False\<rparr>"
  have sel: "cmem t1 = cmem t" "djhw t1 = djhw t" "running t1" by (simp_all add: t1)
  have dr: "djrun t1 = t2" using h(1) sel unfolding c by (simp add: djrun_def t2_def m_def)
  have b2: "mybus (mwst t2)" "\<not> djtaken t1" "\<not> inservice t2" "curbuf t2 \<noteq> None" "djcomm t2 10 \<noteq> NOSTAT" using t by (simp_all add: t2_def t1 told_def)
  have "runs 1 (LDone, t1) (djresume (t2\<lparr>mwst := (mwst t2)\<lparr>bus := Some (OtherStart 0)\<rparr>, inservice := True, djtimer := 0\<rparr>))"
    using runs_int [OF b2(2) dr [symmetric] b2(3-5) djget_mine [OF b2(1)] runs_refl] by simp
  moreover have "djlab LGo t = Ret LDone t1" by (simp add: t1_def)
  ultimately have "runs 1 (LGo, t) (djresume (t2\<lparr>mwst := (mwst t2)\<lparr>bus := Some (OtherStart 0)\<rparr>, inservice := True, djtimer := 0\<rparr>))"
    by (intro runs_lab [where l = LGo]) simp_all
  moreover have "t2\<lparr>mwst := (mwst t2)\<lparr>bus := Some (OtherStart 0)\<rparr>, inservice := True, djtimer := 0\<rparr> =
    t\<lparr>djcomm := ?c(8 := OKSTAT, 10 := OKSTAT), djhw := h, running := False, inservice := True, djtimer := 0, mwst := (mwst t)\<lparr>bus := Some (OtherStart 0)\<rparr>, cmem := m\<rparr>"
    by (simp add: t2_def t1)
  ultimately show thesis using h(2,3) unfolding c sel m_def by (intro that [where c = "?c(8 := OKSTAT, 10 := OKSTAT)" and h = h]) simp_all
qed

text \<open>Between commands: the controller is halted, or waits behind the last interrupt command.\<close>

definition settled :: "'h diskette \<Rightarrow> ('g, 'h) dj \<Rightarrow> bool" where
  "settled F s \<longleftrightarrow> djctl_good F (djctl s) \<and> (haltstat s = None \<and> k_ready F (djhw s) \<or> haltstat s = Some 12 \<and> \<not> k_ready F (djhw s))"

lemma djack_settles:
  assumes "settled F s"
  obtains c h r where "djack s = s\<lparr>djcomm := c, djhw := h, haltstat := None, running := r\<rparr>" "k_ready F h" "k_surf F h = k_surf F (djhw s)"
proof (cases "haltstat s")
  case None
  then show thesis using assms by (intro that [where c = "djcomm s" and h = "djhw s" and r = "running s"]) (auto simp: djack_def settled_def)
next
  case (Some i)
  then have i: "i = 12" "djctl_good F (djctl s)" "\<not> k_ready F (djhw s)" using assms by (auto simp: settled_def)
  obtain h where h: "djctl s ((djcomm s)(12 := NOSTAT)) (cmem s) (djhw s) = (((djcomm s)(12 := NOSTAT))(12 := OKSTAT), cmem s, h)" "k_ready F h" "k_surf F h = k_surf F (djhw s)"
    by (rule djctl_halt [OF i(2,3)])
  show thesis
  proof (rule that)
    show "djack s = s\<lparr>djcomm := (djcomm s)(12 := OKSTAT), djhw := h, haltstat := None, running := False\<rparr>"
      using h(1) Some i(1) by (simp add: djack_def djwait_def djrun_def djstart_def)
  qed (use h in simp_all)
qed

section \<open>Sectors of at most 512 bytes\<close>

definition loc :: "'h diskette \<Rightarrow> u16 \<Rightarrow> u8 \<times> u8 \<times> u8" where
  "loc F sec = (ucast (k_dev F AND 7), place (fspecs ! k_spec F) (tst (k_dev F) ALT) (k_org F) sec)"

abbreviation drv :: "'h diskette \<Rightarrow> nat" where
  "drv F \<equiv> unat (k_dev F AND 7)"

abbreviation bps :: "'h diskette \<Rightarrow> u16" where
  "bps F \<equiv> f_bps (fspecs ! k_spec F)"

definition opened :: "'h diskette \<Rightarrow> ('g, 'h) dj \<Rightarrow> bool" where
  "opened F s \<longleftrightarrow> d_specs (dms s (drv F)) = k_spec F \<and> tst (d_flags (dms s (drv F))) ISOPEN \<and> tst (d_flags (dms s (drv F))) ORG1 = k_org F"

text \<open>The driver works at the request \<open>b\<close>.\<close>

definition atwork :: "'h diskette \<Rightarrow> nat \<Rightarrow> ('g, 'h) dj \<Rightarrow> bool" where
  "atwork F b s \<longleftrightarrow> djctl_good F (djctl s) \<and> opened F s \<and> \<not> djtaken s \<and> mybus (mwst s) \<and> curbuf s = Some b \<and> jd s = drv F \<and> jdev s = k_dev F \<and>
     jsp s = k_spec F \<and> jbps s = bps F \<and> jop s = (if tst (b_flags (blist (dks s) b)) BREAD then SREAD else SWRITE)"

definition quiet :: "'h diskette \<Rightarrow> ('g, 'h) dj \<Rightarrow> bool" where
  "quiet F s \<longleftrightarrow> haltstat s = None \<and> k_ready F (djhw s)"

lemma cat_lo_hi: "word_cat (hi a) (lo a) = a"
  by (rule bit_word_eqI) (auto simp: hi_def lo_def bit_simps bit_word_cat_iff)

lemma sio_told:
  assumes "atwork F b s" "quiet F s" "op \<in> {SREAD, SWRITE}"
  shows "told F (sio (drv F) a x op sec (k_dev F) s)"
    "djcomm (sio (drv F) a x op sec (k_dev F) s) 3 = ucast x" "djcomm (sio (drv F) a x op sec (k_dev F) s) 4 = op" "caddr (djcomm (sio (drv F) a x op sec (k_dev F) s)) = a"
    "(djcomm (sio (drv F) a x op sec (k_dev F) s) 7, djcomm (sio (drv F) a x op sec (k_dev F) s) 5, djcomm (sio (drv F) a x op sec (k_dev F) s) 6) = loc F sec"
    "\<exists>c. sio (drv F) a x op sec (k_dev F) s = s\<lparr>djcomm := c, haltstat := Some 12\<rparr>"
  using assms by (auto simp: told_def sio_def setD_def iocmd_def caddr_def atwork_def quiet_def opened_def loc_def place_def cat_lo_hi Let_def)

lemma direct_runs1:
  assumes w: "atwork F b s" "quiet F s" and j: "joff s = 0" "jbps s \<le> jcount s" "jsec s < f_volume (fspecs ! k_spec F)"
  obtains c h m where "runs 1 (LNextsec, s) (LSecdone, s\<lparr>djcomm := c, haltstat := Some 12, djhw := h, running := False, inservice := True, djtimer := 0,
      mwst := (mwst s)\<lparr>bus := Some (OtherStart 0)\<rparr>, cmem := m\<rparr>)" "\<not> k_ready F h"
    "m = (if jop s = SREAD then rd_mem (ucast (jxaddr s)) (jaddr s) (bps F) (k_surf F (djhw s) (loc F (jsec s))) (cmem s) else cmem s)"
    "k_surf F h = (if jop s = SREAD then k_surf F (djhw s) else (k_surf F (djhw s))(loc F (jsec s) :=
       wr_sec (ucast (jxaddr s)) (jaddr s) (bps F) (cmem s) (k_surf F (djhw s) (loc F (jsec s)))))"
proof -
  define t where "t = sio (drv F) (jaddr s) (jxaddr s) (jop s) (jsec s) (k_dev F) s"
  have "jop s \<in> {SREAD, SWRITE}" using w(1) by (simp add: atwork_def)
  note t = sio_told [OF w this, of "jaddr s" "jxaddr s" "jsec s", folded t_def]
  obtain c0 where t6: "t = s\<lparr>djcomm := c0, haltstat := Some 12\<rparr>" using t(6) by blast
  have nl: "djlab LNextsec s = Ret LGo t" using w(1) j by (simp add: lret_def lnextsec_def atwork_def t_def)
  have ts: "djhw t = djhw s" "cmem t = cmem s" "mwst t = mwst s" by (simp_all add: t6)
  obtain c h where 1: "runs 1 (LGo, t) (djresume (t\<lparr>djcomm := c, djhw := h, running := False, inservice := True, djtimer := 0, mwst := (mwst s)\<lparr>bus := Some (OtherStart 0)\<rparr>,
       cmem := (if jop s = SREAD then rd_mem (ucast (jxaddr s)) (jaddr s) (bps F) (k_surf F (djhw s) (loc F (jsec s))) (cmem s) else cmem s)\<rparr>))" "c 8 = OKSTAT" "\<not> k_ready F h"
    "k_surf F h = (if jop s = SREAD then k_surf F (djhw s) else (k_surf F (djhw s))(loc F (jsec s) :=
       wr_sec (ucast (jxaddr s)) (jaddr s) (bps F) (cmem s) (k_surf F (djhw s) (loc F (jsec s)))))"
    by (rule go_runs [OF t(1), unfolded t(2-5) ts])
  define m where "m = (if jop s = SREAD then rd_mem (ucast (jxaddr s)) (jaddr s) (bps F) (k_surf F (djhw s) (loc F (jsec s))) (cmem s) else cmem s)"
  define s' where "s' = s\<lparr>djcomm := c, haltstat := Some 12, djhw := h, running := False, inservice := True, djtimer := 0, mwst := (mwst s)\<lparr>bus := Some (OtherStart 0)\<rparr>, cmem := m\<rparr>"
  have "t\<lparr>djcomm := c, djhw := h, running := False, inservice := True, djtimer := 0, mwst := (mwst s)\<lparr>bus := Some (OtherStart 0)\<rparr>, cmem := m\<rparr> = s'"
    by (simp add: t6 s'_def)
  moreover have "djresume s' = (LSecdone, s')" using w(1) j 1(2) by (simp add: djresume_def s'_def atwork_def)
  ultimately have "runs 1 (LGo, t) (LSecdone, s')" using 1(1) unfolding m_def [symmetric] by simp
  then have "runs 1 (LNextsec, s) (LSecdone, s')" using nl by (intro runs_lab [where l = LNextsec]) simp_all
  then show thesis using that m_def 1(3,4) unfolding s'_def by blast
qed

primrec secs_mem :: "'h diskette \<Rightarrow> u8 \<Rightarrow> nat \<Rightarrow> u16 \<Rightarrow> u16 \<Rightarrow> (u8 \<times> u8 \<times> u8 \<Rightarrow> u16 \<Rightarrow> u8) \<Rightarrow> (u8 \<Rightarrow> u16 \<Rightarrow> u8) \<Rightarrow> u8 \<Rightarrow> u16 \<Rightarrow> u8" where
  "secs_mem F bk 0 a sec S m = m"
| "secs_mem F bk (Suc k) a sec S m = secs_mem F bk k (a + bps F) (sec + 1) S (rd_mem bk a (bps F) (S (loc F sec)) m)"

primrec secs_surf :: "'h diskette \<Rightarrow> u8 \<Rightarrow> nat \<Rightarrow> u16 \<Rightarrow> u16 \<Rightarrow> (u8 \<Rightarrow> u16 \<Rightarrow> u8) \<Rightarrow> (u8 \<times> u8 \<times> u8 \<Rightarrow> u16 \<Rightarrow> u8) \<Rightarrow> u8 \<times> u8 \<times> u8 \<Rightarrow> u16 \<Rightarrow> u8" where
  "secs_surf F bk 0 a sec m S = S"
| "secs_surf F bk (Suc k) a sec m S = secs_surf F bk k (a + bps F) (sec + 1) m (S(loc F sec := wr_sec bk a (bps F) m (S (loc F sec))))"

text \<open>The last sector of a request, and one before it.\<close>

lemma direct_last:
  assumes w: "atwork F b s" "quiet F s" "joff s = 0" "jtogo s = jcount s" "jcount s = bps F" "jsec s < f_volume (fspecs ! k_spec F)"
  obtains c h m where "runs 1 (LNextsec, s) (LFinished, s\<lparr>djcomm := c, haltstat := Some 12, djhw := h, running := False, inservice := True, djtimer := 0,
      mwst := (mwst s)\<lparr>bus := Some (OtherStart 0)\<rparr>, jcount := 0, jaddr := jaddr s, jsec := jsec s, cmem := m\<rparr>)" "\<not> k_ready F h"
    "m = (if jop s = SREAD then rd_mem (ucast (jxaddr s)) (jaddr s) (bps F) (k_surf F (djhw s) (loc F (jsec s))) (cmem s) else cmem s)"
    "k_surf F h = (if jop s = SREAD then k_surf F (djhw s) else (k_surf F (djhw s))(loc F (jsec s) :=
       wr_sec (ucast (jxaddr s)) (jaddr s) (bps F) (cmem s) (k_surf F (djhw s) (loc F (jsec s)))))"
proof -
  have "jbps s \<le> jcount s" using w(1,5) by (simp add: atwork_def)
  from w(1-3) this w(6) obtain c h m where 1: "runs 1 (LNextsec, s) (LSecdone, s\<lparr>djcomm := c, haltstat := Some 12, djhw := h, running := False, inservice := True, djtimer := 0,
      mwst := (mwst s)\<lparr>bus := Some (OtherStart 0)\<rparr>, cmem := m\<rparr>)" "\<not> k_ready F h"
    "m = (if jop s = SREAD then rd_mem (ucast (jxaddr s)) (jaddr s) (bps F) (k_surf F (djhw s) (loc F (jsec s))) (cmem s) else cmem s)"
    "k_surf F h = (if jop s = SREAD then k_surf F (djhw s) else (k_surf F (djhw s))(loc F (jsec s) :=
       wr_sec (ucast (jxaddr s)) (jaddr s) (bps F) (cmem s) (k_surf F (djhw s) (loc F (jsec s)))))" by (rule direct_runs1)
  let ?s1 = "s\<lparr>djcomm := c, haltstat := Some 12, djhw := h, running := False, inservice := True, djtimer := 0, mwst := (mwst s)\<lparr>bus := Some (OtherStart 0)\<rparr>, cmem := m\<rparr>"
  have "djlab LSecdone ?s1 = Ret LFinished (?s1\<lparr>jcount := 0\<rparr>)" using w(4) by (simp add: lret_def lsecdone_def Let_def)
  then have "runs 0 (LSecdone, ?s1) (LFinished, ?s1\<lparr>jcount := 0\<rparr>)" by (rule runs_step) simp
  from runs_trans [OF 1(1) this] have "runs 1 (LNextsec, s) (LFinished, ?s1\<lparr>jcount := 0\<rparr>)" by simp
  moreover have "?s1\<lparr>jcount := 0\<rparr> = s\<lparr>djcomm := c, haltstat := Some 12, djhw := h, running := False, inservice := True, djtimer := 0,
      mwst := (mwst s)\<lparr>bus := Some (OtherStart 0)\<rparr>, jcount := 0, jaddr := jaddr s, jsec := jsec s, cmem := m\<rparr>" by simp
  ultimately show thesis using that 1(2-4) by (simp only:)
qed

lemma direct_more:
  assumes w: "atwork F b s" "quiet F s" "joff s = 0" "jtogo s = bps F" "bps F < jcount s" "jsec s < f_volume (fspecs ! k_spec F)"
  obtains c h r m where "runs 1 (LNextsec, s) (LNextsec, s\<lparr>djcomm := c, haltstat := None, djhw := h, running := r, inservice := True, djtimer := 0, mwst := (mwst s)\<lparr>bus := Some (OtherStart 0)\<rparr>,
      cmem := m, jcount := jcount s - bps F, jaddr := jaddr s + bps F, jsec := jsec s + 1\<rparr>)" "k_ready F h"
    "m = (if jop s = SREAD then rd_mem (ucast (jxaddr s)) (jaddr s) (bps F) (k_surf F (djhw s) (loc F (jsec s))) (cmem s) else cmem s)"
    "k_surf F h = (if jop s = SREAD then k_surf F (djhw s) else (k_surf F (djhw s))(loc F (jsec s) :=
       wr_sec (ucast (jxaddr s)) (jaddr s) (bps F) (cmem s) (k_surf F (djhw s) (loc F (jsec s)))))"
proof -
  have "jbps s \<le> jcount s" using w(1,5) by (simp add: atwork_def)
  from w(1-3) this w(6) obtain c h m where 1: "runs 1 (LNextsec, s) (LSecdone, s\<lparr>djcomm := c, haltstat := Some 12, djhw := h, running := False, inservice := True, djtimer := 0,
      mwst := (mwst s)\<lparr>bus := Some (OtherStart 0)\<rparr>, cmem := m\<rparr>)" "\<not> k_ready F h"
    "m = (if jop s = SREAD then rd_mem (ucast (jxaddr s)) (jaddr s) (bps F) (k_surf F (djhw s) (loc F (jsec s))) (cmem s) else cmem s)"
    "k_surf F h = (if jop s = SREAD then k_surf F (djhw s) else (k_surf F (djhw s))(loc F (jsec s) :=
       wr_sec (ucast (jxaddr s)) (jaddr s) (bps F) (cmem s) (k_surf F (djhw s) (loc F (jsec s)))))" by (rule direct_runs1)
  define s1 where "s1 = s\<lparr>djcomm := c, haltstat := Some 12, djhw := h, running := False, inservice := True, djtimer := 0, mwst := (mwst s)\<lparr>bus := Some (OtherStart 0)\<rparr>, cmem := m\<rparr>"
  define s3 where "s3 = s1\<lparr>jcount := jcount s - bps F, jaddr := jaddr s + bps F, jsec := jsec s + 1, joff := 0\<rparr>"
  have "settled F s3" using w(1) 1(2) by (simp add: settled_def s3_def s1_def atwork_def)
  then obtain c' h' r where a: "djack s3 = s3\<lparr>djcomm := c', djhw := h', haltstat := None, running := r\<rparr>" "k_ready F h'" "k_surf F h' = k_surf F (djhw s3)" by (rule djack_settles)
  have "djlab LSecdone s1 = Ret LNextsec (djack s3)" using w(4,5) by (simp add: lret_def lsecdone_def Let_def s3_def s1_def)
  then have "runs 0 (LSecdone, s1) (LNextsec, djack s3)" by (rule runs_step) simp
  from runs_trans [OF 1(1) [folded s1_def] this] have "runs 1 (LNextsec, s) (LNextsec, djack s3)" by simp
  moreover have "djack s3 = s\<lparr>djcomm := c', haltstat := None, djhw := h', running := r, inservice := True, djtimer := 0, mwst := (mwst s)\<lparr>bus := Some (OtherStart 0)\<rparr>,
      cmem := m, jcount := jcount s - bps F, jaddr := jaddr s + bps F, jsec := jsec s + 1\<rparr>" unfolding a(1) using w(3) by (simp add: s3_def s1_def)
  moreover have "k_surf F h' = k_surf F h" using a(3) by (simp add: s3_def s1_def)
  ultimately show thesis using that a(2) 1(3,4) by (simp only:)
qed

text \<open>All sectors of a request, one interrupt each.\<close>

lemma direct_runs:
  assumes "atwork F b s" "quiet F s" "joff s = 0" "jtogo s = bps F" "0 < k" "unat (jcount s) = k * unat (bps F)" "0 < unat (bps F)"
    "unat (jsec s) + k \<le> unat (f_volume (fspecs ! k_spec F))"
  shows "\<exists>c h a sec. runs k (LNextsec, s) (LFinished, s\<lparr>djcomm := c, haltstat := Some 12, djhw := h, running := False, inservice := True, djtimer := 0,
      mwst := (mwst s)\<lparr>bus := Some (OtherStart 0)\<rparr>, jcount := 0, jaddr := a, jsec := sec,
      cmem := (if jop s = SREAD then secs_mem F (ucast (jxaddr s)) k (jaddr s) (jsec s) (k_surf F (djhw s)) (cmem s) else cmem s)\<rparr>) \<and> \<not> k_ready F h \<and>
    k_surf F h = (if jop s = SREAD then k_surf F (djhw s) else secs_surf F (ucast (jxaddr s)) k (jaddr s) (jsec s) (cmem s) (k_surf F (djhw s)))"
  using assms
proof (induction k arbitrary: s)
  case (Suc k)
  have v: "jsec s < f_volume (fspecs ! k_spec F)" using Suc.prems(8) by (simp add: word_less_nat_alt)
  show ?case
  proof (cases "k = 0")
    case True
    then have n: "jcount s = bps F" using Suc.prems(6) by (simp add: word_unat_eq_iff)
    then have "jtogo s = jcount s" using Suc.prems(4) by simp
    from Suc.prems(1-3) this n v show ?thesis unfolding True secs_mem.simps secs_surf.simps unfolding One_nat_def [symmetric] by (rule direct_last) blast
  next
    case False
    then have c: "bps F < jcount s" "unat (jcount s - bps F) = k * unat (bps F)" using Suc.prems(6,7) by (simp_all add: word_less_nat_alt unat_sub word_le_nat_alt)
    obtain c1 h1 r1 m where 1: "runs 1 (LNextsec, s) (LNextsec, s\<lparr>djcomm := c1, haltstat := None, djhw := h1, running := r1, inservice := True, djtimer := 0, mwst := (mwst s)\<lparr>bus := Some (OtherStart 0)\<rparr>,
        cmem := m, jcount := jcount s - bps F, jaddr := jaddr s + bps F, jsec := jsec s + 1\<rparr>)" "k_ready F h1"
      "m = (if jop s = SREAD then rd_mem (ucast (jxaddr s)) (jaddr s) (bps F) (k_surf F (djhw s) (loc F (jsec s))) (cmem s) else cmem s)"
      "k_surf F h1 = (if jop s = SREAD then k_surf F (djhw s) else (k_surf F (djhw s))(loc F (jsec s) :=
         wr_sec (ucast (jxaddr s)) (jaddr s) (bps F) (cmem s) (k_surf F (djhw s) (loc F (jsec s)))))" by (rule direct_more [OF Suc.prems(1-4) c(1) v])
    define s4 where "s4 = s\<lparr>djcomm := c1, haltstat := None, djhw := h1, running := r1, inservice := True, djtimer := 0, mwst := (mwst s)\<lparr>bus := Some (OtherStart 0)\<rparr>,
        cmem := m, jcount := jcount s - bps F, jaddr := jaddr s + bps F, jsec := jsec s + 1\<rparr>"
    have w4: "atwork F b s4" "quiet F s4" using Suc.prems(1) 1(2) by (simp_all add: atwork_def quiet_def opened_def mybus_def s4_def dks_def)
    have "unat (jsec s4) = unat (jsec s) + 1"
      using Suc.prems(8) unsigned_less [of "f_volume (fspecs ! k_spec F)", where 'a = nat] by (simp add: s4_def unat_word_ariths del: unsigned_less)
    with Suc.IH [OF w4] obtain c5 h5 a5 sec5 where 5: "runs k (LNextsec, s4) (LFinished, s4\<lparr>djcomm := c5, haltstat := Some 12, djhw := h5, running := False, inservice := True, djtimer := 0,
      mwst := (mwst s4)\<lparr>bus := Some (OtherStart 0)\<rparr>, jcount := 0, jaddr := a5, jsec := sec5,
      cmem := (if jop s4 = SREAD then secs_mem F (ucast (jxaddr s4)) k (jaddr s4) (jsec s4) (k_surf F (djhw s4)) (cmem s4) else cmem s4)\<rparr>)" "\<not> k_ready F h5"
      "k_surf F h5 = (if jop s4 = SREAD then k_surf F (djhw s4) else secs_surf F (ucast (jxaddr s4)) k (jaddr s4) (jsec s4) (cmem s4) (k_surf F (djhw s4)))"
      using Suc.prems False c(2) by (auto simp: s4_def)
    have e: "s4\<lparr>djcomm := c5, haltstat := Some 12, djhw := h5, running := False, inservice := True, djtimer := 0,
      mwst := (mwst s4)\<lparr>bus := Some (OtherStart 0)\<rparr>, jcount := 0, jaddr := a5, jsec := sec5,
      cmem := (if jop s4 = SREAD then secs_mem F (ucast (jxaddr s4)) k (jaddr s4) (jsec s4) (k_surf F (djhw s4)) (cmem s4) else cmem s4)\<rparr> =
      s\<lparr>djcomm := c5, haltstat := Some 12, djhw := h5, running := False, inservice := True, djtimer := 0,
      mwst := (mwst s)\<lparr>bus := Some (OtherStart 0)\<rparr>, jcount := 0, jaddr := a5, jsec := sec5,
      cmem := (if jop s = SREAD then secs_mem F (ucast (jxaddr s)) (Suc k) (jaddr s) (jsec s) (k_surf F (djhw s)) (cmem s) else cmem s)\<rparr>"
      by (simp add: s4_def 1(3,4))
    have "k_surf F h5 = (if jop s = SREAD then k_surf F (djhw s) else secs_surf F (ucast (jxaddr s)) (Suc k) (jaddr s) (jsec s) (cmem s) (k_surf F (djhw s)))"
      using 5(3) by (simp add: s4_def 1(3,4))
    with runs_trans [OF 1(1) [folded s4_def] 5(1) [unfolded e]] 5(2) show ?thesis unfolding plus_1_eq_Suc by blast
  qed
qed simp

end
