(* ===== verification/Blocks.thy ===== *)
theory Blocks
  imports Diskette
begin

section \<open>Blocks\<close>

lemma rd_mem_join:
  assumes "unat n + unat l < 65536"
  shows "rd_mem bk (a + n) l g (rd_mem bk a n f m) = rd_mem bk a (n + l) (\<lambda>y. if y < n then f y else g (y - n)) m"
proof -
  have "(x - (a + n) < l) = (\<not> x - a < n \<and> x - a < n + l)" for x
  proof -
    have e: "x - (a + n) = x - a - n" by simp
    have "unat (y - n) = (if unat n \<le> unat y then unat y - unat n else unat y + 65536 - unat n)" for y by (simp add: unat_sub_if')
    note u = this [of "x - a"]
    have "unat (n + l) = unat n + unat l" using assms by (simp add: unat_word_ariths)
    then show "(x - (a + n) < l) = (\<not> x - a < n \<and> x - a < n + l)"
      using u assms unfolding e by (auto simp: word_less_nat_alt)
  qed
  moreover have "x - a < n \<Longrightarrow> x - a < n + l" for x using assms by (simp add: word_less_nat_alt unat_word_ariths)
  ultimately show ?thesis by (auto simp: rd_mem_def fun_eq_iff diff_diff_add)
qed

lemma secs_mem_eq:
  assumes "k * unat (bps F) < 65536" "0 < unat (bps F)"
  shows "secs_mem F bk k a sec S m = rd_mem bk a (of_nat k * bps F) (\<lambda>y. S (loc F (sec + y div bps F)) (y mod bps F)) m"
  using assms
proof (induction k arbitrary: a sec m)
  case 0
  then show ?case by (simp add: rd_mem_def)
next
  case (Suc k)
  let ?n = "bps F"
  have k: "unat (of_nat k * ?n) = k * unat ?n" "unat ?n + k * unat ?n < 65536" using Suc.prems by (simp_all add: unat_word_ariths unat_of_nat mod_mult_left_eq)
  have y: "(if y < ?n then S (loc F sec) y else S (loc F (sec + 1 + (y - ?n) div ?n)) ((y - ?n) mod ?n)) = S (loc F (sec + y div ?n)) (y mod ?n)" for y
  proof (cases "y < ?n")
    case False
    then have u: "unat (y - ?n) = unat y - unat ?n" "unat ?n \<le> unat y" by (simp_all add: word_less_nat_alt unat_sub word_le_nat_alt)
    have "unat (y div ?n) = unat (1 + (y - ?n) div ?n)" using u Suc.prems(2) by (simp add: unat_word_ariths unat_div_distrib le_div_geq mod_Suc_eq)
    moreover have "unat ((y - ?n) mod ?n) = unat (y mod ?n)" using u by (simp add: unat_mod_distrib le_mod_geq)
    ultimately have "y div ?n = 1 + (y - ?n) div ?n" "(y - ?n) mod ?n = y mod ?n" by (simp_all only: word_unat_eq_iff)
    then show ?thesis using False by (simp add: add.assoc)
  qed (simp add: div_word_less mod_word_less)
  have "secs_mem F bk (Suc k) a sec S m = rd_mem bk (a + ?n) (of_nat k * ?n) (\<lambda>y. S (loc F (sec + 1 + y div ?n)) (y mod ?n)) (rd_mem bk a ?n (S (loc F sec)) m)"
    using Suc by simp
  also have "\<dots> = rd_mem bk a (?n + of_nat k * ?n) (\<lambda>y. if y < ?n then S (loc F sec) y else S (loc F (sec + 1 + (y - ?n) div ?n)) ((y - ?n) mod ?n)) m"
    using k by (intro rd_mem_join) simp
  finally show ?case unfolding y by (simp add: distrib_right)
qed

lemma spec_real: "k_spec F < 26 \<Longrightarrow> fspecs ! k_spec F \<in> set (butlast fspecs)"
proof -
  assume "k_spec F < 26"
  moreover have "length (butlast fspecs) = 26" by (simp add: fspecs_def)
  ultimately show ?thesis using nth_mem [of "k_spec F" "butlast fspecs"] nth_butlast [of "k_spec F" fspecs] by simp
qed

lemma loc_inj:
  assumes "k_spec F < 26" "sec < f_volume (fspecs ! k_spec F)" "sec' < f_volume (fspecs ! k_spec F)"
  shows "loc F sec = loc F sec' \<longleftrightarrow> sec = sec'"
  using place_inj [OF fspecs_geom [OF spec_real [OF assms(1)]] assms(2,3)] by (auto simp: loc_def)

lemma secs_surf_other: "(\<And>j. j < k \<Longrightarrow> p \<noteq> loc F (sec + of_nat j)) \<Longrightarrow> secs_surf F bk k a sec m S p = S p"
proof (induction k arbitrary: a sec S)
  case (Suc k)
  have "p \<noteq> loc F sec" using Suc.prems [of 0] by simp
  moreover have "p \<noteq> loc F (sec + 1 + of_nat j)" if "j < k" for j using Suc.prems [of "Suc j"] that by (simp add: add.commute add.left_commute)
  ultimately show ?case using Suc.IH by simp
qed simp

lemma secs_surf_at:
  assumes "k_spec F < 26" "unat sec + k \<le> unat (f_volume (fspecs ! k_spec F))" "j < k"
  shows "secs_surf F bk k a sec m S (loc F (sec + of_nat j)) = wr_sec bk (a + of_nat j * bps F) (bps F) m (S (loc F (sec + of_nat j)))"
  using assms
proof (induction k arbitrary: a sec S j)
  case (Suc k)
  let ?v = "f_volume (fspecs ! k_spec F)"
  have u: "unat (sec + of_nat i) = unat sec + i" "sec + of_nat i < ?v" if "i < Suc k" for i
  proof -
    have "unat sec + i < unat ?v" using Suc.prems(2) that by simp
    moreover have "unat ?v < 65536" using unsigned_less [of ?v, where 'a = nat] by simp
    ultimately show "unat (sec + of_nat i) = unat sec + i" by (simp add: unat_word_ariths unat_of_nat)
    with \<open>unat sec + i < unat ?v\<close> show "sec + of_nat i < ?v" by (simp add: word_less_nat_alt)
  qed
  have ne: "loc F sec \<noteq> loc F (sec + of_nat (Suc i))" if "i < k" for i
  proof -
    have "unat sec \<noteq> unat (sec + of_nat (Suc i))" using u(1) [of "Suc i"] that by simp
    then show ?thesis using loc_inj [OF Suc.prems(1) u(2) [of 0] u(2) [of "Suc i"]] that by auto
  qed
  show ?case
  proof (cases j)
    case 0
    have "secs_surf F bk k (a + bps F) (sec + 1) m (S(loc F sec := wr_sec bk a (bps F) m (S (loc F sec)))) (loc F sec) = wr_sec bk a (bps F) m (S (loc F sec))"
      using ne by (subst secs_surf_other) (simp_all add: add.assoc)
    with 0 show ?thesis by simp
  next
    case (Suc i)
    then have i: "i < k" using Suc.prems by simp
    have "unat (sec + 1) + k \<le> unat ?v" using u(1) [of 1] Suc.prems(2) i by simp
    from Suc.IH [OF Suc.prems(1) this i] show ?thesis using ne [OF i] Suc by (simp add: add_ac distrib_right)
  qed
qed simp

text \<open>The block of 512 bytes with a given number, and the blocks there are.\<close>

definition fblock :: "'h diskette \<Rightarrow> (u8 \<times> u8 \<times> u8 \<Rightarrow> u16 \<Rightarrow> u8) \<Rightarrow> u16 \<Rightarrow> nat \<Rightarrow> u8" where
  "fblock F S blk j = (let p = unat blk * 512 + j; n = unat (bps F) in S (loc F (of_nat (p div n))) (of_nat (p mod n)))"

definition exists_blk :: "'h diskette \<Rightarrow> u16 \<Rightarrow> bool" where
  "exists_blk F blk \<longleftrightarrow> unat blk * 512 + 512 \<le> unat (f_volume (fspecs ! k_spec F)) * unat (bps F)"

lemma format:
  assumes "k_spec F < 26"
  shows "bps F \<noteq> 1024 \<Longrightarrow> unat (f_spb (fspecs ! k_spec F)) * unat (bps F) = 512" "unat (f_volume (fspecs ! k_spec F)) * unat (bps F) \<le> 1228800" "0 < unat (bps F)" "unat (f_spb (fspecs ! k_spec F)) \<le> 4"
proof -
  have "\<forall>sp \<in> set (butlast fspecs). (f_bps sp \<noteq> 1024 \<longrightarrow> unat (f_spb sp) * unat (f_bps sp) = 512) \<and> unat (f_volume sp) * unat (f_bps sp) \<le> 1228800 \<and> 0 < unat (f_bps sp) \<and> unat (f_spb sp) \<le> 4"
    by (simp add: fspecs_def fs_def)
  with spec_real [OF assms] show "bps F \<noteq> 1024 \<Longrightarrow> unat (f_spb (fspecs ! k_spec F)) * unat (bps F) = 512"
    "unat (f_volume (fspecs ! k_spec F)) * unat (bps F) \<le> 1228800" "0 < unat (bps F)" "unat (f_spb (fspecs ! k_spec F)) \<le> 4" by blast+
qed

lemma exists_small: "k_spec F < 26 \<Longrightarrow> exists_blk F blk \<Longrightarrow> unat blk < 2400"
  using format(2) [of F] by (simp add: exists_blk_def)

lemma fblock_direct:
  assumes k: "k_spec F < 26" "bps F \<noteq> 1024" and e: "exists_blk F blk"
  defines "sec \<equiv> blk * ucast (f_spb (fspecs ! k_spec F))"
  shows "unat sec = unat blk * unat (f_spb (fspecs ! k_spec F))" "unat sec + unat (f_spb (fspecs ! k_spec F)) \<le> unat (f_volume (fspecs ! k_spec F))"
    "fblock F S blk j = S (loc F (sec + of_nat (j div unat (bps F)))) (of_nat (j mod unat (bps F)))"
proof -
  let ?q = "unat (f_spb (fspecs ! k_spec F))" and ?n = "unat (bps F)"
  note f = format [OF k(1)]
  have q: "?q * ?n = 512" using f(1) k(2) .
  then have "(unat blk * ?q + ?q) * ?n \<le> unat (f_volume (fspecs ! k_spec F)) * ?n" using f(3) e by (auto simp: exists_blk_def distrib_right mult.assoc)
  then have v: "unat blk * ?q + ?q \<le> unat (f_volume (fspecs ! k_spec F))" using f(3) by simp
  then have "unat blk * ?q < 65536" using unsigned_less [of "f_volume (fspecs ! k_spec F)", where 'a = nat] by simp
  then show u: "unat sec = unat blk * ?q" by (simp add: sec_def unat_word_ariths unat_ucast_8_16)
  with v show "unat sec + ?q \<le> unat (f_volume (fspecs ! k_spec F))" by simp
  have p: "unat blk * 512 + j = j + unat sec * ?n" using q u by (simp add: mult.assoc)
  have "(unat blk * 512 + j) div ?n = unat sec + j div ?n" "(unat blk * 512 + j) mod ?n = j mod ?n" unfolding p using f(3) by simp_all
  then show "fblock F S blk j = S (loc F (sec + of_nat (j div ?n))) (of_nat (j mod ?n))" by (simp add: fblock_def Let_def)
qed

lemma rd_mem_cong: "(\<And>y. y < n \<Longrightarrow> f y = g y) \<Longrightarrow> rd_mem bk a n f m = rd_mem bk a n g m"
  by (simp add: rd_mem_def fun_eq_iff)

lemma direct_read:
  assumes k: "k_spec F < 26" "bps F \<noteq> 1024" and e: "exists_blk F blk"
  shows "secs_mem F bk (unat (f_spb (fspecs ! k_spec F))) a (blk * ucast (f_spb (fspecs ! k_spec F))) S m = rd_mem bk a 512 (\<lambda>y. fblock F S blk (unat y)) m"
proof -
  let ?q = "unat (f_spb (fspecs ! k_spec F))"
  have q: "?q * unat (bps F) = 512" using format(1) [OF k] .
  then have "of_nat (?q * unat (bps F)) = (512 :: u16)" by simp
  then have w: "of_nat ?q * bps F = 512" by simp
  show ?thesis
    using q format(3) [OF k(1)] unfolding w [symmetric] by (subst secs_mem_eq) (auto intro!: rd_mem_cong simp: fblock_direct(3) [OF k e] of_nat_div of_nat_mod unat_div_distrib [symmetric] unat_mod_distrib [symmetric])
qed

lemma direct_write:
  assumes k: "k_spec F < 26" "bps F \<noteq> 1024" and e: "exists_blk F blk" "exists_blk F blk'" and j: "j < 512"
  shows "fblock F (secs_surf F bk (unat (f_spb (fspecs ! k_spec F))) a (blk * ucast (f_spb (fspecs ! k_spec F))) m S) blk' j =
    (if blk' = blk then m bk (a + of_nat j) else fblock F S blk' j)"
proof -
  let ?q = "unat (f_spb (fspecs ! k_spec F))" and ?n = "unat (bps F)" and ?sec = "\<lambda>blk. blk * ucast (f_spb (fspecs ! k_spec F)) :: u16" and ?v = "f_volume (fspecs ! k_spec F)"
  have q: "?q * ?n = 512" "0 < ?n" "?n < 65536" using format [OF k(1)] k(2) unsigned_less [of "bps F", where 'a = nat] by simp_all
  have jn: "j div ?n < ?q" using q j by (simp add: div_less_iff_less_mult)
  have u: "unat (?sec b + of_nat i) = unat b * ?q + i" "?sec b + of_nat i < ?v" if "exists_blk F b" "i < ?q" for b i
  proof -
    note d = fblock_direct(1,2) [OF k that(1)]
    have "unat (?sec b) + i < unat ?v" "unat ?v < 65536" using d(2) that(2) unsigned_less [of ?v, where 'a = nat] by simp_all
    then show "unat (?sec b + of_nat i) = unat b * ?q + i" using d(1) by (simp add: unat_word_ariths unat_of_nat)
    with \<open>unat (?sec b) + i < unat ?v\<close> d(1) show "?sec b + of_nat i < ?v" by (simp add: word_less_nat_alt)
  qed
  show ?thesis
  proof (cases "blk' = blk")
    case True
    have "j mod ?n < ?n" using q(2) by simp
    with q(3) have "of_nat (j mod ?n) < bps F" by (simp only: word_less_nat_alt unat_of_nat) simp
    moreover have "(of_nat (j div ?n) * bps F + of_nat (j mod ?n) :: u16) = of_nat (j div ?n * ?n + j mod ?n)" by (simp only: of_nat_add of_nat_mult) simp
    ultimately show ?thesis using True secs_surf_at [OF k(1) fblock_direct(2) [OF k e(1)] jn, where S = S and bk = bk and a = a and m = m] q
      by (simp add: fblock_direct(3) [OF k e(1)] wr_sec_def add.assoc)
  next
    case False
    have "loc F (?sec blk' + of_nat (j div ?n)) \<noteq> loc F (?sec blk + of_nat i)" if "i < ?q" for i
    proof -
      have "(unat blk' * ?q + j div ?n) div ?q = unat blk'" "(unat blk * ?q + i) div ?q = unat blk" using jn that by simp_all
      with False have "unat blk' * ?q + j div ?n \<noteq> unat blk * ?q + i" by (metis word_unat_eq_iff)
      then show ?thesis using u [OF e(2) jn] u [OF e(1) that] loc_inj [OF k(1)] by metis
    qed
    then show ?thesis using False by (simp add: fblock_direct(3) [OF k e(2)] secs_surf_other)
  qed
qed

section \<open>Sectors of 1024 bytes\<close>

definition kvalid :: "'h diskette \<Rightarrow> ('g, 'h) dj \<Rightarrow> bool" where
  "kvalid F s \<longleftrightarrow> (bps F = 1024 \<and> kdev s = k_dev F \<longrightarrow> (\<forall>y < 1024. cmem s KBANK (kbufa s + y) = k_surf F (djhw s) (loc F (ksec s)) y))"

lemma kcopy_rd: "kcopy src dst n s = s\<lparr>cmem := rd_mem KBANK dst n (\<lambda>y. cmem s KBANK (src + y)) (cmem s)\<rparr>"
  by (simp add: kcopy_def rd_mem_def)

lemma rd_mem_at: "y < n \<Longrightarrow> rd_mem bk a n f m bk (a + y) = f y"
  by (simp add: rd_mem_def)

lemma rd_mem_same: "(\<And>y. y < n \<Longrightarrow> m bk (a + y) = f y) \<Longrightarrow> rd_mem bk a n f m = m"
  by (auto simp: rd_mem_def fun_eq_iff) (metis add_diff_cancel_left' diff_add_cancel add.commute)

definition busy :: "('g, 'h) dj \<Rightarrow> bool" where
  "busy s \<longleftrightarrow> inservice s \<and> bus (mwst s) = Some (OtherStart 0)"

text \<open>The sector is brought into \<^verbatim>\<open>kbuf\<close> unless it is there.\<close>

lemma fill_runs:
  assumes w: "atwork F b s" "quiet F s" "busy s" "kvalid F s" and j: "bps F = 1024" "\<not> (joff s = 0 \<and> jbps s \<le> jcount s)" "jsec s < f_volume (fspecs ! k_spec F)"
  shows "\<exists>k c h hs r tm v. k \<le> 1 \<and> runs k (LNextsec, s) (if jop s = SREAD then LKread else LKwrite, s\<lparr>djcomm := c, haltstat := hs, djhw := h, running := r, djtimer := tm,
      kw := v, kdev := k_dev F, ksec := jsec s, cmem := rd_mem KBANK (kbufa s) 1024 (k_surf F (djhw s) (loc F (jsec s))) (cmem s)\<rparr>) \<and>
    k_surf F h = k_surf F (djhw s) \<and> (hs = None \<and> k_ready F h \<or> hs = Some 12 \<and> \<not> k_ready F h)"
proof (cases "ksec s \<noteq> jsec s \<or> kdev s \<noteq> k_dev F")
  case False
  have "rd_mem KBANK (kbufa s) 1024 (k_surf F (djhw s) (loc F (jsec s))) (cmem s) = cmem s"
    using False w(4) j(1) by (intro rd_mem_same) (simp add: kvalid_def)
  moreover have "djlab LNextsec s = Ret (if jop s = SREAD then LKread else LKwrite) s"
    using False w(1) j by (auto simp: lret_def lnextsec_def atwork_def)
  ultimately have "runs 0 (LNextsec, s) (if jop s = SREAD then LKread else LKwrite, s\<lparr>djcomm := djcomm s, haltstat := haltstat s, djhw := djhw s, running := running s, djtimer := djtimer s,
      kw := kw s, kdev := k_dev F, ksec := jsec s, cmem := rd_mem KBANK (kbufa s) 1024 (k_surf F (djhw s) (loc F (jsec s))) (cmem s)\<rparr>)"
    using False by (intro runs_step) simp_all
  then show ?thesis using w(2) le0 [of 1] unfolding quiet_def by blast
next
  case True
  define s0 where "s0 = s\<lparr>kdev := 0xFFFF\<rparr>"
  have w0: "atwork F b s0" "quiet F s0" using w(1,2) by (simp_all add: s0_def atwork_def quiet_def opened_def dks_def)
  define t where "t = (sio (drv F) (kbufa s) (ucast KBANK) SREAD (jsec s) (k_dev F) s0)\<lparr>kw := False\<rparr>"
  note t0 = sio_told [OF w0 insertI1, of "kbufa s" "ucast KBANK" "jsec s"]
  obtain c0 where t6: "t = s0\<lparr>djcomm := c0, haltstat := Some 12, kw := False\<rparr>" using t0(6) by (auto simp: t_def)
  have t: "told F t" "djcomm t 3 = 0" "djcomm t 4 = SREAD" "caddr (djcomm t) = kbufa s" "(djcomm t 7, djcomm t 5, djcomm t 6) = loc F (jsec s)"
    using t0(1-5) by (simp_all add: t_def told_def)
  have ts: "djhw t = djhw s" "cmem t = cmem s" "mwst t = mwst s" by (simp_all add: t6 s0_def)
  have nl: "djlab LNextsec s = Ret LGo t" using w(1) j True by (auto simp: lret_def lnextsec_def atwork_def t_def s0_def)
  define m where "m = rd_mem KBANK (kbufa s) 1024 (k_surf F (djhw s) (loc F (jsec s))) (cmem s)"
  obtain c h where 1: "runs 1 (LGo, t) (djresume (t\<lparr>djcomm := c, djhw := h, running := False, inservice := True, djtimer := 0, mwst := (mwst s)\<lparr>bus := Some (OtherStart 0)\<rparr>,
       cmem := m\<rparr>))" "c 8 = OKSTAT" "\<not> k_ready F h" "k_surf F h = k_surf F (djhw s)"
    by (rule go_runs [OF t(1), unfolded t(2-5) ts]) (simp add: m_def j(1))
  define s' where "s' = s\<lparr>djcomm := c, haltstat := Some 12, djhw := h, running := False, djtimer := 0, kw := False, kdev := k_dev F, ksec := jsec s, cmem := m\<rparr>"
  have "(mwst s)\<lparr>bus := Some (OtherStart 0)\<rparr> = mwst s" "inservice s" using w(3) by (simp_all add: busy_def)
  then have "t\<lparr>djcomm := c, djhw := h, running := False, inservice := True, djtimer := 0, mwst := (mwst s)\<lparr>bus := Some (OtherStart 0)\<rparr>, cmem := m\<rparr> =
    s\<lparr>djcomm := c, haltstat := Some 12, djhw := h, running := False, djtimer := 0, kw := False, kdev := 0xFFFF, cmem := m\<rparr>" by (simp add: t6 s0_def)
  moreover have "djresume (s\<lparr>djcomm := c, haltstat := Some 12, djhw := h, running := False, djtimer := 0, kw := False, kdev := 0xFFFF, cmem := m\<rparr>) =
    (if jop s = SREAD then LKread else LKwrite, s')"
    using w(1) j 1(2) by (auto simp: djresume_def atwork_def s'_def dks_def)
  ultimately have "runs 1 (LNextsec, s) (if jop s = SREAD then LKread else LKwrite, s')" using 1(1) nl by (intro runs_lab [where l = LNextsec]) simp_all
  then show ?thesis using 1(3,4) order_refl [of "1 :: nat"] unfolding s'_def m_def by blast
qed

lemma kread_runs:
  assumes "jcount s = 512" "jtogo s = 512"
  shows "runs 0 (LKread, s) (LFinished, s\<lparr>jcount := 0, cmem := rd_mem KBANK (jaddr s) 512 (\<lambda>y. cmem s KBANK (kbufa s + joff s + y)) (cmem s)\<rparr>)"
proof -
  let ?t = "s\<lparr>cmem := rd_mem KBANK (jaddr s) 512 (\<lambda>y. cmem s KBANK (kbufa s + joff s + y)) (cmem s)\<rparr>"
  have "djlab LKread s = Ret LSecdone ?t" using assms by (simp add: kcopy_rd)
  moreover have "djlab LSecdone ?t = Ret LFinished (?t\<lparr>jcount := 0\<rparr>)" using assms by (simp add: lret_def lsecdone_def Let_def)
  ultimately have "runs 0 (LKread, s) (LFinished, ?t\<lparr>jcount := 0\<rparr>)"
    by (intro runs_lab [where l = LKread and ?l1.0 = LSecdone] runs_step) simp_all
  moreover have "?t\<lparr>jcount := 0\<rparr> = s\<lparr>jcount := 0, cmem := rd_mem KBANK (jaddr s) 512 (\<lambda>y. cmem s KBANK (kbufa s + joff s + y)) (cmem s)\<rparr>" by simp
  ultimately show ?thesis by (simp only:)
qed

lemma kwrite_runs:
  assumes w: "atwork F b s" "busy s" "settled F s" and j: "bps F = 1024" "jtogo s = 512" "\<not> (joff s = 0 \<and> jbps s \<le> jcount s)" "jop s = SWRITE"
  shows "\<exists>c h. runs 1 (LKwrite, s) (LFinished, s\<lparr>djcomm := c, haltstat := Some 12, djhw := h, running := False, djtimer := 0, kw := True,
      cmem := rd_mem KBANK (kbufa s + joff s) 512 (\<lambda>y. cmem s KBANK (baddr (mwst s) b + y)) (cmem s)\<rparr>) \<and> \<not> k_ready F h \<and>
    k_surf F h = (k_surf F (djhw s))(loc F (ksec s) := wr_sec KBANK (kbufa s) 1024 (rd_mem KBANK (kbufa s + joff s) 512 (\<lambda>y. cmem s KBANK (baddr (mwst s) b + y)) (cmem s))
      (k_surf F (djhw s) (loc F (ksec s))))"
proof -
  define m where "m = rd_mem KBANK (kbufa s + joff s) 512 (\<lambda>y. cmem s KBANK (baddr (mwst s) b + y)) (cmem s)"
  define s0 where "s0 = s\<lparr>cmem := m\<rparr>"
  have "settled F s0" using w(3) by (simp add: settled_def s0_def)
  then obtain c' h' r where a: "djack s0 = s0\<lparr>djcomm := c', djhw := h', haltstat := None, running := r\<rparr>" "k_ready F h'" "k_surf F h' = k_surf F (djhw s0)" by (rule djack_settles)
  define s1 where "s1 = djack s0"
  have s1: "s1 = s\<lparr>djcomm := c', haltstat := None, djhw := h', running := r, cmem := m\<rparr>" by (simp add: s1_def a(1)) (simp add: s0_def)
  have w1: "atwork F b s1" "quiet F s1" using w(1) a(2) by (simp_all add: s1 atwork_def quiet_def opened_def dks_def)
  define t where "t = (sio (drv F) (kbufa s) (ucast KBANK) SWRITE (ksec s) (k_dev F) s1)\<lparr>kw := True\<rparr>"
  have "SWRITE \<in> {SREAD, SWRITE}" by simp
  note t0 = sio_told [OF w1 this, of "kbufa s" "ucast KBANK" "ksec s"]
  obtain c0 where t6: "t = s1\<lparr>djcomm := c0, haltstat := Some 12, kw := True\<rparr>" using t0(6) by (auto simp: t_def)
  have t: "told F t" "djcomm t 3 = 0" "djcomm t 4 = SWRITE" "caddr (djcomm t) = kbufa s" "(djcomm t 7, djcomm t 5, djcomm t 6) = loc F (ksec s)"
    using t0(1-5) by (simp_all add: t_def told_def)
  have ts: "djhw t = h'" "cmem t = m" "mwst t = mwst s" by (simp_all add: t6 s1)
  have cur: "curbuf s = Some b" "jd s = drv F" "jdev s = k_dev F" using w(1) by (simp_all add: atwork_def)
  have nl: "djlab LKwrite s = Ret LGo t"
    using cur j(2) by (simp add: lkwrite_def kcopy_rd Let_def m_def [symmetric] s0_def [symmetric] s1_def [symmetric] t_def) (simp add: s1)
  obtain c h where 1: "runs 1 (LGo, t) (djresume (t\<lparr>djcomm := c, djhw := h, running := False, inservice := True, djtimer := 0, mwst := (mwst s)\<lparr>bus := Some (OtherStart 0)\<rparr>,
       cmem := m\<rparr>))" "c 8 = OKSTAT" "\<not> k_ready F h" "k_surf F h = (k_surf F h')(loc F (ksec s) := wr_sec 0 (kbufa s) 1024 m (k_surf F h' (loc F (ksec s))))"
    by (rule go_runs [OF t(1), unfolded t(2-5) ts]) (simp add: j(1))
  define s' where "s' = s\<lparr>djcomm := c, haltstat := Some 12, djhw := h, running := False, djtimer := 0, kw := True, cmem := m\<rparr>"
  have "(mwst s)\<lparr>bus := Some (OtherStart 0)\<rparr> = mwst s" "inservice s" using w(2) by (simp_all add: busy_def)
  then have "t\<lparr>djcomm := c, djhw := h, running := False, inservice := True, djtimer := 0, mwst := (mwst s)\<lparr>bus := Some (OtherStart 0)\<rparr>, cmem := m\<rparr> = s'" by (simp add: t6 s1 s'_def)
  moreover have "djresume s' = (LFinished, s')" using w(1) j 1(2) by (auto simp: djresume_def atwork_def s'_def dks_def split: if_splits)
  ultimately have "runs 1 (LKwrite, s) (LFinished, s')" using 1(1) nl by (intro runs_lab [where l = LKwrite]) simp_all
  then show ?thesis using 1(3,4) a(3) unfolding s'_def m_def [symmetric] by (auto simp: s0_def)
qed

section \<open>One request\<close>

text \<open>The abstract machine: memory, and an array of blocks. A request is its direction, block, bank and address.\<close>

type_synonym amach = "(u8 \<Rightarrow> u16 \<Rightarrow> u8) \<times> (u16 \<Rightarrow> nat \<Rightarrow> u8)"

fun areq :: "bool \<times> u16 \<times> u8 \<times> u16 \<Rightarrow> amach \<Rightarrow> amach" where
  "areq (rd, blk, bk, a) (m, D) = (if rd then (rd_mem bk a 512 (\<lambda>y. D blk (unat y)) m, D) else (m, D(blk := (\<lambda>j. m bk (a + of_nat j)))))"

definition request_of :: "('g, 'h) dj \<Rightarrow> nat \<Rightarrow> bool \<times> u16 \<times> u8 \<times> u16" where
  "request_of s b = (let x = blist (dks s) b in (tst (b_flags x) BREAD, b_blk x, bxmem (mwst s) b, baddr (mwst s) b))"

definition inkbuf :: "('g, 'h) dj \<Rightarrow> u8 \<Rightarrow> u16 \<Rightarrow> bool" where
  "inkbuf s bk a \<longleftrightarrow> bk = KBANK \<and> a - kbufa s < 1024"

definition rel :: "'h diskette \<Rightarrow> ('g, 'h) dj \<Rightarrow> amach \<Rightarrow> bool" where
  "rel F s A \<longleftrightarrow> (\<forall>bk a. \<not> inkbuf s bk a \<longrightarrow> cmem s bk a = fst A bk a) \<and>
     (\<forall>blk j. exists_blk F blk \<and> j < 512 \<longrightarrow> fblock F (k_surf F (djhw s)) blk j = snd A blk j)"

text \<open>The memory of a request lies outside \<^verbatim>\<open>kbuf\<close>; sectors of 1024 bytes need it in the bank of the kernel.\<close>

definition placed :: "'h diskette \<Rightarrow> ('g, 'h) dj \<Rightarrow> nat \<Rightarrow> bool" where
  "placed F s b \<longleftrightarrow> (\<forall>y < 512. \<not> inkbuf s (bxmem (mwst s) b) (baddr (mwst s) b + y)) \<and> (bps F = 1024 \<longrightarrow> bxmem (mwst s) b = KBANK)"

text \<open>
  For sectors of 1024 bytes the driver looks at the address of a request only and takes it in the bank of the kernel. \<open>request_at\<close> is the request as it carries it out.
\<close>

definition used_bank :: "'h diskette \<Rightarrow> ('g, 'h) dj \<Rightarrow> nat \<Rightarrow> u8" where
  "used_bank F s b = (if bps F = 1024 then KBANK else bxmem (mwst s) b)"

definition request_at :: "'h diskette \<Rightarrow> ('g, 'h) dj \<Rightarrow> nat \<Rightarrow> bool \<times> u16 \<times> u8 \<times> u16" where
  "request_at F s b = (let x = blist (dks s) b in (tst (b_flags x) BREAD, b_blk x, used_bank F s b, baddr (mwst s) b))"

definition apart :: "'h diskette \<Rightarrow> ('g, 'h) dj \<Rightarrow> nat \<Rightarrow> bool" where
  "apart F s b \<longleftrightarrow> (\<forall>y < 512. \<not> inkbuf s (used_bank F s b) (baddr (mwst s) b + y))"

lemma placed_apart: "placed F s b \<Longrightarrow> apart F s b" "placed F s b \<Longrightarrow> request_at F s b = request_of s b"
  by (auto simp: placed_def apart_def used_bank_def request_at_def request_of_def)

lemma rel_read:
  assumes r: "rel F s A" and e: "exists_blk F blk" and m: "\<And>bk' a'. \<not> inkbuf s bk' a' \<Longrightarrow> cmem s' bk' a' = rd_mem bk a 512 (\<lambda>y. fblock F (k_surf F (djhw s)) blk (unat y)) (cmem s) bk' a'"
    and h: "k_surf F (djhw s') = k_surf F (djhw s)" "kbufa s' = kbufa s"
  shows "rel F s' (areq (True, blk, bk, a) A)"
proof -
  have "rd_mem bk a 512 (\<lambda>y. fblock F (k_surf F (djhw s)) blk (unat y)) (cmem s) bk' a' = rd_mem bk a 512 (\<lambda>y. snd A blk (unat y)) (fst A) bk' a'"
    if "\<not> inkbuf s bk' a'" for bk' a' using r e that by (auto simp: rel_def rd_mem_def word_less_nat_alt)
  with m r h show ?thesis by (cases A) (auto simp: rel_def inkbuf_def)
qed

lemma rel_write:
  assumes r: "rel F s A" and p: "\<And>y. y < 512 \<Longrightarrow> \<not> inkbuf s bk (a + y)" and m: "\<And>bk' a'. \<not> inkbuf s bk' a' \<Longrightarrow> cmem s' bk' a' = cmem s bk' a'"
    and h: "\<And>blk' j. exists_blk F blk' \<Longrightarrow> j < 512 \<Longrightarrow> fblock F (k_surf F (djhw s')) blk' j = (if blk' = blk then cmem s bk (a + of_nat j) else fblock F (k_surf F (djhw s)) blk' j)"
    and k: "kbufa s' = kbufa s"
  shows "rel F s' (areq (False, blk, bk, a) A)"
proof -
  have "cmem s bk (a + of_nat j) = fst A bk (a + of_nat j)" if "j < 512" for j
    using r p [of "of_nat j"] that by (simp add: rel_def word_less_nat_alt unat_of_nat)
  with m r h k show ?thesis by (cases A) (auto simp: rel_def inkbuf_def)
qed

lemma unat_half: "unat (drop_bit 1 (w :: u16)) = unat w div 2"
  by (simp add: drop_bit_eq_div unat_div_distrib)

lemma fblock_k:
  assumes k: "bps F = 1024" and e: "exists_blk F blk"
  shows "drop_bit 1 blk < f_volume (fspecs ! k_spec F)" "j < 512 \<Longrightarrow> fblock F S blk j = S (loc F (drop_bit 1 blk)) ((if tst blk 1 then 512 else 0) + of_nat j)"
proof -
  have d: "unat (drop_bit 1 blk) = unat blk div 2" by (rule unat_half)
  show "drop_bit 1 blk < f_volume (fspecs ! k_spec F)" using e k unfolding word_less_nat_alt d by (simp add: exists_blk_def)
  assume j: "j < 512"
  define r where "r = (if odd (unat blk) then 512 else 0) + j"
  have p: "unat blk * 512 + j = r + unat blk div 2 * 1024" unfolding r_def by (cases "odd (unat blk)") (auto elim!: oddE evenE)
  have "r < 1024" using j by (simp add: r_def)
  then have "(unat blk * 512 + j) div 1024 = unat (drop_bit 1 blk)" "(unat blk * 512 + j) mod 1024 = r" unfolding p d by simp_all
  then show "fblock F S blk j = S (loc F (drop_bit 1 blk)) ((if tst blk 1 then 512 else 0) + of_nat j)" using k by (simp add: fblock_def tst_one r_def)
qed

lemma k_write:
  assumes k: "k_spec F < 26" "bps F = 1024" and e: "exists_blk F blk" "exists_blk F blk'" and j: "j < 512"
    and m: "\<And>y. y < 1024 \<Longrightarrow> m KBANK (ka + y) = S (loc F (drop_bit 1 blk)) y"
  defines "off \<equiv> (if tst blk 1 then 512 else 0 :: u16)"
  shows "fblock F (S(loc F (drop_bit 1 blk) := wr_sec KBANK ka 1024 (rd_mem KBANK (ka + off) 512 g m) (S (loc F (drop_bit 1 blk))))) blk' j =
    (if blk' = blk then g (of_nat j) else fblock F S blk' j)"
proof -
  let ?off' = "if tst blk' 1 then 512 else 0 :: u16"
  note f = fblock_k [OF k(2) e(1)] and f' = fblock_k [OF k(2) e(2)]
  show ?thesis
  proof (cases "drop_bit 1 blk' = drop_bit 1 blk")
    case False
    then show ?thesis using loc_inj [OF k(1) f'(1) f(1)] f'(2) [OF j] by auto
  next
    case True
    have u: "unat (of_nat j :: u16) = j" using j by (simp add: unat_of_nat)
    have y: "?off' + of_nat j < 1024" using j u by (simp add: word_less_nat_alt unat_word_ariths)
    have w: "ka + (?off' + of_nat j) - (ka + off) = ?off' + of_nat j - off" by simp
    have i: "?off' + of_nat j - off < 512 \<longleftrightarrow> ?off' = off" using j u by (simp add: off_def word_less_nat_alt unat_sub_if' unat_word_ariths)
    have "unat blk' = unat blk" if "tst blk' 1 = tst blk 1"
    proof -
      have "unat blk' div 2 = unat blk div 2" using arg_cong [OF True, of unat] unfolding unat_half .
      moreover have "unat blk' mod 2 = unat blk mod 2" using that by (simp add: tst_one mod2_eq_if)
      ultimately show ?thesis by (metis div_mult_mod_eq)
    qed
    then have b: "blk' = blk \<longleftrightarrow> ?off' = off" by (auto simp: off_def word_unat_eq_iff tst_one split: if_splits)
    show ?thesis using y i b f'(2) [OF j, of S] m [OF y] True unfolding f'(2) [OF j] by (auto simp: wr_sec_def rd_mem_def w)
  qed
qed

definition frame :: "('g, 'h) dj \<Rightarrow> ('g, 'h) dj \<Rightarrow> bool" where
  "frame s s' \<longleftrightarrow> mwst s' = mwst s \<and> dms s' = dms s \<and> kbufa s' = kbufa s \<and> djctl s' = djctl s \<and> djtaken s' = djtaken s \<and> dque s' = dque s \<and> curbuf s' = curbuf s \<and> inservice s' = inservice s"

definition carried :: "'h diskette \<Rightarrow> nat \<Rightarrow> ('g, 'h) dj \<Rightarrow> ('g, 'h) dj \<Rightarrow> bool" where
  "carried F b s s' \<longleftrightarrow> frame s s' \<and> settled F s' \<and> kvalid F s' \<and> (\<forall>A. rel F s A \<longrightarrow> rel F s' (areq (request_at F s b) A))"

text \<open>What the label \<^verbatim>\<open>nextsec\<close> finds at the beginning of a request.\<close>

definition started :: "'h diskette \<Rightarrow> nat \<Rightarrow> ('g, 'h) dj \<Rightarrow> bool" where
  "started F b s \<longleftrightarrow> atwork F b s \<and> quiet F s \<and> busy s \<and> kvalid F s \<and> k_spec F < 26 \<and> apart F s b \<and> exists_blk F (b_blk (blist (dks s) b)) \<and>
     jaddr s = baddr (mwst s) b \<and> jxaddr s = ucast (bxmem (mwst s) b) \<and>
     (if bps F = 1024 then jtogo s = 512 \<and> jsec s = drop_bit 1 (b_blk (blist (dks s) b)) \<and> joff s = (if tst (b_blk (blist (dks s) b)) 1 then 512 else 0)
      else jtogo s = bps F \<and> jsec s = b_blk (blist (dks s) b) * ucast (f_spb (fspecs ! k_spec F)) \<and> joff s = 0)"

definition begun :: "'h diskette \<Rightarrow> nat \<Rightarrow> ('g, 'h) dj \<Rightarrow> bool" where
  "begun F b s \<longleftrightarrow> started F b s \<and> jcount s = 512"

lemma ucast_up_down: "ucast (ucast (w :: u8) :: u16) = w"
  by (rule bit_word_eqI) (simp add: bit_simps)

lemma direct_carried:
  assumes g: "begun F b s" and k: "bps F \<noteq> 1024"
  shows "\<exists>k s'. k \<le> 4 \<and> runs k (LNextsec, s) (LFinished, s') \<and> carried F b s s'"
proof -
  let ?blk = "b_blk (blist (dks s) b)" and ?q = "unat (f_spb (fspecs ! k_spec F))" and ?bk = "bxmem (mwst s) b" and ?a = "baddr (mwst s) b" and ?S = "k_surf F (djhw s)"
  from g k have w: "atwork F b s" "quiet F s" "busy s" "k_spec F < 26" "apart F s b" "exists_blk F ?blk" "jcount s = 512" "jaddr s = ?a" "ucast (jxaddr s) = ?bk"
    "jtogo s = bps F" "jsec s = ?blk * ucast (f_spb (fspecs ! k_spec F))" "joff s = 0" by (simp_all add: begun_def started_def ucast_up_down)
  note f = format [OF w(4)] and d = fblock_direct [OF w(4) k w(6)]
  have q: "?q * unat (bps F) = 512" "0 < ?q" "?q \<le> 4" using f(1) [OF k] f(4) by (simp_all, metis mult_0 neq0_conv zero_neq_numeral)
  have j: "unat (jcount s) = ?q * unat (bps F)" "unat (jsec s) + ?q \<le> unat (f_volume (fspecs ! k_spec F))" using w(7,11) q(1) d(2) by simp_all
  obtain c h a sec where r: "runs ?q (LNextsec, s) (LFinished, s\<lparr>djcomm := c, haltstat := Some 12, djhw := h, running := False, inservice := True, djtimer := 0,
      mwst := (mwst s)\<lparr>bus := Some (OtherStart 0)\<rparr>, jcount := 0, jaddr := a, jsec := sec, cmem := (if jop s = SREAD then secs_mem F ?bk ?q ?a (jsec s) ?S (cmem s) else cmem s)\<rparr>)"
    "\<not> k_ready F h" "k_surf F h = (if jop s = SREAD then ?S else secs_surf F ?bk ?q ?a (jsec s) (cmem s) ?S)"
    using direct_runs [OF w(1,2,12,10) q(2) j(1) f(3) j(2), unfolded w(8,9)] by blast
  define s' where "s' = s\<lparr>djcomm := c, haltstat := Some 12, djhw := h, running := False, inservice := True, djtimer := 0,
      mwst := (mwst s)\<lparr>bus := Some (OtherStart 0)\<rparr>, jcount := 0, jaddr := a, jsec := sec, cmem := (if jop s = SREAD then secs_mem F ?bk ?q ?a (jsec s) ?S (cmem s) else cmem s)\<rparr>"
  have "(mwst s)\<lparr>bus := Some (OtherStart 0)\<rparr> = mwst s" "inservice s" using w(3) by (simp_all add: busy_def)
  then have fr: "frame s s'" by (simp add: frame_def s'_def)
  have op: "jop s = (if tst (b_flags (blist (dks s) b)) BREAD then SREAD else SWRITE)" using w(1) by (simp add: atwork_def)
  have "rel F s' (areq (request_at F s b) A)" if A: "rel F s A" for A
  proof (cases "tst (b_flags (blist (dks s) b)) BREAD")
    case True
    then show ?thesis unfolding request_at_def used_bank_def Let_def if_not_P [OF k] by (simp only:) (rule rel_read [OF A w(6)], simp_all add: s'_def op r(3) w(11) direct_read [OF w(4) k w(6)])
  next
    case False
    have "\<not> inkbuf s ?bk (?a + y)" if "y < 512" for y using w(5) that by (simp add: apart_def used_bank_def k)
    moreover have "fblock F (k_surf F (djhw s')) blk' j = (if blk' = ?blk then cmem s ?bk (?a + of_nat j) else fblock F ?S blk' j)" if "exists_blk F blk'" "j < 512" for blk' j
      using False direct_write [OF w(4) k w(6) that] by (simp add: s'_def op r(3) w(11))
    ultimately show ?thesis using False unfolding request_at_def used_bank_def Let_def if_not_P [OF k] by (simp only:) (rule rel_write [OF A], simp_all add: s'_def op)
  qed
  moreover have "settled F s'" "kvalid F s'" using w(1) r(2) k by (simp_all add: settled_def kvalid_def s'_def atwork_def)
  ultimately show ?thesis using r(1) q(3) fr unfolding carried_def s'_def by blast
qed

lemma kbuf_apart:
  assumes "apart F s b" "bps F = 1024" "y < 1024"
  shows "\<not> kbufa s + y - baddr (mwst s) b < 512"
proof
  assume z: "kbufa s + y - baddr (mwst s) b < 512"
  have "\<not> inkbuf s KBANK (baddr (mwst s) b + (kbufa s + y - baddr (mwst s) b))" using assms(1) z unfolding apart_def used_bank_def assms(2) by metis
  then show False using assms(3) by (simp add: inkbuf_def)
qed

lemma half_in_kbuf: "x - (ka + (if t then 512 else 0)) < (512 :: u16) \<Longrightarrow> x - ka < 1024"
proof -
  assume a: "x - (ka + (if t then 512 else 0)) < 512"
  have "y - (if t then 512 else 0) < 512 \<Longrightarrow> y < 1024" for y :: u16 by (auto simp: word_less_nat_alt unat_sub_if' split: if_splits)
  from this [of "x - ka"] a show ?thesis by (simp add: diff_diff_add)
qed

lemma half_less: "y < 512 \<Longrightarrow> (if t then 512 else 0) + y < (1024 :: u16)"
  by (simp add: word_less_nat_alt unat_word_ariths)

lemma k_read_carried:
  assumes g: "begun F b s" and k: "bps F = 1024" and rd: "tst (b_flags (blist (dks s) b)) BREAD"
  shows "\<exists>k s'. k \<le> 4 \<and> runs k (LNextsec, s) (LFinished, s') \<and> carried F b s s'"
proof -
  let ?blk = "b_blk (blist (dks s) b)" and ?a = "baddr (mwst s) b" and ?S = "k_surf F (djhw s)" and ?sec = "drop_bit 1 (b_blk (blist (dks s) b))"
  let ?off = "if tst (b_blk (blist (dks s) b)) 1 then 512 else 0 :: u16"
  from g k have w: "atwork F b s" "quiet F s" "busy s" "kvalid F s" "apart F s b" "exists_blk F ?blk" "jcount s = 512" "jaddr s = ?a" "jtogo s = 512" "jsec s = ?sec" "joff s = ?off"
    by (simp_all add: begun_def started_def)
  note fk = fblock_k [OF k w(6)]
  have op: "jop s = SREAD" using w(1) rd by (simp add: atwork_def)
  define M where "M = rd_mem KBANK (kbufa s) 1024 (?S (loc F ?sec)) (cmem s)"
  have "jsec s < f_volume (fspecs ! k_spec F)" using fk(1) w(10) by simp
  have "\<not> (joff s = 0 \<and> jbps s \<le> jcount s)" using w(1,7) k by (simp add: atwork_def)
  from fill_runs [OF w(1-4) k this \<open>jsec s < f_volume (fspecs ! k_spec F)\<close>] obtain k c h hs r tm v where f: "k \<le> 1" "runs k (LNextsec, s) (LKread, s\<lparr>djcomm := c, haltstat := hs, djhw := h, running := r, djtimer := tm,
      kw := v, kdev := k_dev F, ksec := ?sec, cmem := M\<rparr>)" "k_surf F h = ?S" "hs = None \<and> k_ready F h \<or> hs = Some 12 \<and> \<not> k_ready F h"
    unfolding w(10) op M_def [symmetric] by auto
  define s1 where "s1 = s\<lparr>djcomm := c, haltstat := hs, djhw := h, running := r, djtimer := tm, kw := v, kdev := k_dev F, ksec := ?sec, cmem := M\<rparr>"
  define s' where "s' = s1\<lparr>jcount := 0, cmem := rd_mem KBANK ?a 512 (\<lambda>y. M KBANK (kbufa s + ?off + y)) M\<rparr>"
  have "runs 0 (LKread, s1) (LFinished, s')" using kread_runs [of s1] w(7-9,11) by (simp add: s1_def s'_def)
  from runs_trans [OF f(2) [folded s1_def] this] have rs: "runs k (LNextsec, s) (LFinished, s')" by simp
  have sec: "M KBANK (kbufa s + y) = ?S (loc F ?sec) y" if "y < 1024" for y using that by (simp add: M_def rd_mem_at)
  have blkb: "M KBANK (kbufa s + ?off + y) = fblock F ?S ?blk (unat y)" if "y < 512" for y
    using sec [OF half_less [OF that]] fk(2) [of "unat y"] that by (simp add: add.assoc word_less_nat_alt)
  have mem: "cmem s' bk' a' = rd_mem KBANK ?a 512 (\<lambda>y. fblock F ?S ?blk (unat y)) (cmem s) bk' a'" if "\<not> inkbuf s bk' a'" for bk' a'
    using that blkb by (auto simp: s'_def rd_mem_def M_def inkbuf_def)
  have "rel F s' (areq (request_at F s b) A)" if A: "rel F s A" for A
    unfolding request_at_def used_bank_def Let_def if_P [OF k] using rd by (simp only:) (rule rel_read [OF A w(6) mem], simp_all add: s'_def s1_def f(3))
  moreover have "kvalid F s'" using kbuf_apart [OF w(5) k] sec f(3) unfolding kvalid_def by (simp add: s'_def s1_def rd_mem_def)
  moreover have "settled F s'" "frame s s'" using w(1) f(4) by (auto simp: settled_def frame_def s'_def s1_def atwork_def)
  ultimately show ?thesis using rs f(1) unfolding carried_def by (intro exI [of _ k] exI [of _ s']) simp
qed

lemma k_write_carried:
  assumes g: "started F b s" and k: "bps F = 1024" and wr: "\<not> tst (b_flags (blist (dks s) b)) BREAD" and nd: "\<not> (joff s = 0 \<and> jbps s \<le> jcount s)"
  shows "\<exists>k s'. k \<le> 2 \<and> runs k (LNextsec, s) (LFinished, s') \<and> carried F b s s'"
proof -
  let ?blk = "b_blk (blist (dks s) b)" and ?a = "baddr (mwst s) b" and ?S = "k_surf F (djhw s)" and ?sec = "drop_bit 1 (b_blk (blist (dks s) b))"
  let ?off = "if tst (b_blk (blist (dks s) b)) 1 then 512 else 0 :: u16"
  from g k have w: "atwork F b s" "quiet F s" "busy s" "kvalid F s" "apart F s b" "exists_blk F ?blk" "jtogo s = 512" "jsec s = ?sec" "joff s = ?off" "k_spec F < 26"
    by (simp_all add: started_def)
  note fk = fblock_k [OF k w(6)]
  have op: "jop s = SWRITE" "jbps s = 1024" using w(1) wr k by (simp_all add: atwork_def)
  define M where "M = rd_mem KBANK (kbufa s) 1024 (?S (loc F ?sec)) (cmem s)"
  have "jsec s < f_volume (fspecs ! k_spec F)" using fk(1) w(8) by simp
  from fill_runs [OF w(1-4) k nd this] obtain k1 c h hs r tm v where f: "k1 \<le> 1" "runs k1 (LNextsec, s) (LKwrite, s\<lparr>djcomm := c, haltstat := hs, djhw := h, running := r, djtimer := tm,
      kw := v, kdev := k_dev F, ksec := ?sec, cmem := M\<rparr>)" "k_surf F h = ?S" "hs = None \<and> k_ready F h \<or> hs = Some 12 \<and> \<not> k_ready F h"
    unfolding w(8) op(1) M_def [symmetric] by auto
  define s1 where "s1 = s\<lparr>djcomm := c, haltstat := hs, djhw := h, running := r, djtimer := tm, kw := v, kdev := k_dev F, ksec := ?sec, cmem := M\<rparr>"
  have w1: "atwork F b s1" "busy s1" "settled F s1" "jtogo s1 = 512" "\<not> (joff s1 = 0 \<and> jbps s1 \<le> jcount s1)" "jop s1 = SWRITE"
    using w(1,3,7) f(4) op nd by (auto simp: s1_def atwork_def opened_def dks_def busy_def settled_def)
  let ?N = "rd_mem KBANK (kbufa s + ?off) 512 (\<lambda>y. M KBANK (?a + y)) M"
  obtain c2 h2 where 2: "runs 1 (LKwrite, s1) (LFinished, s1\<lparr>djcomm := c2, haltstat := Some 12, djhw := h2, running := False, djtimer := 0, kw := True, cmem := ?N\<rparr>)" "\<not> k_ready F h2"
    "k_surf F h2 = ?S(loc F ?sec := wr_sec KBANK (kbufa s) 1024 ?N (?S (loc F ?sec)))"
    using kwrite_runs [OF w1(1-3) k w1(4-6)] w(9) by (auto simp: s1_def f(3))
  define s' where "s' = s1\<lparr>djcomm := c2, haltstat := Some 12, djhw := h2, running := False, djtimer := 0, kw := True, cmem := ?N\<rparr>"
  from runs_trans [OF f(2) [folded s1_def] 2(1)] have rs: "runs (k1 + 1) (LNextsec, s) (LFinished, s')" by (simp add: s'_def)
  have sec: "M KBANK (kbufa s + y) = ?S (loc F ?sec) y" if "y < 1024" for y using that by (simp add: M_def rd_mem_at)
  have out: "\<not> inkbuf s KBANK (?a + y)" if "y < 512" for y using w(5) that by (simp add: apart_def used_bank_def k)
  have src: "M KBANK (?a + of_nat j) = cmem s KBANK (?a + of_nat j)" if "j < 512" for j
    using out [of "of_nat j"] that by (simp add: M_def rd_mem_def inkbuf_def word_less_nat_alt unat_of_nat)
  have mem: "cmem s' bk' a' = cmem s bk' a'" if "\<not> inkbuf s bk' a'" for bk' a'
    using that half_in_kbuf [of a' "kbufa s" "tst ?blk 1"] by (auto simp: s'_def rd_mem_def M_def inkbuf_def)
  have fb: "fblock F (k_surf F (djhw s')) blk' j = (if blk' = ?blk then cmem s KBANK (?a + of_nat j) else fblock F ?S blk' j)" if "exists_blk F blk'" "j < 512" for blk' j
    using k_write [OF w(10) k w(6) that, of M "kbufa s" ?S "\<lambda>y. M KBANK (?a + y)"] sec src [OF that(2)] by (simp add: s'_def 2(3))
  have "rel F s' (areq (request_at F s b) A)" if A: "rel F s A" for A
    unfolding request_at_def used_bank_def Let_def if_P [OF k] using wr by (simp only:) (rule rel_write [OF A out mem fb], simp_all add: s'_def s1_def)
  moreover have "kvalid F s'" unfolding kvalid_def by (simp add: s'_def s1_def 2(3) wr_sec_def)
  moreover have "settled F s'" "frame s s'" using w(1) 2(2) by (auto simp: settled_def frame_def s'_def s1_def atwork_def)
  ultimately show ?thesis using rs f(1) unfolding carried_def by (intro exI [of _ "k1 + 1"] exI [of _ s']) simp
qed

end
