(* ===== verification/Blockdev.thy ===== *)
theory Blockdev
  imports Blocks
begin

text \<open>
  The queue of the floppy driver: requests are taken from it, carried out (theory \<open>Blocks\<close>) and reported, until it is empty and the bus is given away.
\<close>

text \<open>The driver is about to look at its queue.\<close>

definition base :: "'h diskette \<Rightarrow> ('g, 'h) dj \<Rightarrow> bool" where
  "base F s \<longleftrightarrow> djctl_good F (djctl s) \<and> opened F s \<and> \<not> djtaken s \<and> mybus (mwst s) \<and> quiet F s \<and> kvalid F s \<and> swapok (dks s) \<and> curbuf s = None \<and>
     k_spec F < 26 \<and> \<not> tst (k_dev F) GETSTAT"

definition asks :: "'h diskette \<Rightarrow> ('g, 'h) dj \<Rightarrow> nat \<Rightarrow> bool" where
  "asks F s b \<longleftrightarrow> b_dev (blist (dks s) b) = k_dev F \<and> bbusy (blist (dks s) b) \<and> \<not> berr (blist (dks s) b) \<and>
     exists_blk F (b_blk (blist (dks s) b)) \<and> placed F s b \<and> (tst (b_flags (blist (dks s) b)) BREAD \<or> \<not> tst (d_flags (dms s (drv F))) F_WP)"

definition wants :: "'h diskette \<Rightarrow> ('g, 'h) dj \<Rightarrow> nat \<Rightarrow> bool" where
  "wants F s b \<longleftrightarrow> asks F s b \<and> b_count (blist (dks s) b) = 512"

text \<open>Longer writes at the second half of a sector of 1024 bytes take the same course.\<close>

definition odd_write :: "'h diskette \<Rightarrow> buf \<Rightarrow> bool" where
  "odd_write F x \<longleftrightarrow> bps F = 1024 \<and> tst (b_blk x) 1 \<and> b_count x > 512 \<and> \<not> tst (b_flags x) BREAD"

text \<open>A request as \<open>asks\<close>, with its memory in any bank.\<close>

definition asks_any :: "'h diskette \<Rightarrow> ('g, 'h) dj \<Rightarrow> nat \<Rightarrow> bool" where
  "asks_any F s b \<longleftrightarrow> b_dev (blist (dks s) b) = k_dev F \<and> bbusy (blist (dks s) b) \<and> \<not> berr (blist (dks s) b) \<and>
     exists_blk F (b_blk (blist (dks s) b)) \<and> apart F s b \<and> (tst (b_flags (blist (dks s) b)) BREAD \<or> \<not> tst (d_flags (dms s (drv F))) F_WP)"

definition able :: "'h diskette \<Rightarrow> ('g, 'h) dj \<Rightarrow> nat \<Rightarrow> bool" where
  "able F s b \<longleftrightarrow> asks_any F s b \<and> (b_count (blist (dks s) b) = 512 \<or> odd_write F (blist (dks s) b))"

lemma request_runs:
  assumes g: "base F s" "busy s" "dque s = b # q" "able F s b"
  shows "\<exists>s'. runs 0 (LRequest, s) (LNextsec, s') \<and> started F b s' \<and> jcount s' = b_count (blist (dks s) b) \<and> (\<forall>A. rel F s' A = rel F s A) \<and> request_at F s' b = request_at F s b \<and>
    mwst s' = mwst s \<and> dms s' = dms s \<and> kbufa s' = kbufa s \<and> djctl s' = djctl s \<and> djtaken s' = djtaken s \<and> dque s' = q \<and> curbuf s' = Some b"
proof -
  let ?x = "blist (dks s) b" and ?sp = "fspecs ! k_spec F" and ?op = "if tst (b_flags (blist (dks s) b)) BREAD then SREAD else SWRITE"
  let ?k = "bps F = 1024" and ?odd = "tst (b_blk (blist (dks s) b)) 1"
  from g(1) have o: "d_specs (dms s (drv F)) = k_spec F" "tst (d_flags (dms s (drv F))) ISOPEN" "\<not> tst (k_dev F) GETSTAT" by (simp_all add: base_def opened_def)
  from g(4) have x: "b_dev ?x = k_dev F" "exists_blk F (b_blk ?x)" "\<not> tst (b_flags ?x) BREAD \<Longrightarrow> \<not> tst (d_flags (dms s (drv F))) F_WP" by (auto simp: able_def asks_any_def)
  have small: "\<not> b_blk ?x > 3000" using exists_small [OF _ x(2)] g(1) by (simp add: base_def word_less_nat_alt)
  have bl: "\<not> 512 < bps F" if "\<not> ?k"
  proof -
    have "unat (f_spb ?sp) * unat (bps F) = 512" using format(1) [OF _ that] g(1) by (simp add: base_def)
    then have "unat (bps F) dvd 512" by (metis dvd_triv_right)
    then show ?thesis using dvd_imp_le [of "unat (bps F)" 512] by (simp add: word_less_nat_alt)
  qed
  define s' where "s' = s\<lparr>curbuf := Some b, dque := q, jdev := k_dev F, jd := drv F, jsp := k_spec F, jcount := b_count ?x, jblk := b_blk ?x, jbps := bps F, jspb := f_spb ?sp,
     jsec := (if ?k then drop_bit 1 (b_blk ?x) else b_blk ?x * ucast (f_spb ?sp)), joff := (if ?k \<and> ?odd then 512 else 0), jtogo := (if ?k then 512 else bps F), jop := ?op,
     jaddr := baddr (mwst s) b, jxaddr := ucast (bxmem (mwst s) b)\<rparr>"
  define s1 where "s1 = s\<lparr>curbuf := Some b, dque := q, jdev := k_dev F\<rparr>"
  have s1: "dks s1 = dks s" "jdev s1 = k_dev F" "dms s1 = dms s" "mwst s1 = mwst s" by (simp_all add: s1_def dks_def)
  consider "?k" "b_count ?x = 512" | "?k" "?odd" "b_count ?x < 1024" "512 < b_count ?x" | "?k" "?odd" "\<not> b_count ?x < 1024" | "\<not> ?k" "b_count ?x = 512"
    using g(4) by (auto simp: able_def odd_write_def)
  then have "lrequest_rw b s1 = (LNextsec, s')"
    using o x small bl by cases (simp_all add: lrequest_rw_def Let_def s1 s'_def, simp_all add: s1_def)
  then have "djlab LRequest s = Ret LNextsec s'" using g(3) x(1) o(3) by (simp add: lrequest_def s1_def [symmetric] Let_def s1(2))
  then have "runs 0 (LRequest, s) (LNextsec, s')" by (rule runs_step) simp
  moreover have "started F b s'"
    using g by (simp add: started_def base_def busy_def able_def asks_any_def atwork_def opened_def quiet_def kvalid_def apart_def used_bank_def inkbuf_def s'_def dks_def)
  moreover have "rel F s' A = rel F s A" for A by (simp add: rel_def inkbuf_def s'_def)
  ultimately show ?thesis by (intro exI [of _ s']) (simp add: s'_def request_at_def used_bank_def dks_def)
qed

lemma djgive_again:
  assumes "mybus (mwst s)"
  shows "djgive f s = Ret False (s\<lparr>mwst := (mwst s)\<lparr>bus := None\<rparr>\<rparr>)"
  using assms by (simp add: djgive_def mybus_def onmw_def busgive_def)

text \<open>A request is reported, and the driver keeps the bus.\<close>

lemma finish_runs:
  assumes w: "settled F s" "mybus (mwst s)" "busy s" "curbuf s = Some b" "swapok (dks s)" "bbusy (blist (dks s) b)" "\<not> berr (blist (dks s) b)"
  shows "\<exists>c h r k1 s'. runs 0 (LFinished, s) (LRequest, s') \<and> s' = s\<lparr>mwst := (mwst s)\<lparr>ks := k1\<rparr>, curbuf := None, djcomm := c, djhw := h, haltstat := None, running := r\<rparr> \<and>
    k_ready F h \<and> k_surf F h = k_surf F (djhw s) \<and> swapok k1 \<and> bdone (blist k1 b) \<and> \<not> berr (blist k1 b) \<and> (\<forall>j. j \<noteq> b \<longrightarrow> btm (blist (dks s) j) (blist k1 j))"
proof -
  obtain k1 where k: "iodone b (dks s) = Ret () k1" "swapok k1" "bdone (blist k1 b)" "\<not> berr (blist k1 b)" "\<And>j. j \<noteq> b \<Longrightarrow> btm (blist (dks s) j) (blist k1 j)"
    by (rule iodone_ret [OF w(5-7)]) blast
  define s1 where "s1 = s\<lparr>mwst := (mwst s)\<lparr>ks := k1\<rparr>, curbuf := None\<rparr>"
  have "settled F s1" using w(1) by (simp add: settled_def s1_def)
  then obtain c h r where a: "djack s1 = s1\<lparr>djcomm := c, djhw := h, haltstat := None, running := r\<rparr>" "k_ready F h" "k_surf F h = k_surf F (djhw s1)" by (rule djack_settles)
  define s' where "s' = s1\<lparr>djcomm := c, djhw := h, haltstat := None, running := r\<rparr>"
  have io: "onkd (iodone b) s = Ret () (s\<lparr>mwst := (mwst s)\<lparr>ks := k1\<rparr>\<rparr>)" using k(1) by (simp add: onkd_def onmw_def onk_def dks_def)
  have b': "mybus (mwst s')" "bus (mwst s') = Some (OtherStart 0)" "busnext (mwst s') = None" using w(2,3) by (simp_all add: s'_def s1_def mybus_def busy_def)
  then have "mybus (mwst (s'\<lparr>mwst := (mwst s')\<lparr>bus := None\<rparr>\<rparr>))" by (simp add: mybus_def)
  then have "djget 0 (s'\<lparr>mwst := (mwst s')\<lparr>bus := None\<rparr>\<rparr>) = (True, s')" using b'(2) by (simp add: djget_mine)
  then have "djlab LFinished s = Ret LRequest s'"
    using w(4) io a(1) by (simp add: lfinished_def s1_def [symmetric] s'_def [symmetric] djgive_again [OF b'(1)])
  then have "runs 0 (LFinished, s) (LRequest, s')" by (rule runs_step) simp
  then show ?thesis using k(2-5) a(2,3) unfolding s'_def s1_def by auto
qed

lemma empty_runs:
  assumes "mybus (mwst s)" "dque s = []"
  shows "runs 0 (LRequest, s) (LDone, s\<lparr>inservice := False, mwst := (mwst s)\<lparr>bus := None\<rparr>\<rparr>)"
  using assms by (intro runs_step) (simp_all add: lrequest_def djgive_again)

lemma started_carried:
  assumes s: "started F b s" and c: "jcount s = b_count (blist (dks s) b)" "b_count (blist (dks s) b) = 512 \<or> odd_write F (blist (dks s) b)"
  obtains k s' where "k \<le> 4" "runs k (LNextsec, s) (LFinished, s')" "carried F b s s'"
proof (cases "bps F = 1024 \<and> \<not> tst (b_flags (blist (dks s) b)) BREAD")
  case True
  then have "\<not> (joff s = 0 \<and> jbps s \<le> jcount s)" using assms by (auto simp: started_def atwork_def odd_write_def)
  then obtain k s' where "k \<le> 2" "runs k (LNextsec, s) (LFinished, s')" "carried F b s s'" using k_write_carried [OF s] True by blast
  then show thesis by (intro that [of k s']) simp_all
next
  case False
  then have "begun F b s" using assms by (auto simp: begun_def odd_write_def)
  then show thesis using False direct_carried k_read_carried that by metis
qed

lemma one_runs:
  assumes g: "base F s" "busy s" "dque s = b # q" "able F s b"
  shows "\<exists>k s'. k \<le> 4 \<and> runs k (LRequest, s) (LRequest, s') \<and> base F s' \<and> busy s' \<and> dque s' = q \<and> (\<forall>A. rel F s A \<longrightarrow> rel F s' (areq (request_at F s b) A)) \<and>
    bdone (blist (dks s') b) \<and> \<not> berr (blist (dks s') b) \<and> (\<forall>j. j \<noteq> b \<longrightarrow> btm (blist (dks s) j) (blist (dks s') j)) \<and>
    baddr (mwst s') = baddr (mwst s) \<and> bxmem (mwst s') = bxmem (mwst s) \<and> dms s' = dms s \<and> kbufa s' = kbufa s"
proof -
  obtain s1 where 1: "runs 0 (LRequest, s) (LNextsec, s1)" "started F b s1" "jcount s1 = b_count (blist (dks s) b)" "\<And>A. rel F s1 A = rel F s A" "request_at F s1 b = request_at F s b"
    "mwst s1 = mwst s" "dms s1 = dms s" "kbufa s1 = kbufa s" "djctl s1 = djctl s" "djtaken s1 = djtaken s" "dque s1 = q" "curbuf s1 = Some b"
    using request_runs [OF g] by blast
  obtain k s2 where 2: "k \<le> 4" "runs k (LNextsec, s1) (LFinished, s2)" "carried F b s1 s2" using started_carried [OF 1(2)] 1(3,6) g(4) by (auto simp: able_def dks_def)
  then have c: "frame s1 s2" "settled F s2" "kvalid F s2" "\<And>A. rel F s A \<Longrightarrow> rel F s2 (areq (request_at F s b) A)" unfolding carried_def 1(4,5) by blast+
  have f: "mwst s2 = mwst s" "dms s2 = dms s" "kbufa s2 = kbufa s" "djctl s2 = djctl s" "djtaken s2 = djtaken s" "dque s2 = q" "curbuf s2 = Some b" "inservice s2"
    using c(1) 1(6-12) 1(2) by (simp_all add: frame_def started_def busy_def)
  have d: "dks s2 = dks s" by (simp add: dks_def f(1))
  have h: "mybus (mwst s2)" "busy s2" "swapok (dks s2)" "bbusy (blist (dks s2) b)" "\<not> berr (blist (dks s2) b)"
    using g f(1,8) d by (simp_all add: base_def busy_def able_def asks_any_def)
  obtain c' h' r k1 s3 where 3: "runs 0 (LFinished, s2) (LRequest, s3)" "s3 = s2\<lparr>mwst := (mwst s2)\<lparr>ks := k1\<rparr>, curbuf := None, djcomm := c', djhw := h', haltstat := None, running := r\<rparr>"
    "k_ready F h'" "k_surf F h' = k_surf F (djhw s2)" "swapok k1" "bdone (blist k1 b)" "\<not> berr (blist k1 b)" "\<forall>j. j \<noteq> b \<longrightarrow> btm (blist (dks s2) j) (blist k1 j)"
    using finish_runs [OF c(2) h(1,2) f(7) h(3-5)] by blast
  have "runs k (LRequest, s) (LRequest, s3)" using runs_trans [OF runs_trans [OF 1(1) 2(2)] 3(1)] by simp
  moreover have "base F s3" "busy s3" using g(1) c(3) f h(1,2) 3(3-5) by (simp_all add: base_def opened_def quiet_def kvalid_def mybus_def busy_def 3(2) dks_def)
  moreover have "rel F s3 A = rel F s2 A" for A by (simp add: rel_def inkbuf_def 3(2,4))
  ultimately show ?thesis using 2(1) c(4) f 3(6-8) d by (intro exI [of _ k] exI [of _ s3]) (simp add: 3(2) dks_def)
qed

lemma able_later:
  assumes "able F s b" "btm (blist (dks s) b) (blist (dks s') b)" "baddr (mwst s') = baddr (mwst s)" "bxmem (mwst s') = bxmem (mwst s)" "dms s' = dms s" "kbufa s' = kbufa s"
  shows "able F s' b \<and> request_at F s' b = request_at F s b"
proof -
  from assms(2) obtain t where "blist (dks s') b = (blist (dks s) b)\<lparr>b_time := t\<rparr>" unfolding btm_def by blast
  then show ?thesis using assms by (simp add: able_def asks_any_def odd_write_def apart_def used_bank_def inkbuf_def request_at_def used_bank_def bflag_defs Let_def)
qed

lemma queue_runs:
  assumes "base F s" "busy s" "dque s = q" "distinct q" "\<And>b. b \<in> set q \<Longrightarrow> able F s b" "rel F s A"
  shows "\<exists>k s'. k \<le> 4 * length q \<and> runs k (LRequest, s) (LDone, s') \<and> base F s' \<and> \<not> inservice s' \<and> dque s' = [] \<and> rel F s' (fold areq (map (request_at F s) q) A) \<and>
    (\<forall>b \<in> set q. bdone (blist (dks s') b) \<and> \<not> berr (blist (dks s') b)) \<and> (\<forall>j. j \<notin> set q \<longrightarrow> btm (blist (dks s) j) (blist (dks s') j))"
  using assms
proof (induction q arbitrary: s A)
  case Nil
  let ?s' = "s\<lparr>inservice := False, mwst := (mwst s)\<lparr>bus := None\<rparr>\<rparr>"
  have "runs 0 (LRequest, s) (LDone, ?s')" using Nil by (intro empty_runs) (simp_all add: base_def)
  moreover have "base F ?s'" "rel F ?s' A" using Nil by (simp_all add: base_def opened_def mybus_def quiet_def kvalid_def dks_def rel_def inkbuf_def)
  ultimately show ?case using Nil by (intro exI [of _ 0] exI [of _ ?s']) (simp add: dks_def)
next
  case (Cons b q)
  obtain k s1 where 1: "k \<le> 4" "runs k (LRequest, s) (LRequest, s1)" "base F s1" "busy s1" "dque s1 = q" "rel F s A \<Longrightarrow> rel F s1 (areq (request_at F s b) A)"
    "bdone (blist (dks s1) b)" "\<not> berr (blist (dks s1) b)" "\<And>j. j \<noteq> b \<Longrightarrow> btm (blist (dks s) j) (blist (dks s1) j)"
    "baddr (mwst s1) = baddr (mwst s)" "bxmem (mwst s1) = bxmem (mwst s)" "dms s1 = dms s" "kbufa s1 = kbufa s"
    using one_runs [OF Cons.prems(1-3)] Cons.prems(5) by (metis list.set_intros(1))
  have l: "able F s1 d \<and> request_at F s1 d = request_at F s d" if "d \<in> set q" for d
    using that Cons.prems(4,5) by (intro able_later 1(9-13)) auto
  then have m: "map (request_at F s1) q = map (request_at F s) q" by simp
  obtain k' s' where 2: "k' \<le> 4 * length q" "runs k' (LRequest, s1) (LDone, s')" "base F s'" "\<not> inservice s'" "dque s' = []"
    "rel F s' (fold areq (map (request_at F s) q) (areq (request_at F s b) A))"
    "\<forall>b \<in> set q. bdone (blist (dks s') b) \<and> \<not> berr (blist (dks s') b)" "\<forall>j. j \<notin> set q \<longrightarrow> btm (blist (dks s1) j) (blist (dks s') j)"
    using Cons.IH [OF 1(3-5) _ _ 1(6)] l Cons.prems(4,6) unfolding m by auto
  have "bdone (blist (dks s') b) \<and> \<not> berr (blist (dks s') b)" using 1(7,8) 2(8) Cons.prems(4) btm_fields [of "blist (dks s1) b" "blist (dks s') b"] by simp
  moreover have "btm (blist (dks s) j) (blist (dks s') j)" if "j \<notin> set (b # q)" for j using 1(9) [of j] 2(8) that btm_trans by auto
  ultimately show ?case using runs_trans [OF 1(2) 2(2)] 1(1) 2(1,3-7) by (intro exI [of _ "k + k'"] exI [of _ s']) auto
qed

lemma strat_runs:
  assumes s: "base F s" "\<not> inservice s" and bs: "bs = dque s @ [b]" "distinct bs" "\<And>b. b \<in> set bs \<Longrightarrow> able F s b" and r: "rel F s A"
  shows "\<exists>s1 k s'. djstrat b s = Ret () s1 \<and> k \<le> 4 * length bs \<and> djserves k s1 = Ret () s' \<and> base F s' \<and> \<not> inservice s' \<and> dque s' = [] \<and>
    rel F s' (fold areq (map (request_at F s) bs) A) \<and> (\<forall>b\<in>set bs. bdone (blist (dks s') b) \<and> \<not> berr (blist (dks s') b)) \<and>
    (\<forall>j. j \<notin> set bs \<longrightarrow> btm (blist (dks s) j) (blist (dks s') j))"
proof -
  define s2 where "s2 = s\<lparr>dque := bs, mwst := (mwst s)\<lparr>bus := Some (OtherStart 0)\<rparr>, inservice := True, djtimer := 0\<rparr>"
  have b: "mybus (mwst s)" "\<not> djtaken s" "curbuf s = None" using s(1) by (simp_all add: base_def)
  have d: "dks s2 = dks s" "request_at F s2 = request_at F s" by (simp_all add: s2_def dks_def request_at_def used_bank_def fun_eq_iff)
  have "base F s2" "busy s2" "rel F s2 A" "dque s2 = bs" using s r by (simp_all add: s2_def base_def busy_def opened_def mybus_def quiet_def kvalid_def dks_def rel_def inkbuf_def)
  note q = queue_runs [OF this(1,2,4) bs(2) _ this(3), unfolded d]
  have "able F s2 b" if "b \<in> set bs" for b using bs(3) [OF that] by (simp add: able_def asks_any_def odd_write_def apart_def used_bank_def inkbuf_def d(1)) (simp add: s2_def)
  from q [OF this] obtain k s' where k: "k \<le> 4 * length bs" "runs k (LRequest, s2) (LDone, s')" "base F s'" "\<not> inservice s'" "dque s' = []"
    "rel F s' (fold areq (map (request_at F s) bs) A)" "\<forall>b \<in> set bs. bdone (blist (dks s') b) \<and> \<not> berr (blist (dks s') b)"
    "\<forall>j. j \<notin> set bs \<longrightarrow> btm (blist (dks s) j) (blist (dks s') j)" by blast
  obtain s1 where s1: "djloop LRequest s2 = Some (Ret () s1)" "djserves k s1 = Ret () s'" using runs_djloop [OF k(2)] by auto
  have "djstrat b s = djint (s\<lparr>dque := bs\<rparr>)" by (simp add: djstrat_def bs(1))
  also have "\<dots> = spin (djloop LRequest s2) s2" using b s(2) bs(1) djget_mine [of "s\<lparr>dque := bs\<rparr>"] by (simp add: djint_def djresume_def s2_def)
  finally have "djstrat b s = Ret () s1" using s1(1) by (simp add: spin_def)
  with s1(2) k show ?thesis by blast
qed

text \<open>
  C9. With a working controller the floppy driver implements an array of blocks, for every format of the table: when \<^verbatim>\<open>djstrat\<close> is given a request while the requests before it wait for the bus, all of them are
  carried out in the order in which they came, within four interrupts each, and every buffer is reported done without error. The memory outside \<^verbatim>\<open>kbuf\<close> and the blocks of the diskette are then exactly what
  reading and writing blocks of 512 bytes one after the other gives, whether the sectors are smaller and go directly to or from memory, or are twice as large and go through \<^verbatim>\<open>kbuf\<close>. The driver is idle again, and no other
  buffer has changed.
\<close>

theorem dj_implements_blocks:
  assumes s: "base F s" "\<not> inservice s" and bs: "bs = dque s @ [b]" "distinct bs" "\<And>b. b \<in> set bs \<Longrightarrow> wants F s b" and r: "rel F s A"
  shows "\<exists>s1 k s'. djstrat b s = Ret () s1 \<and> k \<le> 4 * length bs \<and> djserves k s1 = Ret () s' \<and> base F s' \<and> \<not> inservice s' \<and> dque s' = [] \<and>
    rel F s' (fold areq (map (request_of s) bs) A) \<and> (\<forall>b\<in>set bs. bdone (blist (dks s') b) \<and> \<not> berr (blist (dks s') b)) \<and>
    (\<forall>j. j \<notin> set bs \<longrightarrow> btm (blist (dks s) j) (blist (dks s') j))"
proof -
  have "able F s b" if "b \<in> set bs" for b using bs(3) [OF that] by (simp add: wants_def able_def asks_def asks_any_def placed_apart(1))
  note runs = strat_runs [OF s bs(1,2) this r]
  have "map (request_of s) bs = map (request_at F s) bs" using bs(3) by (intro map_cong) (simp_all add: wants_def asks_def placed_apart(2))
  with runs show ?thesis by (simp only:)
qed

text \<open>
  C24. Long writes to a diskette with sectors of 1024 bytes go wrong, as \<^verbatim>\<open>swapio\<close> makes them. With a working controller, a request for more than 512 bytes that begins with an odd block, its memory in whatever bank, is
  reported done without error, but the diskette is as after writing a single block, and that not from the memory of the request but from the same address in the bank of the kernel: the label \<^verbatim>\<open>finished\<close> is reached
  after the first write of \<^verbatim>\<open>kbuf\<close>, whatever \<^verbatim>\<open>count\<close> is, and the copy to \<^verbatim>\<open>kbuf\<close> ignores \<^verbatim>\<open>xmem\<close>.
\<close>

theorem dj_odd_write_cut:
  assumes s: "base F s" "\<not> inservice s" "dque s = []" and b: "asks_any F s b" "odd_write F (blist (dks s) b)" and r: "rel F s A"
  shows "\<exists>s1 k s'. djstrat b s = Ret () s1 \<and> k \<le> 4 \<and> djserves k s1 = Ret () s' \<and> curbuf s' = None \<and> dque s' = [] \<and> bdone (blist (dks s') b) \<and> \<not> berr (blist (dks s') b) \<and>
    rel F s' (areq (False, b_blk (blist (dks s) b), KBANK, baddr (mwst s) b) A)"
proof -
  have "[b] = dque s @ [b]" "distinct [b]" "d \<in> set [b] \<Longrightarrow> able F s d" for d using s(3) b by (auto simp: able_def)
  from strat_runs [OF s(1,2) this r] b(2) show ?thesis by (auto simp: request_at_def used_bank_def Let_def odd_write_def base_def)
qed

section \<open>A diskette\<close>

text \<open>
  A double sided diskette with sectors of 1024 bytes in a controller that does what it is told, and three buffers: block 3 is to be written, block 3 to be read into another place, and 4096 bytes are to be written
  from block 5 on.
\<close>

type_synonym floppy = "bool \<times> (u8 \<times> u8 \<times> u8 \<Rightarrow> u16 \<Rightarrow> u8)"

definition obey :: "(nat \<Rightarrow> u8) \<Rightarrow> (u8 \<Rightarrow> u16 \<Rightarrow> u8) \<Rightarrow> floppy \<Rightarrow> (nat \<Rightarrow> u8) \<times> (u8 \<Rightarrow> u16 \<Rightarrow> u8) \<times> floppy" where
  "obey c m h =
     (let p = (c 7, c 5, c 6); S = snd h in
      if \<not> fst h then (c(12 := OKSTAT), m, (True, S))
      else if c 4 = SREAD then (c(8 := OKSTAT, 10 := OKSTAT), rd_mem (c 3) (caddr c) 1024 (S p) m, (False, S))
      else (c(8 := OKSTAT, 10 := OKSTAT), m, (False, S(p := wr_sec (c 3) (caddr c) 1024 m (S p)))))"

definition morrow :: "floppy diskette" where
  "morrow = \<lparr>k_dev = 0x0204, k_spec = 24, k_org = True, k_ready = fst, k_surf = snd\<rparr>"

definition dj_ks :: kst where
  "dj_ks = sample_kernel\<lparr>blist := (\<lambda>_. buf0)(0 := buf0\<lparr>b_flags := BBUSY, b_dev := 0x0204, b_blk := 3, b_count := 512\<rparr>,
     2 := buf0\<lparr>b_flags := BBUSY OR BREAD, b_dev := 0x0204, b_blk := 3, b_count := 512\<rparr>, 3 := buf0\<lparr>b_flags := BBUSY, b_dev := 0x0204, b_blk := 5, b_count := 4096\<rparr>)\<rparr>"

definition dj_st :: "nat list \<Rightarrow> (unit, floppy) dj" where
  "dj_st q = \<lparr>mwst = (disk_mw STOPPED)\<lparr>ks := dj_ks, baddr := (\<lambda>b. 0x8000 + 0x1000 * of_nat b), bxmem := (\<lambda>_. 0), busnext := None\<rparr>, djcomm = (\<lambda>_. 0), kw = False, haltstat = None, djtimer = 0,
     djtaken = False, kdev = 0xFFFF, ksec = 0xFFFF, dms = (\<lambda>_. \<lparr>d_specs = 24, d_flags = ISOPEN OR ORG1\<rparr>), curbuf = None, dque = q, inservice = False, jop = 0, jspb = 0, jaddr = 0,
     jxaddr = 0, jsec = 0, joff = 0, jblk = 0, jbps = 0, jcount = 0, jtogo = 0, jdev = 0, jd = 0, jsp = 0, sa = 0, ma = 0, mb = 0, running = False, cmem = (\<lambda>_ a. ucast a), kbufa = 0x4000,
     delaya = 0, djhw = (True, \<lambda>_ _. 0xE5), djctl = obey\<rparr>"

lemma obey_good: "djctl_good morrow obey"
  by (auto simp: djctl_good_def obey_def morrow_def iocmd_def fspecs_def fs_def Let_def)

lemma dj_st_base: "base morrow (dj_st q)"
  by (simp add: base_def dj_st_def morrow_def [symmetric] obey_good) (simp add: opened_def mybus_def disk_mw_def quiet_def kvalid_def swapok_def dks_def dj_ks_def disk_ks_def morrow_def tst_def)

lemma dj_st_asks: "b \<in> {0, 2, 3} \<Longrightarrow> asks morrow (dj_st q) b"
  by (auto simp: asks_def dj_st_def morrow_def dks_def dj_ks_def bflag_defs tst_def exists_blk_def fspecs_def fs_def placed_def inkbuf_def disk_mw_def word_less_nat_alt unat_sub_if' unat_word_ariths)

definition dj_abs :: amach where
  "dj_abs = (cmem (dj_st []), fblock morrow (snd (djhw (dj_st []))))"

lemma dj_st_rel: "rel morrow (dj_st q) dj_abs"
  by (simp add: rel_def dj_abs_def) (simp add: dj_st_def morrow_def)

theorem dj_implements_blocks_witness:
  "\<exists>s1 k s'. djstrat 2 (dj_st [0]) = Ret () s1 \<and> k \<le> 4 * length [0, 2 :: nat] \<and> djserves k s1 = Ret () s' \<and> base morrow s' \<and> \<not> inservice s' \<and> dque s' = [] \<and>
    rel morrow s' (fold areq (map (request_of (dj_st [0])) [0, 2]) dj_abs) \<and> (\<forall>b\<in>set [0, 2]. bdone (blist (dks s') b) \<and> \<not> berr (blist (dks s') b)) \<and>
    (\<forall>j. j \<notin> set [0, 2] \<longrightarrow> btm (blist (dks (dj_st [0])) j) (blist (dks s') j))"
proof (rule dj_implements_blocks)
  show "base morrow (dj_st [0])" by (rule dj_st_base)
  show "\<not> inservice (dj_st [0])" "[0, 2] = dque (dj_st [0]) @ [2]" by (simp_all add: dj_st_def)
  show "wants morrow (dj_st [0]) b" if "b \<in> set [0, 2]" for b using that dj_st_asks [of b "[0]"] by (auto simp: wants_def dj_st_def dks_def dj_ks_def)
  show "rel morrow (dj_st [0]) dj_abs" by (rule dj_st_rel)
qed simp

text \<open>The request to write 4096 bytes, with its memory in bank 1.\<close>

definition dj_bank1 :: "(unit, floppy) dj" where
  "dj_bank1 = (dj_st [])\<lparr>mwst := (mwst (dj_st []))\<lparr>bxmem := (\<lambda>_. 1)\<rparr>\<rparr>"

lemma dj_bank1_same:
  "base morrow dj_bank1" "asks_any morrow dj_bank1 3" "rel morrow dj_bank1 dj_abs" "dks dj_bank1 = dj_ks" "baddr (mwst dj_bank1) 3 = 0xB000"
proof -
  have d: "dks dj_bank1 = dks (dj_st [])" "baddr (mwst dj_bank1) = baddr (mwst (dj_st []))" by (simp_all add: dj_bank1_def dks_def)
  show "base morrow dj_bank1" using dj_st_base [of "[]"] by (simp add: base_def d) (simp add: dj_bank1_def opened_def mybus_def quiet_def kvalid_def)
  show "rel morrow dj_bank1 dj_abs" using dj_st_rel [of "[]"] by (simp add: rel_def dj_bank1_def inkbuf_def)
  have "asks morrow (dj_st []) 3" by (rule dj_st_asks) simp
  then show "asks_any morrow dj_bank1 3"
    by (simp add: asks_def asks_any_def d placed_def apart_def used_bank_def) (simp add: dj_bank1_def inkbuf_def morrow_def fspecs_def fs_def)
  show "dks dj_bank1 = dj_ks" "baddr (mwst dj_bank1) 3 = 0xB000" by (simp_all add: d) (simp_all add: dj_st_def dks_def)
qed

theorem dj_odd_write_cut_witness:
  "\<exists>s1 k s'. djstrat 3 dj_bank1 = Ret () s1 \<and> k \<le> 4 \<and> djserves k s1 = Ret () s' \<and> bdone (blist (dks s') 3) \<and> \<not> berr (blist (dks s') 3) \<and> bxmem (mwst dj_bank1) 3 = 1 \<and>
    b_count (blist (dks dj_bank1) 3) = 4096 \<and> rel morrow s' (areq (False, 5, KBANK, 0xB000) dj_abs)"
proof -
  have o: "odd_write morrow (blist (dks dj_bank1) 3)" by (simp add: dj_bank1_same(4) odd_write_def dj_ks_def morrow_def fspecs_def fs_def tst_def)
  have i: "\<not> inservice dj_bank1" "dque dj_bank1 = []" "bxmem (mwst dj_bank1) 3 = 1" "b_count (blist (dks dj_bank1) 3) = 4096" "b_blk (blist (dks dj_bank1) 3) = 5"
    by (simp_all add: dj_bank1_same(4)) (simp_all add: dj_bank1_def dj_st_def dj_ks_def)
  from dj_odd_write_cut [OF dj_bank1_same(1) i(1,2) dj_bank1_same(2) o dj_bank1_same(3)] show ?thesis unfolding i(5) dj_bank1_same(5) using i(3,4) by blast
qed

section \<open>A write protected diskette\<close>

text \<open>
  \<^verbatim>\<open>djopen\<close> for writing of a write protected diskette leaves the buffer with the status held: it fails without \<^verbatim>\<open>brelse\<close>, so each such open takes one buffer out of the cache for good.
\<close>

lemma djopen_keeps_buffer:
  assumes o: "\<not> djtaken s" "\<not> tst (d_flags (dms s (unat (dev AND 7)))) ISOPEN" and b: "onkd (bread 0 (dev OR GETSTAT)) s = Ret (Some b) s1" "bbusy (blist (dks s1) b)"
    and w: "tst (bdat b (dks s1) 13) S_WP" "mode \<noteq> 0"
  shows "\<exists>s'. djopen dev mode s = Ret () s' \<and> u_error (u (dks s')) = EIO \<and> bbusy (blist (dks s') b) \<and> b_dev (blist (dks s') b) = b_dev (blist (dks s1) b) OR DISCARD"
  using assms by (simp add: djopen_def djopen_end_def Let_def bdat_def upd_dks_def upd_dm_def djerror_def dks_def upd_buf_def set_error_def upd_u_def bbusy_def)

end
