(* ===== verification/Swap.thy ===== *)
theory Swap
  imports Space Serve
begin

text \<open>
  The transfer of a process between memory and swap space (\<^verbatim>\<open>swapio\<close> of \<^verbatim>\<open>swap.c\<close>). The strategy routine of the swap device is an argument \<open>sd\<close>: for a request of 4096 bytes
  it answers with an error number, the bytes read and the new disks, and like the other block drivers it is done when it returns. A segment holds bytes; the segment of the user structure (entry 16) holds that too, and
  \<open>lay\<close> is how the compiler lays it out in the bytes, and back. The headers \<^verbatim>\<open>lock\<close> and \<^verbatim>\<open>swab[i]\<close>, which are not in the table of buffers, have the numbers 1000 and \<open>1001 + i\<close>.
\<close>

abbreviation (input) swlock :: nat where "swlock \<equiv> 1000"
abbreviation (input) swab :: "nat \<Rightarrow> nat" where "swab i \<equiv> 1001 + i"

type_synonym layout = "(user \<Rightarrow> bytes \<Rightarrow> bytes) \<times> (bytes \<Rightarrow> user)"

definition user_at :: "u8 \<Rightarrow> kst \<Rightarrow> user" where
  "user_at seg s = (if seg = curuseg s then u s else usegs s seg)"

definition seg_image :: "layout \<Rightarrow> nat \<Rightarrow> u8 \<Rightarrow> kst \<Rightarrow> bytes" where
  "seg_image lay i seg s = (if i = 16 then fst lay (user_at seg s) (phys s seg) else phys s seg)"

definition put_image :: "layout \<Rightarrow> nat \<Rightarrow> u8 \<Rightarrow> bytes \<Rightarrow> kst \<Rightarrow> kst" where
  "put_image lay i seg b s =
     (let s1 = s\<lparr>phys := (phys s)(seg := b)\<rparr> in
      if i \<noteq> 16 then s1 else if seg = curuseg s then s1\<lparr>u := snd lay b\<rparr> else s1\<lparr>usegs := (usegs s1)(seg := snd lay b)\<rparr>)"

definition swheader :: "bool \<Rightarrow> u16 \<Rightarrow> u16 \<Rightarrow> buf \<Rightarrow> buf" where
  "swheader rd dev blk x = x\<lparr>b_flags := (b_flags x AND NOT (BREAD OR BDONE OR BSYNC OR BERROR)) OR ((if rd then BREAD else 0) OR (BLOCK OR BBUSY)),
     b_dev := dev, b_blk := blk, b_count := 4096, b_error := 0\<rparr>"

definition swstrat :: "layout \<Rightarrow> driver \<Rightarrow> bool \<Rightarrow> nat \<Rightarrow> u8 \<Rightarrow> kst \<Rightarrow> unit K" where
  "swstrat lay sd rd i seg s =
     (let b = swab i; x = blist s b; (e, d, dk) = sd rd (b_dev x) (b_blk x) (seg_image lay i seg s) (disk s);
          s1 = s\<lparr>disk := dk\<rparr>; s2 = (if rd then put_image lay i seg d s1 else s1);
          s3 = (if e \<noteq> 0 then upd_buf b (\<lambda>x. x\<lparr>b_flags := b_flags x OR BERROR, b_error := e\<rparr>) s2 else s2)
      in iodone b s3)"

fun swapio_start :: "layout \<Rightarrow> driver \<Rightarrow> bool \<Rightarrow> nat \<Rightarrow> nat list \<Rightarrow> u16 \<Rightarrow> kst \<Rightarrow> unit K" where
  "swapio_start lay sd rd p [] blk s = Ret () s"
| "swapio_start lay sd rd p (i # r) blk s =
     (let m = p_mem (plist s p) i in
      if m_per m \<noteq> FULL then swapio_start lay sd rd p r blk s
      else
        bnd (swstrat lay sd rd i (m_seg m) (upd_buf (swab i) (swheader rd (swapdev s) blk) s)) (\<lambda>_ s. swapio_start lay sd rd p r (blk + 8) s))"

fun swapio_wait :: "nat \<Rightarrow> nat list \<Rightarrow> bool \<Rightarrow> kst \<Rightarrow> bool K" where
  "swapio_wait p [] ok s = Ret ok s"
| "swapio_wait p (i # r) ok s =
     (if m_per (p_mem (plist s p) i) \<noteq> FULL then swapio_wait p r ok s
      else bnd (bwait (swab i) s) (\<lambda>_ s.
        if tst (b_flags (blist s (swab i))) BERROR
        then swapio_wait p r False (if b_error (blist s (swab i)) = ENXIO then pr ''Swap space full\<newline>'' [] s else s)
        else swapio_wait p r ok s))"

definition swapio :: "layout \<Rightarrow> driver \<Rightarrow> swapio" where
  "swapio lay sd rd p s =
     bnd (block swlock s) (\<lambda>_ s.
     bnd (swapio_start lay sd rd p [0..<17] (p_swap (plist s p)) s) (\<lambda>_ s.
     bnd (swapio_wait p [0..<17] True s) (\<lambda>ok s.
     bnd (brelse swlock s) (\<lambda>_ s.
     Ret ok (upd_proc p (\<lambda>q. q\<lparr>p_time := 0\<rparr>) s)))))"

section \<open>One segment\<close>

text \<open>What a transfer keeps of the state, apart from the memory, the disks and the headers.\<close>

definition swkeep :: "nat \<Rightarrow> kst \<Rightarrow> kst \<Rightarrow> bool" where
  "swkeep p s s' \<longleftrightarrow> swapdev s' = swapdev s \<and> curuseg s' = curuseg s \<and> u s' = u s \<and> swapmap s' = swapmap s \<and> p_mem (plist s' p) = p_mem (plist s p) \<and>
     p_swap (plist s' p) = p_swap (plist s p) \<and> p_nsegs (plist s' p) = p_nsegs (plist s p) \<and>
     tst (p_mode (plist s' p)) LOADED = tst (p_mode (plist s p)) LOADED \<and> tst (p_mode (plist s' p)) SWAPPED = tst (p_mode (plist s p)) SWAPPED"

lemma awk_swapped: "tst (p_mode (awk q)) SWAPPED = tst (p_mode q) SWAPPED"
  by (simp add: awk_def tst_def bit.conj_disj_distrib2)

lemma swkeep_refl [simp]: "swkeep p s s"
  by (simp add: swkeep_def)

lemma swkeep_trans: "swkeep p s s1 \<Longrightarrow> swkeep p s1 s2 \<Longrightarrow> swkeep p s s2"
  by (simp add: swkeep_def)

lemma bframe_swkeep:
  assumes "bframe s s'" "u s' = u s"
  shows "swkeep p s s'" "phys s' = phys s" "usegs s' = usegs s"
proof -
  from assms(1) obtain b1 c1 d1 p1 r1 o1 e1 where 1: "s' = s\<lparr>blist := b1, bclock := c1, disk := d1, plist := p1, resched := r1, cons := o1, u := (u s)\<lparr>u_error := e1\<rparr>\<rparr>"
    unfolding bframe_def by blast
  have "plist s' p = plist s p \<or> plist s' p = awk (plist s p)" using assms(1) by (simp add: bframe_def)
  then have "p_mem (plist s' p) = p_mem (plist s p) \<and> p_swap (plist s' p) = p_swap (plist s p) \<and> p_nsegs (plist s' p) = p_nsegs (plist s p) \<and>
    tst (p_mode (plist s' p)) LOADED = tst (p_mode (plist s p)) LOADED \<and> tst (p_mode (plist s' p)) SWAPPED = tst (p_mode (plist s p)) SWAPPED"
    using awk_simps(5) [of "plist s p"] awk_swapped [of "plist s p"] by (elim disjE) (simp_all add: awk_def)
  moreover have "swapdev s' = swapdev s \<and> curuseg s' = curuseg s \<and> swapmap s' = swapmap s" unfolding 1 by simp
  ultimately show "swkeep p s s'" using assms(2) by (simp add: swkeep_def)
  show "phys s' = phys s" "usegs s' = usegs s" unfolding 1 by simp_all
qed

lemma swiodone:
  assumes "swapok s" "bbusy (blist s b)" "\<not> berr (blist s b)" "\<not> tst (b_flags (blist s b)) BSYNC"
  obtains s' where "iodone b s = Ret () s'" "bframe s s'" "disk s' = disk s" "u s' = u s" "bdone (blist s' b)" "\<not> berr (blist s' b)"
    "\<And>j. j \<noteq> b \<Longrightarrow> btm (blist s j) (blist s' j)"
proof -
  define s1 where "s1 = upd_buf b (\<lambda>x. x\<lparr>b_flags := (b_flags x OR BDONE) AND NOT BDELWRI\<rparr>) s"
  have s1: "swapok s1" "bbusy (blist s1 b)" "\<not> berr (blist s1 b)" "bdone (blist s1 b)" "\<And>j. j \<noteq> b \<Longrightarrow> blist s1 j = blist s j" "bframe s s1" "disk s1 = disk s" "u s1 = u s"
    "\<not> tst (b_flags (blist s1 b)) BSYNC"
    using assms by (simp_all add: s1_def bflag_defs bframe_def upd_buf_def swapok_def)
  have io: "iodone b s = brelse b s1" using s1(3,9) unfolding iodone_def s1_def [symmetric] by (simp add: Let_def berr_def)
  obtain s' where r: "brelse b s1 = Ret () s'" "bframe s1 s'" "disk s' = disk s1" "u s' = u s1" "\<And>j. j \<noteq> b \<Longrightarrow> btm (blist s1 j) (blist s' j)"
    "btm ((blist s1 b)\<lparr>b_flags := b_flags (blist s1 b) AND NOT (BBUSY OR BWANT)\<rparr>) (blist s' b)" by (rule brelse_ret [OF s1(1,2)]) blast
  have "bdone (blist s' b)" "\<not> berr (blist s' b)" using s1(3,4) unfolding btm_fields [OF r(6)] by (simp_all add: bflag_defs)
  then show thesis using that [of s'] io r(1,3-5) s1(5,7,8) bframe_trans [OF s1(6) r(2)] by simp
qed

text \<open>The contract of the swap device: it stores and returns eight blocks.\<close>

definition put8 :: "u16 \<Rightarrow> bytes \<Rightarrow> (u16 \<Rightarrow> bytes) \<Rightarrow> u16 \<Rightarrow> bytes" where
  "put8 blk b D k = (if k - blk < 8 then (\<lambda>i. if i < 512 then b (512 * unat (k - blk) + i) else D k i) else D k)"

definition swdrv_ok :: "driver \<Rightarrow> u16 \<Rightarrow> bool" where
  "swdrv_ok sd dev \<longleftrightarrow> (\<forall>blk b d. (\<exists>b'. sd False dev blk b d = (0, b', d(dev := put8 blk b (d dev)))) \<and>
     (\<exists>b'. sd True dev blk b d = (0, b', d) \<and> (\<forall>i < 4096. b' i = d dev (blk + of_nat (i div 512)) (i mod 512))))"

text \<open>The bytes of its segment determine the user structure.\<close>

definition lay_fits :: "layout \<Rightarrow> user \<Rightarrow> bool" where
  "lay_fits lay x \<longleftrightarrow> (\<forall>f g. (\<forall>i < 4096. g i = fst lay x f i) \<longrightarrow> snd lay g = x)"

lemma swheader_flags:
  "bbusy (swheader rd dev blk x)" "\<not> berr (swheader rd dev blk x)" "\<not> tst (b_flags (swheader rd dev blk x)) BSYNC" "b_dev (swheader rd dev blk x) = dev" "b_blk (swheader rd dev blk x) = blk"
  by (simp_all add: swheader_def bflag_defs tst_def bit.conj_disj_distrib2 and.assoc)

lemma sw_write1:
  assumes w: "swapok s" "swdrv_ok sd (swapdev s)"
  obtains s' where "swstrat lay sd False i seg (upd_buf (swab i) (swheader False (swapdev s) blk) s) = Ret () s'" "swkeep p s s'" "swapok s'" "phys s' = phys s" "usegs s' = usegs s"
    "disk s' = (disk s)(swapdev s := put8 blk (seg_image lay i seg s) (disk s (swapdev s)))" "bdone (blist s' (swab i))" "\<not> berr (blist s' (swab i))"
    "\<And>j. j \<noteq> swab i \<Longrightarrow> btm (blist s j) (blist s' j)"
proof -
  let ?b = "swab i" and ?im = "seg_image lay i seg s"
  define s1 where "s1 = upd_buf ?b (swheader False (swapdev s) blk) s"
  define s2 where "s2 = s1\<lparr>disk := (disk s)(swapdev s := put8 blk ?im (disk s (swapdev s)))\<rparr>"
  have b1: "blist s1 ?b = swheader False (swapdev s) blk (blist s ?b)" "disk s1 = disk s" "seg_image lay i seg s1 = ?im" by (simp_all add: s1_def upd_buf_def seg_image_def user_at_def)
  obtain b' where "sd False (swapdev s) blk ?im (disk s) = (0, b', (disk s)(swapdev s := put8 blk ?im (disk s (swapdev s))))" using w(2) unfolding swdrv_ok_def by blast
  then have st: "swstrat lay sd False i seg s1 = iodone ?b s2" by (simp add: swstrat_def b1 swheader_flags(4,5) s2_def)
  have "swapok s2" "bbusy (blist s2 ?b)" "\<not> berr (blist s2 ?b)" "\<not> tst (b_flags (blist s2 ?b)) BSYNC"
    using w(1) swheader_flags(1-3) [of False "swapdev s" blk "blist s ?b"] by (simp_all add: s2_def b1 swapok_def) (simp add: s1_def upd_buf_def)
  then obtain s' where s': "iodone ?b s2 = Ret () s'" "bframe s2 s'" "disk s' = disk s2" "u s' = u s2" "bdone (blist s' ?b)" "\<not> berr (blist s' ?b)" "\<And>j. j \<noteq> ?b \<Longrightarrow> btm (blist s2 j) (blist s' j)"
    by (rule swiodone) blast
  note k = bframe_swkeep(1) [OF s'(2,4), of p] bframe_swkeep(2,3) [OF s'(2,4)]
  have "swkeep p s s2" "phys s2 = phys s" "usegs s2 = usegs s" "swapok s2 = swapok s" "\<And>j. j \<noteq> ?b \<Longrightarrow> blist s2 j = blist s j"
    by (simp_all add: s2_def s1_def swkeep_def upd_buf_def swapok_def)
  then show thesis using that [of s'] st s'(1,3,5-7) k swkeep_trans bframe_swapok [OF s'(2)] w(1) unfolding s1_def by (simp add: s2_def)
qed

lemma sw_read1:
  assumes w: "swapok s" "swdrv_ok sd (swapdev s)" "i = 16 \<Longrightarrow> seg \<noteq> curuseg s"
  obtains d s' where "swstrat lay sd True i seg (upd_buf (swab i) (swheader True (swapdev s) blk) s) = Ret () s'" "swkeep p s s'" "swapok s'" "phys s' = (phys s)(seg := d)"
    "usegs s' = (if i = 16 then (usegs s)(seg := snd lay d) else usegs s)" "\<And>j. j < 4096 \<Longrightarrow> d j = disk s (swapdev s) (blk + of_nat (j div 512)) (j mod 512)"
    "disk s' = disk s" "bdone (blist s' (swab i))" "\<not> berr (blist s' (swab i))" "\<And>j. j \<noteq> swab i \<Longrightarrow> btm (blist s j) (blist s' j)"
proof -
  let ?b = "swab i" and ?im = "seg_image lay i seg s"
  define s1 where "s1 = upd_buf ?b (swheader True (swapdev s) blk) s"
  obtain d where d: "sd True (swapdev s) blk ?im (disk s) = (0, d, disk s)" "\<forall>j < 4096. d j = disk s (swapdev s) (blk + of_nat (j div 512)) (j mod 512)"
    using w(2) unfolding swdrv_ok_def by blast
  define s2 where "s2 = put_image lay i seg d s1"
  have b1: "blist s1 ?b = swheader True (swapdev s) blk (blist s ?b)" "disk s1 = disk s" "seg_image lay i seg s1 = ?im" "curuseg s1 = curuseg s"
    by (simp_all add: s1_def upd_buf_def seg_image_def user_at_def)
  have st: "swstrat lay sd True i seg s1 = iodone ?b s2" using d(1) by (simp add: swstrat_def b1 swheader_flags(4,5) s2_def flip: b1(2))
  have s2: "blist s2 = blist s1" "disk s2 = disk s" "phys s2 = (phys s)(seg := d)" "usegs s2 = (if i = 16 then (usegs s)(seg := snd lay d) else usegs s)" "swkeep p s s2" "swapok s2"
    "\<And>j. j \<noteq> ?b \<Longrightarrow> blist s2 j = blist s j"
    using w(1,3) by (auto simp: s2_def put_image_def Let_def b1 swkeep_def swapok_def) (auto simp: s1_def upd_buf_def)
  have "bbusy (blist s2 ?b)" "\<not> berr (blist s2 ?b)" "\<not> tst (b_flags (blist s2 ?b)) BSYNC"
    using swheader_flags(1-3) [of True "swapdev s" blk "blist s ?b"] by (simp_all add: s2(1) b1)
  with s2(6) obtain s' where s': "iodone ?b s2 = Ret () s'" "bframe s2 s'" "disk s' = disk s2" "u s' = u s2" "bdone (blist s' ?b)" "\<not> berr (blist s' ?b)" "\<And>j. j \<noteq> ?b \<Longrightarrow> btm (blist s2 j) (blist s' j)"
    by (rule swiodone) blast
  note k = bframe_swkeep(1) [OF s'(2,4), of p] bframe_swkeep(2,3) [OF s'(2,4)]
  show thesis
    using that [of s' d] st s'(1,3,5-7) s2 k d(2) swkeep_trans bframe_swapok [OF s'(2)] unfolding s1_def by simp
qed

section \<open>All segments\<close>

definition full :: "nat \<Rightarrow> kst \<Rightarrow> nat list \<Rightarrow> nat list" where
  "full p s is' = filter (\<lambda>i. m_per (p_mem (plist s p) i) = FULL) is'"

primrec put_all :: "u16 \<Rightarrow> nat list \<Rightarrow> (nat \<Rightarrow> bytes) \<Rightarrow> (u16 \<Rightarrow> bytes) \<Rightarrow> u16 \<Rightarrow> bytes" where
  "put_all blk [] im D = D"
| "put_all blk (i # r) im D = put_all (blk + 8) r im (put8 blk (im i) D)"

abbreviation seg_of :: "nat \<Rightarrow> kst \<Rightarrow> nat \<Rightarrow> u8" where
  "seg_of p s i \<equiv> m_seg (p_mem (plist s p) i)"

lemma sw_writes:
  assumes "swapok s" "swdrv_ok sd (swapdev s)" "distinct js"
  shows "\<exists>s'. swapio_start lay sd False p js blk s = Ret () s' \<and> swkeep p s s' \<and> swapok s' \<and> phys s' = phys s \<and> usegs s' = usegs s \<and>
    disk s' = (disk s)(swapdev s := put_all blk (full p s js) (\<lambda>i. seg_image lay i (seg_of p s i) s) (disk s (swapdev s))) \<and>
    (\<forall>i \<in> set (full p s js). bdone (blist s' (swab i)) \<and> \<not> berr (blist s' (swab i))) \<and> (\<forall>j. j \<notin> swab ` set (full p s js) \<longrightarrow> btm (blist s j) (blist s' j))"
  using assms
proof (induction js arbitrary: s blk)
  case (Cons i r)
  show ?case
  proof (cases "m_per (p_mem (plist s p) i) = FULL")
    case False
    then show ?thesis using Cons.IH [OF Cons.prems(1,2)] Cons.prems(3) by (simp add: full_def)
  next
    case True
    obtain s1 where 1: "swstrat lay sd False i (seg_of p s i) (upd_buf (swab i) (swheader False (swapdev s) blk) s) = Ret () s1" "swkeep p s s1" "swapok s1" "phys s1 = phys s" "usegs s1 = usegs s"
      "disk s1 = (disk s)(swapdev s := put8 blk (seg_image lay i (seg_of p s i) s) (disk s (swapdev s)))" "bdone (blist s1 (swab i))" "\<not> berr (blist s1 (swab i))"
      "\<And>j. j \<noteq> swab i \<Longrightarrow> btm (blist s j) (blist s1 j)" by (rule sw_write1 [OF Cons.prems(1,2)]) blast
    have k: "swapdev s1 = swapdev s" "curuseg s1 = curuseg s" "u s1 = u s" "p_mem (plist s1 p) = p_mem (plist s p)" using 1(2) by (simp_all add: swkeep_def)
    have e: "full p s1 r = full p s r" "seg_image lay j (seg_of p s1 j) s1 = seg_image lay j (seg_of p s j) s" for j
      using k 1(4,5) by (simp_all add: full_def seg_image_def user_at_def)
    have "distinct r" "swdrv_ok sd (swapdev s1)" using Cons.prems(2,3) k by simp_all
    from Cons.IH [OF 1(3) this(2,1), of "blk + 8"] obtain s2 where 2: "swapio_start lay sd False p r (blk + 8) s1 = Ret () s2" "swkeep p s1 s2" "swapok s2" "phys s2 = phys s" "usegs s2 = usegs s"
      "disk s2 = (disk s)(swapdev s := put_all (blk + 8) (full p s r) (\<lambda>i. seg_image lay i (seg_of p s i) s) (put8 blk (seg_image lay i (seg_of p s i) s) (disk s (swapdev s))))"
      "\<forall>i \<in> set (full p s r). bdone (blist s2 (swab i)) \<and> \<not> berr (blist s2 (swab i))" "\<forall>j. j \<notin> swab ` set (full p s r) \<longrightarrow> btm (blist s1 j) (blist s2 j)"
      unfolding e k(1) 1(4-6) fun_upd_upd fun_upd_same by blast
    have f: "full p s (i # r) = i # full p s r" using True by (simp add: full_def)
    have "swab i \<notin> swab ` set (full p s r)" using Cons.prems(3) by (auto simp: full_def)
    then have "bdone (blist s2 (swab i)) \<and> \<not> berr (blist s2 (swab i))" using 2(8) 1(7,8) btm_fields [of "blist s1 (swab i)" "blist s2 (swab i)"] by simp
    moreover have "btm (blist s j) (blist s2 j)" if "j \<notin> swab ` set (i # full p s r)" for j using 1(9) [of j] 2(8) that btm_trans by auto
    ultimately show ?thesis using True 1(1) 2(1,3-7) swkeep_trans [OF 1(2) 2(2)] unfolding f by (intro exI [of _ s2]) simp
  qed
qed (simp add: full_def)

text \<open>The segments \<open>fl\<close> of a process hold what the blocks from \<open>blk\<close> on hold.\<close>

definition holds_seg :: "layout \<Rightarrow> (u16 \<Rightarrow> bytes) \<Rightarrow> u16 \<Rightarrow> (nat \<Rightarrow> u8) \<Rightarrow> kst \<Rightarrow> nat \<Rightarrow> bool" where
  "holds_seg lay D blk seg s i \<longleftrightarrow> (\<forall>j < 4096. phys s (seg i) j = D (blk + of_nat (j div 512)) (j mod 512)) \<and> (i = 16 \<longrightarrow> usegs s (seg i) = snd lay (phys s (seg i)))"

lemma sw_reads:
  assumes "swapok s" "swdrv_ok sd (swapdev s)" "distinct js" "inj_on (seg_of p s) (set (full p s js))" "16 \<in> set (full p s js) \<Longrightarrow> seg_of p s 16 \<noteq> curuseg s"
  shows "\<exists>s'. swapio_start lay sd True p js blk s = Ret () s' \<and> swkeep p s s' \<and> swapok s' \<and> disk s' = disk s \<and>
    (\<forall>k < length (full p s js). holds_seg lay (disk s (swapdev s)) (blk + of_nat (8 * k)) (seg_of p s) s' (full p s js ! k)) \<and>
    (\<forall>g. g \<notin> seg_of p s ` set (full p s js) \<longrightarrow> phys s' g = phys s g \<and> usegs s' g = usegs s g) \<and>
    (\<forall>i \<in> set (full p s js). bdone (blist s' (swab i)) \<and> \<not> berr (blist s' (swab i))) \<and> (\<forall>j. j \<notin> swab ` set (full p s js) \<longrightarrow> btm (blist s j) (blist s' j))"
  using assms
proof (induction js arbitrary: s blk)
  case (Cons i r)
  show ?case
  proof (cases "m_per (p_mem (plist s p) i) = FULL")
    case False
    then have "full p s (i # r) = full p s r" by (simp add: full_def)
    then show ?thesis using Cons.IH [OF Cons.prems(1,2)] Cons.prems(3-5) False by simp
  next
    case True
    then have f: "full p s (i # r) = i # full p s r" by (simp add: full_def)
    have "i = 16 \<Longrightarrow> seg_of p s i \<noteq> curuseg s" using Cons.prems(5) f by auto
    then obtain d s1 where 1: "swstrat lay sd True i (seg_of p s i) (upd_buf (swab i) (swheader True (swapdev s) blk) s) = Ret () s1" "swkeep p s s1" "swapok s1" "phys s1 = (phys s)(seg_of p s i := d)"
      "usegs s1 = (if i = 16 then (usegs s)(seg_of p s i := snd lay d) else usegs s)" "\<And>j. j < 4096 \<Longrightarrow> d j = disk s (swapdev s) (blk + of_nat (j div 512)) (j mod 512)"
      "disk s1 = disk s" "bdone (blist s1 (swab i))" "\<not> berr (blist s1 (swab i))" "\<And>j. j \<noteq> swab i \<Longrightarrow> btm (blist s j) (blist s1 j)"
      by (rule sw_read1 [OF Cons.prems(1,2), where lay = lay and p = p and blk = blk]) blast+
    have k: "swapdev s1 = swapdev s" "curuseg s1 = curuseg s" "p_mem (plist s1 p) = p_mem (plist s p)" "full p s1 r = full p s r" using 1(2) by (simp_all add: swkeep_def full_def)
    have n: "seg_of p s i \<notin> seg_of p s ` set (full p s r)" "swab i \<notin> swab ` set (full p s r)" using Cons.prems(3,4) f by (auto simp: full_def)
    have "swdrv_ok sd (swapdev s1)" "distinct r" "inj_on (seg_of p s1) (set (full p s1 r))" "16 \<in> set (full p s1 r) \<Longrightarrow> seg_of p s1 16 \<noteq> curuseg s1"
      using Cons.prems(2-5) f by (simp_all add: k)
    from Cons.IH [OF 1(3) this, of "blk + 8"] obtain s2 where 2: "swapio_start lay sd True p r (blk + 8) s1 = Ret () s2" "swkeep p s1 s2" "swapok s2" "disk s2 = disk s"
      "\<forall>k < length (full p s r). holds_seg lay (disk s (swapdev s)) (blk + 8 + of_nat (8 * k)) (seg_of p s) s2 (full p s r ! k)"
      "\<forall>g. g \<notin> seg_of p s ` set (full p s r) \<longrightarrow> phys s2 g = phys s1 g \<and> usegs s2 g = usegs s1 g"
      "\<forall>i \<in> set (full p s r). bdone (blist s2 (swab i)) \<and> \<not> berr (blist s2 (swab i))" "\<forall>j. j \<notin> swab ` set (full p s r) \<longrightarrow> btm (blist s1 j) (blist s2 j)"
      unfolding k 1(7) by blast
    have "phys s2 (seg_of p s i) = phys s1 (seg_of p s i)" "usegs s2 (seg_of p s i) = usegs s1 (seg_of p s i)" using 2(6) n(1) by blast+
    then have "holds_seg lay (disk s (swapdev s)) blk (seg_of p s) s2 i" using 1(6) by (auto simp: holds_seg_def 1(4,5))
    then have h: "\<forall>k < length (i # full p s r). holds_seg lay (disk s (swapdev s)) (blk + of_nat (8 * k)) (seg_of p s) s2 ((i # full p s r) ! k)"
      using 2(5) by (auto simp: nth_Cons add.assoc split: nat.split)
    have o: "\<forall>g. g \<notin> seg_of p s ` set (i # full p s r) \<longrightarrow> phys s2 g = phys s g \<and> usegs s2 g = usegs s g" using 2(6) by (auto simp: 1(4,5))
    have "bdone (blist s2 (swab i)) \<and> \<not> berr (blist s2 (swab i))" using 2(8) n(2) 1(8,9) btm_fields [of "blist s1 (swab i)" "blist s2 (swab i)"] by simp
    moreover have "btm (blist s j) (blist s2 j)" if "j \<notin> swab ` set (i # full p s r)" for j using 1(10) [of j] 2(8) that btm_trans by auto
    ultimately show ?thesis using True 1(1) 2(1,3,4,7) swkeep_trans [OF 1(2) 2(2)] h o unfolding f by (intro exI [of _ s2]) simp
  qed
qed (simp add: full_def)

lemma put_all_other: "(\<And>m. m < 8 * length fl \<Longrightarrow> k \<noteq> blk + of_nat m) \<Longrightarrow> put_all blk fl im D k = D k"
proof (induction fl arbitrary: blk D)
  case (Cons i r)
  have "k \<noteq> blk + 8 + of_nat m" if "m < 8 * length r" for m using Cons.prems [of "8 + m"] that by (simp add: add.assoc)
  moreover have "\<not> k - blk < 8"
  proof
    assume "k - blk < 8"
    then have "unat (k - blk) < 8 * length (i # r)" by (simp add: word_less_nat_alt)
    from Cons.prems [OF this] show False by simp
  qed
  ultimately show ?case using Cons.IH by (simp add: put8_def)
qed simp

lemma put_all_at:
  assumes "m < 8 * length fl" "8 * length fl \<le> 65536" "j < 512"
  shows "put_all blk fl im D (blk + of_nat m) j = im (fl ! (m div 8)) (512 * (m mod 8) + j)"
  using assms
proof (induction fl arbitrary: blk D m)
  case (Cons i r)
  show ?case
  proof (cases "m < 8")
    case True
    have "blk + of_nat m \<noteq> blk + 8 + of_nat n" if "n < 8 * length r" for n
    proof -
      have "unat (of_nat m :: u16) = m" "unat (8 + of_nat n :: u16) = 8 + n" using True that Cons.prems(2) by (simp_all add: unat_word_ariths unat_of_nat)
      then have "of_nat m \<noteq> (8 + of_nat n :: u16)" using True by (metis not_add_less1)
      then show ?thesis unfolding add.assoc by simp
    qed
    then have "put_all blk (i # r) im D (blk + of_nat m) = put8 blk (im i) D (blk + of_nat m)" by (simp add: put_all_other)
    then show ?thesis using True Cons.prems(3) by (simp add: put8_def word_less_nat_alt unat_of_nat)
  next
    case False
    define n where "n = m - 8"
    have m: "m = 8 + n" using False by (simp add: n_def)
    then have "n < 8 * length r" "8 * length r \<le> 65536" using Cons.prems by simp_all
    moreover have "(8 + n) div 8 = Suc (n div 8)" by simp
    ultimately show ?thesis using Cons.IH [OF _ _ Cons.prems(3), of n "blk + 8"] by (simp add: m add.assoc)
  qed
qed simp

section \<open>Swapping out and in\<close>

lemma sw_waits: "(\<And>i. i \<in> set (full p s js) \<Longrightarrow> bdone (blist s (swab i)) \<and> \<not> berr (blist s (swab i))) \<Longrightarrow> swapio_wait p js ok s = Ret ok s"
  by (induction js) (auto simp: full_def bwait_def bdone_def berr_def)

lemma lock_passes: "\<not> bbusy (blist s b) \<Longrightarrow> block b s = Ret () (upd_buf b (\<lambda>x. x\<lparr>b_flags := b_flags x OR BBUSY\<rparr>) s)"
  by (simp add: block_def bbusy_def)

text \<open>The end of \<^verbatim>\<open>swapio\<close>, after the transfers: the lock is released.\<close>

lemma swapio_end:
  assumes s: "swapok s" "bbusy (blist s swlock)"
  obtains s' where "bnd (brelse swlock s) (\<lambda>_ s. Ret ok (upd_proc p (\<lambda>q. q\<lparr>p_time := 0\<rparr>) s)) = Ret ok s'" "swkeep p s s'" "swapok s'" "phys s' = phys s" "usegs s' = usegs s" "disk s' = disk s"
proof -
  obtain s1 where r: "brelse swlock s = Ret () s1" "bframe s s1" "disk s1 = disk s" "u s1 = u s" by (rule brelse_ret [OF s]) blast
  define s' where "s' = upd_proc p (\<lambda>q. q\<lparr>p_time := 0\<rparr>) s1"
  have "swkeep p s1 s'" "swapok s' = swapok s1" "phys s' = phys s1" "usegs s' = usegs s1" "disk s' = disk s1" by (simp_all add: s'_def upd_proc_def swkeep_def swapok_def)
  then show thesis using that [of s'] r bframe_swkeep(1) [OF r(2,4), of p] bframe_swkeep(2,3) [OF r(2,4)] bframe_swapok [OF r(2)] s(1) swkeep_trans by (simp add: s'_def)
qed

lemma swapio_split:
  assumes l: "\<not> bbusy (blist s swlock)" and st: "swapio_start lay sd rd p [0..<17] (p_swap (plist s p)) (upd_buf swlock (\<lambda>x. x\<lparr>b_flags := b_flags x OR BBUSY\<rparr>) s) = Ret () s1" "swapok s1" "swkeep p s s1"
    and d: "\<forall>i \<in> set (full p s [0..<17]). bdone (blist s1 (swab i)) \<and> \<not> berr (blist s1 (swab i))" and b: "bbusy (blist s1 swlock)"
  obtains s' where "swapio lay sd rd p s = Ret True s'" "swkeep p s s'" "swapok s'" "phys s' = phys s1" "usegs s' = usegs s1" "disk s' = disk s1"
proof -
  obtain s' where e: "bnd (brelse swlock s1) (\<lambda>_ s. Ret True (upd_proc p (\<lambda>q. q\<lparr>p_time := 0\<rparr>) s)) = Ret True s'" "swkeep p s1 s'" "swapok s'" "phys s' = phys s1" "usegs s' = usegs s1" "disk s' = disk s1"
    by (rule swapio_end [OF st(2) b, where ok = True and p = p]) blast
  have "full p s1 [0..<17] = full p s [0..<17]" using st(3) by (simp add: full_def swkeep_def)
  then have w: "swapio_wait p [0..<17] True s1 = Ret True s1" using d by (intro sw_waits) simp
  have p: "plist (upd_buf swlock f s) = plist s" for f by (simp add: upd_buf_def)
  have "swapio lay sd rd p s = Ret True s'" unfolding swapio_def lock_passes [OF l] using st(1) w e(1) by (simp add: p)
  then show thesis using that [of s'] e swkeep_trans [OF st(3) e(2)] by blast
qed

lemma lock_keep:
  fixes s :: kst and p :: nat
  defines "s0 \<equiv> upd_buf swlock (\<lambda>x. x\<lparr>b_flags := b_flags x OR BBUSY\<rparr>) s"
  shows "swapok s0 = swapok s" "swapdev s0 = swapdev s" "disk s0 = disk s" "phys s0 = phys s" "usegs s0 = usegs s" "plist s0 = plist s" "curuseg s0 = curuseg s" "u s0 = u s" "swkeep p s s0"
    "bbusy (blist s0 swlock)"
  by (simp_all add: s0_def upd_buf_def swapok_def swkeep_def bbusy_def)

lemma lock_images:
  "full p (upd_buf b f s) js = full p s js" "seg_image lay i g (upd_buf b f s) = seg_image lay i g s"
  by (simp_all add: upd_buf_def full_def seg_image_def user_at_def)

lemma swlock_apart: "swlock \<notin> swab ` A"
  by auto

lemma swapio_write:
  assumes s: "swapok s" "swdrv_ok sd (swapdev s)" "\<not> bbusy (blist s swlock)"
  obtains s' where "swapio lay sd False p s = Ret True s'" "swkeep p s s'" "swapok s'" "phys s' = phys s" "usegs s' = usegs s"
    "disk s' = (disk s)(swapdev s := put_all (p_swap (plist s p)) (full p s [0..<17]) (\<lambda>i. seg_image lay i (seg_of p s i) s) (disk s (swapdev s)))"
proof -
  let ?s0 = "upd_buf swlock (\<lambda>x. x\<lparr>b_flags := b_flags x OR BBUSY\<rparr>) s"
  note k = lock_keep(1-8,10) [where s = s] lock_keep(9) [where s = s and p = p]
  have "swapok ?s0" "swdrv_ok sd (swapdev ?s0)" "distinct [0..<17]" using s(1,2) k(1,2) by (simp_all only: distinct_upt)
  from sw_writes [OF this, of lay p "p_swap (plist s p)"] obtain s1 where 1: "swapio_start lay sd False p [0..<17] (p_swap (plist s p)) ?s0 = Ret () s1" "swkeep p ?s0 s1" "swapok s1" "phys s1 = phys s" "usegs s1 = usegs s"
    "disk s1 = (disk s)(swapdev s := put_all (p_swap (plist s p)) (full p s [0..<17]) (\<lambda>i. seg_image lay i (seg_of p s i) s) (disk s (swapdev s)))"
    "\<forall>i \<in> set (full p s [0..<17]). bdone (blist s1 (swab i)) \<and> \<not> berr (blist s1 (swab i))" "\<forall>j. j \<notin> swab ` set (full p s [0..<17]) \<longrightarrow> btm (blist ?s0 j) (blist s1 j)"
    unfolding k(2-8) lock_images by blast
  have "bbusy (blist s1 swlock)" using 1(8) swlock_apart k(9) btm_fields(9) by blast
  with swkeep_trans [OF k(10) 1(2)] show thesis using swapio_split [OF s(3) 1(1,3) _ 1(7)] that 1(4-6) by metis
qed

lemma swapio_read:
  assumes s: "swapok s" "swdrv_ok sd (swapdev s)" "\<not> bbusy (blist s swlock)" and g: "inj_on (seg_of p s) (set (full p s [0..<17]))" "16 \<in> set (full p s [0..<17]) \<Longrightarrow> seg_of p s 16 \<noteq> curuseg s"
  obtains s' where "swapio lay sd True p s = Ret True s'" "swkeep p s s'" "swapok s'" "disk s' = disk s"
    "\<forall>k < length (full p s [0..<17]). holds_seg lay (disk s (swapdev s)) (p_swap (plist s p) + of_nat (8 * k)) (seg_of p s) s' (full p s [0..<17] ! k)"
    "\<forall>g. g \<notin> seg_of p s ` set (full p s [0..<17]) \<longrightarrow> phys s' g = phys s g \<and> usegs s' g = usegs s g"
proof -
  let ?s0 = "upd_buf swlock (\<lambda>x. x\<lparr>b_flags := b_flags x OR BBUSY\<rparr>) s"
  note k = lock_keep(1-8,10) [where s = s] lock_keep(9) [where s = s and p = p]
  have "swapok ?s0" "swdrv_ok sd (swapdev ?s0)" "distinct [0..<17]" using s(1,2) k(1,2) by (simp_all only: distinct_upt)
  from sw_reads [OF this, of p lay "p_swap (plist s p)"] g obtain s1 where 1: "swapio_start lay sd True p [0..<17] (p_swap (plist s p)) ?s0 = Ret () s1" "swkeep p ?s0 s1" "swapok s1" "disk s1 = disk s"
    "\<forall>k < length (full p s [0..<17]). holds_seg lay (disk s (swapdev s)) (p_swap (plist s p) + of_nat (8 * k)) (seg_of p s) s1 (full p s [0..<17] ! k)"
    "\<forall>g. g \<notin> seg_of p s ` set (full p s [0..<17]) \<longrightarrow> phys s1 g = phys s g \<and> usegs s1 g = usegs s g"
    "\<forall>i \<in> set (full p s [0..<17]). bdone (blist s1 (swab i)) \<and> \<not> berr (blist s1 (swab i))" "\<forall>j. j \<notin> swab ` set (full p s [0..<17]) \<longrightarrow> btm (blist ?s0 j) (blist s1 j)"
    unfolding k(2-8) lock_images by blast
  have "bbusy (blist s1 swlock)" using 1(8) swlock_apart k(9) btm_fields(9) by blast
  with swkeep_trans [OF k(10) 1(2)] obtain s' where s': "swapio lay sd True p s = Ret True s'" "swkeep p s s'" "swapok s'" "phys s' = phys s1" "usegs s' = usegs s1" "disk s' = disk s1"
    using swapio_split [OF s(3) 1(1,3) _ 1(7)] by metis
  have "holds_seg lay D b f s' i = holds_seg lay D b f s1 i" for D b f i by (simp add: holds_seg_def s'(4,5))
  then show thesis using that [of s'] s' 1(4-6) by simp
qed

section \<open>The round trip\<close>

text \<open>The swap space of a process, and what it holds once the process is out.\<close>

definition swarea :: "nat \<Rightarrow> kst \<Rightarrow> u16 \<times> u16" where
  "swarea p s = (push_bit 3 (ucast (p_nsegs (plist s p))), p_swap (plist s p))"

definition nsegs_ok :: "nat \<Rightarrow> kst \<Rightarrow> bool" where
  "nsegs_ok p s \<longleftrightarrow> length (full p s [0..<17]) \<le> unat (p_nsegs (plist s p)) \<and> p_nsegs (plist s p) \<noteq> 0"

text \<open>A later state in which the process may be read back: it has memory of the same shape, its blocks are untouched, nobody transfers, and its user structure is not the one in use.\<close>

definition comes_back :: "nat \<Rightarrow> kst \<Rightarrow> kst \<Rightarrow> bool" where
  "comes_back p s1 s2 \<longleftrightarrow> swapok s2 \<and> \<not> bbusy (blist s2 swlock) \<and> swapdev s2 = swapdev s1 \<and> swarea p s2 = swarea p s1 \<and>
     (\<forall>i < 17. m_per (p_mem (plist s2 p) i) = m_per (p_mem (plist s1 p) i)) \<and> inj_on (seg_of p s2) (set (full p s2 [0..<17])) \<and> seg_of p s2 16 \<noteq> curuseg s2 \<and>
     (\<forall>k. unat k \<in> sw_cells (swarea p s1) \<longrightarrow> disk s2 (swapdev s1) k = disk s1 (swapdev s1) k)"

text \<open>The memory and the user structure of the process in \<open>s3\<close> are those in \<open>s\<close>.\<close>

definition same_image :: "nat \<Rightarrow> kst \<Rightarrow> kst \<Rightarrow> bool" where
  "same_image p s s3 \<longleftrightarrow>
     (\<forall>i < 16. m_per (p_mem (plist s p) i) = FULL \<longrightarrow> (\<forall>j < 4096. phys s3 (seg_of p s3 i) j = phys s (seg_of p s i) j)) \<and>
     (m_per (p_mem (plist s p) 16) = FULL \<longrightarrow> user_at (seg_of p s3 16) s3 = user_at (seg_of p s 16) s)"

lemma full_length: "length (full p s [0..<17]) \<le> 17"
  unfolding full_def by (rule order_trans [OF length_filter_le]) simp

lemma swarea_size:
  assumes "nsegs_ok p s"
  shows "8 * length (full p s [0..<17]) \<le> unat (fst (swarea p s))" "fst (swarea p s) \<noteq> 0"
proof -
  have "unat (p_nsegs (plist s p)) < 256" using unsigned_less [where ?'a = nat, of "p_nsegs (plist s p)"] by (simp del: unsigned_less)
  then have e: "unat (fst (swarea p s)) = 8 * unat (p_nsegs (plist s p))"
    by (simp add: swarea_def push_bit_eq_mult unat_word_ariths unsigned_ucast_eq take_bit_nat_eq_self)
  then show "8 * length (full p s [0..<17]) \<le> unat (fst (swarea p s))" using assms by (simp add: nsegs_ok_def)
  have "unat (p_nsegs (plist s p)) \<noteq> 0" using assms unat_eq_0 [of "p_nsegs (plist s p)"] by (simp add: nsegs_ok_def)
  with e show "fst (swarea p s) \<noteq> 0" by (metis mult_eq_0_iff unat_0 zero_neq_numeral)
qed

lemma put_all_byte:
  assumes "k < length fl" "length fl \<le> 17" "j < 4096"
  shows "put_all blk fl im D (blk + of_nat (8 * k) + of_nat (j div 512)) (j mod 512) = im (fl ! k) j"
proof -
  have m: "8 * k + j div 512 < 8 * length fl" "8 * length fl \<le> 65536" "j mod 512 < 512" "(8 * k + j div 512) div 8 = k" "(8 * k + j div 512) mod 8 = j div 512" "512 * (j div 512) + j mod 512 = j"
    using assms by auto
  have e: "blk + of_nat (8 * k) + of_nat (j div 512) = blk + (of_nat (8 * k + j div 512) :: u16)" by simp
  show ?thesis using put_all_at [OF m(1-3), of blk im D] unfolding m(4-6) e .
qed

lemma put_all_outside:
  assumes "8 * length fl \<le> unat sz" "unat blk + unat sz < 65536" "unat k \<notin> extent sz blk"
  shows "put_all blk fl im D k = D k"
proof (rule put_all_other)
  fix m
  assume m: "m < 8 * length fl"
  then have "unat (blk + of_nat m) = unat blk + m" using assms(1,2) by (simp add: unat_word_ariths unat_of_nat)
  then show "k \<noteq> blk + of_nat m" using assms(1,3) m by (auto simp: extent_def)
qed

lemma block_in_area:
  assumes "k < length fl" "8 * length fl \<le> unat sz" "unat blk + unat sz < 65536" "j < 4096"
  shows "unat (blk + of_nat (8 * k) + of_nat (j div 512)) \<in> extent sz blk"
proof -
  have m: "8 * k + j div 512 < unat sz" using assms by auto
  have "blk + of_nat (8 * k) + of_nat (j div 512) = blk + (of_nat (8 * k + j div 512) :: u16)" by simp
  also have "unat \<dots> = unat blk + (8 * k + j div 512)" using m assms(3) by (simp only: unat_word_ariths unat_of_nat) simp
  finally show ?thesis using m by (simp add: extent_def)
qed

lemma swapout_done:
  assumes p: "p \<noteq> 0" "swapok s" "swdrv_ok sd (swapdev s)" "\<not> bbusy (blist s swlock)" and f: "swap_is s F" "nsegs_ok p s" "fst (salloc (fst (swarea p s)) s) \<noteq> 0"
  obtains s1 where "swapout (swapio lay sd) p s = Ret True s1" "swapok s1" "swapdev s1 = swapdev s" "p_mem (plist s1 p) = p_mem (plist s p)" "p_nsegs (plist s1 p) = p_nsegs (plist s p)" "phys s1 = phys s"
    "tst (p_mode (plist s1 p)) SWAPPED" "\<not> tst (p_mode (plist s1 p)) LOADED" "sw_ok (swarea p s1)" "sw_cells (swarea p s1) \<subseteq> F" "swap_is s1 (F - sw_cells (swarea p s1))"
    "disk s1 = (disk s)(swapdev s := put_all (p_swap (plist s1 p)) (full p s [0..<17]) (\<lambda>i. seg_image lay i (seg_of p s i) s) (disk s (swapdev s)))"
proof -
  define s0 where "s0 = upd_proc p (\<lambda>q. q\<lparr>p_mode := p_mode q AND NOT LOADED\<rparr>) s"
  let ?sz = "fst (swarea p s)"
  have m: "swapmap s0 = swapmap s" by (simp add: s0_def upd_proc_def)
  have "fst (salloc ?sz s0) = fst (salloc ?sz s)" by (simp add: salloc_def m split: option.splits)
  then obtain blk s2 where a: "salloc ?sz s0 = (blk, s2)" "blk \<noteq> 0" using f(3) by (cases "salloc ?sz s0") simp
  have F0: "swap_is s0 F" using f(1) by (simp add: swap_is_def swap_list_def m)
  have r: "sw_req ?sz s0 = Some ((?sz, blk), s2)" using a swarea_size(2) [OF f(2)] by (simp add: sw_req_def)
  obtain m2 where s2: "s2 = s0\<lparr>swapmap := m2\<rparr>" using a by (auto simp: salloc_def split: option.splits)
  define s3 where "s3 = upd_proc p (\<lambda>q. q\<lparr>p_swap := blk\<rparr>) s2"
  have 3: "swapok s3" "swapdev s3 = swapdev s" "blist s3 = blist s" "disk s3 = disk s" "phys s3 = phys s" "usegs s3 = usegs s" "curuseg s3 = curuseg s" "u s3 = u s" "swapmap s3 = swapmap s2"
    "p_mem (plist s3 p) = p_mem (plist s p)" "p_nsegs (plist s3 p) = p_nsegs (plist s p)" "p_swap (plist s3 p) = blk" "\<not> tst (p_mode (plist s3 p)) LOADED" "push_bit 3 (ucast (p_nsegs (plist s0 p))) = ?sz"
    using p(1,2) by (simp_all add: s3_def s2 s0_def upd_proc_def swapok_def swarea_def tst_def and.assoc)
  have i: "full p s3 js = full p s js" "seg_image lay i g s3 = seg_image lay i g s" "swarea p s3 = (?sz, blk)" for js i g by (simp_all add: full_def seg_image_def user_at_def 3 swarea_def)
  have "swdrv_ok sd (swapdev s3)" "\<not> bbusy (blist s3 swlock)" using p(3,4) by (simp_all only: 3(2,3) not_False_eq_True)
  then obtain s4 where 4: "swapio lay sd False p s3 = Ret True s4" "swkeep p s3 s4" "swapok s4" "phys s4 = phys s3"
    and d: "disk s4 = (disk s3)(swapdev s3 := put_all (p_swap (plist s3 p)) (full p s3 [0..<17]) (\<lambda>i. seg_image lay i (seg_of p s3 i) s3) (disk s3 (swapdev s3)))"
    by (rule swapio_write [OF 3(1), where lay = lay and p = p])
  note d' = d [unfolded i(1,2) 3(2,4,10,12)]
  define s1 where "s1 = upd_proc p (\<lambda>q. q\<lparr>p_mode := p_mode q OR SWAPPED\<rparr>) s4"
  have k: "tst (p_mode (plist s4 0)) LOADED" "p \<noteq> 0" "swapdev s4 = swapdev s" "p_mem (plist s4 p) = p_mem (plist s p)" "p_nsegs (plist s4 p) = p_nsegs (plist s p)" "phys s4 = phys s" "swapmap s4 = swapmap s2"
    "p_swap (plist s4 p) = blk" "\<not> tst (p_mode (plist s4 p)) LOADED"
    using 4(2-4) p(1) unfolding swkeep_def 3 by (simp_all add: swapok_def 3(13))
  have "swapout (swapio lay sd) p s = Ret True s1"
    unfolding swapout_def Let_def s0_def [symmetric] 3(14) a(1) prod.case s3_def [symmetric] using a(2) 4(1) by (simp add: s1_def)
  moreover have "swapok s1" "swapdev s1 = swapdev s" "p_mem (plist s1 p) = p_mem (plist s p)" "p_nsegs (plist s1 p) = p_nsegs (plist s p)" "phys s1 = phys s" "disk s1 = disk s4" "swapmap s1 = swapmap s2"
    "p_swap (plist s1 p) = blk" "swarea p s1 = (?sz, blk)" "tst (p_mode (plist s1 p)) SWAPPED" "\<not> tst (p_mode (plist s1 p)) LOADED"
    using k by (simp_all add: s1_def upd_proc_def swapok_def swarea_def tst_def bit.conj_disj_distrib2)
  moreover have "swap_is s1 X = swap_is s2 X" for X by (simp add: swap_is_def swap_list_def calculation(8))
  ultimately show thesis using that [of s1] d' sw.req_free [OF F0 r] by (simp add: sw_cells_def)
qed

text \<open>What \<^verbatim>\<open>swapin\<close> reads is in memory when it returns, and the blocks are free again.\<close>

lemma swapin_done:
  assumes p: "p \<noteq> 0" "swapok s" "swdrv_ok sd (swapdev s)" "\<not> bbusy (blist s swlock)"
    and g: "inj_on (seg_of p s) (set (full p s [0..<17]))" "seg_of p s 16 \<noteq> curuseg s"
    and f: "swap_is s F" "sw_space s" "sw_ok (swarea p s)" "sw_cells (swarea p s) \<inter> F = {}"
  obtains s' where "swapin (swapio lay sd) p s = Ret True s'" "tst (p_mode (plist s' p)) LOADED" "\<not> tst (p_mode (plist s' p)) SWAPPED" "p_mem (plist s' p) = p_mem (plist s p)" "curuseg s' = curuseg s"
    "disk s' = disk s" "swap_is s' (F \<union> sw_cells (swarea p s))"
    "\<forall>k < length (full p s [0..<17]). holds_seg lay (disk s (swapdev s)) (p_swap (plist s p) + of_nat (8 * k)) (seg_of p s) s' (full p s [0..<17] ! k)"
proof -
  define s0 where "s0 = upd_proc p (\<lambda>q. q\<lparr>p_mode := p_mode q AND NOT SWAPPED\<rparr>) s"
  have 0: "swapok s0" "swapdev s0 = swapdev s" "blist s0 = blist s" "disk s0 = disk s" "curuseg s0 = curuseg s" "swapmap s0 = swapmap s" "p_mem (plist s0 p) = p_mem (plist s p)"
    "p_swap (plist s0 p) = p_swap (plist s p)" "p_nsegs (plist s0 p) = p_nsegs (plist s p)" "\<not> tst (p_mode (plist s0 p)) SWAPPED" "full p s0 [0..<17] = full p s [0..<17]"
    using p(1,2) by (simp_all add: s0_def upd_proc_def swapok_def tst_def and.assoc full_def)
  have "swdrv_ok sd (swapdev s0)" "\<not> bbusy (blist s0 swlock)" "inj_on (seg_of p s0) (set (full p s0 [0..<17]))" "seg_of p s0 16 \<noteq> curuseg s0"
    using p(3,4) g by (simp_all only: 0 not_False_eq_True)
  then obtain s1 where 1: "swapio lay sd True p s0 = Ret True s1" "swkeep p s0 s1" "disk s1 = disk s0"
    "\<forall>k < length (full p s0 [0..<17]). holds_seg lay (disk s0 (swapdev s0)) (p_swap (plist s0 p) + of_nat (8 * k)) (seg_of p s0) s1 (full p s0 [0..<17] ! k)"
    by (rule swapio_read [OF 0(1), where lay = lay and p = p])
  have k: "swapmap s1 = swapmap s" "p_mem (plist s1 p) = p_mem (plist s p)" "curuseg s1 = curuseg s" "swarea p s1 = swarea p s" "\<not> tst (p_mode (plist s1 p)) SWAPPED"
    using 1(2) 0(10) unfolding swkeep_def swarea_def 0(5-9) by simp_all
  have "swap_is s1 F" "sw_space s1" using f(1,2) by (simp_all add: swap_is_def swap_list_def sw_space_def k)
  then obtain s2 where 2: "sfree (fst (swarea p s)) (snd (swarea p s)) s1 = Ret () s2" "swap_is s2 (F \<union> sw_cells (swarea p s))"
    using sfree_gives [of s1 F "fst (swarea p s)" "snd (swarea p s)"] f(3,4) by (auto simp: sw_ok_def sw_cells_def)
  obtain m where m: "s2 = s1\<lparr>swapmap := m\<rparr>" using 2(1) by (auto simp: sfree_def Let_def split: option.splits)
  define s' where "s' = upd_proc p (\<lambda>q. q\<lparr>p_mode := p_mode q OR LOADED\<rparr>) s2"
  have "swapin (swapio lay sd) p s = Ret True s'"
    unfolding swapin_def s0_def [symmetric] 1(1) using 2(1) k(4) by (simp add: swarea_def s'_def)
  moreover have "tst (p_mode (plist s' p)) LOADED" "\<not> tst (p_mode (plist s' p)) SWAPPED" "p_mem (plist s' p) = p_mem (plist s p)" "curuseg s' = curuseg s" "disk s' = disk s1" "phys s' = phys s1" "usegs s' = usegs s1" "swapmap s' = swapmap s2"
    using k by (simp_all add: s'_def m upd_proc_def tst_def bit.conj_disj_distrib2)
  moreover have "swap_is s' X = swap_is s2 X" "holds_seg lay D b h s' i = holds_seg lay D b h s1 i" for X D b h i by (simp_all add: swap_is_def swap_list_def holds_seg_def calculation(7-9))
  ultimately show thesis using that [of s'] 1(3) 1(4) [unfolded 0(2,4,7,8,11)] 2(2) 0(4) by simp
qed

text \<open>Hence, where the blocks hold the images of the segments in \<open>s\<close>, the memory is as it was in \<open>s\<close>.\<close>

lemma images_back:
  assumes h: "\<forall>k < length (full p s [0..<17]). holds_seg lay D (blk + of_nat (8 * k)) (seg_of p s3) s3 (full p s [0..<17] ! k)"
    and D: "\<And>k j. k < length (full p s [0..<17]) \<Longrightarrow> j < 4096 \<Longrightarrow>
      D (blk + of_nat (8 * k) + of_nat (j div 512)) (j mod 512) = seg_image lay (full p s [0..<17] ! k) (seg_of p s (full p s [0..<17] ! k)) s j"
    and l: "m_per (p_mem (plist s p) 16) = FULL \<Longrightarrow> lay_fits lay (user_at (seg_of p s 16) s)" and c: "seg_of p s3 16 \<noteq> curuseg s3"
  shows "same_image p s s3"
proof -
  have b: "holds_seg lay D (blk + of_nat (8 * k)) (seg_of p s3) s3 i \<and> (\<forall>j < 4096. phys s3 (seg_of p s3 i) j = seg_image lay i (seg_of p s i) s j)"
    if "full p s [0..<17] ! k = i" "k < length (full p s [0..<17])" for k i
    using h that D [of k] by (auto simp: holds_seg_def)
  have e: "\<exists>k < length (full p s [0..<17]). full p s [0..<17] ! k = i" if "i < 17" "m_per (p_mem (plist s p) i) = FULL" for i
    using that by (simp add: full_def flip: in_set_conv_nth)
  have "phys s3 (seg_of p s3 i) j = phys s (seg_of p s i) j" if "i < 16" "m_per (p_mem (plist s p) i) = FULL" "j < 4096" for i j
    using e [of i] b [of _ i] that by (auto simp: seg_image_def)
  moreover have "user_at (seg_of p s3 16) s3 = user_at (seg_of p s 16) s" if u: "m_per (p_mem (plist s p) 16) = FULL"
  proof -
    obtain k where k: "k < length (full p s [0..<17])" "full p s [0..<17] ! k = 16" using e [of 16] u by auto
    have "usegs s3 (seg_of p s3 16) = snd lay (phys s3 (seg_of p s3 16))" using b [OF k(2,1)] by (simp add: holds_seg_def)
    also have "\<dots> = user_at (seg_of p s 16) s" using b [OF k(2,1)] l [OF u] by (auto simp: lay_fits_def seg_image_def)
    finally show ?thesis using c by (simp add: user_at_def)
  qed
  ultimately show ?thesis by (simp add: same_image_def)
qed

text \<open>
  C10. A process that is swapped out comes back as it was. When swap space is found for a process whose \<^verbatim>\<open>nsegs\<close> counts at least its own segments (the kernel counts the shared grow segment too), \<^verbatim>\<open>swapout\<close> succeeds: the process is \<^verbatim>\<open>SWAPPED\<close> and no longer \<^verbatim>\<open>LOADED\<close>,
  its area was free, is no longer free, and no other block of a disk has changed. From every later state in which the process has memory of the same shape and its blocks still hold what was written, \<^verbatim>\<open>swapin\<close> succeeds:
  the process is \<^verbatim>\<open>LOADED\<close>, each of its own segments holds the 4096 bytes it held before, its user structure is the one it had, and the area is free again.
\<close>

theorem swap_out_in:
  assumes p: "p \<noteq> 0" "swapok s" "swdrv_ok sd (swapdev s)" "\<not> bbusy (blist s swlock)" and f: "swap_is s F" "nsegs_ok p s" "fst (salloc (fst (swarea p s)) s) \<noteq> 0"
    and l: "m_per (p_mem (plist s p) 16) = FULL \<Longrightarrow> lay_fits lay (user_at (seg_of p s 16) s)"
  shows "\<exists>s1. swapout (swapio lay sd) p s = Ret True s1 \<and> tst (p_mode (plist s1 p)) SWAPPED \<and> \<not> tst (p_mode (plist s1 p)) LOADED \<and>
    sw_cells (swarea p s1) \<subseteq> F \<and> swap_is s1 (F - sw_cells (swarea p s1)) \<and>
    (\<forall>d k. d \<noteq> swapdev s \<or> unat k \<notin> sw_cells (swarea p s1) \<longrightarrow> disk s1 d k = disk s d k) \<and>
    (\<forall>s2 F2. comes_back p s1 s2 \<and> swap_is s2 F2 \<and> sw_space s2 \<and> sw_cells (swarea p s1) \<inter> F2 = {} \<longrightarrow>
      (\<exists>s3. swapin (swapio lay sd) p s2 = Ret True s3 \<and> tst (p_mode (plist s3 p)) LOADED \<and> \<not> tst (p_mode (plist s3 p)) SWAPPED \<and> same_image p s s3 \<and> swap_is s3 (F2 \<union> sw_cells (swarea p s1))))"
proof -
  let ?fl = "full p s [0..<17]"
  obtain s1 where 1: "swapout (swapio lay sd) p s = Ret True s1" "swapok s1" "swapdev s1 = swapdev s" "p_mem (plist s1 p) = p_mem (plist s p)" "p_nsegs (plist s1 p) = p_nsegs (plist s p)" "phys s1 = phys s"
    "tst (p_mode (plist s1 p)) SWAPPED" "\<not> tst (p_mode (plist s1 p)) LOADED" "sw_ok (swarea p s1)" "sw_cells (swarea p s1) \<subseteq> F" "swap_is s1 (F - sw_cells (swarea p s1))"
    "disk s1 = (disk s)(swapdev s := put_all (p_swap (plist s1 p)) ?fl (\<lambda>i. seg_image lay i (seg_of p s i) s) (disk s (swapdev s)))"
    by (rule swapout_done [OF p f, where lay = lay])
  have n: "8 * length ?fl \<le> unat (fst (swarea p s1))" "unat (p_swap (plist s1 p)) + unat (fst (swarea p s1)) < 65536"
    using swarea_size(1) [OF f(2)] 1(5,9) by (simp_all add: swarea_def sw_ok_def)
  have area: "sw_cells (swarea p s1) = extent (fst (swarea p s1)) (p_swap (plist s1 p))" by (simp add: sw_cells_def swarea_def)
  have o: "disk s1 d k = disk s d k" if "d \<noteq> swapdev s \<or> unat k \<notin> sw_cells (swarea p s1)" for d k
    using that put_all_outside [OF n] by (auto simp: 1(12) area)
  have "\<exists>s3. swapin (swapio lay sd) p s2 = Ret True s3 \<and> tst (p_mode (plist s3 p)) LOADED \<and> \<not> tst (p_mode (plist s3 p)) SWAPPED \<and> same_image p s s3 \<and> swap_is s3 (F2 \<union> sw_cells (swarea p s1))"
    if c: "comes_back p s1 s2" and F2: "swap_is s2 F2" "sw_space s2" "sw_cells (swarea p s1) \<inter> F2 = {}" for s2 F2
  proof -
    have 2: "swapok s2" "\<not> bbusy (blist s2 swlock)" "swapdev s2 = swapdev s" "swarea p s2 = swarea p s1" "inj_on (seg_of p s2) (set (full p s2 [0..<17]))" "seg_of p s2 16 \<noteq> curuseg s2"
      "\<And>k. unat k \<in> sw_cells (swarea p s1) \<Longrightarrow> disk s2 (swapdev s) k = disk s1 (swapdev s) k" "full p s2 [0..<17] = ?fl" "p_swap (plist s2 p) = p_swap (plist s1 p)"
      using c by (auto simp: comes_back_def 1(3,4) full_def swarea_def intro!: filter_cong)
    have "swdrv_ok sd (swapdev s2)" "sw_ok (swarea p s2)" "sw_cells (swarea p s2) \<inter> F2 = {}" using p(3) 1(9) F2(3) by (simp_all add: 2)
    then obtain s3 where 3: "swapin (swapio lay sd) p s2 = Ret True s3" "tst (p_mode (plist s3 p)) LOADED" "\<not> tst (p_mode (plist s3 p)) SWAPPED" "p_mem (plist s3 p) = p_mem (plist s2 p)" "curuseg s3 = curuseg s2"
      "disk s3 = disk s2" "swap_is s3 (F2 \<union> sw_cells (swarea p s2))"
      "\<forall>k < length (full p s2 [0..<17]). holds_seg lay (disk s2 (swapdev s2)) (p_swap (plist s2 p) + of_nat (8 * k)) (seg_of p s2) s3 (full p s2 [0..<17] ! k)"
      using swapin_done [OF p(1) 2(1) _ 2(2,5,6) F2(1,2), where lay = lay] by metis
    have "same_image p s s3"
    proof (rule images_back)
      show "\<forall>k < length ?fl. holds_seg lay (disk s2 (swapdev s)) (p_swap (plist s1 p) + of_nat (8 * k)) (seg_of p s3) s3 (?fl ! k)" using 3(8) unfolding 2(3,8,9) 3(4) .
      show "disk s2 (swapdev s) (p_swap (plist s1 p) + of_nat (8 * k) + of_nat (j div 512)) (j mod 512) = seg_image lay (?fl ! k) (seg_of p s (?fl ! k)) s j" if "k < length ?fl" "j < 4096" for k j
        using put_all_byte [OF that(1) full_length that(2)] 2(7) [unfolded area, OF block_in_area [OF that(1) n that(2)]] by (simp add: 1(12))
    qed (use l 2(6) 3(4,5) in simp_all)
    with 3 show ?thesis by (simp add: 2(4))
  qed
  with 1 o show ?thesis by (intro exI [of _ s1]) blast
qed

text \<open>What \<^verbatim>\<open>exec\<close> leaves has such a count: of 15 entries that share the grow segment none is counted but one, the stack and the user structure are the other two.\<close>

lemma mrelse_from_spec:
  "m_per (p_mem (plist (mrelse_from p g n s) p) i) = (if 0 < i \<and> i \<le> n then GROW else m_per (p_mem (plist s p) i)) \<and> swapok (mrelse_from p g n s) = swapok s"
proof (induction n arbitrary: s)
  case (Suc n)
  define t where "t = set_mem p (Suc n) (\<lambda>m. m\<lparr>m_seg := g, m_per := GROW\<rparr>) (if seg_of p s (Suc n) \<noteq> g then segfree (ucast (seg_of p s (Suc n))) s else s)"
  have e: "mrelse_from p g (Suc n) s = mrelse_from p g n t" by (simp add: t_def Let_def)
  have "m_per (p_mem (plist t p) i) = (if i = Suc n then GROW else m_per (p_mem (plist s p) i))" "swapok t = swapok s"
    by (simp_all add: t_def segfree_def set_mem_def upd_proc_def swapok_def)
  with Suc.IH [of t] show ?case unfolding e by auto
qed auto

lemma mrelse_nsegs:
  assumes "swapok s" "\<And>i. i \<in> {15, 16} \<Longrightarrow> m_per (p_mem (plist s (u_p (u s))) i) = FULL"
  obtains s' where "mrelse s = Ret () s'" "nsegs_ok (u_p (u s)) s'" "full (u_p (u s)) s' [0..<17] = [15, 16]" "p_nsegs (plist s' (u_p (u s))) = 3"
proof -
  let ?p = "u_p (u s)"
  define s1 where "s1 = mrelse_from ?p (m_seg (p_mem (plist s ?p) 0)) 14 (set_mem ?p 0 (\<lambda>m. m\<lparr>m_per := GROW\<rparr>) s)"
  define s2 where "s2 = newmap ?p (upd_proc ?p (\<lambda>q. q\<lparr>p_nsegs := 3\<rparr>) s1)"
  have s0: "swapok (set_mem ?p 0 (\<lambda>m. m\<lparr>m_per := GROW\<rparr>) s)" using assms(1) by (simp add: set_mem_def upd_proc_def swapok_def)
  note m = mrelse_from_spec [of ?p "m_seg (p_mem (plist s ?p) 0)" 14 "set_mem ?p 0 (\<lambda>m. m\<lparr>m_per := GROW\<rparr>) s", folded s1_def]
  have per: "m_per (p_mem (plist s1 ?p) i) = (if i \<le> 14 then GROW else m_per (p_mem (plist s ?p) i))" for i
    unfolding conjunct1 [OF m] by (auto simp: set_mem_def upd_proc_def)
  have 2: "swapok s2" "p_mem (plist s2 ?p) = p_mem (plist s1 ?p)" "p_nsegs (plist s2 ?p) = 3"
    using conjunct2 [OF m] s0 by (simp_all add: s2_def newmap_def upd_proc_def swapok_def Let_def)
  obtain pl r where w: "(if memwant s2 \<noteq> 0 then wakeup ChMem s2 else Ret () s2) = Ret () (s2\<lparr>plist := pl, resched := r\<rparr>)" "\<And>q. pl q = plist s2 q \<or> pl q = awk (plist s2 q)"
  proof (cases "memwant s2 = 0")
    case True
    then show thesis using that [of "resched s2" "plist s2"] by simp
  next
    case False
    then show thesis using wakeup_ret [OF 2(1), of ChMem] that by auto
  qed
  define s' where "s' = s2\<lparr>plist := pl, resched := r, memwant := 0\<rparr>"
  have "mrelse s = Ret () s'" unfolding mrelse_def mwake_def Let_def s1_def [symmetric] s2_def [symmetric] w(1) by (simp add: s'_def)
  moreover have k: "p_mem (plist s' ?p) = p_mem (plist s1 ?p)" "p_nsegs (plist s' ?p) = 3" using w(2) [of ?p] 2(2,3) by (auto simp: s'_def awk_def)
  moreover have "full ?p s' [0..<17] = [15, 16]" using assms(2) unfolding full_def k(1) per by (simp add: upt_rec)
  ultimately show thesis using that [of s'] by (simp add: nsegs_ok_def)
qed

text \<open>A kernel whose process 1 has the memory that \<^verbatim>\<open>mrelse\<close> leaves (the stack, the user structure and a shared grow segment) and the user structure of a process with an error to report, a disk that keeps what it is given, and a layout with the error in the first byte.\<close>

definition store_dev :: driver where
  "store_dev rd dev blk b d = (if rd then (0, \<lambda>i. d dev (blk + of_nat (i div 512)) (i mod 512), d) else (0, b, d(dev := put8 blk b (d dev))))"

definition err_layout :: layout where
  "err_layout = (\<lambda>x f. f(0 := u_error x), \<lambda>g. user0\<lparr>u_error := g 0\<rparr>)"

definition two_segs :: "nat \<Rightarrow> mem" where
  "two_segs i = (if i = 15 \<or> i = 16 then \<lparr>m_seg = 20 + of_nat i, m_per = FULL\<rparr> else \<lparr>m_seg = 20, m_per = GROW\<rparr>)"

definition two_kernel :: kst where
  "two_kernel = (swap_kernel [\<lparr>s_size = 100, s_addr = 50\<rparr>])\<lparr>swapdev := 7, phys := (\<lambda>g j. ucast g + of_nat j), usegs := (\<lambda>_. user0\<lparr>u_error := 5\<rparr>),
     plist := (\<lambda>q. proc0\<lparr>p_mode := ALIVE OR LOADED, p_nsegs := 3, p_mem := two_segs\<rparr>)\<rparr>"

lemma store_dev_ok: "swdrv_ok store_dev dev"
  by (simp add: swdrv_ok_def store_dev_def)

text \<open>The process with other segments, and a kernel with no other swap space, after \<open>s1\<close>.\<close>

definition moved_kernel :: "kst \<Rightarrow> kst" where
  "moved_kernel s1 = two_kernel\<lparr>disk := disk s1, swapdev := swapdev s1, swapmap := (\<lambda>_. mend0), phys := (\<lambda>_ _. 255),
     plist := (plist two_kernel)(1 := (plist s1 1)\<lparr>p_mem := (\<lambda>i. (p_mem (plist s1 1) i)\<lparr>m_seg := if m_per (p_mem (plist s1 1) i) = GROW then 40 else 41 + of_nat i\<rparr>)\<rparr>)\<rparr>"

lemma moved_comes_back: "comes_back 1 s1 (moved_kernel s1)" "swap_is (moved_kernel s1) {}" "sw_space (moved_kernel s1)"
proof -
  have "inj_on (\<lambda>i. 41 + of_nat i :: u8) {0..<17}"
    by (intro inj_onI) (simp add: word_of_nat_eq_iff take_bit_nat_eq_self)
  moreover have "set (full 1 (moved_kernel s1) [0..<17]) \<subseteq> {0..<17}" by (auto simp: full_def)
  ultimately have "inj_on (\<lambda>i. 41 + of_nat i :: u8) (set (full 1 (moved_kernel s1) [0..<17]))" by (rule inj_on_subset)
  moreover have "seg_of 1 (moved_kernel s1) i = 41 + of_nat i" if "i \<in> set (full 1 (moved_kernel s1) [0..<17])" for i using that by (auto simp: full_def moved_kernel_def)
  ultimately have "inj_on (seg_of 1 (moved_kernel s1)) (set (full 1 (moved_kernel s1) [0..<17]))" by (subst inj_on_cong) auto
  then show "comes_back 1 s1 (moved_kernel s1)"
    by (simp add: comes_back_def) (simp add: moved_kernel_def two_kernel_def swap_kernel_def swapok_def swarea_def kst0_def buf0_def bbusy_def tst_def)
  have l: "swap_list (moved_kernel s1) []" by (simp add: swap_list_def moved_kernel_def wfm_def)
  then show "swap_is (moved_kernel s1) {}" "sw_space (moved_kernel s1)" by (auto simp: swap_is_def swap_list_space)
qed

theorem swap_out_in_witness:
  "\<exists>s1 s2 s3. swapout (swapio err_layout store_dev) 1 two_kernel = Ret True s1 \<and> comes_back 1 s1 s2 \<and> swapin (swapio err_layout store_dev) 1 s2 = Ret True s3 \<and> same_image 1 two_kernel s3"
proof -
  have F: "swap_is two_kernel (ents [\<lparr>s_size = 100, s_addr = 50\<rparr>])"
    using swap_kernel_is [of "[\<lparr>s_size = 100, s_addr = 50\<rparr>]"] by (simp add: swap_is_def swap_list_def two_kernel_def wfm_def extent_def)
  have k: "swapok two_kernel" "\<not> bbusy (blist two_kernel swlock)" "swarea 1 two_kernel = (24, 0)" "swapmap two_kernel 0 = \<lparr>s_size = 100, s_addr = 50\<rparr>"
    by (simp_all add: two_kernel_def swap_kernel_def kst0_def buf0_def bbusy_def tst_def swapok_def swarea_def proc0_def)
  have "full 1 two_kernel [0..<17] = [15, 16]" by (simp add: full_def two_kernel_def two_segs_def upt_rec)
  then have n: "nsegs_ok 1 two_kernel" by (simp add: nsegs_ok_def two_kernel_def)
  have a: "fst (salloc (fst (swarea 1 two_kernel)) two_kernel) \<noteq> 0" unfolding k(3) by (simp add: salloc_first k(4))
  have l: "lay_fits err_layout (user_at (seg_of 1 two_kernel 16) two_kernel)"
    by (simp add: lay_fits_def err_layout_def user_at_def two_kernel_def two_segs_def swap_kernel_def kst0_def)
  from swap_out_in [OF _ k(1) store_dev_ok k(2) F n a l] obtain s1 where 1: "swapout (swapio err_layout store_dev) 1 two_kernel = Ret True s1"
    "\<forall>s2 F2. comes_back 1 s1 s2 \<and> swap_is s2 F2 \<and> sw_space s2 \<and> sw_cells (swarea 1 s1) \<inter> F2 = {} \<longrightarrow> (\<exists>s3. swapin (swapio err_layout store_dev) 1 s2 = Ret True s3 \<and> same_image 1 two_kernel s3)"
    by fastforce
  moreover note moved_comes_back [of s1]
  ultimately show ?thesis by blast
qed

end
