(* ===== verification/Memdev.thy ===== *)
theory Memdev
  imports Update
begin

text \<open>
  The memory device (\<^verbatim>\<open>sys/memdev.c\<close>), with the routine \<^verbatim>\<open>memrw\<close> of \<^verbatim>\<open>mem.s\<close> that it calls. The memory of the kernel is an argument \<open>km\<close> beside
  the state, for the addresses outside 0x1000 to 0x2FFF, which are the windows of the copy routines; the input and output ports are the arguments \<open>pin\<close>, \<open>pout\<close> and their state, as in the driver of the serial lines.
\<close>

definition K4 :: "u16 \<Rightarrow> u16" where
  "K4 x = 4096 - (x AND 4095)"

text \<open>\<^verbatim>\<open>memrw\<close> makes the segment of the absolute address (20 bits of it) and the segment of the user address visible in two windows, and copies byte by byte from one to the other.\<close>

definition spseg :: "u32 \<Rightarrow> u8" where
  "spseg a = ucast (drop_bit 12 a)"

primrec ldir :: "nat \<Rightarrow> u8 \<Rightarrow> nat \<Rightarrow> u8 \<Rightarrow> nat \<Rightarrow> (u8 \<Rightarrow> bytes) \<Rightarrow> u8 \<Rightarrow> bytes" where
  "ldir 0 a i b j ph = ph"
| "ldir (Suc n) a i b j ph = ldir n a (Suc i) b (Suc j) (ph(b := (ph b)(j := ph a i)))"

definition memrw :: "u16 \<Rightarrow> u32 \<Rightarrow> bool \<Rightarrow> u16 \<Rightarrow> kst \<Rightarrow> kst" where
  "memrw usr space rd n s =
     (let a = spseg space; i = unat space mod 4096; b = useg s usr; j = unat usr mod 4096 in
      s\<lparr>phys := if rd then ldir (unat n) a i b j (phys s) else ldir (unat n) b j a i (phys s)\<rparr>)"

lemma K4_val: "unat (K4 x) = 4096 - unat x mod 4096"
proof -
  have "x AND 4095 = take_bit 12 x" by (simp add: take_bit_eq_mask mask_eq_exp_minus_1)
  then have m: "unat (x AND 4095) = unat x mod 4096" by (simp add: take_bit_eq_mod unat_mod_distrib)
  then have "x AND 4095 \<le> 4096" by (simp add: word_le_nat_alt)
  with m show ?thesis by (simp add: K4_def unat_sub)
qed

definition krw_n :: "user \<Rightarrow> u16" where
  "krw_n x = min (min (u_count x) (K4 (uaddr (u_base x)))) (K4 (ucast (u_offset x)))"

lemma krw_n_pos: "u_count x \<noteq> 0 \<Longrightarrow> 0 < unat (krw_n x)" "unat (krw_n x) \<le> unat (u_count x)"
    "unat (krw_n x) \<le> 4096 - unat (uaddr (u_base x)) mod 4096" "unat (krw_n x) \<le> 4096 - unat (ucast (u_offset x) :: u16) mod 4096"
proof -
  have p: "0 < unat (K4 a)" for a by (simp add: K4_val)
  show "0 < unat (krw_n x)" if "u_count x \<noteq> 0" using that p by (simp add: krw_n_def min_def unat_gt_0)
  have "krw_n x \<le> u_count x" "krw_n x \<le> K4 (uaddr (u_base x))" "krw_n x \<le> K4 (ucast (u_offset x))" by (simp_all add: krw_n_def min.coboundedI1)
  then show "unat (krw_n x) \<le> unat (u_count x)" "unat (krw_n x) \<le> 4096 - unat (uaddr (u_base x)) mod 4096" "unat (krw_n x) \<le> 4096 - unat (ucast (u_offset x) :: u16) mod 4096"
    by (simp_all only: word_le_nat_alt K4_val)
qed

definition forth :: "u16 \<Rightarrow> kst \<Rightarrow> kst" where
  "forth n s = upd_u (\<lambda>x. x\<lparr>u_offset := u_offset x + ucast n, u_base := kp_add (u_base x) n, u_count := u_count x - n\<rparr>) s"

function krw_space :: "bool \<Rightarrow> kst \<Rightarrow> kst" where
  "krw_space rd s =
     (if u_count (u s) = 0 then s
      else let n = krw_n (u s) in krw_space rd (forth n (memrw (uaddr (u_base (u s))) (u_offset (u s)) rd n s)))"
  by pat_completeness auto
termination
proof (relation "measure (\<lambda>(rd, s). unat (u_count (u s)))", goal_cases)
  case (2 rd s n)
  then have "unat (u_count (u s) - n) = unat (u_count (u s)) - unat n" "0 < unat n" "unat n \<le> unat (u_count (u s))"
    using krw_n_pos(1,2) [of "u s"] by (simp_all add: unat_sub word_le_nat_alt)
  then show ?case by (simp add: forth_def upd_u_def memrw_def Let_def)
qed simp

text \<open>Kernel space: \<^verbatim>\<open>iomove\<close> at the kernel address \<^verbatim>\<open>u.offset\<close>, at most 4096 bytes at a time.\<close>

definition kmove :: "bool \<Rightarrow> u16 \<Rightarrow> u16 \<Rightarrow> (u16 \<Rightarrow> u8) \<times> kst \<Rightarrow> (u16 \<Rightarrow> u8) \<times> kst" where
  "kmove rd off n = (\<lambda>(km, s).
     let b = (\<lambda>i. km (of_nat i)) in
     if rd then (km, iomove_read b (unat off) n s)
     else let (b', s') = iomove_write b (unat off) n s in (\<lambda>a. if a - off < n then b' (unat off + unat (a - off)) else km a, s'))"

function krw_kernel :: "bool \<Rightarrow> (u16 \<Rightarrow> u8) \<Rightarrow> kst \<Rightarrow> (u16 \<Rightarrow> u8) \<times> kst" where
  "krw_kernel rd km s =
     (if u_count (u s) = 0 then (km, s)
      else let (km', s') = kmove rd (ucast (u_offset (u s))) (min (u_count (u s)) 4096) (km, s) in krw_kernel rd km' s')"
  by pat_completeness auto
termination
proof (relation "measure (\<lambda>(rd, km, s). unat (u_count (u s)))", goal_cases)
  case (2 rd km s x km' s')
  define n where "n = min (u_count (u s)) 4096"
  have n: "0 < unat n" "unat n \<le> unat (u_count (u s))" using 2(1) by (auto simp: n_def min_def unat_gt_0 word_le_nat_alt)
  have "u_count (u s') = u_count (u s) - n" using 2(2,3)
    by (auto simp: kmove_def n_def iomove_read_def iomove_write_def iomove_step_def upd_u_def kput_def Let_def copyout_cpo split: if_splits kptr.splits)
  then have "unat (u_count (u s')) = unat (u_count (u s)) - unat n" using n by (simp add: unat_sub word_le_nat_alt)
  then show ?case using n by simp
qed simp

definition krw :: "u16 \<Rightarrow> bool \<Rightarrow> (u16 \<Rightarrow> u8) \<times> kst \<Rightarrow> (u16 \<Rightarrow> u8) \<times> kst" where
  "krw dev rd = (\<lambda>(km, s). if tst dev 1 then krw_kernel rd km s else (km, krw_space rd s))"

definition kread :: "u16 \<Rightarrow> (u16 \<Rightarrow> u8) \<times> kst \<Rightarrow> (u16 \<Rightarrow> u8) \<times> kst" where
  "kread dev = krw dev True"

definition kwrite :: "u16 \<Rightarrow> (u16 \<Rightarrow> u8) \<times> kst \<Rightarrow> (u16 \<Rightarrow> u8) \<times> kst" where
  "kwrite dev = krw dev False"

text \<open>The input and output ports as files.\<close>

function iorw_loop :: "(u8 \<Rightarrow> 'p \<Rightarrow> u8 \<times> 'p) \<Rightarrow> (u8 \<Rightarrow> u8 \<Rightarrow> 'p \<Rightarrow> 'p) \<Rightarrow> u8 \<Rightarrow> bool \<Rightarrow> 'p \<Rightarrow> kst \<Rightarrow> 'p \<times> kst" where
  "iorw_loop pin pout port rd h s =
     (if u_count (u s) = 0 then (h, s)
      else let a = uaddr (u_base (u s));
               (h1, s1) = (if rd then let (v, h1) = pin port h in (h1, uputc a v s) else (pout port (ugetc s a) h, s))
           in iorw_loop pin pout port rd h1 (upd_u (\<lambda>x. x\<lparr>u_base := kp_add (u_base x) 1, u_count := u_count x - 1\<rparr>) s1))"
  by pat_completeness auto
termination
proof (relation "measure (\<lambda>(pin, pout, port, rd, h, s). unat (u_count (u s)))", goal_cases)
  case (2 pin pout port rd h s a x h1 s1)
  then have "u s1 = u s" by (auto simp: uputc_def Let_def split: if_splits prod.splits)
  moreover have "unat (u_count (u s) - 1) < unat (u_count (u s))" using 2(1) by (simp add: unat_gt_0 unat_minus_one)
  ultimately show ?case by (simp add: upd_u_def)
qed simp

definition iorw :: "(u8 \<Rightarrow> 'p \<Rightarrow> u8 \<times> 'p) \<Rightarrow> (u8 \<Rightarrow> u8 \<Rightarrow> 'p \<Rightarrow> 'p) \<Rightarrow> u16 \<Rightarrow> bool \<Rightarrow> 'p \<Rightarrow> kst \<Rightarrow> 'p \<times> kst" where
  "iorw pin pout dev rd h s =
     (let port = ucast (minor dev) :: u8; port = (if port = 0 then ucast (u_offset (u s)) else port) in iorw_loop pin pout port rd h s)"

definition ioread :: "(u8 \<Rightarrow> 'p \<Rightarrow> u8 \<times> 'p) \<Rightarrow> (u8 \<Rightarrow> u8 \<Rightarrow> 'p \<Rightarrow> 'p) \<Rightarrow> u16 \<Rightarrow> 'p \<Rightarrow> kst \<Rightarrow> 'p \<times> kst" where
  "ioread pin pout dev = iorw pin pout dev True"

definition iowrite :: "(u8 \<Rightarrow> 'p \<Rightarrow> u8 \<times> 'p) \<Rightarrow> (u8 \<Rightarrow> u8 \<Rightarrow> 'p \<Rightarrow> 'p) \<Rightarrow> u16 \<Rightarrow> 'p \<Rightarrow> kst \<Rightarrow> 'p \<times> kst" where
  "iowrite pin pout dev = iorw pin pout dev False"

section \<open>One byte at a time\<close>

text \<open>What the device is for: byte \<^verbatim>\<open>u.offset\<close> of the memory goes to \<^verbatim>\<open>u.base\<close>, or back, and so on for \<^verbatim>\<open>u.count\<close> bytes.\<close>

definition spget :: "kst \<Rightarrow> u32 \<Rightarrow> u8" where
  "spget s a = phys s (spseg a) (unat a mod 4096)"

definition spput :: "u32 \<Rightarrow> u8 \<Rightarrow> kst \<Rightarrow> kst" where
  "spput a v s = s\<lparr>phys := (phys s)(spseg a := (phys s (spseg a))(unat a mod 4096 := v))\<rparr>"

definition space1 :: "bool \<Rightarrow> kst \<Rightarrow> kst" where
  "space1 rd s = (let a = uaddr (u_base (u s)); o' = u_offset (u s) in forth 1 (if rd then uputc a (spget s o') s else spput o' (ugetc s a) s))"

definition kernel1 :: "bool \<Rightarrow> (u16 \<Rightarrow> u8) \<times> kst \<Rightarrow> (u16 \<Rightarrow> u8) \<times> kst" where
  "kernel1 rd = (\<lambda>(km, s). let a = uaddr (u_base (u s)); o' = ucast (u_offset (u s)) in
     if rd then (km, forth 1 (uputc a (km o') s)) else (km(o' := ugetc s a), forth 1 s))"

definition mv :: "u8 \<Rightarrow> nat \<Rightarrow> u8 \<Rightarrow> nat \<Rightarrow> (u8 \<Rightarrow> bytes) \<Rightarrow> u8 \<Rightarrow> bytes" where
  "mv a i b j ph = ph(b := (ph b)(j := ph a i))"

lemma ldir_Suc: "ldir (Suc n) a i b j ph = ldir n a (Suc i) b (Suc j) (mv a i b j ph)"
  by (simp add: mv_def)

lemma ldir_end: "ldir (Suc n) a i b j ph = mv a (i + n) b (j + n) (ldir n a i b j ph)"
proof (induction n arbitrary: i j ph)
  case (Suc n)
  have "ldir (Suc (Suc n)) a i b j ph = mv a (Suc i + n) b (Suc j + n) (ldir n a (Suc i) b (Suc j) (mv a i b j ph))" unfolding ldir_Suc [of "Suc n"] Suc.IH ..
  then show ?case unfolding ldir_Suc [of n, symmetric] by simp
qed (simp add: mv_def)

lemma in_block:
  fixes x :: nat
  assumes "x < 4096 * d" "x mod 4096 + k < 4096"
  shows "x + k < 4096 * d" "(x + k) div 4096 = x div 4096" "(x + k) mod 4096 = x mod 4096 + k"
proof -
  have "4096 * (x div 4096) \<le> x + k" "x + k < 4096 * (x div 4096) + 4096" using assms(2) div_mult_mod_eq [of x 4096] by linarith+
  then show q: "(x + k) div 4096 = x div 4096" by (intro div_nat_eqI) (simp_all add: mult.commute)
  then show "(x + k) mod 4096 = x mod 4096 + k" using div_mult_mod_eq [of "x + k" 4096] div_mult_mod_eq [of x 4096] by linarith
  have "x div 4096 < d" using assms(1) by (simp add: less_mult_imp_div_less mult.commute)
  then show "x + k < 4096 * d" using q by (metis div_less_iff_less_mult mult.commute zero_less_numeral)
qed

lemma no_carry16:
  assumes "k < 4096 - unat (a :: u16) mod 4096"
  shows "unat (a + of_nat k) div 4096 = unat a div 4096" "unat (a + of_nat k) mod 4096 = unat a mod 4096 + k"
proof -
  have m: "unat a mod 4096 + k < 4096" "k < 65536" using assms by simp_all
  have "unat a < 4096 * 16" using unsigned_less [where ?'a = nat, of a] by (simp del: unsigned_less)
  note b = in_block [OF this m(1)]
  then have "unat (a + of_nat k) = unat a + k" using m(2) by (simp add: unat_word_ariths unat_of_nat)
  with b show "unat (a + of_nat k) div 4096 = unat a div 4096" "unat (a + of_nat k) mod 4096 = unat a mod 4096 + k" by simp_all
qed

lemma low16: "unat (ucast (x :: u32) :: u16) mod 4096 = unat x mod 4096"
  by (simp add: unsigned_ucast_eq take_bit_eq_mod mod_mod_cancel)

lemma no_carry32:
  assumes "k < 4096 - unat (a :: u32) mod 4096"
  shows "spseg (a + of_nat k) = spseg a" "unat (a + of_nat k) mod 4096 = unat a mod 4096 + k"
proof -
  have m: "unat a mod 4096 + k < 4096" "k < 4294967296" using assms by simp_all
  have "unat a < 4096 * 1048576" using unsigned_less [where ?'a = nat, of a] by (simp del: unsigned_less)
  note b = in_block [OF this m(1)]
  then have e: "unat (a + of_nat k) = unat a + k" using m(2) by (simp add: unat_word_ariths unat_of_nat)
  with b have "unat (drop_bit 12 (a + of_nat k)) = unat (drop_bit 12 a)" by (simp add: drop_bit_eq_div unat_div_distrib)
  then have "drop_bit 12 (a + of_nat k) = drop_bit 12 a" by (simp only: word_unat_eq_iff)
  then show "spseg (a + of_nat k) = spseg a" by (simp add: spseg_def)
  show "unat (a + of_nat k) mod 4096 = unat a mod 4096 + k" using b e by simp
qed

lemma memrw_bytes:
  assumes b: "u_base (u s) = Uaddr a" and k: "k \<le> 4096 - unat a mod 4096" "k \<le> 4096 - unat (u_offset (u s)) mod 4096"
  shows "(space1 rd ^^ k) s = forth (of_nat k) (memrw a (u_offset (u s)) rd (of_nat k) s)"
  using k
proof (induction k)
  case 0
  then show ?case using b by (simp add: forth_def upd_u_def memrw_def Let_def)
next
  case (Suc k)
  define o' where "o' = u_offset (u s)"
  let ?i = "unat o' mod 4096" and ?j = "unat a mod 4096" and ?b = "useg s a"
  have lt: "k < 4096 - unat a mod 4096" "k < 4096 - unat o' mod 4096" "k < 65536" "Suc k < 65536" using Suc.prems by (simp_all add: o'_def)
  note a = no_carry16 [OF lt(1)] and o = no_carry32 [OF lt(2)]
  have u: "unat (of_nat k :: u16) = k" "unat (1 + of_nat k :: u16) = Suc k" "ucast (of_nat k :: u16) = (of_nat k :: u32)" "ucast (1 + of_nat k :: u16) = (1 + of_nat k :: u32)"
    using lt(3,4) by (simp_all add: unat_of_nat unat_word_ariths word_unat_eq_iff unsigned_ucast_eq take_bit_nat_eq_self)
  define t where "t = forth (of_nat k) (memrw a o' rd (of_nat k) s)"
  have t: "u_base (u t) = Uaddr (a + of_nat k)" "u_offset (u t) = o' + of_nat k" "image1 t = image1 s"
    using b u(3) by (simp_all add: t_def forth_def upd_u_def memrw_def Let_def o'_def)
  have p: "phys t = (if rd then ldir k (spseg o') ?i ?b ?j (phys s) else ldir k ?b ?j (spseg o') ?i (phys s))"
    by (simp add: t_def forth_def upd_u_def memrw_def Let_def u)
  have g: "useg t (a + of_nat k) = ?b" by (simp add: useg_def t a)
  have "(if rd then uputc (a + of_nat k) (spget t (o' + of_nat k)) t else spput (o' + of_nat k) (ugetc t (a + of_nat k)) t) =
      t\<lparr>phys := if rd then ldir (Suc k) (spseg o') ?i ?b ?j (phys s) else ldir (Suc k) ?b ?j (spseg o') ?i (phys s)\<rparr>"
    unfolding ldir_end by (simp add: uputc_def spput_def spget_def ugetc_def g a o p mv_def)
  then have "space1 rd t = forth 1 (t\<lparr>phys := if rd then ldir (Suc k) (spseg o') ?i ?b ?j (phys s) else ldir (Suc k) ?b ?j (spseg o') ?i (phys s)\<rparr>)"
    by (simp add: space1_def t uaddr_def Let_def)
  also have "\<dots> = forth (of_nat (Suc k)) (memrw a o' rd (of_nat (Suc k)) s)"
    using b by (simp add: t_def forth_def upd_u_def memrw_def Let_def u add_ac del: ldir.simps)
  finally show ?case using Suc by (simp add: t_def o'_def)
qed

lemma krw_space_bytes: "u_base (u s) = Uaddr a \<Longrightarrow> krw_space rd s = (space1 rd ^^ unat (u_count (u s))) s"
proof (induction rd s arbitrary: a rule: krw_space.induct)
  case (1 rd s)
  show ?case
  proof (cases "u_count (u s) = 0")
    case False
    define n where "n = krw_n (u s)"
    define t where "t = forth n (memrw (uaddr (u_base (u s))) (u_offset (u s)) rd n s)"
    note k = krw_n_pos [of "u s", folded n_def, unfolded low16]
    have c: "unat (u_count (u s) - n) = unat (u_count (u s)) - unat n" using k(2) by (simp add: unat_sub word_le_nat_alt)
    have t: "u_base (u t) = Uaddr (a + n)" "u_count (u t) = u_count (u s) - n" using "1.prems" by (simp_all add: t_def forth_def upd_u_def memrw_def Let_def)
    have m: "(space1 rd ^^ unat n) s = t" using memrw_bytes [OF "1.prems", of "unat n" rd] k(3,4) "1.prems" by (simp add: t_def uaddr_def)
    have "krw_space rd s = krw_space rd t" using False krw_space.simps [of rd s] by (simp add: Let_def t_def n_def del: krw_space.simps)
    also have "\<dots> = (space1 rd ^^ unat (u_count (u t))) t" using "1.IH" [OF False refl, folded n_def, folded t_def] t(1) by blast
    also have "\<dots> = (space1 rd ^^ (unat (u_count (u s)) - unat n + unat n)) s" unfolding funpow_add o_apply m t(2) c ..
    finally show ?thesis using k(2) by simp
  qed simp
qed

lemma kmove_read:
  assumes "u_base (u s) = Uaddr a" "u_segflg (u s) = USEG" "k < 65536"
  shows "kmove True off (of_nat k) (km, s) = (km, forth (of_nat k) (s\<lparr>phys := cpo (image1 s) (\<lambda>i. km (of_nat i)) (unat off) a k (phys s)\<rparr>))"
  using assms by (simp add: kmove_def iomove_read_def iomove_step_def upd_u_def copyout_cpo forth_def uaddr_def Let_def unat_of_nat)

lemma kmove_write:
  assumes "u_base (u s) = Uaddr a" "u_segflg (u s) = USEG" "k < 65536"
  shows "kmove False off (of_nat k) (km, s) = (\<lambda>x. if unat (x - off) < k then ugetc s (a + (x - off)) else km x, forth (of_nat k) s)"
proof -
  have g: "ugetc (s\<lparr>u := y\<rparr>) b = ugetc s b" for y b by (simp add: ugetc_def useg_def)
  show ?thesis using assms
    by (auto simp: kmove_def iomove_write_def iomove_step_def upd_u_def copyin_copyb copyb_def forth_def uaddr_def Let_def unat_of_nat word_less_nat_alt g)
qed

lemma kernel1_bytes:
  assumes b: "u_base (u s) = Uaddr a" "u_segflg (u s) = USEG" and k: "k < 65536"
  shows "(kernel1 rd ^^ k) (km, s) = kmove rd (ucast (u_offset (u s))) (of_nat k) (km, s)"
  using k
proof (induction k)
  case 0
  then show ?case using b kmove_read [OF b, of 0] kmove_write [OF b, of 0] by (cases rd) (simp_all add: forth_def upd_u_def)
next
  case (Suc k)
  define o' :: u16 where "o' = ucast (u_offset (u s))"
  have k: "k < 65536" "unat (of_nat k :: u16) = k" using Suc.prems by (simp_all add: unat_of_nat)
  have c: "ucast (of_nat k :: u16) = (of_nat k :: u32)" "ucast (1 + of_nat k :: u16) = (1 + of_nat k :: u32)"
    using Suc.prems by (simp_all add: unat_of_nat unat_word_ariths word_unat_eq_iff unsigned_ucast_eq take_bit_nat_eq_self)
  have low: "ucast (x + y) = (ucast x + ucast y :: u16)" for x y :: u32 by (simp add: word_unat_eq_iff unsigned_ucast_eq take_bit_eq_mod unat_word_ariths mod_mod_cancel mod_add_eq)
  have o1: "ucast (u_offset (u s) + of_nat k) = o' + of_nat k"
  proof -
    have "ucast (of_nat k :: u32) = (of_nat k :: u16)" by (simp add: word_unat_eq_iff unsigned_ucast_eq take_bit_eq_mod unat_of_nat mod_mod_cancel)
    then show ?thesis by (simp add: o'_def low)
  qed
  define t where "t = forth (of_nat k) s"
  have t: "u_base (u t) = Uaddr (a + of_nat k)" "u_offset (u t) = u_offset (u s) + of_nat k" "image1 t = image1 s" "phys t = phys s"
    using b by (simp_all add: t_def forth_def upd_u_def c)
  have f: "forth 1 (t\<lparr>phys := X\<rparr>) = forth (of_nat (Suc k)) (s\<lparr>phys := X\<rparr>)" "forth 1 t = forth (of_nat (Suc k)) s" "forth (of_nat k) (s\<lparr>phys := X\<rparr>) = t\<lparr>phys := X\<rparr>" for X
    using b by (simp_all add: t_def forth_def upd_u_def c add_ac)
  show ?case
  proof (cases rd)
    case True
    let ?ph = "\<lambda>n. cpo (image1 s) (\<lambda>i. km (of_nat i)) (unat o') a n (phys s)"
    have p: "?ph (Suc k) = (let g = m_seg (image1 s (unat (a + of_nat k) div 4096)) in (?ph k)(g := (?ph k g)(unat (a + of_nat k) mod 4096 := km (o' + of_nat k))))"
      using cpo_add [of "image1 s" "\<lambda>i. km (of_nat i)" "unat o'" a k 1 "phys s"] by (simp add: Let_def)
    have "kernel1 True (km, t\<lparr>phys := ?ph k\<rparr>) = (km, forth 1 (t\<lparr>phys := ?ph (Suc k)\<rparr>))"
      unfolding p by (simp add: kernel1_def Let_def uaddr_def t o1 uputc_def useg_def)
    then have "kernel1 True (km, forth (of_nat k) (s\<lparr>phys := ?ph k\<rparr>)) = (km, forth (of_nat (Suc k)) (s\<lparr>phys := ?ph (Suc k)\<rparr>))"
      by (simp only: f)
    then show ?thesis using True Suc kmove_read [OF b k(1)] kmove_read [OF b Suc.prems] by (simp add: o'_def)
  next
    case False
    let ?km = "\<lambda>n x. if unat (x - o') < n then ugetc s (a + (x - o')) else km x"
    have g: "ugetc t b = ugetc s b" for b by (simp add: ugetc_def useg_def t)
    have "x = o' + of_nat k \<longleftrightarrow> unat (x - o') = k" for x
    proof
      assume "unat (x - o') = k"
      moreover have "x - o' = of_nat (unat (x - o'))" by simp
      ultimately have "x - o' = of_nat k" by simp
      then show "x = o' + of_nat k" by (simp add: algebra_simps)
    qed (use k(2) in simp)
    then have m: "(?km k)(o' + of_nat k := ugetc s (a + of_nat k)) = ?km (Suc k)" using k(2) by (auto simp: fun_eq_iff less_Suc_eq)
    have "kernel1 False (?km k, forth (of_nat k) s) = (?km (Suc k), forth (of_nat (Suc k)) s)"
      unfolding t_def [symmetric] f(2) [symmetric] using m by (simp add: kernel1_def Let_def uaddr_def o1 t g)
    then show ?thesis using False Suc kmove_write [OF b k(1)] kmove_write [OF b Suc.prems] by (simp flip: o'_def)
  qed
qed

lemma krw_kernel_bytes: "u_base (u s) = Uaddr a \<Longrightarrow> u_segflg (u s) = USEG \<Longrightarrow> krw_kernel rd km s = (kernel1 rd ^^ unat (u_count (u s))) (km, s)"
proof (induction rd km s arbitrary: a rule: krw_kernel.induct)
  case (1 rd km s)
  show ?case
  proof (cases "u_count (u s) = 0")
    case False
    define n where "n = min (u_count (u s)) 4096"
    have k: "unat n \<le> unat (u_count (u s))" "unat n < 65536" using unsigned_less [where ?'a = nat, of n] by (simp_all add: n_def min_def word_le_nat_alt del: unsigned_less)
    have c: "unat (u_count (u s) - n) = unat (u_count (u s)) - unat n" using k(1) by (simp add: unat_sub word_le_nat_alt)
    obtain km' t where m: "kmove rd (ucast (u_offset (u s))) n (km, s) = (km', t)" by fastforce
    have t: "u_base (u t) = Uaddr (a + n)" "u_count (u t) = u_count (u s) - n" "u_segflg (u t) = USEG"
      using m kmove_read [OF "1.prems" k(2)] kmove_write [OF "1.prems" k(2)] "1.prems" by (cases rd; auto simp: forth_def upd_u_def)+
    have b: "(kernel1 rd ^^ unat n) (km, s) = (km', t)" using kernel1_bytes [OF "1.prems" k(2)] m by simp
    have "krw_kernel rd km s = krw_kernel rd km' t" using False krw_kernel.simps [of rd km s] m by (simp add: Let_def n_def del: krw_kernel.simps)
    also have "\<dots> = (kernel1 rd ^^ unat (u_count (u t))) (km', t)" using "1.IH" [OF False m [unfolded n_def, symmetric] refl t(1,3)] .
    also have "\<dots> = (kernel1 rd ^^ (unat (u_count (u s)) - unat n + unat n)) (km, s)" unfolding funpow_add o_apply b t(2) c ..
    finally show ?thesis using k(1) by simp
  qed simp
qed

lemma space1_user: "u (space1 rd s) = u (forth 1 s)" "u (snd (kernel1 rd (km, s))) = u (forth 1 s)"
  by (simp_all add: space1_def kernel1_def forth_def upd_u_def uputc_def spput_def Let_def)

text \<open>
  C33. The memory device moves single bytes. The loops of \<^verbatim>\<open>kread\<close> and \<^verbatim>\<open>kwrite\<close>, which cut a request into pieces that stay within a 4096-byte segment on both sides (or, for kernel space, into pieces of 4096 bytes),
  end and do what moving \<^verbatim>\<open>u.count\<close> bytes one after the other does, byte \<^verbatim>\<open>u.offset + i\<close> of the memory to or from user address \<^verbatim>\<open>u.base + i\<close>, whatever segments the addresses lie in and where source and destination overlap.
  Afterwards \<^verbatim>\<open>u.count\<close> is 0, and \<^verbatim>\<open>u.offset\<close> and \<^verbatim>\<open>u.base\<close> have advanced by it.
\<close>

theorem krw_bytewise:
  assumes b: "u_base (u s) = Uaddr a" "u_segflg (u s) = USEG"
  defines "n \<equiv> unat (u_count (u s))"
  shows "krw dev rd (km, s) = (if tst dev 1 then (kernel1 rd ^^ n) (km, s) else (km, (space1 rd ^^ n) s)) \<and>
    u (snd (krw dev rd (km, s))) = (u s)\<lparr>u_offset := u_offset (u s) + of_nat n, u_base := Uaddr (a + of_nat n), u_count := 0\<rparr>"
proof -
  have "u ((space1 rd ^^ k) s) = (u s)\<lparr>u_offset := u_offset (u s) + of_nat k, u_base := Uaddr (a + of_nat k), u_count := u_count (u s) - of_nat k\<rparr> \<and>
      u (snd ((kernel1 rd ^^ k) (km, s))) = (u s)\<lparr>u_offset := u_offset (u s) + of_nat k, u_base := Uaddr (a + of_nat k), u_count := u_count (u s) - of_nat k\<rparr>" for k
  proof (induction k)
    case (Suc k)
    then show ?case using space1_user(2) [of rd "fst ((kernel1 rd ^^ k) (km, s))" "snd ((kernel1 rd ^^ k) (km, s))"] by (simp add: space1_user(1) forth_def upd_u_def add_ac)
  qed (use b in simp)
  from this [of n] show ?thesis
    by (simp add: krw_def krw_space_bytes [OF b(1)] krw_kernel_bytes [OF b] n_def del: krw_space.simps krw_kernel.simps)
qed

text \<open>A request whose three bytes cross a segment boundary on both sides, at different places.\<close>

definition crossing :: kst where
  "crossing = kst0\<lparr>phys := (\<lambda>g j. g + of_nat j), image1 := (\<lambda>i. \<lparr>m_seg = 32 + of_nat i, m_per = FULL\<rparr>),
     u := user0\<lparr>u_base := Uaddr 8190, u_offset := 0x14FFF, u_count := 3\<rparr>\<rparr>"

lemma crossing_step:
  "space1 True (crossing\<lparr>phys := P, u := user0\<lparr>u_base := Uaddr a, u_offset := off, u_count := n\<rparr>\<rparr>) =
   crossing\<lparr>phys := (let g = 32 + of_nat (unat a div 4096) in P(g := (P g)(unat a mod 4096 := P (spseg off) (unat off mod 4096)))),
     u := user0\<lparr>u_base := Uaddr (a + 1), u_offset := off + 1, u_count := n - 1\<rparr>\<rparr>"
  by (simp add: space1_def crossing_def uaddr_def forth_def upd_u_def uputc_def spget_def useg_def Let_def)

theorem krw_bytewise_witness:
  "krw 0 True (\<lambda>_. 0, crossing) = (\<lambda>_. 0, (space1 True ^^ 3) crossing) \<and> u_count (u (snd (krw 0 True (\<lambda>_. 0, crossing)))) = 0 \<and>
   map (ugetc (snd (krw 0 True (\<lambda>_. 0, crossing)))) [8190, 8191, 8192] = [0x13, 0x15, 0x16]"
proof -
  have c: "u_base (u crossing) = Uaddr 8190" "u_segflg (u crossing) = USEG" "u_count (u crossing) = 3" by (simp_all add: crossing_def user0_def)
  note w = krw_bytewise [OF c(1,2), of 0 True "\<lambda>_. 0"]
  have k: "krw 0 True (\<lambda>_. 0, crossing) = (\<lambda>_. 0, (space1 True ^^ 3) crossing)" using conjunct1 [OF w] by (simp add: c(3) tst_def)
  have z: "u_count (u (snd (krw 0 True (\<lambda>_. 0, crossing)))) = 0" using conjunct2 [OF w] by simp
  let ?P = "\<lambda>g j. g + of_nat j :: u8"
  have q: "(4115 :: u8) = 19" by simp
  have "crossing = crossing\<lparr>phys := ?P, u := user0\<lparr>u_base := Uaddr 8190, u_offset := 0x14FFF, u_count := 3\<rparr>\<rparr>" by (simp add: crossing_def)
  then have "(space1 True ^^ 3) crossing = space1 True (space1 True (space1 True (crossing\<lparr>phys := ?P, u := user0\<lparr>u_base := Uaddr 8190, u_offset := 0x14FFF, u_count := 3\<rparr>\<rparr>)))"
    by (simp add: numeral_3_eq_3)
  also have "\<dots> = crossing\<lparr>phys := ?P(33 := (?P 33)(4094 := 0x13, 4095 := 0x15), 34 := (?P 34)(0 := 0x16)), u := user0\<lparr>u_base := Uaddr 8193, u_offset := 0x15002, u_count := 0\<rparr>\<rparr>"
    unfolding crossing_step by (simp add: spseg_def Let_def q)
  finally have "map (ugetc ((space1 True ^^ 3) crossing)) [8190, 8191, 8192] = [0x13, 0x15, 0x16]"
    by (simp add: ugetc_def useg_def crossing_def)
  then show ?thesis using k z by simp
qed

end
