(* ===== verification/Sync.thy ===== *)
theory Sync
  imports Storage
begin

text \<open>
  \<^verbatim>\<open>bsync\<close> with drivers that only queue what they are given, as \<^verbatim>\<open>mwstrat\<close> and \<^verbatim>\<open>djstrat\<close> do. \<^verbatim>\<open>bsync\<close> uses \<^verbatim>\<open>bawrite\<close>,
  which does not wait: while its loop goes on, and after it has returned, the drivers complete the requests given to them, one at a time, in an order of
  their own. The state has the buffers the loop still has to look at, the requests with the drivers, and the kernel; a step is one round of the
  loop or one completion (\<^verbatim>\<open>iodone\<close> from the interrupt routine). The drivers carry out their requests without errors (\<open>drv_ok\<close>).
\<close>

section \<open>Requests and completions\<close>

record syn =
  todo :: "nat list"
  pending :: "nat list"
  core :: kst

text \<open>\<^verbatim>\<open>strat\<close> and \<^verbatim>\<open>bawrite\<close>: the buffer is with its driver when they return.\<close>

definition qstrat :: "nat \<Rightarrow> syn \<Rightarrow> syn" where
  "qstrat b y =
     (let s1 = upd_buf b (\<lambda>x. x\<lparr>b_flags := (b_flags x OR BBUSY) AND NOT (BDONE OR BERROR),
                               b_error := 0, b_count := 512\<rparr>) (core y);
          m = bmajor (b_dev (blist s1 b))
      in if m = 0 then y\<lparr>core := s1\<rparr>
         else if m = 1 then y\<lparr>core := set_error ENXIO s1\<rparr>
         else y\<lparr>core := s1, pending := pending y @ [b]\<rparr>)"

definition qawrite :: "nat \<Rightarrow> syn \<Rightarrow> syn" where
  "qawrite b y = qstrat b (y\<lparr>core := upd_buf b (\<lambda>x. x\<lparr>b_flags := b_flags x AND NOT (BSYNC OR BREAD)\<rparr>) (core y)\<rparr>)"

text \<open>The loop gives the delayed writes that nobody holds to their drivers; a driver completes a request: the transfer and \<^verbatim>\<open>iodone\<close>.\<close>

inductive sstep :: "syn \<Rightarrow> syn \<Rightarrow> bool" where
  look: "todo y = b # bs \<Longrightarrow> b_flags (blist (core y) b) AND (BBUSY OR BDELWRI) \<noteq> BDELWRI \<Longrightarrow> sstep y (y\<lparr>todo := bs\<rparr>)"
| give: "todo y = b # bs \<Longrightarrow> b_flags (blist (core y) b) AND (BBUSY OR BDELWRI) = BDELWRI \<Longrightarrow> sstep y (qawrite b (y\<lparr>todo := bs\<rparr>))"
| complete: "b \<in> set (pending y) \<Longrightarrow> drvstrat (bmajor (b_dev (blist (core y) b))) b (core y) = Ret () s \<Longrightarrow>
    sstep y (y\<lparr>pending := remove1 b (pending y), core := s\<rparr>)"

text \<open>The first part of \<^verbatim>\<open>bsync\<close>, up to its loop, and the state the loop starts in.\<close>

definition sync_super :: "kst \<Rightarrow> unit K" where
  "sync_super s =
     bnd (getsb (rootdev s) s) (\<lambda>b s.
     if b_data (blist s b) S_FLOCK = 0
     then bdwrite b (upd_buf b (\<lambda>x. x\<lparr>b_data := putl (b_data x) S_TIME (seconds s)\<rparr>) s)
     else brelse b s)"

definition sync_start :: "kst \<Rightarrow> syn" where
  "sync_start s = \<lparr>todo = [0..<nbuf s], pending = [], core = s\<rparr>"

lemma bsync_parts: "bsync s = bnd (sync_super s) (\<lambda>_ s. bsync_from [0..<nbuf s] s)"
  by (simp add: bsync_def sync_super_def bnd_assoc)

text \<open>What the disks are to hold: the abstract content, with the time in the super block of a root device that is not read-only.\<close>

definition synced :: "kst \<Rightarrow> u16 \<Rightarrow> u16 \<Rightarrow> bytes" where
  "synced s = (let d = rootdev s; v = view s in
     if v d 1 S_FLOCK = 0 then v(d := (v d)(1 := putl (v d 1) S_TIME (seconds s))) else v)"

lemma sync_super_spec:
  assumes "cok {} s" "held s = {}" "vdev (rootdev s)" "avail s \<noteq> {}"
  obtains s' where "sync_super s = Ret () s'" "bframe s s'" "cok {} s'" "held s' = {}" "view s' = synced s"
proof -
  let ?d = "rootdev s"
  obtain sb s1 where g: "getsb ?d s = Ret sb s1" "holding {} {sb} s s1" "view s1 = view s" "holds (blist s1 sb) ?d 1" "bdat sb s1 = view s ?d 1"
    by (rule getsb_spec [OF assms(1) _ assms(3) _ assms(4)]) (use assms(2) in \<open>auto simp: unheld_def\<close>)
  have sec: "seconds s1 = seconds s" using bframe_same(9) [OF holdingD(1) [OF g(2)]] .
  let ?y = "putl (view s ?d 1) S_TIME (seconds s)"
  obtain s2 where w: "(if b_data (blist s1 sb) S_FLOCK = 0
          then bdwrite sb (upd_buf sb (\<lambda>x. x\<lparr>b_data := putl (b_data x) S_TIME (seconds s1)\<rparr>) s1)
          else brelse sb s1) = Ret () s2" "holding {} {} s s2" "view s2 = synced s"
  proof (cases "view s ?d 1 S_FLOCK = 0")
    case True
    have e: "upd_buf sb (\<lambda>x. x\<lparr>b_data := putl (b_data x) S_TIME (seconds s1)\<rparr>) s1 = set_bdat sb ?y s1"
      using g(5) sec by (simp add: set_bdat_def upd_buf_def bdat_def)
    note hs = hold_set [OF g(2), of sb]
    have h2: "holding {sb} {sb} s (set_bdat sb ?y s1)" "holds (blist (set_bdat sb ?y s1) sb) ?d 1" using hs(1) g(4) by simp_all
    obtain s2 where w: "bdwrite sb (set_bdat sb ?y s1) = Ret () s2" "holding ({sb} - {sb}) ({sb} - {sb}) s s2"
      "view s2 = (view (set_bdat sb ?y s1))(?d := (view (set_bdat sb ?y s1) ?d)(1 := bdat sb (set_bdat sb ?y s1)))"
      by (rule hold_bdwrite [OF h2(1) _ h2(2) assms(3)]) auto
    have "view s2 = (view s)(?d := (view s ?d)(1 := ?y))" using w(3) hs(4) [OF _ g(4), of ?y ?y] g(3) by simp
    with w True g(5) show thesis by (intro that [of s2]) (simp_all add: e bdat_def synced_def Let_def)
  next
    case False
    obtain s2 where "brelse sb s1 = Ret () s2" "holding {} ({sb} - {sb}) s s2" "view s2 = view s1"
      by (rule hold_brelse [OF g(2)]) auto
    then show thesis using False g(3,5) by (intro that [of s2]) (simp_all add: bdat_def synced_def Let_def)
  qed
  have "sync_super s = Ret () s2" using g(1) w(1) by (simp add: sync_super_def)
  with that [of s2] w(3) holdingD [OF w(2)] assms(2) show thesis by simp
qed

section \<open>The invariant\<close>

text \<open>
  Relative to the state \<open>s0\<close> at the start of the loop: a buffer of the loop to come is as it was; a request with a driver is a busy buffer with its
  data; the others are neither delayed nor busy. The disks have the abstract content but for the delayed writes not yet completed.
\<close>

definition due :: "kst \<Rightarrow> syn \<Rightarrow> nat set" where
  "due s0 y = {b \<in> set (todo y) \<union> set (pending y). bdel (blist s0 b)}"

definition asked :: "buf \<Rightarrow> buf \<Rightarrow> bool" where
  "asked x y \<longleftrightarrow> b_dev y = b_dev x \<and> b_blk y = b_blk x \<and> b_data y = b_data x \<and> bbusy y \<and> bdel x \<and> \<not> berr y \<and>
     \<not> tst (b_flags y) BREAD \<and> \<not> tst (b_flags y) BSYNC"

definition sinv :: "kst \<Rightarrow> syn \<Rightarrow> bool" where
  "sinv s0 y \<longleftrightarrow> nbuf (core y) = nbuf s0 \<and> swapok (core y) \<and> drv_ok (core y) \<and> distinct (todo y @ pending y) \<and>
     set (todo y @ pending y) \<subseteq> {..<nbuf s0} \<and>
     (\<forall>b\<in>set (todo y). btm (blist s0 b) (blist (core y) b)) \<and>
     (\<forall>b\<in>set (pending y). asked (blist s0 b) (blist (core y) b)) \<and>
     (\<forall>b<nbuf s0. b \<notin> set (todo y @ pending y) \<longrightarrow> \<not> bdel (blist (core y) b) \<and> \<not> bbusy (blist (core y) b)) \<and>
     (\<forall>d k. disk (core y) d k = (if \<exists>b\<in>due s0 y. holds (blist s0 b) d k then disk s0 d k else view s0 d k))"

lemma delayed_iff:
  assumes "\<not> bbusy x"
  shows "b_flags x AND (BBUSY OR BDELWRI) = BDELWRI \<longleftrightarrow> bdel x"
proof -
  have "b_flags x AND 10 = (b_flags x AND 2) OR (b_flags x AND 8)" by (simp flip: bit.conj_disj_distrib)
  moreover have "b_flags x AND 2 = 0" using assms by (simp add: bbusy_def tst_def)
  ultimately show ?thesis using and_exp_cases [of "b_flags x" 3] by (simp add: bdel_def tst_def)
qed

lemma sinv_start:
  assumes "cok {} s" "held s = {}"
  shows "sinv s (sync_start s)"
proof -
  have ci: "cinv {} s" using assms(1) by (simp add: cok_def)
  have "disk s d k = view s d k" if "\<not> (\<exists>b<nbuf s. bdel (blist s b) \<and> holds (blist s b) d k)" for d k
  proof (cases "\<exists>b<nbuf s. vdev d \<and> holds (blist s b) d k \<and> bdone (blist s b)")
    case True
    then obtain b where b: "b < nbuf s" "vdev d" "holds (blist s b) d k" "bdone (blist s b)" by blast
    have "b_data (blist s b) = disk s d k" using cinvD(4) [OF ci b(1)] that b by (auto simp: holds_def)
    with view_hit [OF ci b] show ?thesis by simp
  next
    case False
    then show ?thesis using view_miss [of s d k] by auto
  qed
  then show ?thesis using assms(1) by (auto simp: sinv_def sync_start_def due_def cok_def atLeast0LessThan)
qed

lemma qawrite_sel:
  assumes "vdev (b_dev (blist (core y) b))"
  shows "todo (qawrite b y) = todo y" "pending (qawrite b y) = pending y @ [b]" "disk (core (qawrite b y)) = disk (core y)"
    "nbuf (core (qawrite b y)) = nbuf (core y)" "swapok (core (qawrite b y)) = swapok (core y)" "drv_ok (core (qawrite b y)) = drv_ok (core y)"
    "\<And>j. j \<noteq> b \<Longrightarrow> blist (core (qawrite b y)) j = blist (core y) j"
    "bdel (blist (core y) b) \<Longrightarrow> asked (blist (core y) b) (blist (core (qawrite b y)) b)"
proof -
  have m: "bmajor (b_dev (blist (core y) b)) \<noteq> 0" "bmajor (b_dev (blist (core y) b)) \<noteq> Suc 0" using assms by (auto simp: vdev_def)
  show "todo (qawrite b y) = todo y" "pending (qawrite b y) = pending y @ [b]" "disk (core (qawrite b y)) = disk (core y)"
    "nbuf (core (qawrite b y)) = nbuf (core y)" "swapok (core (qawrite b y)) = swapok (core y)" "drv_ok (core (qawrite b y)) = drv_ok (core y)"
    "\<And>j. j \<noteq> b \<Longrightarrow> blist (core (qawrite b y)) j = blist (core y) j"
    "bdel (blist (core y) b) \<Longrightarrow> asked (blist (core y) b) (blist (core (qawrite b y)) b)"
    using m by (simp_all add: qawrite_def qstrat_def Let_def drv_ok_def asked_def bflag_defs)
qed

text \<open>A completed write: the data is on the disk, the buffer free and no longer delayed.\<close>

lemma complete_ret:
  assumes ok: "swapok s" "drv_ok s" and b: "vdev (b_dev (blist s b))" "asked x (blist s b)"
  obtains s' where "drvstrat (bmajor (b_dev (blist s b))) b s = Ret () s'" "nbuf s' = nbuf s" "swapok s'" "drv_ok s'"
    "\<And>j. j \<noteq> b \<Longrightarrow> btm (blist s j) (blist s' j)" "\<not> bdel (blist s' b)" "\<not> bbusy (blist s' b)"
    "disk s' = (disk s)(b_dev x := (disk s (b_dev x))(b_blk x := b_data x))"
proof -
  define dk where "dk = (disk s)(b_dev x := (disk s (b_dev x))(b_blk x := b_data x))"
  define s1 where "s1 = upd_buf b (\<lambda>x. x\<lparr>b_flags := (b_flags x OR BDONE) AND NOT BDELWRI\<rparr>) (s\<lparr>disk := dk\<rparr>)"
  have a: "b_dev (blist s b) = b_dev x" "b_blk (blist s b) = b_blk x" "b_data (blist s b) = b_data x" "bbusy (blist s b)"
    "\<not> berr (blist s b)" "\<not> tst (b_flags (blist s b)) BREAD" "\<not> tst (b_flags (blist s b)) BSYNC" using b(2) by (simp_all add: asked_def)
  have s1: "swapok s1" "bbusy (blist s1 b)" "\<not> bdel (blist s1 b)" "disk s1 = dk" "nbuf s1 = nbuf s" "drv_ok s1 = drv_ok s"
    "\<And>j. j \<noteq> b \<Longrightarrow> blist s1 j = blist s j" "\<not> tst (b_flags (blist s1 b)) BERROR" "\<not> tst (b_flags (blist s1 b)) BSYNC"
    using ok(1) a(4-7) by (simp_all add: s1_def swapok_def drv_ok_def bflag_defs)
  obtain s' where r: "brelse b s1 = Ret () s'" "bframe s1 s'" "disk s' = disk s1" "\<And>j. j \<noteq> b \<Longrightarrow> btm (blist s1 j) (blist s' j)"
    "btm ((blist s1 b)\<lparr>b_flags := b_flags (blist s1 b) AND NOT (BBUSY OR BWANT)\<rparr>) (blist s' b)"
    by (rule brelse_ret [OF s1(1,2)]) blast
  have e: "(blist s b)\<lparr>b_data := b_data x, b_flags := f\<rparr> = (blist s b)\<lparr>b_flags := f\<rparr>" for f by (simp flip: a(3))
  have "drvstrat (bmajor (b_dev (blist s b))) b s = brelse b s1"
    using drv_okD(2) [OF ok(2) b(1)] a(1-3,6) s1(8,9)
    by (simp add: drvstrat_def iodone_def Let_def dk_def [symmetric]) (simp add: s1_def upd_buf_def e)
  moreover have "\<not> bdel (blist s' b)" "\<not> bbusy (blist s' b)" using s1(3) unfolding btm_fields [OF r(5)] by (simp_all add: bflag_defs)
  moreover have "swapok s'" using bframe_swapok [OF r(2)] s1(1) by simp
  moreover have "drv_ok s'" using bframe_same(2) [OF r(2)] s1(6) ok(2) by (simp add: drv_ok_def)
  ultimately show thesis using r s1 bframe_same(1) [OF r(2)] by (intro that [of s']) (simp_all add: dk_def)
qed

lemma asked_btm: "asked x y \<Longrightarrow> btm y z \<Longrightarrow> asked x z"
  using btm_fields [of y z] by (simp add: asked_def)

lemma sinv_step:
  assumes s0: "cok {} s0" "held s0 = {}" and st: "sstep y y'" and i: "sinv s0 y"
  shows "sinv s0 y'"
proof -
  have ci: "cinv {} s0" using s0(1) by (simp add: cok_def)
  have free: "\<not> bbusy (blist s0 b)" if "b < nbuf s0" for b using s0(2) that by (auto simp: held_def)
  from st show ?thesis
  proof (cases rule: sstep.cases)
    case (look b bs)
    have b: "b < nbuf s0" "btm (blist s0 b) (blist (core y) b)" using i look(2) by (simp_all add: sinv_def)
    have nb: "\<not> bbusy (blist (core y) b)" "\<not> bdel (blist (core y) b)"
      using look(3) delayed_iff free [OF b(1)] btm_fields(9) [OF b(2)] by auto
    then have "\<not> bdel (blist s0 b)" using btm_fields(8) [OF b(2)] by simp
    then have "due s0 y' = due s0 y" using look(1,2) by (auto simp: due_def)
    with i look(1,2) nb show ?thesis by (auto simp: sinv_def)
  next
    case (give b bs)
    have b: "b < nbuf s0" "btm (blist s0 b) (blist (core y) b)" using i give(2) by (simp_all add: sinv_def)
    then have bd: "bdel (blist s0 b)" "bdel (blist (core y) b)" using give(3) delayed_iff [of "blist (core y) b"] free [OF b(1)] btm_fields(8,9) [OF b(2)] by auto
    have "vdev (b_dev (blist (core (y\<lparr>todo := bs\<rparr>)) b))" using cinvD(3) [OF ci b(1) bd(1)] btm_fields(2) [OF b(2)] by simp
    note q = qawrite_sel [OF this, folded give(1), simplified]
    have "asked (blist s0 b) (blist (core y') b)" using q(8) bd btm_fields [OF b(2)] by (simp add: asked_def)
    moreover have "due s0 y' = due s0 y" using q(1,2) give(2) by (auto simp: due_def)
    moreover have "b \<notin> set bs" "b \<notin> set (pending y)" using i give(2) by (auto simp: sinv_def)
    then have "blist (core y') j = blist (core y) j" if "j \<in> set bs \<union> set (pending y)" for j using q(7) [of j] that by auto
    ultimately show ?thesis using i give(2) q(1-7) by (auto simp: sinv_def)
  next
    case (complete b s)
    have b: "b < nbuf s0" "asked (blist s0 b) (blist (core y) b)" using i complete(2) by (auto simp: sinv_def)
    then have bd: "bdel (blist s0 b)" "vdev (b_dev (blist (core y) b))" using cinvD(3) [OF ci b(1)] by (simp_all add: asked_def)
    have ok: "swapok (core y)" "drv_ok (core y)" using i by (simp_all add: sinv_def)
    obtain t where t: "drvstrat (bmajor (b_dev (blist (core y) b))) b (core y) = Ret () t" "nbuf t = nbuf (core y)" "swapok t" "drv_ok t"
      "\<And>j. j \<noteq> b \<Longrightarrow> btm (blist (core y) j) (blist t j)" "\<not> bdel (blist t b)" "\<not> bbusy (blist t b)"
      "disk t = (disk (core y))(b_dev (blist s0 b) := (disk (core y) (b_dev (blist s0 b)))(b_blk (blist s0 b) := b_data (blist s0 b)))"
      by (rule complete_ret [OF ok bd(2) b(2)]) blast
    have s: "s = t" using complete(3) t(1) by simp
    have ds: "distinct (todo y @ pending y)" using i by (simp add: sinv_def)
    have set: "set (todo y) = set (todo y')" "set (pending y') = set (pending y) - {b}" "b \<notin> set (todo y)"
      using ds complete(1,2) by auto
    have due: "due s0 y' = due s0 y - {b}" "b \<in> due s0 y" using set bd(1) complete(2) by (auto simp: due_def)
    have vd: "vdev (b_dev (blist s0 b))" using bd(2) b(2) by (simp add: asked_def)
    have dk: "disk t d k = (if \<exists>b\<in>due s0 y'. holds (blist s0 b) d k then disk s0 d k else view s0 d k)" for d k
    proof (cases "holds (blist s0 b) d k")
      case True
      have "\<not> holds (blist s0 j) d k" if "j \<in> due s0 y'" for j
        using cinvD(1) [OF ci b(1), of j d k] that due i True vd by (auto simp: due_def sinv_def holds_def)
      moreover have "view s0 d k = b_data (blist s0 b)"
        by (rule view_hit [OF ci b(1) _ True]) (use True vd cinvD(2) [OF ci b(1) bd(1)] in \<open>auto simp: holds_def\<close>)
      ultimately show ?thesis using True t(8) by (auto simp: holds_def)
    next
      case False
      then have "disk t d k = disk (core y) d k" using t(8) by (auto simp: holds_def)
      with False i due show ?thesis by (auto simp: sinv_def)
    qed
    have todo: "btm (blist s0 j) (blist t j)" if "j \<in> set (todo y)" for j
      by (rule btm_trans [OF _ t(5)]) (use i that set(3) in \<open>auto simp: sinv_def\<close>)
    have pend: "asked (blist s0 j) (blist t j)" if "j \<in> set (pending y')" for j
      by (rule asked_btm [OF _ t(5)]) (use i that set(2) in \<open>auto simp: sinv_def\<close>)
    have rest: "\<not> bdel (blist t j) \<and> \<not> bbusy (blist t j)" if "j < nbuf s0" "j \<notin> set (todo y' @ pending y')" for j
    proof (cases "j = b")
      case False
      then have "\<not> bdel (blist (core y) j) \<and> \<not> bbusy (blist (core y) j)" using i that set by (auto simp: sinv_def)
      then show ?thesis using btm_fields(8,9) [OF t(5) [OF False]] by simp
    qed (use t(6,7) in simp)
    have e: "core y' = t" "todo y' = todo y" using complete(1) s by simp_all
    have p: "pending y' = remove1 b (pending y)" "set (remove1 b (pending y)) \<subseteq> set (pending y)"
      using complete(1) set_remove1_subset [of b "pending y"] by simp_all
    have "distinct (todo y' @ pending y')" unfolding e(2) p(1) using ds p(2) by auto
    moreover have "set (todo y @ pending y) \<subseteq> {..<nbuf s0}" "nbuf t = nbuf s0" using i t(2) by (simp_all add: sinv_def)
    then have "set (todo y' @ pending y') \<subseteq> {..<nbuf s0}" "nbuf t = nbuf s0" unfolding e(2) p(1) using p(2) by auto
    ultimately have D: "distinct (todo y' @ pending y')" "set (todo y' @ pending y') \<subseteq> {..<nbuf s0}" "nbuf t = nbuf s0" by simp_all
    show ?thesis unfolding sinv_def e(1)
    proof (intro conjI ballI)
      show "\<forall>b<nbuf s0. b \<notin> set (todo y' @ pending y') \<longrightarrow> \<not> bdel (blist t b) \<and> \<not> bbusy (blist t b)" using rest by blast
      show "\<forall>d k. disk t d k = (if \<exists>b\<in>due s0 y'. holds (blist s0 b) d k then disk s0 d k else view s0 d k)" using dk by blast
    qed (use D t(3,4) todo pend e(2) in simp_all)
  qed
qed

lemma sinv_steps: "sstep\<^sup>*\<^sup>* y y' \<Longrightarrow> cok {} s0 \<Longrightarrow> held s0 = {} \<Longrightarrow> sinv s0 y \<Longrightarrow> sinv s0 y'"
  by (induction rule: rtranclp_induct) (auto intro: sinv_step)

section \<open>Progress\<close>

lemma sync_progress:
  assumes s0: "cok {} s0" and i: "sinv s0 y" and more: "todo y \<noteq> [] \<or> pending y \<noteq> []"
  shows "\<exists>y'. sstep y y'"
proof (cases "todo y")
  case (Cons b bs)
  then show ?thesis using sstep.look [OF Cons] sstep.give [OF Cons] by blast
next
  case Nil
  then obtain b where b: "b \<in> set (pending y)" using more by (cases "pending y") auto
  then have a: "asked (blist s0 b) (blist (core y) b)" "b < nbuf s0" and ok: "swapok (core y)" "drv_ok (core y)" using i by (auto simp: sinv_def)
  have "cinv {} s0" using s0 by (simp add: cok_def)
  from cinvD(3) [OF this a(2)] have "vdev (b_dev (blist (core y) b))" using a(1) by (simp add: asked_def)
  from complete_ret [OF ok this a(1)] show ?thesis using sstep.complete [OF b] by blast
qed

definition left :: "syn \<Rightarrow> nat" where
  "left y = 2 * length (todo y) + length (pending y)"

lemma sstep_less:
  assumes "sstep y y'"
  shows "left y' < left y"
  using assms
proof (cases rule: sstep.cases)
  case (complete b s)
  then show ?thesis using length_pos_if_in_set [OF complete(2)] by (simp add: left_def length_remove1)
qed (auto simp: left_def qawrite_def qstrat_def Let_def)

lemma steps_bound: "(sstep ^^ n) y y' \<Longrightarrow> n + left y' \<le> left y"
proof (induction n arbitrary: y')
  case (Suc n)
  then obtain y1 where "(sstep ^^ n) y y1" "sstep y1 y'" by auto
  with Suc.IH [of y1] sstep_less [of y1 y'] show ?case by simp
qed simp

lemma sync_finishes:
  assumes "cok {} s0" "held s0 = {}" "sinv s0 y"
  shows "\<exists>y'. sstep\<^sup>*\<^sup>* y y' \<and> todo y' = [] \<and> pending y' = []"
  using assms(3)
proof (induction "left y" arbitrary: y rule: less_induct)
  case less
  show ?case
  proof (cases "todo y \<noteq> [] \<or> pending y \<noteq> []")
    case True
    then obtain y1 where 1: "sstep y y1" using sync_progress [OF assms(1) less.prems] by blast
    from less.hyps [OF sstep_less [OF 1] sinv_step [OF assms(1,2) 1 less.prems]] show ?thesis
      using converse_rtranclp_into_rtranclp [of sstep, OF 1] by blast
  qed blast
qed

text \<open>When no interrupt comes, the loop ends with every delayed write still with its driver and nothing of it on the disk.\<close>

lemma sync_returns_early:
  assumes "cok {} s0" "held s0 = {}" "sinv s0 y"
  shows "\<exists>y'. sstep\<^sup>*\<^sup>* y y' \<and> todo y' = [] \<and> disk (core y') = disk (core y) \<and> set (pending y') = due s0 y"
  using assms(3)
proof (induction "todo y" arbitrary: y)
  case Nil
  then have "due s0 y = set (pending y)" by (auto simp: due_def sinv_def asked_def)
  with Nil show ?case by (intro exI [of _ y]) simp
next
  case (Cons b bs)
  have b: "b < nbuf s0" "btm (blist s0 b) (blist (core y) b)" using Cons.prems Cons.hyps(2) [symmetric] by (simp_all add: sinv_def)
  then have "\<not> bbusy (blist (core y) b)" using assms(2) btm_fields(9) [OF b(2)] by (auto simp: held_def)
  note dl = delayed_iff [OF this]
  show ?case
  proof (cases "bdel (blist (core y) b)")
    case True
    have "cinv {} s0" using assms(1) by (simp add: cok_def)
    from cinvD(3) [OF this b(1)] have v: "vdev (b_dev (blist (core (y\<lparr>todo := bs\<rparr>)) b))" using True btm_fields(2,8) [OF b(2)] by simp
    have st: "sstep y (qawrite b (y\<lparr>todo := bs\<rparr>))" by (rule sstep.give [OF Cons.hyps(2) [symmetric]]) (use True dl in simp)
    note q = qawrite_sel(1-3) [OF v]
    have "bs = todo (qawrite b (y\<lparr>todo := bs\<rparr>))" using q(1) by simp
    from Cons.hyps(1) [OF this sinv_step [OF assms(1,2) st Cons.prems]] obtain y' where
      "sstep\<^sup>*\<^sup>* (qawrite b (y\<lparr>todo := bs\<rparr>)) y'" "todo y' = []" "disk (core y') = disk (core y)"
      "set (pending y') = due s0 (qawrite b (y\<lparr>todo := bs\<rparr>))" using q(3) by auto
    moreover have "due s0 (qawrite b (y\<lparr>todo := bs\<rparr>)) = due s0 y" using q(1,2) Cons.hyps(2) [symmetric] by (auto simp: due_def)
    ultimately show ?thesis using converse_rtranclp_into_rtranclp [of sstep, OF st] by metis
  next
    case False
    have st: "sstep y (y\<lparr>todo := bs\<rparr>)" by (rule sstep.look [OF Cons.hyps(2) [symmetric]]) (use False dl in simp)
    from Cons.hyps(1) [OF _ sinv_step [OF assms(1,2) st Cons.prems]] obtain y' where
      "sstep\<^sup>*\<^sup>* (y\<lparr>todo := bs\<rparr>) y'" "todo y' = []" "disk (core y') = disk (core y)" "set (pending y') = due s0 (y\<lparr>todo := bs\<rparr>)" by auto
    moreover have "due s0 (y\<lparr>todo := bs\<rparr>) = due s0 y"
      using False btm_fields(8) [OF b(2)] Cons.hyps(2) [symmetric] by (auto simp: due_def)
    ultimately show ?thesis using converse_rtranclp_into_rtranclp [of sstep, OF st] by metis
  qed
qed

section \<open>Drivers that finish before they return\<close>

text \<open>The \<open>bsync\<close> of \<open>Bio\<close> is the run in which every request is completed at once.\<close>

lemma bawrite_qawrite:
  assumes "vdev (b_dev (blist (core y) b))"
  shows "bawrite b (core y) = drvstrat (bmajor (b_dev (blist (core (qawrite b y)) b))) b (core (qawrite b y))"
  using assms by (auto simp: bawrite_def strat_def qawrite_def qstrat_def vdev_def Let_def)

lemma bsync_from_steps:
  assumes "cok {} s0" "held s0 = {}" "sinv s0 y" "pending y = []"
  shows "\<exists>s'. bsync_from (todo y) (core y) = Ret () s' \<and> sstep\<^sup>*\<^sup>* y \<lparr>todo = [], pending = [], core = s'\<rparr>"
  using assms(3,4)
proof (induction "todo y" arbitrary: y)
  case Nil
  then have "\<lparr>todo = [], pending = [], core = core y\<rparr> = y" by simp
  then have "sstep\<^sup>*\<^sup>* y \<lparr>todo = [], pending = [], core = core y\<rparr>" by (metis rtranclp.rtrancl_refl)
  with Nil show ?case by (metis bsync_from.simps(1))
next
  case (Cons b bs)
  note td = Cons.hyps(2) [symmetric]
  have b: "b < nbuf s0" "btm (blist s0 b) (blist (core y) b)" using Cons.prems td by (auto simp: sinv_def)
  then have "\<not> bbusy (blist (core y) b)" using assms(2) btm_fields(9) [OF b(2)] by (auto simp: held_def)
  note dl = delayed_iff [OF this]
  show ?case
  proof (cases "bdel (blist (core y) b)")
    case True
    define y1 where "y1 = qawrite b (y\<lparr>todo := bs\<rparr>)"
    have ci: "cinv {} s0" using assms(1) by (simp add: cok_def)
    have v: "vdev (b_dev (blist (core (y\<lparr>todo := bs\<rparr>)) b))" using cinvD(3) [OF ci b(1)] True btm_fields(2,8) [OF b(2)] by simp
    have st: "sstep y y1" unfolding y1_def by (rule sstep.give [OF td]) (use True dl in simp)
    have i1: "sinv s0 y1" by (rule sinv_step [OF assms(1,2) st Cons.prems(1)])
    have q: "todo y1 = bs" "pending y1 = [b]" using qawrite_sel(1,2) [OF v] Cons.prems(2) by (simp_all add: y1_def)
    have a: "asked (blist s0 b) (blist (core y1) b)" "swapok (core y1)" "drv_ok (core y1)" using i1 q(2) by (simp_all add: sinv_def)
    have "vdev (b_dev (blist (core y1) b))" using v a(1) btm_fields(2) [OF b(2)] by (simp add: asked_def)
    from complete_ret [OF a(2,3) this a(1)] obtain t where t: "drvstrat (bmajor (b_dev (blist (core y1) b))) b (core y1) = Ret () t" by blast
    have st2: "sstep y1 (y1\<lparr>pending := [], core := t\<rparr>)" using sstep.complete [OF _ t] q(2) by simp
    have "bs = todo (y1\<lparr>pending := [], core := t\<rparr>)" using q(1) by simp
    from Cons.hyps(1) [OF this sinv_step [OF assms(1,2) st2 i1]] obtain s' where s':
      "bsync_from bs t = Ret () s'" "sstep\<^sup>*\<^sup>* (y1\<lparr>pending := [], core := t\<rparr>) \<lparr>todo = [], pending = [], core = s'\<rparr>" using q(1) by auto
    have "bawrite b (core y) = Ret () t" using bawrite_qawrite [OF v] t by (simp add: y1_def)
    then have "bsync_from (todo y) (core y) = Ret () s'" using True dl s'(1) td by simp
    moreover have "sstep\<^sup>*\<^sup>* y \<lparr>todo = [], pending = [], core = s'\<rparr>"
      by (rule converse_rtranclp_into_rtranclp [of sstep, OF st converse_rtranclp_into_rtranclp [of sstep, OF st2 s'(2)]])
    ultimately show ?thesis by blast
  next
    case False
    have st: "sstep y (y\<lparr>todo := bs\<rparr>)" by (rule sstep.look [OF td]) (use False dl in simp)
    from Cons.hyps(1) [OF _ sinv_step [OF assms(1,2) st Cons.prems(1)]] Cons.prems(2) obtain s' where
      "bsync_from bs (core y) = Ret () s'" "sstep\<^sup>*\<^sup>* (y\<lparr>todo := bs\<rparr>) \<lparr>todo = [], pending = [], core = s'\<rparr>" by auto
    moreover from this(1) have "bsync_from (todo y) (core y) = Ret () s'" using False dl td by simp
    ultimately show ?thesis using converse_rtranclp_into_rtranclp [of sstep, OF st] by blast
  qed
qed

section \<open>What bsync achieves\<close>

lemma sinv_disk:
  assumes "cok {} s0" "sinv s0 y"
  shows "disk (core y) d k = view s0 d k \<or> (\<exists>b\<in>set (todo y) \<union> set (pending y). holds (blist (core y) b) d k \<and> b_data (blist (core y) b) = view s0 d k)"
    "todo y = [] \<Longrightarrow> pending y = [] \<Longrightarrow> disk (core y) = view s0"
proof -
  have ci: "cinv {} s0" using assms(1) by (simp add: cok_def)
  have "\<exists>b\<in>set (todo y) \<union> set (pending y). holds (blist (core y) b) d k \<and> b_data (blist (core y) b) = view s0 d k"
    if b: "b \<in> due s0 y" "holds (blist s0 b) d k" for b
  proof -
    have n: "b < nbuf s0" "bdel (blist s0 b)" "b \<in> set (todo y) \<union> set (pending y)" using b(1) assms(2) by (auto simp: due_def sinv_def)
    have "vdev d" "bdone (blist s0 b)" using cinvD(2,3) [OF ci n(1,2)] b(2) by (simp_all add: holds_def)
    from view_hit [OF ci n(1) this(1) b(2) this(2)] have "view s0 d k = b_data (blist s0 b)" .
    moreover have "b_dev (blist (core y) b) = b_dev (blist s0 b) \<and> b_blk (blist (core y) b) = b_blk (blist s0 b) \<and> b_data (blist (core y) b) = b_data (blist s0 b)"
      using n(3) assms(2) btm_fields(2,3,4) [of "blist s0 b" "blist (core y) b"] by (auto simp: sinv_def asked_def)
    ultimately show ?thesis using n(3) b(2) by (auto simp: holds_def)
  qed
  then show "disk (core y) d k = view s0 d k \<or> (\<exists>b\<in>set (todo y) \<union> set (pending y). holds (blist (core y) b) d k \<and> b_data (blist (core y) b) = view s0 d k)"
    using assms(2) by (auto simp: sinv_def)
  show "disk (core y) = view s0" if "todo y = []" "pending y = []"
    using assms(2) that by (auto simp: sinv_def due_def fun_eq_iff)
qed

text \<open>
  C14. \<^verbatim>\<open>bsync\<close> with drivers that only queue. Called when nobody holds a buffer, it stamps the super block of the root device and
  gives every delayed write to its driver, without waiting: it can return with nothing of them on the disk. The drivers complete the requests during its loop or after its return, in any order; they do it
  without errors, and no other process uses the cache meanwhile. Then at every moment each block of every drive either has its abstract content on the drive already, or
  this content is in a buffer that is with a driver or that the loop still has to look at; as long as there is such a buffer something is left to happen, and after at most
  two events for each buffer nothing is left; then the drives hold exactly the abstract content from before the call, but for the time in the super block of the root device (when that is
  not read-only), and every buffer is free and nothing is delayed.
\<close>

theorem sync_reaches_disk:
  assumes "cok {} s" "held s = {}" "vdev (rootdev s)" "avail s \<noteq> {}"
  shows "\<exists>s1. sync_super s = Ret () s1 \<and> (\<exists>c. sstep\<^sup>*\<^sup>* (sync_start s1) c \<and> todo c = [] \<and> disk (core c) = disk s1) \<and>
   (\<forall>n c. (sstep ^^ n) (sync_start s1) c \<longrightarrow>
    n \<le> 2 * nbuf s \<and>
    (\<forall>d k. disk (core c) d k = synced s d k \<or>
       (\<exists>b\<in>set (todo c) \<union> set (pending c). holds (blist (core c) b) d k \<and> b_data (blist (core c) b) = synced s d k)) \<and>
    (todo c \<noteq> [] \<or> pending c \<noteq> [] \<longrightarrow> (\<exists>c'. sstep c c')) \<and>
    (todo c = [] \<and> pending c = [] \<longrightarrow>
       disk (core c) = synced s \<and> (\<forall>b<nbuf s. \<not> bdel (blist (core c) b) \<and> \<not> bbusy (blist (core c) b))))"
proof -
  obtain s1 where 1: "sync_super s = Ret () s1" "bframe s s1" "cok {} s1" "held s1 = {}" "view s1 = synced s"
    by (rule sync_super_spec [OF assms])
  have "n \<le> 2 * nbuf s" and i: "sinv s1 c" if "(sstep ^^ n) (sync_start s1) c" for n c
    using steps_bound [OF that] bframe_same(1) [OF 1(2)] sinv_steps [OF relpowp_imp_rtranclp [OF that] 1(3,4) sinv_start [OF 1(3,4)]]
    by (simp_all add: left_def sync_start_def)
  moreover have "\<not> bdel (blist (core c) b) \<and> \<not> bbusy (blist (core c) b)" if "sinv s1 c" "todo c = []" "pending c = []" "b < nbuf s" for c b
    using that bframe_same(1) [OF 1(2)] by (simp add: sinv_def)
  moreover have "\<exists>c. sstep\<^sup>*\<^sup>* (sync_start s1) c \<and> todo c = [] \<and> disk (core c) = disk s1"
    using sync_returns_early [OF 1(3,4) sinv_start [OF 1(3,4)]] by (auto simp: sync_start_def)
  ultimately show ?thesis
    using 1(1) sinv_disk [OF 1(3)] sync_progress [OF 1(3)] unfolding 1(5) by (intro exI [of _ s1] conjI allI impI) blast+
qed

text \<open>In a small system: \<^verbatim>\<open>bsync\<close> has returned in \<open>c\<close> and nothing is written yet; in \<open>c'\<close> everything is.\<close>

theorem sync_reaches_disk_witness:
  "\<exists>s1 c c'. sync_super sample_kernel = Ret () s1 \<and> sstep\<^sup>*\<^sup>* (sync_start s1) c \<and> todo c = [] \<and> disk (core c) = disk s1 \<and>
     sstep\<^sup>*\<^sup>* c c' \<and> pending c' = [] \<and> disk (core c') = synced sample_kernel"
proof -
  have ok: "cok {} sample_kernel" "held sample_kernel = {}" "vdev (rootdev sample_kernel)" "avail sample_kernel \<noteq> {}"
    using sample_cok by simp_all
  obtain s1 where 1: "sync_super sample_kernel = Ret () s1" "cok {} s1" "held s1 = {}" by (rule sync_super_spec [OF ok])
  note i = sinv_start [OF 1(2,3)]
  obtain c where c: "sstep\<^sup>*\<^sup>* (sync_start s1) c" "todo c = []" "disk (core c) = disk s1"
    using sync_returns_early [OF 1(2,3) i] by (auto simp: sync_start_def)
  obtain c' where c': "sstep\<^sup>*\<^sup>* c c'" "todo c' = []" "pending c' = []"
    using sync_finishes [OF 1(2,3) sinv_steps [OF c(1) 1(2,3) i]] by blast
  obtain n where "(sstep ^^ n) (sync_start s1) c'" using rtranclp_imp_relpowp [OF rtranclp_trans [of sstep, OF c(1) c'(1)]] by blast
  then have "disk (core c') = synced sample_kernel" using sync_reaches_disk [OF ok] 1(1) c'(2,3) by auto
  with 1(1) c c' show ?thesis by blast
qed

text \<open>With drivers that finish before they return, the drives are up to date when \<^verbatim>\<open>bsync\<close> returns.\<close>

lemma bsync_at_once:
  assumes "cok {} s" "held s = {}" "vdev (rootdev s)" "avail s \<noteq> {}"
  shows "\<exists>s'. bsync s = Ret () s' \<and> disk s' = synced s"
proof -
  obtain s1 where 1: "sync_super s = Ret () s1" "cok {} s1" "held s1 = {}" "view s1 = synced s" by (rule sync_super_spec [OF assms])
  note i = sinv_start [OF 1(2,3)]
  obtain s' where s': "bsync_from [0..<nbuf s1] s1 = Ret () s'" "sstep\<^sup>*\<^sup>* (sync_start s1) \<lparr>todo = [], pending = [], core = s'\<rparr>"
    using bsync_from_steps [OF 1(2,3) i] by (auto simp: sync_start_def)
  have "disk s' = synced s" using sinv_disk(2) [OF 1(2) sinv_steps [OF s'(2) 1(2,3) i]] 1(4) by simp
  with 1(1) s'(1) show ?thesis by (simp add: bsync_parts)
qed

end
