(* ===== verification/Timeouts.thy ===== *)
theory Timeouts
  imports Process
begin

text \<open>
  The time-outs (\<^verbatim>\<open>timein\<close> of \<^verbatim>\<open>sys/time.c\<close>): when a requested call is made, whatever the functions called request in turn. A function named by a number is called with the table as it is at that moment
  and can change it; \<open>None\<close> is a panic. \<open>tm_busy\<close> is the flag that keeps a clock interrupt during such a call from starting another pass, \<open>tm_rest\<close> is whatever else the functions work on. The calls
  made are returned with their slots.
\<close>

record 'x tms =
  tm_busy :: bool
  tm_list :: "tmout list"
  tm_rest :: 'x

type_synonym 'x callback = "nat \<Rightarrow> u16 \<Rightarrow> 'x tms \<Rightarrow> 'x tms option"

fun timein_from :: "'x callback \<Rightarrow> nat list \<Rightarrow> 'x tms \<Rightarrow> ((nat \<times> nat \<times> u16) list \<times> 'x tms) option" where
  "timein_from call [] s = Some ([], s)"
| "timein_from call (i # r) s =
     (let t = tm_list s ! i in
      case t_func t of
        None \<Rightarrow> timein_from call r s
      | Some f \<Rightarrow>
          let s1 = s\<lparr>tm_list := (tm_list s)[i := t\<lparr>t_ticks := t_ticks t - 1\<rparr>]\<rparr> in
          if t_ticks t - 1 \<noteq> 0 then timein_from call r s1
          else (case call f (t_arg t) s1 of
              None \<Rightarrow> None
            | Some s2 \<Rightarrow>
                map_option (\<lambda>(fs, s). ((i, f, t_arg t) # fs, s))
                  (timein_from call r (s2\<lparr>tm_list := (tm_list s2)[i := (tm_list s2 ! i)\<lparr>t_func := None\<rparr>]\<rparr>))))"

definition timein :: "'x callback \<Rightarrow> 'x tms \<Rightarrow> ((nat \<times> nat \<times> u16) list \<times> 'x tms) option" where
  "timein call s =
     (if tm_busy s then Some ([], s)
      else map_option (\<lambda>(fs, s). (fs, s\<lparr>tm_busy := False\<rparr>)) (timein_from call [0..<length (tm_list s)] (s\<lparr>tm_busy := True\<rparr>)))"

text \<open>The calls made in \<open>k\<close> ticks, tick by tick.\<close>

fun timeins :: "'x callback \<Rightarrow> nat \<Rightarrow> 'x tms \<Rightarrow> ((nat \<times> nat \<times> u16) list list \<times> 'x tms) option" where
  "timeins call 0 s = Some ([], s)"
| "timeins call (Suc k) s =
     (case timein call s of None \<Rightarrow> None | Some (fs, s1) \<Rightarrow> map_option (\<lambda>(r, s). (fs # r, s)) (timeins call k s1))"

definition inuse :: "'x tms \<Rightarrow> nat set" where
  "inuse s = {i. i < length (tm_list s) \<and> t_func (tm_list s ! i) \<noteq> None}"

text \<open>What the functions called may do to the table: request one call, which succeeds when a slot is free.\<close>

definition tame :: "'x callback \<Rightarrow> bool" where
  "tame call \<longleftrightarrow> (\<forall>f a s. card (inuse s) < length (tm_list s) \<longrightarrow>
     (\<exists>s'. call f a s = Some s' \<and> length (tm_list s') = length (tm_list s) \<and> tm_busy s' = tm_busy s \<and>
       (\<forall>i\<in>inuse s. tm_list s' ! i = tm_list s ! i) \<and> card (inuse s') \<le> Suc (card (inuse s))))"

definition slot_fires :: "nat \<Rightarrow> (nat \<times> nat \<times> u16) list \<Rightarrow> (nat \<times> u16) list" where
  "slot_fires i fs = map snd (filter (\<lambda>x. fst x = i) fs)"

lemma slot_fires_simps [simp]: "slot_fires i [] = []" "slot_fires i ((j, c) # fs) = (if j = i then c # slot_fires i fs else slot_fires i fs)"
  by (simp_all add: slot_fires_def)

lemma inuse_finite [simp]: "finite (inuse s)"
  by (simp add: inuse_def)

text \<open>What a pass does for slot \<open>i\<close> when it comes to it, and when it does not.\<close>

definition counted :: "nat \<Rightarrow> 'x tms \<Rightarrow> (nat \<times> nat \<times> u16) list \<Rightarrow> 'x tms \<Rightarrow> bool" where
  "counted i s fs s' \<longleftrightarrow> (\<forall>f. t_func (tm_list s ! i) = Some f \<longrightarrow>
     (if t_ticks (tm_list s ! i) = 1 then slot_fires i fs = [(f, t_arg (tm_list s ! i))]
      else slot_fires i fs = [] \<and> tm_list s' ! i = (tm_list s ! i)\<lparr>t_ticks := t_ticks (tm_list s ! i) - 1\<rparr>))"

definition skipped :: "nat \<Rightarrow> 'x tms \<Rightarrow> (nat \<times> nat \<times> u16) list \<Rightarrow> 'x tms \<Rightarrow> bool" where
  "skipped i s fs s' \<longleftrightarrow> slot_fires i fs = [] \<and> (i \<in> inuse s \<longrightarrow> tm_list s' ! i = tm_list s ! i)"

definition passes :: "nat list \<Rightarrow> 'x tms \<Rightarrow> (nat \<times> nat \<times> u16) list \<Rightarrow> 'x tms \<Rightarrow> bool" where
  "passes is s fs s' \<longleftrightarrow> length (tm_list s') = length (tm_list s) \<and> tm_busy s' = tm_busy s \<and> card (inuse s') \<le> card (inuse s) \<and>
     (\<forall>i. if i \<in> set is then counted i s fs s' else skipped i s fs s')"

lemma visit:
  assumes c: "tame call" and n: "card (inuse s) < length (tm_list s)" "i < length (tm_list s)"
  shows "\<exists>fs s'. (\<forall>r. timein_from call (i # r) s = map_option (\<lambda>(gs, s). (fs @ gs, s)) (timein_from call r s')) \<and> passes [i] s fs s'"
proof (cases "t_func (tm_list s ! i)")
  case None
  have "map_option (\<lambda>(gs, s). ([] @ gs, s)) x = x" for x :: "((nat \<times> nat \<times> u16) list \<times> 'a tms) option" by (cases x) auto
  with None show ?thesis by (intro exI [of _ "[]"] exI [of _ s]) (auto simp: passes_def counted_def skipped_def)
next
  case (Some g)
  let ?t = "tm_list s ! i"
  define s1 where "s1 = s\<lparr>tm_list := (tm_list s)[i := ?t\<lparr>t_ticks := t_ticks ?t - 1\<rparr>]\<rparr>"
  have s1: "inuse s1 = inuse s" "length (tm_list s1) = length (tm_list s)" "tm_busy s1 = tm_busy s" "tm_list s1 ! i = ?t\<lparr>t_ticks := t_ticks ?t - 1\<rparr>" "\<And>j. j \<noteq> i \<Longrightarrow> tm_list s1 ! j = tm_list s ! j"
    using n(2) by (auto simp: s1_def inuse_def nth_list_update)
  show ?thesis
  proof (cases "t_ticks ?t = 1")
    case False
    have "map_option (\<lambda>(gs, s). ([] @ gs, s)) x = x" for x :: "((nat \<times> nat \<times> u16) list \<times> 'a tms) option" by (cases x) auto
    moreover have "timein_from call (i # r) s = timein_from call r s1" for r using False Some by (simp add: Let_def flip: s1_def)
    moreover have "passes [i] s [] s1" using False Some s1 by (auto simp: passes_def counted_def skipped_def)
    ultimately show ?thesis by (intro exI [of _ "[]"] exI [of _ s1]) simp
  next
    case True
    obtain s2 where 2: "call g (t_arg ?t) s1 = Some s2" "length (tm_list s2) = length (tm_list s1)" "tm_busy s2 = tm_busy s1" "\<forall>j\<in>inuse s1. tm_list s2 ! j = tm_list s1 ! j"
      "card (inuse s2) \<le> Suc (card (inuse s1))" using c n(1) s1(1,2) unfolding tame_def by metis
    define s' where "s' = s2\<lparr>tm_list := (tm_list s2)[i := (tm_list s2 ! i)\<lparr>t_func := None\<rparr>]\<rparr>"
    have "i \<in> inuse s2" using 2(2,4) n(2) Some s1 by (auto simp: inuse_def)
    moreover have "inuse s' = inuse s2 - {i}" using n(2) 2(2) s1(2) by (auto simp: s'_def inuse_def nth_list_update)
    ultimately have "card (inuse s') \<le> card (inuse s)" using 2(5) s1(1) by simp
    moreover have "tm_list s' ! j = tm_list s ! j" if "j \<noteq> i" "j \<in> inuse s" for j using that 2(4) s1(1,5) by (simp add: s'_def)
    moreover have "timein_from call (i # r) s = map_option (\<lambda>(gs, s). ([(i, g, t_arg ?t)] @ gs, s)) (timein_from call r s')" for r
      using 2(1) Some True unfolding timein_from.simps Let_def s1_def [symmetric] by (simp add: s'_def)
    moreover have "length (tm_list s') = length (tm_list s)" "tm_busy s' = tm_busy s" using s1(2,3) 2(2,3) by (simp_all add: s'_def)
    ultimately have "passes [i] s [(i, g, t_arg ?t)] s'" "\<forall>r. timein_from call (i # r) s = map_option (\<lambda>(gs, s). ([(i, g, t_arg ?t)] @ gs, s)) (timein_from call r s')"
      using True Some by (simp_all add: passes_def counted_def skipped_def)
    then show ?thesis by blast
  qed
qed

lemma slot_fires_append [simp]: "slot_fires i (fs @ gs) = slot_fires i fs @ slot_fires i gs"
  by (simp add: slot_fires_def)

lemma passesD:
  assumes "passes is s fs s'"
  shows "length (tm_list s') = length (tm_list s)" "i \<in> set is \<Longrightarrow> counted i s fs s'" "i \<notin> set is \<Longrightarrow> slot_fires i fs = []"
    "i \<notin> set is \<Longrightarrow> i \<in> inuse s \<Longrightarrow> tm_list s' ! i = tm_list s ! i"
proof -
  have p: "if i \<in> set is then counted i s fs s' else skipped i s fs s'" using assms unfolding passes_def by blast
  show "length (tm_list s') = length (tm_list s)" using assms by (simp add: passes_def)
  show "i \<in> set is \<Longrightarrow> counted i s fs s'" "i \<notin> set is \<Longrightarrow> slot_fires i fs = []" "i \<notin> set is \<Longrightarrow> i \<in> inuse s \<Longrightarrow> tm_list s' ! i = tm_list s ! i"
    using p by (simp_all add: skipped_def)
qed

lemma passes_Cons:
  assumes "passes [k] s fs s1" "passes r s1 gs s'" "k \<notin> set r" "set (k # r) \<subseteq> {..<length (tm_list s)}"
  shows "passes (k # r) s (fs @ gs) s'"
proof -
  note p = passesD [OF assms(1)] and q = passesD [OF assms(2)]
  have same: "i \<in> inuse s1 \<longleftrightarrow> i < length (tm_list s) \<and> t_func (tm_list s1 ! i) \<noteq> None" for i using p(1) by (simp add: inuse_def)
  have "counted i s (fs @ gs) s'" if "i \<in> set (k # r)" for i
  proof (cases "i = k")
    case True
    then show ?thesis using p(2) [of k] q(3) [of k] q(4) [of k] assms(3,4) same by (auto simp: counted_def)
  next
    case False
    then have i: "i \<in> set r" "i < length (tm_list s)" using that assms(4) by auto
    have "tm_list s1 ! i = tm_list s ! i" if "t_func (tm_list s ! i) = Some f" for f using p(4) [of i] False i(2) that by (simp add: inuse_def)
    then show ?thesis using p(3) [of i] q(2) [OF i(1)] False by (auto simp: counted_def)
  qed
  moreover have "skipped i s (fs @ gs) s'" if "i \<notin> set (k # r)" for i
  proof -
    have "i \<in> inuse s \<Longrightarrow> i \<in> inuse s1" using p(4) [of i] that same by (auto simp: inuse_def)
    then show ?thesis using p(3,4) [of i] q(3,4) [of i] that by (simp add: skipped_def)
  qed
  ultimately show ?thesis using assms(1,2) unfolding passes_def by auto
qed

lemma pass:
  assumes c: "tame call" and n: "card (inuse s) < length (tm_list s)" "set is \<subseteq> {..<length (tm_list s)}" "distinct is"
  shows "\<exists>fs s'. timein_from call is s = Some (fs, s') \<and> passes is s fs s'"
  using n
proof (induction "is" arbitrary: s)
  case Nil
  then show ?case by (simp add: passes_def skipped_def)
next
  case (Cons k r)
  have k: "k < length (tm_list s)" "k \<notin> set r" "distinct r" using Cons.prems(2,3) by simp_all
  obtain fs s1 where 1: "\<forall>r. timein_from call (k # r) s = map_option (\<lambda>(gs, s). (fs @ gs, s)) (timein_from call r s1)" "passes [k] s fs s1"
    using visit [OF c Cons.prems(1) k(1)] by blast
  have "card (inuse s1) < length (tm_list s1)" "set r \<subseteq> {..<length (tm_list s1)}" using 1(2) Cons.prems(1,2) by (auto simp: passes_def)
  from Cons.IH [OF this k(3)] obtain gs s' where 2: "timein_from call r s1 = Some (gs, s')" "passes r s1 gs s'" by blast
  with 1(1) passes_Cons [OF 1(2) 2(2) k(2) Cons.prems(2)] show ?case by auto
qed

text \<open>One tick.\<close>

lemma tick:
  assumes c: "tame call" and n: "card (inuse s) < length (tm_list s)" "\<not> tm_busy s"
  shows "\<exists>fs s'. timein call s = Some (fs, s') \<and> passes [0..<length (tm_list s)] s fs s'"
proof -
  let ?s = "s\<lparr>tm_busy := True\<rparr>"
  have i: "inuse (x\<lparr>tm_busy := b\<rparr>) = inuse x" for x :: "'a tms" and b by (simp add: inuse_def)
  obtain fs s1 where 1: "timein_from call [0..<length (tm_list s)] ?s = Some (fs, s1)" "passes [0..<length (tm_list s)] ?s fs s1"
    using pass [OF c, of ?s "[0..<length (tm_list s)]"] n(1) i atLeast_upt by fastforce
  have "counted i ?s fs s1 = counted i s fs (s1\<lparr>tm_busy := False\<rparr>)" "skipped i ?s fs s1 = skipped i s fs (s1\<lparr>tm_busy := False\<rparr>)" for i
    by (simp_all add: counted_def skipped_def i)
  with 1(2) have "passes [0..<length (tm_list s)] s fs (s1\<lparr>tm_busy := False\<rparr>)" using n(2) by (auto simp: passes_def i split: if_splits)
  with 1(1) n(2) show ?thesis by (simp add: timein_def)
qed

text \<open>A slot with \<open>m + 1\<close> ticks to go fires in the last of as many ticks, and not before.\<close>

lemma ticks_fire:
  assumes c: "tame call" and n: "card (inuse s) < length (tm_list s)" "\<not> tm_busy s" and i: "i < length (tm_list s)" "t_func (tm_list s ! i) = Some f" "t_arg (tm_list s ! i) = a"
    "unat (t_ticks (tm_list s ! i)) = Suc m"
  shows "\<exists>runs s'. timeins call (Suc m) s = Some (runs, s') \<and> length runs = Suc m \<and> (\<forall>j \<le> m. slot_fires i (runs ! j) = (if j = m then [(f, a)] else []))"
  using n i
proof (induction m arbitrary: s)
  case 0
  then have "t_ticks (tm_list s ! i) = 1" by (metis One_nat_def unsigned_1 unsigned_word_eqI)
  moreover obtain fs s1 where 1: "timein call s = Some (fs, s1)" "passes [0..<length (tm_list s)] s fs s1" using tick [OF c "0.prems"(1,2)] by blast
  ultimately show ?case using passesD(2) [OF 1(2), of i] "0.prems" by (simp add: counted_def)
next
  case (Suc m)
  let ?t = "tm_list s ! i"
  obtain fs s1 where 1: "timein call s = Some (fs, s1)" "passes [0..<length (tm_list s)] s fs s1" using tick [OF c Suc.prems(1,2)] by blast
  have "t_ticks ?t \<noteq> 0" using Suc.prems(6) by auto
  then have t: "t_ticks ?t \<noteq> 1" "unat (t_ticks ?t - 1) = Suc m" using Suc.prems(6) unat_minus_one [of "t_ticks ?t"] by auto
  then have d: "slot_fires i fs = []" "tm_list s1 ! i = ?t\<lparr>t_ticks := t_ticks ?t - 1\<rparr>" using passesD(2) [OF 1(2), of i] Suc.prems(3,4) by (simp_all add: counted_def)
  have l: "card (inuse s1) < length (tm_list s1)" "\<not> tm_busy s1" "i < length (tm_list s1)" using 1(2) Suc.prems(1-3) by (auto simp: passes_def)
  from Suc.IH [OF l] d(2) t(2) Suc.prems(4,5) obtain runs s' where 2: "timeins call (Suc m) s1 = Some (runs, s')" "length runs = Suc m"
    "\<forall>j \<le> m. slot_fires i (runs ! j) = (if j = m then [(f, a)] else [])" by auto
  have "slot_fires i ((fs # runs) ! j) = (if j = Suc m then [(f, a)] else [])" if "j \<le> Suc m" for j using that d(1) 2(3) by (cases j) auto
  moreover have "timeins call (Suc (Suc m)) s = Some (fs # runs, s')" using 1(1) 2(1) by (simp del: timeins.simps(2) add: timeins.simps(2) [of call "Suc m" s])
  ultimately show ?case using 2(2) by (intro exI [of _ "fs # runs"]) simp
qed

text \<open>
  C40. A time-out fires once, neither too early nor too late. Let slot \<open>i\<close> be the one that \<^verbatim>\<open>timeout(func, arg, n)\<close> took, \<open>n\<close> below 65535, with another slot still free; \<open>is\<close> are the slots that the running
  pass of \<^verbatim>\<open>timein\<close> has still to visit, none if the request came from outside. Whatever calls are due in the meantime, and whatever calls these functions request in turn, all the ticks return, and the call of slot
  \<open>i\<close> is made in the \<open>n\<close>-th tick to come (the running pass being number 0; ticks that come while a pass is still running do nothing and are not counted) if the running pass still visits the slot, in the one after if not, and in no earlier one.
\<close>

theorem timeout_fires:
  fixes s :: "'x tms"
  assumes r: "find (\<lambda>i. t_func (ts ! i) = None) [0..<length ts] = Some i" "timeout f a n ts = Some ts1" "n \<noteq> 0xFFFF" and c: "tame call"
    and s: "length (tm_list s) = length ts" "tm_list s ! i = ts1 ! i" "card (inuse s) < length ts" and p: "set is \<subseteq> {..<length ts}" "distinct is"
  defines "m \<equiv> (if i \<in> set is then unat n else Suc (unat n))"
  shows "\<exists>fs s1 runs s2. timein_from call is s = Some (fs, s1) \<and> timeins call m (s1\<lparr>tm_busy := False\<rparr>) = Some (runs, s2) \<and> length runs = m \<and>
    (\<forall>j \<le> m. slot_fires i ((fs # runs) ! j) = (if j = m then [(f, a)] else []))"
proof -
  have i: "i < length ts" "ts1 = ts[i := \<lparr>t_func = Some f, t_arg = a, t_ticks = n + 1\<rparr>]" using r(1,2) by (simp_all add: timeout_def) (auto simp: find_Some_iff)
  then have t: "tm_list s ! i = \<lparr>t_func = Some f, t_arg = a, t_ticks = n + 1\<rparr>" using s(2) by simp
  have u: "unat (n + 1) = Suc (unat n)"
  proof -
    have "unat n \<noteq> 65535" using r(3) by (auto dest: arg_cong [of _ _ "of_nat :: nat \<Rightarrow> u16"])
    moreover have "unat n < 2 ^ LENGTH(16)" by (rule unsigned_less)
    ultimately show ?thesis by (simp add: unat_word_ariths)
  qed
  obtain fs s1 where 1: "timein_from call is s = Some (fs, s1)" "passes is s fs s1" using pass [OF c, of s "is"] s p by auto
  let ?s = "s1\<lparr>tm_busy := False\<rparr>"
  have e: "inuse ?s = inuse s1" by (simp add: inuse_def)
  have l: "card (inuse ?s) < length (tm_list ?s)" "\<not> tm_busy ?s" "i < length (tm_list ?s)" using 1(2) s i(1) by (auto simp: passes_def e)
  show ?thesis
  proof (cases "i \<in> set is \<and> n = 0")
    case True
    then have "slot_fires i fs = [(f, a)]" "m = 0" using passesD(2) [OF 1(2)] t by (auto simp: counted_def m_def)
    then show ?thesis using 1(1) by simp
  next
    case False
    then have "m \<noteq> 0" by (auto simp: m_def unat_gt_0)
    then obtain k where k: "m = Suc k" using not0_implies_Suc by blast
    have d: "slot_fires i fs = []" "t_func (tm_list ?s ! i) = Some f" "t_arg (tm_list ?s ! i) = a" "unat (t_ticks (tm_list ?s ! i)) = Suc k"
    proof -
      have "i \<in> set is \<Longrightarrow> n + 1 \<noteq> 1" using False by auto
      then have "slot_fires i fs = [] \<and> tm_list s1 ! i = (tm_list s ! i)\<lparr>t_ticks := if i \<in> set is then n else n + 1\<rparr>"
        using passesD(2-4) [OF 1(2), of i] t i(1) s(1) by (cases "i \<in> set is") (auto simp: counted_def inuse_def)
      then show "slot_fires i fs = []" "t_func (tm_list ?s ! i) = Some f" "t_arg (tm_list ?s ! i) = a" "unat (t_ticks (tm_list ?s ! i)) = Suc k"
        using t u k by (auto simp: m_def split: if_splits)
    qed
    obtain runs s2 where 2: "timeins call (Suc k) ?s = Some (runs, s2)" "length runs = Suc k" "\<forall>j \<le> k. slot_fires i (runs ! j) = (if j = k then [(f, a)] else [])"
      using ticks_fire [OF c l d(2-4)] by blast
    have "slot_fires i ((fs # runs) ! j) = (if j = Suc k then [(f, a)] else [])" if "j \<le> Suc k" for j using that d(1) 2(3) by (cases j) auto
    then show ?thesis using 1(1) 2(1,2) unfolding k by blast
  qed
qed

text \<open>Functions that request themselves again, as \<^verbatim>\<open>mwcheck\<close> and \<^verbatim>\<open>djgoose\<close> do, each with an interval of its own.\<close>

definition rearm :: "(nat \<Rightarrow> u16) \<Rightarrow> 'x callback" where
  "rearm ival f a s = map_option (\<lambda>ts. s\<lparr>tm_list := ts\<rparr>) (timeout f a (ival f) (tm_list s))"

lemma rearm_tame: "tame (rearm ival)"
proof (unfold tame_def, intro allI impI)
  fix f a and s :: "'x tms"
  assume n: "card (inuse s) < length (tm_list s)"
  obtain i where i: "find (\<lambda>i. t_func (tm_list s ! i) = None) [0..<length (tm_list s)] = Some i"
  proof (cases "find (\<lambda>i. t_func (tm_list s ! i) = None) [0..<length (tm_list s)]")
    case None
    then have "inuse s = {..<length (tm_list s)}" by (auto simp: find_None_iff inuse_def)
    with n show thesis by simp
  qed
  then have f: "i < length (tm_list s)" "i \<notin> inuse s" by (auto simp: find_Some_iff inuse_def)
  define s' where "s' = s\<lparr>tm_list := (tm_list s)[i := \<lparr>t_func = Some f, t_arg = a, t_ticks = ival f + 1\<rparr>]\<rparr>"
  have "inuse s' = insert i (inuse s)" using f by (auto simp: s'_def inuse_def nth_list_update)
  then have "card (inuse s') \<le> Suc (card (inuse s))" by (simp add: card_insert_if)
  moreover have "\<forall>j\<in>inuse s. tm_list s' ! j = tm_list s ! j" using f(2) by (metis s'_def nth_list_update_neq tms.select_convs(2) tms.surjective tms.update_convs(2))
  moreover have "rearm ival f a s = Some s'" by (simp add: rearm_def timeout_def i s'_def)
  ultimately show "\<exists>s'. rearm ival f a s = Some s' \<and> length (tm_list s') = length (tm_list s) \<and> tm_busy s' = tm_busy s \<and> (\<forall>i\<in>inuse s. tm_list s' ! i = tm_list s ! i) \<and>
      card (inuse s') \<le> Suc (card (inuse s))" by (intro exI [of _ s']) (simp add: s'_def)
qed

text \<open>A function called from slot 0 asks for another call after 3 ticks and gets slot 1, which the pass has still to visit: the call is made in the third tick after.\<close>

definition free_slot :: tmout where
  "free_slot = \<lparr>t_func = None, t_arg = 0, t_ticks = 0\<rparr>"

theorem timeout_fires_witness:
  "\<exists>fs s1 runs s2. timein_from (rearm (\<lambda>_. 3)) [1, 2] \<lparr>tm_busy = True, tm_list = [free_slot, \<lparr>t_func = Some 7, t_arg = 5, t_ticks = 4\<rparr>, free_slot], tm_rest = ()\<rparr> = Some (fs, s1) \<and>
     timeins (rearm (\<lambda>_. 3)) 3 (s1\<lparr>tm_busy := False\<rparr>) = Some (runs, s2) \<and> slot_fires 1 fs = [] \<and> slot_fires 1 (runs ! 0) = [] \<and> slot_fires 1 (runs ! 1) = [] \<and> slot_fires 1 (runs ! 2) = [(7, 5)]"
proof -
  let ?ts = "[\<lparr>t_func = Some 7, t_arg = 5, t_ticks = 0\<rparr>, free_slot, free_slot]"
  let ?ts1 = "[\<lparr>t_func = Some 7, t_arg = 5, t_ticks = 0\<rparr>, \<lparr>t_func = Some 7, t_arg = 5, t_ticks = 4\<rparr>, free_slot]"
  let ?s = "\<lparr>tm_busy = True, tm_list = [free_slot, \<lparr>t_func = Some 7, t_arg = 5, t_ticks = 4\<rparr>, free_slot], tm_rest = ()\<rparr>"
  have f: "find (\<lambda>i. t_func (?ts ! i) = None) [0..<length ?ts] = Some 1" by (simp add: upt_rec free_slot_def)
  have t: "timeout 7 5 3 ?ts = Some ?ts1" by (simp add: timeout_def upt_rec free_slot_def)
  have "inuse ?s = {1}" by (auto simp: inuse_def free_slot_def less_Suc_eq numeral_3_eq_3)
  then have u: "card (inuse ?s) < length ?ts" by simp
  have "\<exists>fs s1 runs s2. timein_from (rearm (\<lambda>_. 3)) [1, 2] ?s = Some (fs, s1) \<and> timeins (rearm (\<lambda>_. 3)) (if 1 \<in> set [1, 2 :: nat] then unat (3 :: u16) else Suc (unat (3 :: u16))) (s1\<lparr>tm_busy := False\<rparr>) = Some (runs, s2) \<and>
      length runs = (if 1 \<in> set [1, 2 :: nat] then unat (3 :: u16) else Suc (unat (3 :: u16))) \<and>
      (\<forall>j \<le> (if 1 \<in> set [1, 2 :: nat] then unat (3 :: u16) else Suc (unat (3 :: u16))). slot_fires 1 ((fs # runs) ! j) =
        (if j = (if 1 \<in> set [1, 2 :: nat] then unat (3 :: u16) else Suc (unat (3 :: u16))) then [(7, 5)] else []))"
    by (rule timeout_fires [OF f t _ rearm_tame _ _ u]) simp_all
  then obtain fs s1 runs s2 where "timein_from (rearm (\<lambda>_. 3)) [1, 2] ?s = Some (fs, s1)" "timeins (rearm (\<lambda>_. 3)) 3 (s1\<lparr>tm_busy := False\<rparr>) = Some (runs, s2)"
    and j: "\<And>j. j \<le> 3 \<Longrightarrow> slot_fires 1 ((fs # runs) ! j) = (if j = 3 then [(7, 5)] else [])" by auto
  then show ?thesis using j [of 0] j [of 1] j [of 2] j [of 3] by (intro exI [of _ fs] exI [of _ s1] exI [of _ runs] exI [of _ s2]) (simp add: numeral_2_eq_2 numeral_3_eq_3)
qed

end
