(* ===== verification/Spec2Isabelle.thy ===== *)
theory Spec2Isabelle
  imports System Lock Storage Inodes Output Space Processes Update Boot Multio Blockdev Swap Memdev Sync Timeouts
begin

text \<open>
  \<^bold>\<open>The Micronix kernel\<close>

  Micronix is a Unix of the sixth edition for the Z80 and the Morrow Decision computer. The development models
  its kernel, the C files of \<^verbatim>\<open>src/src/micronix/sys\<close> and the headers of \<^verbatim>\<open>src/src/micronix/include/sys\<close>, as
  functions on one record of kernel state. File names below are relative to \<^verbatim>\<open>sys\<close>. The compiler is Whitesmiths C: an
  \<^verbatim>\<open>int\<close> and a pointer have 16 bits, a \<^verbatim>\<open>long\<close> has 32. Numbers keep their width (\<open>u8\<close>, \<open>u16\<close>, \<open>u32\<close> are words that wrap around), and a comparison is signed where
  the operands in the source are.

  \<^bold>\<open>How a routine is modelled.\<close> A routine is a function from the state to an outcome (\<open>outcome\<close> of \<open>Prelude\<close>): it returns with
  a value and a new state, it goes to sleep on a channel, it panics, or it spins for ever. \<open>bnd\<close> composes routines, so that
  a routine ends where one it calls sleeps; the state at that point is in the outcome. What happens when the process
  runs again is outside the routine, except for the lock of an inode, which \<open>Inodes\<close> models as a step relation
  of several processes that take the same inode, with the retry after the sleep. Error codes go to the field \<open>u_error\<close> of the user structure as in the source.
  Tables are functions on indices, pointers into tables are indices, pointers that may be null are options.

  \<^bold>\<open>Components\<close>, in the order in which they build on each other.
  \<^item> \<open>Prelude\<close>: words and flags, the outcome type, little-endian byte memory (disk blocks are functions from
    offsets to bytes, and structures on disk are read and written at the offsets the headers give), table scans.
  \<^item> \<open>Kernel_State\<close>: the structures of \<^verbatim>\<open>proc.h\<close>, \<^verbatim>\<open>inode.h\<close>, \<^verbatim>\<open>fs.h\<close>, \<^verbatim>\<open>buf.h\<close>, \<^verbatim>\<open>file.h\<close>, \<^verbatim>\<open>mount.h\<close>, and the
    record \<open>kst\<close> of all tables and static variables.
  \<^item> \<open>Sleep\<close> (\<^verbatim>\<open>sleep.c\<close>), \<open>Console\<close> (\<^verbatim>\<open>subc.c\<close>, \<^verbatim>\<open>con.c\<close>), \<open>Bio\<close> (\<^verbatim>\<open>uio.c\<close>, the buffer cache), \<open>Balloc\<close> (\<^verbatim>\<open>balloc.c\<close>),
    \<open>Inode\<close> (\<^verbatim>\<open>iget.c\<close>, \<^verbatim>\<open>mlook\<close>, \<^verbatim>\<open>access.c\<close>), \<open>Ialloc\<close> (\<^verbatim>\<open>ialloc.c\<close>), \<open>Imap\<close> (\<^verbatim>\<open>imap.c\<close>), \<open>Signal\<close> (\<^verbatim>\<open>sig.c\<close> and process
    numbers), \<open>Memory\<close> (\<^verbatim>\<open>malloc.c\<close>), \<open>Fio\<close> (\<^verbatim>\<open>fio.c\<close>, \<^verbatim>\<open>cio.c\<close>), \<open>Files\<close> (\<^verbatim>\<open>open.c\<close>, \<^verbatim>\<open>name.c\<close>), \<open>Dirs\<close> (\<^verbatim>\<open>link.c\<close>,
    \<^verbatim>\<open>create.c\<close>, \<^verbatim>\<open>mount.c\<close>), \<open>Syscalls\<close> (\<^verbatim>\<open>rdwri.c\<close>, \<^verbatim>\<open>sys1.c\<close>, \<^verbatim>\<open>sys2.c\<close>), \<open>Process\<close> (\<^verbatim>\<open>fork.c\<close>, \<^verbatim>\<open>swap.c\<close>, \<^verbatim>\<open>time.c\<close>), \<open>Timeouts\<close> (\<^verbatim>\<open>timein\<close> of \<^verbatim>\<open>time.c\<close>),
    \<open>Exec\<close> (\<^verbatim>\<open>exec.c\<close>), \<open>System\<close> (\<^verbatim>\<open>system.c\<close>, \<^verbatim>\<open>reg.c\<close>, \<^verbatim>\<open>trap.c\<close>), \<open>Lock\<close> (\<^verbatim>\<open>lock.c\<close>), \<open>Queue\<close> (\<^verbatim>\<open>queue.c\<close>) and \<open>Tty\<close>
    (\<^verbatim>\<open>tty.c\<close>). The state of the terminals and of the region locks is separate from \<open>kst\<close> and passed beside it.
  \<^item> \<open>Mw\<close> (\<^verbatim>\<open>mw.c\<close>): the driver of the hard disk with its queue, its drives and the arbitration of the bus. Its state contains the kernel's, and the
    log \<open>hwlog\<close> of what it sent to the controller.
  \<^item> \<open>Dj\<close> (\<^verbatim>\<open>dj.c\<close>, \<^verbatim>\<open>dj.h\<close>): the driver of the floppy controller: the formats, the commands built in \<^verbatim>\<open>djcomm\<close>, the interrupt routine as steps between its labels, opening with the
    recognition of the format, the watchdog and the access to the memory of the controller. Its state contains that of \<open>Mw\<close>, with which it shares the bus.
  \<^item> \<open>Multio\<close> (\<^verbatim>\<open>multio.c\<close>): the serial lines, their modem lines and the printer, above \<open>Tty\<close>, with the ports as parameters.
  \<^item> \<open>Boot\<close> (\<^verbatim>\<open>main.c\<close>, \<^verbatim>\<open>cinit\<close> of \<^verbatim>\<open>cus.c\<close>): start-up to the first \<^verbatim>\<open>fork\<close>.
  \<^item> \<open>Swap\<close> (\<^verbatim>\<open>swapio\<close> of \<^verbatim>\<open>swap.c\<close>): the transfer of a process between memory and swap space, an instance of the argument \<open>sio\<close> of the routines in \<open>Process\<close>.
  \<^item> \<open>Memdev\<close> (\<^verbatim>\<open>memdev.c\<close>, \<^verbatim>\<open>memrw\<close> of \<^verbatim>\<open>mem.s\<close>): the memory and the ports as files.
  \<^item> \<open>Sync\<close> (\<^verbatim>\<open>bsync\<close>, \<^verbatim>\<open>bawrite\<close> and \<^verbatim>\<open>strat\<close> of \<^verbatim>\<open>uio.c\<close>): writing with drivers that only queue: the requests stay with the driver, and completions come between the steps of the loop and after it.

  \<^bold>\<open>What is proved.\<close>
  \<^item> \<open>Cache\<close>, \<open>Hold\<close> and \<open>Storage\<close>: the buffer cache refines an abstract disk \<open>view\<close>. Reading, evicting and releasing
    buffers do not change it, a delayed write changes one block of it. On top of it, in
    \<open>Balloc\<close>, the chain of free blocks refines a list (\<open>freel\<close>); the locale \<open>block_pool\<close> states what an allocator
    promises and is interpreted with \<^verbatim>\<open>balloc\<close> and \<^verbatim>\<open>bfree\<close>.
  \<^item> \<open>Sync\<close>: \<^verbatim>\<open>bsync\<close> gives every delayed write to its driver without waiting; however the completions are interleaved with it, no block is lost and in the end the drives hold the abstract disk.
    The \<open>bsync\<close> of \<open>Bio\<close>, where a driver finishes before it returns, is one of these runs.
  \<^item> \<open>Content\<close> and \<open>Update\<close>: the bytes of a file as found through its direct and indirect blocks (\<open>fbyte\<close>). \<^verbatim>\<open>iread\<close> moves them to the process and
    \<^verbatim>\<open>iwrite\<close> replaces them: what is written is what is read.
  \<^item> \<open>Disk\<close> and \<open>Serve\<close>: the hard disk driver. Blocks correspond to sectors one to one; the events of the driver are a step relation, along which, if the drives are ready when asked, a transfer is only ordered with
    the arm on its cylinder; with a controller that makes no errors every request, of one sector or of many, is served once.
  \<^item> \<open>Floppy\<close>, \<open>Diskette\<close>, \<open>Blocks\<close> and \<open>Blockdev\<close>: the floppy driver. Sectors correspond one to one to tracks and sector numbers; the course of the driver through its labels and interrupts is the
    relation \<open>runs\<close>; one request, then a queue of them, does to memory and diskette what the abstract machine \<open>areq\<close> does to memory and an array of blocks. Long writes from an odd block on are shown to be cut off, for memory in any bank.
  \<^item> \<open>Boot\<close>: what \<^verbatim>\<open>main\<close> leaves behind satisfies the invariants the other theorems start from; the blocks \<^verbatim>\<open>cinit\<close> makes are a pool for the queues.
  \<^item> \<open>Multio\<close>: the wait for the carrier ends with the interrupt that reports it.
  \<^item> \<open>Inodes\<close>: mutual exclusion and wake-up of the inode lock, and the round trip of an inode to its disk and back.
  \<^item> \<open>Scheduling\<close>: \<^verbatim>\<open>sched\<close> picks the highest priority and is fair among equals, \<^verbatim>\<open>wakeup\<close> wakes exactly the sleepers.
  \<^item> \<open>Lock\<close>: regions of one file never overlap.
  \<^item> \<open>Queue\<close>, \<open>Terminal\<close>, \<open>Output\<close>: the character queues refine lists (locale \<open>fifo\<close>), the line editing of
    \<^verbatim>\<open>cookin\<close> and the expansion of \<^verbatim>\<open>ttyout\<close> refine functions on texts.
  \<^item> \<open>Space\<close>: swap space and memory segments (locale \<open>allocator\<close>, interpreted for both): areas in use are disjoint.
  \<^item> \<open>Swap\<close>: a process that is swapped out comes back with the same memory and user structure, in whatever segments.
  \<^item> \<open>Memdev\<close>: the loops that cut a transfer at segment boundaries do what moving single bytes does.
  \<^item> \<open>Processes\<close>: \<^verbatim>\<open>wait\<close>, process numbers, signals to a terminal, the choices of the swap process.
  \<^item> \<open>Timeouts\<close>: a requested call is made once, in the tick it was asked for or the one after, whatever the functions called request in turn.

  \<^bold>\<open>Bounds and fuel.\<close> Loops that are not structural carry a number of rounds that is enough. \<^verbatim>\<open>bget\<close> starts over after it wrote out a
  delayed write and so takes at most one round more than there are buffers; the theorems show that it returns. The loops of
  \<^verbatim>\<open>iread\<close> and \<^verbatim>\<open>iwrite\<close> move at least one byte per round and get \<open>u_count\<close> rounds. \<^verbatim>\<open>newpid\<close> gets a full turn of its counter and is shown
  to find a number; the two routines of the hard disk driver that call each other get one round more than there are requests; \<^verbatim>\<open>sfree\<close> and \<^verbatim>\<open>salloc\<close> get more rounds than their map has entries. Running out of rounds is the outcome that spins (or the value None), and what
  returns is proved to return.

  \<^bold>\<open>Parameters.\<close> The block drivers (\<open>drv\<close>, \<open>drv_open\<close>, \<open>drv_close\<close>), the character drivers (\<open>cdrv\<close> and its companions) and the transfer of
  memory images (an argument of the routines of \<^verbatim>\<open>swap.c\<close> in \<open>Process\<close>, which \<open>Swap\<close> instantiates with \<^verbatim>\<open>swapio\<close>, leaving the strategy routine of the swap device as its argument) are parameters. A block driver completes its transfer before its strategy
  routine returns; for the routines that wait for a transfer this is no restriction, and for \<^verbatim>\<open>bsync\<close>, which does not wait, \<open>Sync\<close> lifts it (the read-ahead of \<^verbatim>\<open>iread\<close> and
  the writes of full blocks by \<^verbatim>\<open>iwrite\<close> are still taken to be finished when the routine goes on; a process that wants such a block sooner sleeps in \<^verbatim>\<open>bget\<close>). The contract of a working drive is the hypothesis \<open>drv_ok\<close>, which a memory disk satisfies (\<open>ramdrv\<close>).
  The hard disk controller is the parameter \<open>ctl\<close> of its driver, with the hypotheses \<open>drives_ready\<close> (a drive asked for its status is ready) and \<open>ctl_good\<close> (every command ends well).
  The floppy controller is the parameter \<open>djctl\<close>, with the hypothesis \<open>djctl_good\<close> (it carries out transfers of one diskette, stops behind the interrupt command and halts when started again), which \<open>obey\<close> satisfies.
  The contract of the swap device is \<open>swdrv_ok\<close> (it stores and returns 4096 bytes), that of the layout of the user structure in its segment \<open>lay_fits\<close> (the bytes determine the structure).
  The functions called by \<^verbatim>\<open>timein\<close> are the parameter \<open>call\<close>, with the hypothesis \<open>tame\<close> (each requests at most one further call, which succeeds while a slot is free); \<open>rearm\<close> satisfies it.
  \<open>junk\<close> is the word a routine reads where its caller passed too few arguments.

  \<^bold>\<open>A departure from the text.\<close> \<^verbatim>\<open>bget\<close> of \<^verbatim>\<open>uio.c\<close> declares its parameters \<^verbatim>\<open>UINT8\<close>, which would cut the numbers of block and device to their low bytes and lose the major number of every device. The model gives them the
  sixteen bits that its callers and \<^verbatim>\<open>struct buf\<close> have.

  \<^bold>\<open>Not modelled.\<close> \<^verbatim>\<open>mset.c\<close>, which does not compile and whose routine is in \<^verbatim>\<open>mio.s\<close>;
  the effect of writing to the memory device in kernel space on the tables of the kernel; the initialisation of the hardware in \<^verbatim>\<open>cus.c\<close> and in \<^verbatim>\<open>start\<close> of \<^verbatim>\<open>trap.c\<close>; the assembler
  files, of which the moves and conversions the C code calls are modelled where they are used; interrupts in the middle of a
  routine, which the kernel masks or which only wake processes. Commands, libraries, the simulator and the archives
  of the repository are other programs.
\<close>

end
